(* ===== verification/Kernel_Prelude.thy ===== *)
theory Kernel_Prelude
  imports Main "HOL-Library.Word" "HOL-Library.Monad_Syntax"
begin

text \<open>
  The prelude of the development: the machine types of \<^verbatim>\<open>include/types.h\<close>, the way a
  stopped kernel is represented, and the generic facts on options, lists and
  words that the component theories share.

  A C function that can stop the kernel (a failed \<^verbatim>\<open>assert\<close>, a \<^verbatim>\<open>PANIC\<close>, an access
  outside an array, an operation the C standard leaves undefined) returns an
  \<open>option\<close>: \<open>None\<close> is the stopped kernel, and the \<open>do\<close> notation of
  \<open>HOL-Library.Monad_Syntax\<close> sequences such calls. A C function that reports an
  error to its caller keeps its error value as an ordinary result.
\<close>

section \<open>Machine types\<close>

unbundle bit_operations_syntax

type_synonym u8 = "8 word"
type_synonym u16 = "16 word"
type_synonym u32 = "32 word"
type_synonym u64 = "64 word"

section \<open>Collections of rules\<close>

named_theorems kernel_defs \<open>definitions unfolded in the functional proofs\<close>
named_theorems option_elims \<open>rules that take a successful monadic run apart\<close>

section \<open>Stopping the kernel\<close>

definition assert_that :: "bool \<Rightarrow> unit option" where
  "assert_that b = (if b then Some () else None)"

lemma assert_that_simps [simp]:
  "assert_that True = Some ()"
  "assert_that False = None"
  by (simp_all add: assert_that_def)

lemma assert_that_eq_Some [simp]: "assert_that b = Some u \<longleftrightarrow> b"
  by (simp add: assert_that_def)

lemma assert_that_bind [simp]:
  "(assert_that b \<bind> f) = (if b then f () else None)"
  by (simp add: assert_that_def)

lemma bind_SomeE [option_elims]:
  assumes "m \<bind> f = Some r"
  obtains x where "m = Some x" and "f x = Some r"
  using assms by (cases m) auto

lemma if_NoneE [option_elims]:
  assumes "(if b then x else None) = Some r"
  obtains b and "x = Some r"
  using assms by (cases b) auto

section \<open>Array access\<close>

text \<open>An array read and an array write with the bounds the C object has.\<close>

definition arr_get :: "'a list \<Rightarrow> nat \<Rightarrow> 'a option" where
  "arr_get xs i = (if i < length xs then Some (xs ! i) else None)"

definition arr_set :: "'a list \<Rightarrow> nat \<Rightarrow> 'a \<Rightarrow> 'a list option" where
  "arr_set xs i v = (if i < length xs then Some (xs[i := v]) else None)"

lemma arr_get_in [simp]: "i < length xs \<Longrightarrow> arr_get xs i = Some (xs ! i)"
  by (simp add: arr_get_def)

lemma arr_set_in [simp]: "i < length xs \<Longrightarrow> arr_set xs i v = Some (xs[i := v])"
  by (simp add: arr_set_def)

lemma arr_get_eq_Some: "arr_get xs i = Some v \<longleftrightarrow> i < length xs \<and> xs ! i = v"
  by (auto simp: arr_get_def)

lemma arr_set_eq_Some: "arr_set xs i v = Some ys \<longleftrightarrow> i < length xs \<and> ys = xs[i := v]"
  by (auto simp: arr_set_def)

text \<open>The same read with a C \<^verbatim>\<open>int\<close> as the index, which may be negative.\<close>

definition arr_geti :: "'a list \<Rightarrow> int \<Rightarrow> 'a option" where
  "arr_geti xs i = (if 0 \<le> i \<and> i < int (length xs) then Some (xs ! nat i) else None)"

lemma arr_geti_nat [simp]: "i < length xs \<Longrightarrow> arr_geti xs (int i) = Some (xs ! i)"
  by (simp add: arr_geti_def)

section \<open>Lists\<close>

lemma distinct_remove1_last:
  "distinct (xs @ [x]) \<Longrightarrow> remove1 x (xs @ [x]) = xs"
  by (induction xs) auto

lemma remove1_last_butlast: "distinct xs \<Longrightarrow> xs \<noteq> [] \<Longrightarrow> remove1 (last xs) xs = butlast xs"
  by (metis append_butlast_last_id distinct_remove1_last)

section \<open>Words\<close>

lemma sint_of_nat_32 [simp]: "n < 2 ^ 31 \<Longrightarrow> sint (of_nat n :: 32 word) = int n"
  by (simp add: signed_of_nat signed_take_bit_int_eq_self)

lemma sint_of_nat_64 [simp]: "n < 2 ^ 63 \<Longrightarrow> sint (of_nat n :: 64 word) = int n"
  by (simp add: signed_of_nat signed_take_bit_int_eq_self)

lemma unat_of_nat_32 [simp]: "n < 2 ^ 32 \<Longrightarrow> unat (of_nat n :: 32 word) = n"
  by (simp add: unsigned_of_nat take_bit_nat_eq_self)

lemma unat_of_nat_64 [simp]: "n < 2 ^ 64 \<Longrightarrow> unat (of_nat n :: 64 word) = n"
  by (simp add: unsigned_of_nat take_bit_nat_eq_self)

lemma unat_take_bit: "unat (take_bit k x :: 'a::len word) = unat x mod 2 ^ k"
  by (metis take_bit_eq_mod unsigned_take_bit_eq unsigned_ucast_eq take_bit_length_eq)

lemma take_bit_eq_self_iff_unat:
  fixes x :: "'a::len word"
  shows "take_bit k x = x \<longleftrightarrow> unat x < 2 ^ k"
  by (metis take_bit_nat_eq_self_iff unsigned_take_bit_eq word_eq_iff_unsigned)

lemma and_not_mask_eq_0_iff:
  fixes x :: "'a::len word"
  shows "x AND NOT (mask k) = 0 \<longleftrightarrow> unat x < 2 ^ k"
proof -
  have "x AND NOT (mask k) = 0 \<longleftrightarrow> take_bit k x = x"
    by (auto simp: bit_eq_iff bit_simps)
  then show ?thesis by (simp add: take_bit_eq_self_iff_unat)
qed

lemma unat_push_bit_small:
  fixes x :: "'a::len word"
  assumes "unat x < 2 ^ k" and "k + n \<le> LENGTH('a)"
  shows "unat (push_bit n x) = unat x * 2 ^ n"
proof -
  have "unat x * 2 ^ n < 2 ^ k * 2 ^ n" using assms by simp
  also have "\<dots> \<le> 2 ^ LENGTH('a)" using assms by (simp flip: power_add)
  finally show ?thesis
    by (subst unsigned_push_bit_eq) (simp add: push_bit_eq_mult take_bit_nat_eq_self)
qed

lemma unat_and_not_mask: "unat (x AND NOT (mask k) :: 'a::len word) = unat x div 2 ^ k * 2 ^ k"
proof -
  have "x AND NOT (mask k) = x - take_bit k x"
  proof -
    have "x - take_bit k x = x AND NOT (take_bit k x)"
      by (rule disjunctive_diff) (simp add: bit_simps)
    also have "\<dots> = x AND NOT (mask k)"
      by (rule bit_word_eqI) (auto simp: bit_simps)
    finally show ?thesis by simp
  qed
  moreover have "unat (take_bit k x) \<le> unat x" by (simp add: unat_take_bit)
  ultimately have "unat (x AND NOT (mask k)) = unat x - unat x mod 2 ^ k"
    by (simp add: unat_take_bit unat_sub word_le_nat_alt)
  then show ?thesis by (simp add: minus_mod_eq_div_mult)
qed

lemma unat_diff_64: "b \<le> a \<Longrightarrow> unat (a - b :: u64) = unat a - unat b"
  by (simp add: unat_sub)

lemma unat_add_64: "unat a + unat b < 2 ^ 64 \<Longrightarrow> unat (a + b :: u64) = unat a + unat b"
  by (simp add: unat_word_ariths)

lemma unat_less_2p: "unat (x :: 'a::len word) < 2 ^ LENGTH('a)"
  by (rule unsigned_less)

lemma unat_ucast_64_32 [simp]: "unat (ucast (x :: u32) :: u64) = unat x"
  by (simp add: unsigned_ucast_eq take_bit_nat_eq_self order_less_trans [OF unsigned_less])

lemma sint_nonneg_eq: "0 \<le> sint (x :: 64 word) \<Longrightarrow> sint x = int (unat x)"
proof -
  assume nn: "0 \<le> sint x"
  have b: "uint x < 2 ^ 64" by (rule order_less_le_trans [OF unsigned_less]) simp
  then have "sint x = uint x - 2 ^ 64 * of_bool (bit (uint x) 63)"
    by (simp add: sint_uint signed_take_bit_eq_take_bit_minus take_bit_int_eq_self)
  then show ?thesis using nn b by (cases "bit (uint x) 63") simp_all
qed

lemma unat_2p_32 [simp]: "k < 32 \<Longrightarrow> unat (2 ^ k :: u32) = 2 ^ k"
  using unat_of_nat_32 [OF power_strict_increasing [of k 32 "2 :: nat"]] by simp

section \<open>Strings as bytes\<close>

definition bytes_of_string :: "string \<Rightarrow> u8 list" where
  "bytes_of_string s = map of_char s"

lemma unat_of_char [simp]: "unat (of_char c :: u8) = of_char c"
proof -
  have "unat (of_nat (of_char c) :: u8) = of_char c mod 256" by (simp add: unat_of_nat)
  then show ?thesis by (simp add: of_nat_of_char)
qed

lemma of_char_eq_0 [simp]: "(of_char c :: u8) = 0 \<longleftrightarrow> c = CHR 0x00"
proof -
  have "(of_char c :: u8) = 0 \<longleftrightarrow> unat (of_char c :: u8) = 0" by (simp only: unat_eq_0)
  also have "\<dots> \<longleftrightarrow> of_char c = (of_char (CHR 0x00) :: nat)" by simp
  finally show ?thesis by (simp only: of_char_eq_iff)
qed

end
