(* ===== verification/Bit_Search.thy ===== *)
theory Bit_Search
  imports Kernel_Prelude
begin

text \<open>
  The bit searches of \<^verbatim>\<open>include/ffs.h\<close>, \<^verbatim>\<open>include/fls.h\<close>, \<^verbatim>\<open>include/log2.h\<close> and
  \<^verbatim>\<open>mm/buddy-common.h\<close>, and the alignment helpers of \<^verbatim>\<open>mm/buddy-common.h\<close>. Each
  binary search is translated step by step; the theorems relate its result to
  the position of the highest and of the lowest set bit.
\<close>

section \<open>Definitions\<close>

text \<open>
  One \<open>if\<close> of the binary search: the search narrows by \<open>k\<close> bits when none of the bits
  of the mask \<open>m\<close> is set. \<^verbatim>\<open>ffs\<close> takes a signed \<^verbatim>\<open>int\<close>, so its shift is arithmetic.
\<close>

definition ffs_step :: "32 word \<Rightarrow> nat \<Rightarrow> 32 word \<times> int \<Rightarrow> 32 word \<times> int" where
  "ffs_step m k = (\<lambda>(x, r). if x AND m = 0 then (signed_drop_bit k x, r + int k) else (x, r))"

definition ffs :: "32 word \<Rightarrow> int" where
  "ffs x =
     (if x = 0 then 0
      else
        let s = ffs_step 0xffff 16 (x, 1);
            s = ffs_step 0xff 8 s;
            s = ffs_step 0xf 4 s;
            s = ffs_step 3 2 s;
            s = ffs_step 1 1 s
        in snd s)"

definition fls_step :: "32 word \<Rightarrow> nat \<Rightarrow> 32 word \<times> int \<Rightarrow> 32 word \<times> int" where
  "fls_step m k = (\<lambda>(x, r). if x AND m = 0 then (push_bit k x, r - int k) else (x, r))"

definition fls :: "32 word \<Rightarrow> int" where
  "fls x =
     (if x = 0 then 0
      else
        let s = fls_step 0xffff0000 16 (x, 32);
            s = fls_step 0xff000000 8 s;
            s = fls_step 0xf0000000 4 s;
            s = fls_step 0xc0000000 2 s;
            s = fls_step 0x80000000 1 s
        in snd s)"

definition fls64 :: "64 word \<Rightarrow> int" where
  "fls64 x =
     (let h = ucast (drop_bit 32 x) :: 32 word
      in if h \<noteq> 0 then fls h + 32 else fls (ucast x))"

definition is_power_of_2 :: "64 word \<Rightarrow> bool" where
  "is_power_of_2 n \<longleftrightarrow> n \<noteq> 0 \<and> n AND (n - 1) = 0"

text \<open>A shift by the width or more is undefined in C: the result is \<open>None\<close> there.\<close>

definition shl64 :: "64 word \<Rightarrow> int \<Rightarrow> 64 word option" where
  "shl64 x k = (if 0 \<le> k \<and> k < 64 then Some (push_bit (nat k) x) else None)"

definition roundup_pow_of_two :: "64 word \<Rightarrow> 64 word option" where
  "roundup_pow_of_two n = shl64 1 (fls64 (n - 1))"

definition rounddown_pow_of_two :: "64 word \<Rightarrow> 64 word option" where
  "rounddown_pow_of_two n = shl64 1 (fls64 n - 1)"

definition buddy_ffs :: "32 word \<Rightarrow> int" where
  "buddy_ffs w = ffs w - 1"

definition buddy_fls :: "32 word \<Rightarrow> int" where
  "buddy_fls w = fls w - 1"

definition buddy_fls_sizet :: "64 word \<Rightarrow> int" where
  "buddy_fls_sizet sz =
     (let high = ucast (drop_bit 32 sz) :: 32 word
      in if high \<noteq> 0 then 32 + buddy_fls high
         else buddy_fls (ucast sz AND 0xffffffff))"

definition buddy_ffs_sizet :: "64 word \<Rightarrow> int" where
  "buddy_ffs_sizet sz =
     (let low = ucast sz :: 32 word
      in if low \<noteq> 0 then buddy_ffs low
         else 32 + buddy_ffs (ucast (drop_bit 32 sz)))"

definition align_up :: "64 word \<Rightarrow> 64 word \<Rightarrow> 64 word option" where
  "align_up x align = do {
     assert_that (align AND (align - 1) = 0);
     Some ((x + (align - 1)) AND NOT (align - 1))
   }"

definition align_down :: "64 word \<Rightarrow> 64 word \<Rightarrow> 64 word option" where
  "align_down x align = do {
     assert_that (align AND (align - 1) = 0);
     Some (x - (x AND (align - 1)))
   }"

definition align_ptr :: "64 word \<Rightarrow> 64 word \<Rightarrow> 64 word option" where
  "align_ptr ptr align = do {
     assert_that (ptr \<noteq> 0 \<and> align \<noteq> 0);
     assert_that (align AND (align - 1) = 0);
     Some ((ptr + (align - 1)) AND NOT (align - 1))
   }"

section \<open>The highest set bit\<close>

lemma high_masks: "(0xffff0000 :: 32 word) = NOT (mask (32 - 16))" "(0xff000000 :: 32 word) = NOT (mask (32 - 8))"
   "(0xf0000000 :: 32 word) = NOT (mask (32 - 4))" "(0xc0000000 :: 32 word) = NOT (mask (32 - 2))"
   "(0x80000000 :: 32 word) = NOT (mask (32 - 1))"
  by (simp_all add: mask_eq_exp_minus_1)

text \<open>After the step for \<open>k\<close>, the top \<open>k\<close> bits hold a set bit and \<open>x\<close> is the argument shifted by \<open>32 - r\<close>.\<close>

definition fls_inv :: "nat \<Rightarrow> nat \<Rightarrow> 32 word \<times> int \<Rightarrow> bool" where
  "fls_inv n k = (\<lambda>(x, r). int k \<le> r \<and> r \<le> 32 \<and> unat x = n * 2 ^ nat (32 - r) \<and> 2 ^ (32 - k) \<le> unat x)"

lemma fls_inv_step:
  assumes inv: "fls_inv n (2 * k) (x, r)" and k: "0 < k" "k \<le> 16"
  shows "fls_inv n k (fls_step (NOT (mask (32 - k))) k (x, r))"
proof (cases "unat x < 2 ^ (32 - k)")
  case True
  then have "unat (push_bit k x) = unat x * 2 ^ k"
    using k by (intro unat_push_bit_small[of _ "32 - k"]) auto
  moreover have "nat (32 - (r - int k)) = nat (32 - r) + k"
    using inv by (auto simp: fls_inv_def)
  moreover have "(2::nat) ^ (32 - k) = 2 ^ (32 - 2 * k) * 2 ^ k"
    using k by (simp flip: power_add)
  ultimately show ?thesis
    using True inv by (simp add: fls_inv_def fls_step_def and_not_mask_eq_0_iff power_add)
next
  case False
  then show ?thesis using inv by (simp add: fls_inv_def fls_step_def and_not_mask_eq_0_iff)
qed

lemma fls_inv_steps:
  assumes "fls_inv n j s" "j = 2 * k" "0 < k" "k \<le> 16" "m = NOT (mask (32 - k))"
  shows "fls_inv n k (fls_step m k s)"
  using assms by (cases s) (simp add: fls_inv_step)

lemma fls_inv_fls:
  assumes "x \<noteq> 0"
  obtains y where "fls_inv (unat x) 1 (y, fls x)"
proof -
  define s16 s8 s4 s2 s1 where s_defs: "s16 = fls_step 0xffff0000 16 (x, 32)"
    "s8 = fls_step 0xff000000 8 s16" "s4 = fls_step 0xf0000000 4 s8"
    "s2 = fls_step 0xc0000000 2 s4" "s1 = fls_step 0x80000000 1 s2"
  have i32: "fls_inv (unat x) 32 (x, 32)"
    using assms by (simp add: fls_inv_def unat_gt_0 Suc_le_eq)
  have i16: "fls_inv (unat x) 16 s16"
    unfolding s_defs by (rule fls_inv_steps[OF i32]) (simp_all add: high_masks)
  have i8: "fls_inv (unat x) 8 s8"
    unfolding s_defs(2) by (rule fls_inv_steps[OF i16]) (simp_all add: high_masks)
  have i4: "fls_inv (unat x) 4 s4"
    unfolding s_defs(3) by (rule fls_inv_steps[OF i8]) (simp_all add: high_masks)
  have i2: "fls_inv (unat x) 2 s2"
    unfolding s_defs(4) by (rule fls_inv_steps[OF i4]) (simp_all add: high_masks)
  have "fls_inv (unat x) 1 s1"
    unfolding s_defs(5) by (rule fls_inv_steps[OF i2]) (simp_all add: high_masks)
  moreover have "snd s1 = fls x"
    using assms by (simp add: fls_def s_defs)
  ultimately show ?thesis using that by (metis prod.collapse)
qed

text \<open>The result of \<^const>\<open>fls\<close> is one more than the position of the highest set bit.\<close>

lemma fls_bounds:
  assumes "x \<noteq> 0"
  shows "1 \<le> fls x" and "fls x \<le> 32" and "2 ^ nat (fls x - 1) \<le> unat x" and "unat x < 2 ^ nat (fls x)"
proof -
  obtain y where inv: "fls_inv (unat x) 1 (y, fls x)" using fls_inv_fls assms by blast
  then show r: "1 \<le> fls x" "fls x \<le> 32" by (auto simp: fls_inv_def)
  define k where "k = nat (fls x - 1)"
  with r have r_eq: "fls x = 1 + int k" and k: "k < 32" by auto
  have y: "unat y = unat x * 2 ^ (31 - k)" "2 ^ 31 \<le> unat y" 
    using inv k by (auto simp: fls_inv_def r_eq nat_diff_distrib')
  have "(2::nat) ^ k * 2 ^ (31 - k) = 2 ^ 31" using k by (simp flip: power_add)
  then have "2 ^ k * 2 ^ (31 - k) \<le> unat x * 2 ^ (31 - k)" using y by simp
  then show "2 ^ nat (fls x - 1) \<le> unat x" by (simp add: k_def)
  have "unat x * 2 ^ (31 - k) < 2 ^ 32" using y unsigned_less[of y, where ?'a = nat] by simp
  also have "(2::nat) ^ 32 = 2 ^ (k + 1) * 2 ^ (31 - k)" using k by (simp flip: power_add)
  finally show "unat x < 2 ^ nat (fls x)" using r_eq by (simp add: nat_add_distrib)
qed


section \<open>The lowest set bit\<close>

text \<open>
  Before the step for \<open>k\<close>: the bits of the argument \<open>w\<close> below position \<open>r - 1\<close> are clear,
  \<open>x\<close> is \<open>w\<close> shifted down by \<open>r - 1\<close>, and one of its low \<open>2 * k\<close> bits is set.
\<close>

definition ffs_inv :: "32 word \<Rightarrow> nat \<Rightarrow> 32 word \<times> int \<Rightarrow> bool" where
  "ffs_inv w k = (\<lambda>(x, r). 1 \<le> r \<and> nat (r - 1) + k \<le> 32 \<and> (\<forall>j < nat (r - 1). \<not> bit w j) \<and>
     (\<forall>j. j + nat (r - 1) < 32 \<longrightarrow> bit x j = bit w (j + nat (r - 1))) \<and> (\<exists>j < k. bit x j))"

lemma and_mask_eq_0_iff_bits: "(x :: 32 word) AND mask k = 0 \<longleftrightarrow> (\<forall>j < k. \<not> bit x j)"
  using bit_imp_le_length[of x] by (auto simp: bit_eq_iff bit_simps)

lemma bit_signed_drop_bit_32: "j + k < 32 \<Longrightarrow> bit (signed_drop_bit k x :: 32 word) j = bit x (j + k)"
  by (auto simp: bit_signed_drop_bit_iff add.commute dest: le_antisym)

lemma ffs_inv_step:
  assumes inv: "ffs_inv w (2 * k) (x, r)" and k: "0 < k" "k \<le> 16"
  shows "ffs_inv w k (ffs_step (mask k) k (x, r))"
proof (cases "\<forall>j < k. \<not> bit x j")
  case True
  from inv obtain i where i: "i < 2 * k" "bit x i" by (auto simp: ffs_inv_def)
  with True have "k \<le> i" by (meson not_le)
  from inv have r: "1 \<le> r" "nat (r - 1) + 2 * k \<le> 32" and low: "\<forall>j < nat (r - 1). \<not> bit w j"
    and x: "\<And>j. j + nat (r - 1) < 32 \<Longrightarrow> bit x j = bit w (j + nat (r - 1))"
    by (auto simp: ffs_inv_def)
  have r': "nat (r + int k - 1) = nat (r - 1) + k" using r by linarith
  have "\<not> bit w j" if "j < nat (r - 1) + k" for j
  proof (cases "j < nat (r - 1)")
    case False
    then have "bit w j = bit x (j - nat (r - 1))" using x[of "j - nat (r - 1)"] that r by simp
    then show ?thesis using True that False by simp
  qed (use low in simp)
  moreover have "bit (signed_drop_bit k x) j = bit w (j + (nat (r - 1) + k))"
    if "j + (nat (r - 1) + k) < 32" for j
    using that x[of "j + k"] by (simp add: bit_signed_drop_bit_32 ac_simps)
  moreover have "bit (signed_drop_bit k x) (i - k)" "i - k < k"
    using i \<open>k \<le> i\<close> k by (simp_all add: bit_signed_drop_bit_32)
  ultimately show ?thesis
    using True r by (auto simp: ffs_inv_def ffs_step_def and_mask_eq_0_iff_bits r')
next
  case False
  then show ?thesis using inv by (auto simp: ffs_inv_def ffs_step_def and_mask_eq_0_iff_bits)
qed

lemma ffs_inv_steps:
  assumes "ffs_inv w j s" "j = 2 * k" "0 < k" "k \<le> 16" "m = mask k"
  shows "ffs_inv w k (ffs_step m k s)"
  using assms by (cases s) (simp add: ffs_inv_step)

lemma low_masks: "(0xffff :: 32 word) = mask 16" "(0xff :: 32 word) = mask 8"
   "(0xf :: 32 word) = mask 4" "(3 :: 32 word) = mask 2" "(1 :: 32 word) = mask 1"
  by (simp_all add: mask_eq_exp_minus_1)

lemma ffs_inv_ffs:
  assumes "w \<noteq> 0"
  obtains y where "ffs_inv w 1 (y, ffs w)"
proof -
  define s16 s8 s4 s2 s1 where s_defs: "s16 = ffs_step 0xffff 16 (w, 1)"
    "s8 = ffs_step 0xff 8 s16" "s4 = ffs_step 0xf 4 s8" "s2 = ffs_step 3 2 s4" "s1 = ffs_step 1 1 s2"
  have "\<exists>j < 32. bit w j"
    using assms by (auto simp: bit_eq_iff dest: bit_imp_le_length)
  then have i32: "ffs_inv w 32 (w, 1)" by (simp add: ffs_inv_def)
  have i16: "ffs_inv w 16 s16"
    unfolding s_defs(1) by (rule ffs_inv_steps[OF i32]) (simp_all add: low_masks(1))
  have i8: "ffs_inv w 8 s8"
    unfolding s_defs(2) by (rule ffs_inv_steps[OF i16]) (simp_all add: low_masks(2))
  have i4: "ffs_inv w 4 s4"
    unfolding s_defs(3) by (rule ffs_inv_steps[OF i8]) (simp_all add: low_masks(3))
  have i2: "ffs_inv w 2 s2"
    unfolding s_defs(4) by (rule ffs_inv_steps[OF i4]) (simp_all add: low_masks(4))
  have "ffs_inv w 1 s1"
    unfolding s_defs(5) by (rule ffs_inv_steps[OF i2]) (simp_all add: mask_eq_exp_minus_1)
  moreover have "snd s1 = ffs w"
    using assms by (simp add: ffs_def s_defs)
  ultimately show ?thesis using that by (metis prod.collapse)
qed

lemma ffs_lowest:
  assumes "w \<noteq> 0"
  shows "1 \<le> ffs w" and "ffs w \<le> 32" and "bit w (nat (ffs w - 1))"
    and "j < nat (ffs w - 1) \<Longrightarrow> \<not> bit w j"
proof -
  obtain y where inv: "ffs_inv w 1 (y, ffs w)" using ffs_inv_ffs assms by blast
  then show "1 \<le> ffs w" "ffs w \<le> 32" "bit w (nat (ffs w - 1))" 
    "j < nat (ffs w - 1) \<Longrightarrow> \<not> bit w j"
    by (auto simp: ffs_inv_def)
qed

section \<open>The searches on 64 bits\<close>

lemma unat_drop_bit: "unat (drop_bit k x :: 'a::len word) = unat x div 2 ^ k"
  by (metis unat_drop_bit_eq drop_bit_eq_div)

lemma high_half:
  fixes x :: "64 word"
  shows "unat (ucast (drop_bit 32 x) :: 32 word) = unat x div 2 ^ 32"
proof -
  have "unat x div 2 ^ 32 < 2 ^ 32" using unsigned_less[of x, where ?'a = nat] by (simp add: less_mult_imp_div_less)
  then show ?thesis by (simp add: unsigned_ucast_eq unat_drop_bit take_bit_nat_eq_self unat_take_bit take_bit_eq_mod)
qed

lemma low_half:
  fixes x :: "64 word"
  shows "unat (ucast x :: 32 word) = unat x mod 2 ^ 32"
  by (simp add: unsigned_ucast_eq take_bit_eq_mod)

lemma fls64_bounds:
  assumes "x \<noteq> 0"
  shows "1 \<le> fls64 x" and "fls64 x \<le> 64" and "2 ^ nat (fls64 x - 1) \<le> unat x" and "unat x < 2 ^ nat (fls64 x)"
proof -
  let ?h = "ucast (drop_bit 32 x) :: 32 word"
  have "1 \<le> fls64 x \<and> fls64 x \<le> 64 \<and> 2 ^ nat (fls64 x - 1) \<le> unat x \<and> unat x < 2 ^ nat (fls64 x)"
  proof (cases "?h = 0")
    case True
    then have "unat x < 2 ^ 32" using high_half[of x] by (simp add: div_eq_0_iff)
    then have eq: "unat (ucast x :: 32 word) = unat x" by (simp add: low_half)
    with assms have "(ucast x :: 32 word) \<noteq> 0" by (metis unat_0_iff)
    from fls_bounds[OF this] eq True show ?thesis by (simp add: fls64_def)
  next
    case False
    note b = fls_bounds[OF this]
    have "2 ^ nat (fls ?h - 1) \<le> unat x div 2 ^ 32" "unat x div 2 ^ 32 < 2 ^ nat (fls ?h)"
      using b by (simp_all only: high_half)
    then have "2 ^ nat (fls ?h - 1) * 2 ^ 32 \<le> unat x" "unat x < 2 ^ nat (fls ?h) * 2 ^ 32"
      by (simp_all add: less_eq_div_iff_mult_less_eq div_less_iff_less_mult)
    moreover have "nat (fls ?h + 32 - 1) = nat (fls ?h - 1) + 32" "nat (fls ?h + 32) = nat (fls ?h) + 32"
      using b by linarith+
    ultimately show ?thesis using b False by (simp add: fls64_def power_add)
  qed
  then show "1 \<le> fls64 x" and "fls64 x \<le> 64" and "2 ^ nat (fls64 x - 1) \<le> unat x" and "unat x < 2 ^ nat (fls64 x)"
    by auto
qed

text \<open>\<^const>\<open>buddy_fls_sizet\<close> is the same search, one less.\<close>

lemma buddy_fls_sizet_eq: "buddy_fls_sizet x = fls64 x - 1"
proof -
  have "(0xffffffff :: 32 word) = - 1" by simp
  then have "(w :: 32 word) AND 0xffffffff = w" for w by (simp only: and.right_neutral)
  then show ?thesis
    by (simp add: buddy_fls_sizet_def fls64_def buddy_fls_def Let_def)
qed

lemma buddy_fls_sizet_nat:
  assumes "x \<noteq> 0"
  obtains k where "buddy_fls_sizet x = int k" and "k < 64" and "2 ^ k \<le> unat x" and "unat x < 2 ^ Suc k"
proof
  let ?k = "nat (fls64 x - 1)"
  note b = fls64_bounds[OF assms]
  show "buddy_fls_sizet x = int ?k" "?k < 64" "2 ^ ?k \<le> unat x"
    using b by (auto simp: buddy_fls_sizet_eq)
  have "Suc ?k = nat (fls64 x)" using b by linarith
  then show "unat x < 2 ^ Suc ?k" using b by simp
qed

lemma power_of_two_unique:
  fixes n :: nat
  assumes "2 ^ j \<le> n" "n < 2 ^ Suc j" "2 ^ k \<le> n" "n < 2 ^ Suc k"
  shows "j = k"
proof -
  have "(2::nat) ^ j < 2 ^ Suc k" "(2::nat) ^ k < 2 ^ Suc j" using assms by linarith+
  then have "j < Suc k" "k < Suc j" by (simp_all only: power_strict_increasing_iff)
  then show ?thesis by simp
qed

lemma buddy_fls_sizet_unique:
  assumes "2 ^ k \<le> unat x" "unat x < 2 ^ Suc k"
  shows "buddy_fls_sizet x = int k"
proof -
  have "x \<noteq> 0" using assms by auto
  then obtain j where "buddy_fls_sizet x = int j" "2 ^ j \<le> unat x" "unat x < 2 ^ Suc j"
    using buddy_fls_sizet_nat by metis
  then show ?thesis using power_of_two_unique assms by blast
qed

lemma bit_unat_iff: "bit (unat x) j = bit (x :: 'a::len word) j"
  by (auto simp: bit_unsigned_iff dest: bit_imp_le_length)

lemma buddy_ffs_sizet_lowest:
  assumes "x \<noteq> 0"
  obtains k where "buddy_ffs_sizet x = int k" and "k < 64" and "bit x k" and "\<And>j. j < k \<Longrightarrow> \<not> bit x j"
proof (cases "(ucast x :: 32 word) = 0")
  case False
  let ?k = "nat (ffs (ucast x) - 1)"
  note f = ffs_lowest[OF False]
  show ?thesis
  proof
    show "buddy_ffs_sizet x = int ?k" "?k < 64"
      using f False by (auto simp: buddy_ffs_sizet_def buddy_ffs_def)
    show "bit x ?k" using f(1-3) by (simp add: bit_ucast_iff)
    show "\<not> bit x j" if "j < ?k" for j
      using f(4)[OF that] f(2) that by (simp add: bit_ucast_iff)
  qed
next
  case True
  then have low: "\<not> bit x j" if "j < 32" for j
  proof -
    have "bit x j = bit (ucast x :: 32 word) j" using that by (simp add: bit_ucast_iff)
    then show ?thesis by (simp add: True)
  qed
  let ?h = "ucast (drop_bit 32 x) :: 32 word"
  have "?h \<noteq> 0"
  proof
    assume "?h = 0"
    have "\<not> bit x (j + 32)" for j
    proof
      assume *: "bit x (j + 32)"
      then have "bit ?h j" using bit_imp_le_length[of x "j + 32"] by (simp add: bit_ucast_iff bit_drop_bit_eq add.commute)
      then show False by (simp add: \<open>?h = 0\<close>)
    qed
    with low have "\<not> bit x j" for j by (metis le_add_diff_inverse2 not_less)
    then have "x = 0" by (simp add: bit_eq_iff)
    with assms show False by simp
  qed
  note f = ffs_lowest[OF this]
  let ?k = "32 + nat (ffs ?h - 1)"
  show ?thesis
  proof
    show "buddy_ffs_sizet x = int ?k" "?k < 64"
      using f True by (auto simp: buddy_ffs_sizet_def buddy_ffs_def)
    show "bit x ?k" using f(1-3) by (simp add: bit_ucast_iff bit_drop_bit_eq)
    show "\<not> bit x j" if "j < ?k" for j
    proof (cases "j < 32")
      case False
      then have "j - 32 < nat (ffs ?h - 1)" using that by simp
      from f(4)[OF this] f(2) False that show ?thesis by (simp add: bit_ucast_iff bit_drop_bit_eq)
    qed (use low in simp)
  qed
qed

section \<open>Powers of two and alignment\<close>

lemma shl64_1: "k < 64 \<Longrightarrow> shl64 1 (int k) = Some (2 ^ k)"
  by (simp add: shl64_def)

lemma unat_2p [simp]: "k < 64 \<Longrightarrow> unat (2 ^ k :: 64 word) = 2 ^ k"
  using unat_of_nat_64[OF power_strict_increasing[of k 64 "2 :: nat"]] by simp

lemma pow2_minus_1: "(2 ^ k :: 64 word) - 1 = mask k"
  by (simp add: mask_eq_exp_minus_1)

lemma pow2_and_pred [simp]: "(2 ^ k :: 64 word) AND (2 ^ k - 1) = 0"
  unfolding pow2_minus_1 by (rule bit_eqI) (auto simp: bit_simps)

lemma roundup_pow_of_two_correct:
  assumes "1 < unat n" "unat n \<le> 2 ^ 63"
  obtains k where "roundup_pow_of_two n = Some (2 ^ k)" and "k < 64" and "unat n \<le> 2 ^ k"
     and "2 ^ k < 2 * unat n"
proof -
  have u: "unat (n - 1) = unat n - 1" using assms by (simp add: unat_sub word_le_nat_alt)
  then have "0 < unat (n - 1)" using assms by simp
  then have "n - 1 \<noteq> 0" by (simp add: unat_gt_0)
  then obtain k where k: "buddy_fls_sizet (n - 1) = int k" "k < 64" "2 ^ k \<le> unat (n - 1)" "unat (n - 1) < 2 ^ Suc k"
    by (rule buddy_fls_sizet_nat)
  have "(2::nat) ^ k < 2 ^ 63" using k u assms by linarith
  then have "Suc k < 64" by (simp only: power_strict_increasing_iff)
  moreover have "fls64 (n - 1) = int (Suc k)" using k by (simp add: buddy_fls_sizet_eq)
  ultimately have "roundup_pow_of_two n = Some (2 ^ Suc k)"
    unfolding roundup_pow_of_two_def by (simp only: shl64_1)
  moreover have "unat n \<le> 2 ^ Suc k" "2 ^ Suc k < 2 * unat n" using k u assms by simp_all
  ultimately show ?thesis using that \<open>Suc k < 64\<close> by blast
qed

lemma align_up_pow2:
  assumes "k < 64" "unat x + 2 ^ k \<le> 2 ^ 64"
  obtains y where "align_up x (2 ^ k) = Some y" "unat y = (unat x + (2 ^ k - 1)) div 2 ^ k * 2 ^ k"
proof
  let ?y = "(x + mask k) AND NOT (mask k)"
  have "unat (mask k :: 64 word) = 2 ^ k - 1" 
    using assms by (simp flip: pow2_minus_1 add: unat_sub word_le_nat_alt)
  then have "unat (x + mask k) = unat x + (2 ^ k - 1)"
    using assms by (subst unat_add_lem[THEN iffD1]) auto
  then show "unat ?y = (unat x + (2 ^ k - 1)) div 2 ^ k * 2 ^ k"
    by (simp add: unat_and_not_mask)
  show "align_up x (2 ^ k) = Some ?y" by (simp add: align_up_def pow2_minus_1[symmetric])
qed

end
