(* ===== verification/Block_Tiling.thy ===== *)
theory Block_Tiling
  imports Kernel_Prelude
begin

text \<open>
  The abstract specification of the page allocator: a block is a page number and
  an order, it stands for \<open>2 ^ order\<close> consecutive pages and is aligned to its size.
  A tiling of the first \<open>N\<close> pages is a set of pairwise disjoint blocks that covers
  them. Splitting a block into two buddies and merging two buddies keep a tiling.
\<close>

section \<open>Blocks and tilings\<close>

type_synonym block = "nat \<times> nat"

definition pages_of :: "block \<Rightarrow> nat set" where
  "pages_of b = {fst b ..< fst b + 2 ^ snd b}"

definition buddy_of :: "block \<Rightarrow> block" where
  "buddy_of b = (fst b XOR 2 ^ snd b, snd b)"

definition tiling :: "nat \<Rightarrow> nat \<Rightarrow> block set \<Rightarrow> bool" where
  "tiling m N B \<longleftrightarrow>
     (\<forall>b \<in> B. snd b \<le> m \<and> 2 ^ snd b dvd fst b) \<and>
     pairwise (\<lambda>b c. disjnt (pages_of b) (pages_of c)) B \<and>
     \<Union> (pages_of ` B) = {0 ..< N}"

lemma pages_of_nonempty [simp]: "fst b \<in> pages_of b"
  by (simp add: pages_of_def)

lemma tiling_empty: "tiling m 0 {}"
  by (simp add: tiling_def)

lemma tiling_order: "tiling m N B \<Longrightarrow> (p, k) \<in> B \<Longrightarrow> k \<le> m"
  by (fastforce simp: tiling_def)

lemma tiling_aligned: "tiling m N B \<Longrightarrow> (p, k) \<in> B \<Longrightarrow> 2 ^ k dvd p"
  by (fastforce simp: tiling_def)

lemma tiling_bound:
  assumes "tiling m N B" "(p, k) \<in> B"
  shows "p + 2 ^ k \<le> N"
proof -
  have "p + 2 ^ k - 1 \<in> pages_of (p, k)"
    by (cases "2 ^ k :: nat") (simp_all add: pages_of_def)
  with assms have "p + 2 ^ k - 1 \<in> {0 ..< N}" unfolding tiling_def by blast
  then show ?thesis by simp
qed

lemma tiling_head_bound: "tiling m N B \<Longrightarrow> (p, k) \<in> B \<Longrightarrow> p < N"
  using tiling_bound[of m N B p k] zero_less_power[of "2::nat" k] by linarith

lemma tiling_disjoint:
  "tiling m N B \<Longrightarrow> b \<in> B \<Longrightarrow> c \<in> B \<Longrightarrow> b \<noteq> c \<Longrightarrow> disjnt (pages_of b) (pages_of c)"
  by (simp add: tiling_def pairwise_def)

text \<open>Two blocks that share a page are the same block.\<close>

lemma tiling_unique:
  "tiling m N B \<Longrightarrow> b \<in> B \<Longrightarrow> c \<in> B \<Longrightarrow> q \<in> pages_of b \<Longrightarrow> q \<in> pages_of c \<Longrightarrow> b = c"
  by (meson disjnt_iff tiling_disjoint)

lemma tiling_head_unique:
  assumes "tiling m N B" "(p, j) \<in> B" "(p, k) \<in> B"
  shows "j = k"
proof -
  have "p \<in> pages_of (p, j)" "p \<in> pages_of (p, k)" by (simp_all add: pages_of_def)
  then have "(p, j) = (p, k)" using assms tiling_unique by blast
  then show ?thesis by simp
qed

section \<open>Buddies\<close>

lemma xor_pow2:
  assumes "2 ^ k dvd (p :: nat)"
  shows "p XOR 2 ^ k = (if even (p div 2 ^ k) then p + 2 ^ k else p - 2 ^ k)"
proof -
  from assms obtain a where a: "p = 2 ^ k * a" by blast
  have "p XOR 2 ^ k = push_bit k a XOR push_bit k 1"
    by (simp add: a push_bit_eq_mult mult.commute)
  also have "\<dots> = push_bit k (a XOR 1)"
    by (simp only: push_bit_xor)
  also have "a XOR 1 = (if even a then a + 1 else a - 1)"
    by (simp only: xor_one_eq) simp
  finally show ?thesis by (simp add: a push_bit_eq_mult algebra_simps)
qed

lemma or_and_pow2:
  assumes "2 ^ k dvd (p :: nat)" "even (p div 2 ^ k)"
  shows "(p + 2 ^ k) OR p = p + 2 ^ k" and "(p + 2 ^ k) AND p = p"
proof -
  from assms obtain a where a: "p = 2 ^ k * a" by blast
  with assms have "a + 1 = a OR 1" by (simp only: or_one_eq) simp
  then have "(a + 1) OR a = a + 1" "(a + 1) AND a = a"
    by (simp_all add: bit_eq_iff bit_or_iff bit_and_iff) blast+
  moreover have "p + 2 ^ k = push_bit k (a + 1)" "p = push_bit k a"
    by (simp_all add: a push_bit_eq_mult algebra_simps)
  ultimately show "(p + 2 ^ k) OR p = p + 2 ^ k" and "(p + 2 ^ k) AND p = p"
    by (metis push_bit_or, metis push_bit_and)
qed

text \<open>The lower and the upper one of two buddies of order \<open>k\<close>.\<close>

lemma buddy_cases:
  assumes "2 ^ k dvd (p :: nat)"
  obtains (lower) "2 ^ Suc k dvd p" "p XOR 2 ^ k = p + 2 ^ k" "(p XOR 2 ^ k) OR p = p + 2 ^ k"
      "(p XOR 2 ^ k) AND p = p"
    | (upper) q where "p = q + 2 ^ k" "2 ^ Suc k dvd q" "p XOR 2 ^ k = q" "(p XOR 2 ^ k) OR p = p"
      "(p XOR 2 ^ k) AND p = q"
proof (cases "even (p div 2 ^ k)")
  case True
  then have "2 ^ Suc k dvd p"
    by (metis assms dvd_div_iff_mult power_Suc zero_neq_numeral power_not_zero)
  with True lower show ?thesis using assms by (simp add: xor_pow2 or_and_pow2)
next
  case False
  from assms obtain a where a: "p = 2 ^ k * a" by blast
  define q where "q = 2 ^ k * (a - 1)"
  have "odd a" using False a by simp
  then have p: "p = q + 2 ^ k" unfolding q_def a by (cases a) simp_all
  have "even (q div 2 ^ k)" "2 ^ k dvd q" "2 ^ Suc k dvd q" using \<open>odd a\<close> by (simp_all add: q_def mult.commute)
  moreover have "p XOR 2 ^ k = q" using False assms p by (simp add: xor_pow2)
  ultimately show ?thesis using upper[of q] p or_and_pow2[of k q] by (simp add: ac_simps)
qed

section \<open>Splitting, merging and extending a tiling\<close>

lemma pages_of_halves: "pages_of (p, Suc k) = pages_of (p, k) \<union> pages_of (p + 2 ^ k, k)"
  by (auto simp: pages_of_def)

lemma pages_of_halves_disjoint [simp]:
  "disjnt (pages_of (p, k)) (pages_of (p + 2 ^ k, k))" "disjnt (pages_of (p + 2 ^ k, k)) (pages_of (p, k))"
  by (auto simp: pages_of_def disjnt_iff)

lemma tiling_split:
  assumes t: "tiling m N (insert (p, Suc k) B)" and nin: "(p, Suc k) \<notin> B"
  shows "tiling m N (insert (p, k) (insert (p + 2 ^ k, k) B))"
proof -
  have p: "2 ^ Suc k dvd p" "Suc k \<le> m" using t by (auto simp: tiling_def)
  then have "2 ^ k dvd p" by (auto elim: power_le_dvd)
  moreover from this have "2 ^ k dvd p + 2 ^ k" by simp
  ultimately show ?thesis
    using t p nin unfolding tiling_def pairwise_insert pages_of_halves image_insert Union_insert
      disjnt_Un1 disjnt_Un2
    by (intro conjI) (auto simp: pages_of_halves)
qed

lemma tiling_merge:
  assumes t: "tiling m N (insert (p, k) (insert (p + 2 ^ k, k) B))"
    and nin: "(p, k) \<notin> B" "(p + 2 ^ k, k) \<notin> B" and k: "Suc k \<le> m" "2 ^ Suc k dvd p"
  shows "tiling m N (insert (p, Suc k) B)"
  using assms unfolding tiling_def pairwise_insert pages_of_halves image_insert Union_insert
      disjnt_Un1 disjnt_Un2
    by (intro conjI) (auto simp: pages_of_halves)

lemma tiling_extend:
  assumes t: "tiling m N B" and "k \<le> m" "2 ^ k dvd N"
  shows "tiling m (N + 2 ^ k) (insert (N, k) B)"
proof -
  have "disjnt (pages_of c) (pages_of (N, k))" if "c \<in> B" for c
  proof -
    have "pages_of c \<subseteq> {0 ..< N}" using t that by (auto simp: tiling_def)
    then show ?thesis by (auto simp: pages_of_def disjnt_iff)
  qed
  moreover have "pages_of (N, k) \<union> {0 ..< N} = {0 ..< N + 2 ^ k}"
    by (auto simp: pages_of_def)
  ultimately show ?thesis using assms unfolding tiling_def pairwise_insert by (auto simp: disjnt_sym)
qed

section \<open>Coalesced tilings are unique\<close>

lemma pages_of_nested:
  assumes "2 ^ k dvd p" "2 ^ j dvd q" "k \<le> j" "x \<in> pages_of (p, k)" "x \<in> pages_of (q, j)"
  shows "pages_of (p, k) \<subseteq> pages_of (q, j)"
proof -
  have "(2::nat) ^ k dvd q" "(2::nat) ^ k dvd 2 ^ j"
    using power_le_dvd[OF assms(2,3)] le_imp_power_dvd[OF assms(3)] by auto
  then obtain a b c where a: "p = 2 ^ k * a" "q = 2 ^ k * b" and c: "(2::nat) ^ j = 2 ^ k * c"
    using assms(1) unfolding dvd_def by blast
  have x: "2 ^ k * a \<le> x" "x < 2 ^ k * (a + 1)" "2 ^ k * b \<le> x" "x < 2 ^ k * (b + c)"
    using assms(4,5) a c by (auto simp: pages_of_def algebra_simps)
  have "2 ^ k * b < 2 ^ k * (a + 1)" "2 ^ k * a < 2 ^ k * (b + c)" using x by linarith+
  then have "b < a + 1" "a < b + c" by (simp_all only: nat_mult_less_cancel_disj)
  then have "b \<le> a" "a + 1 \<le> b + c" by simp_all
  then have "2 ^ k * b \<le> 2 ^ k * a" "2 ^ k * (a + 1) \<le> 2 ^ k * (b + c)" by (simp_all only: mult_le_mono2)
  then show ?thesis using a c by (auto simp: pages_of_def algebra_simps)
qed

lemma pages_of_same:
  assumes "2 ^ k dvd p" "2 ^ k dvd q" "x \<in> pages_of (p, k)" "x \<in> pages_of (q, k)"
  shows "p = q"
proof -
  have "p \<in> pages_of (q, k)" "q \<in> pages_of (p, k)"
    using pages_of_nested[OF assms(1,2) order_refl assms(3,4)] pages_of_nested[OF assms(2,1) order_refl assms(4,3)]
      pages_of_nonempty[of "(p, k)"] pages_of_nonempty[of "(q, k)"] by auto
  then show ?thesis by (simp add: pages_of_def)
qed

lemma buddy_parent:
  assumes "2 ^ l dvd (r :: nat)"
  obtains u r' where "2 ^ Suc l dvd u" and "r \<in> pages_of (u, Suc l)" and "r' \<in> pages_of (u, Suc l)"
    and "buddy_of (r, l) = (r', l)" and "2 ^ l dvd r'"
  using assms
proof (rule buddy_cases)
  assume "2 ^ Suc l dvd r" "r XOR 2 ^ l = r + 2 ^ l"
  then show ?thesis using assms by (intro that[of r "r + 2 ^ l"]) (auto simp: pages_of_def buddy_of_def)
next
  fix q assume "r = q + 2 ^ l" "2 ^ Suc l dvd q" "r XOR 2 ^ l = q"
  then show ?thesis using assms by (intro that[of q q]) (auto simp: pages_of_def buddy_of_def)
qed

lemma tiling_cover:
  assumes "tiling m N T" "x < N"
  obtains v i where "(v, i) \<in> T" and "x \<in> pages_of (v, i)"
proof -
  have "x \<in> \<Union> (pages_of ` T)" using assms by (simp add: tiling_def)
  then show ?thesis using that by auto
qed

lemma tiling_overlap_le:
  assumes t1: "tiling m N T1" and c: "\<forall>b \<in> T1. snd b < m \<longrightarrow> buddy_of b \<notin> T1" and t2: "tiling m N T2"
    and p: "(p, k) \<in> T1" and q: "(q, j) \<in> T2" and x: "x \<in> pages_of (p, k)" "x \<in> pages_of (q, j)"
  shows "j \<le> k"
proof (rule ccontr)
  assume "\<not> j \<le> k"
  let ?S = "{b \<in> T1. pages_of b \<subseteq> pages_of (q, j) \<and> snd b < j}"
  have qj: "2 ^ j dvd q" "j \<le> m" using tiling_aligned[OF t2 q] tiling_order[OF t2 q] .
  have al: "2 ^ l dvd r" if "(r, l) \<in> T1" for r l using tiling_aligned[OF t1 that] .
  have "(p, k) \<in> ?S" using pages_of_nested[OF al[OF p] qj(1)] x p \<open>\<not> j \<le> k\<close> by simp
  then obtain b where "b \<in> ?S" and min: "\<And>c. c \<in> ?S \<Longrightarrow> snd b \<le> snd c"
    using ex_has_least_nat[of "\<lambda>b. b \<in> ?S" "(p, k)" snd] by blast
  then obtain r l where rl: "(r, l) \<in> T1" "pages_of (r, l) \<subseteq> pages_of (q, j)" "l < j" and b: "b = (r, l)"
    by (cases b) auto
  obtain u r' where u: "2 ^ Suc l dvd u" "r \<in> pages_of (u, Suc l)" "r' \<in> pages_of (u, Suc l)" "buddy_of (r, l) = (r', l)"
    "2 ^ l dvd r'"
    using al[OF rl(1)] by (rule buddy_parent)
  have rin: "r \<in> pages_of (r, l)" by (simp add: pages_of_def)
  have "pages_of (u, Suc l) \<subseteq> pages_of (q, j)"
    by (rule pages_of_nested[OF u(1) qj(1) _ u(2)]) (use rl rin in auto)
  then have r'q: "r' \<in> pages_of (q, j)" using u(3) by blast
  then have "r' < N" using tiling_bound[OF t2 q] by (simp add: pages_of_def)
  then obtain v i where v: "(v, i) \<in> T1" "r' \<in> pages_of (v, i)" using tiling_cover[OF t1] by blast
  have same: "r \<in> pages_of (v, i) \<Longrightarrow> (v, i) = (r, l)" using tiling_unique[OF t1 v(1) rl(1)] rin by blast
  have "\<not> j \<le> i"
  proof
    assume ji: "j \<le> i"
    have "r \<in> pages_of (v, i)" using pages_of_nested[OF qj(1) al[OF v(1)] ji r'q v(2)] rl(2) rin by blast
    from same[OF this] show False using ji rl(3) by simp
  qed
  then have "(v, i) \<in> ?S" using pages_of_nested[OF al[OF v(1)] qj(1) _ v(2) r'q] v by simp
  from min[OF this] have li: "l \<le> i" by (simp add: b)
  show False
  proof (cases "i = l")
    case True
    then have "(v, i) = (r', l)"
      using pages_of_same[OF _ u(5) v(2)[unfolded True], of] al[OF v(1)] by (simp add: pages_of_def)
    then show False using c rl v u(4) qj(2) by auto
  next
    case False
    then have "r \<in> pages_of (v, i)" using pages_of_nested[OF u(1) al[OF v(1)] _ u(3) v(2)] li u(2) by auto
    then show False using same False by simp
  qed
qed

lemma coalesced_tiling_unique:
  assumes "tiling m N T1" "\<forall>b \<in> T1. snd b < m \<longrightarrow> buddy_of b \<notin> T1"
    and "tiling m N T2" "\<forall>b \<in> T2. snd b < m \<longrightarrow> buddy_of b \<notin> T2"
  shows "T1 = T2"
proof -
  have "T \<subseteq> T'" if t: "tiling m N T" "\<forall>b \<in> T. snd b < m \<longrightarrow> buddy_of b \<notin> T"
    and t': "tiling m N T'" "\<forall>b \<in> T'. snd b < m \<longrightarrow> buddy_of b \<notin> T'" for T T'
  proof (rule subsetI, clarify)
    fix p k assume p: "(p, k) \<in> T"
    have pin: "p \<in> pages_of (p, k)" by (simp add: pages_of_def)
    have "p < N" using tiling_head_bound[OF t(1) p] .
    then obtain q j where q: "(q, j) \<in> T'" "p \<in> pages_of (q, j)" using tiling_cover[OF t'(1)] by blast
    have "j = k" using tiling_overlap_le[OF t t'(1) p q(1) pin q(2)] tiling_overlap_le[OF t' t(1) q(1) p q(2) pin] by simp
    moreover from this have "p = q"
      using pages_of_same[OF tiling_aligned[OF t(1) p] _ pin] tiling_aligned[OF t'(1) q(1)] q(2) by simp
    ultimately show "(p, k) \<in> T'" using q by simp
  qed
  then show ?thesis using assms by blast
qed

end
