(* ===== verification/Buddy.thy ===== *)
theory Buddy
  imports Bit_Search Block_Tiling
begin

text \<open>
  The page allocator of \<^verbatim>\<open>mm/buddy.c\<close>. The state is the C structure
  \<^verbatim>\<open>buddy_system_t\<close>: a doubly linked list of free blocks per order is the list of
  the page numbers linked in it, the page map is a function of the page number
  that is read and written only up to \<open>max_pfn\<close>. The invariant says that the free
  blocks and the allocated blocks tile the managed pages, that the bitmap, the
  counters and the page map agree with the free lists, and, for \<open>coalesced\<close>,
  that no two free buddies are left unmerged.
\<close>

section \<open>State\<close>

abbreviation MAX_ORDER :: nat where "MAX_ORDER \<equiv> 20"
abbreviation PAGE_SIZE :: nat where "PAGE_SIZE \<equiv> 4096"
abbreviation PAGE_SHIFT :: nat where "PAGE_SHIFT \<equiv> 12"
abbreviation INVALID_ORDER :: u32 where "INVALID_ORDER \<equiv> - 1"

record page_t =
  u32_flags :: u32
  order :: u32

record buddy_system_t =
  page_buddy :: "nat list list"
  count :: "u64 list"
  bitmap :: u64
  page_start :: u64
  max_pfn :: u64
  page_map :: "nat \<Rightarrow> page_t"

text \<open>The sizes of the two structures on the 64-bit target.\<close>

abbreviation sizeof_page_t :: u64 where "sizeof_page_t \<equiv> 24"
abbreviation sizeof_buddy_system_t :: u64 where "sizeof_buddy_system_t \<equiv> 528"

text \<open>Reading and writing an entry of the page map.\<close>

definition page_ref :: "buddy_system_t \<Rightarrow> nat \<Rightarrow> page_t option" where
  "page_ref s pfn = (if pfn \<le> unat (max_pfn s) then Some (page_map s pfn) else None)"

definition set_page :: "buddy_system_t \<Rightarrow> nat \<Rightarrow> page_t \<Rightarrow> buddy_system_t" where
  "set_page s pfn p = s\<lparr>page_map := (page_map s)(pfn := p)\<rparr>"

section \<open>Operations\<close>

definition buddy_add_page :: "buddy_system_t \<Rightarrow> nat \<Rightarrow> buddy_system_t option" where
  "buddy_add_page s pfn = do {
     p \<leftarrow> page_ref s pfn;
     let ord = sint (order p);
     let s = set_page s pfn (p\<lparr>u32_flags := 1\<rparr>);
     xs \<leftarrow> arr_geti (page_buddy s) ord;
     c \<leftarrow> arr_geti (count s) ord;
     Some (s\<lparr>page_buddy := (page_buddy s)[nat ord := xs @ [pfn]],
             bitmap := bitmap s OR push_bit (nat ord) 1,
             count := (count s)[nat ord := c + 1]\<rparr>)
   }"

text \<open>\<^verbatim>\<open>list_del\<close> is defined on a linked node only: deleting another one is a fault.\<close>

definition buddy_del_page :: "buddy_system_t \<Rightarrow> nat \<Rightarrow> buddy_system_t option" where
  "buddy_del_page s pfn = do {
     p \<leftarrow> page_ref s pfn;
     let ord = sint (order p);
     xs \<leftarrow> arr_geti (page_buddy s) ord;
     c \<leftarrow> arr_geti (count s) ord;
     assert_that (pfn \<in> set xs);
     let ys = remove1 pfn xs;
     let s = set_page s pfn (p\<lparr>u32_flags := 0\<rparr>);
     Some (s\<lparr>page_buddy := (page_buddy s)[nat ord := ys],
             bitmap := (if ys = [] then bitmap s AND NOT (push_bit (nat ord) 1) else bitmap s),
             count := (count s)[nat ord := c - 1]\<rparr>)
   }"

definition page_to_ptr :: "buddy_system_t \<Rightarrow> nat \<Rightarrow> u64" where
  "page_to_ptr s pfn = page_start s + of_nat (pfn * PAGE_SIZE)"

definition page_from_ptr :: "buddy_system_t \<Rightarrow> u64 \<Rightarrow> nat option" where
  "page_from_ptr s ptr = do {
     assert_that (unat ptr mod PAGE_SIZE = 0);
     let diff = sint (ptr - page_start s) div int PAGE_SIZE;
     assert_that (0 \<le> diff);
     Some (nat diff)
   }"

definition pfn_valid :: "buddy_system_t \<Rightarrow> nat \<Rightarrow> bool" where
  "pfn_valid s pfn \<longleftrightarrow> pfn \<le> unat (max_pfn s)"

definition page_free :: "page_t \<Rightarrow> bool" where
  "page_free p \<longleftrightarrow> bit (u32_flags p) 0"

text \<open>The memory handed to \<^verbatim>\<open>buddy_new\<close> is not cleared: \<open>raw\<close> is what it holds.\<close>

definition buddy_new :: "buddy_system_t \<Rightarrow> buddy_system_t" where
  "buddy_new raw = raw\<lparr>page_buddy := replicate (MAX_ORDER + 1) [],
                       count := replicate (MAX_ORDER + 1) 0,
                       bitmap := 0, page_start := 0\<rparr>"

lemma buddy_fls_sizet_clamped:
  assumes "cnt \<noteq> 0"
  obtains k where "(if int MAX_ORDER < buddy_fls_sizet cnt then int MAX_ORDER else buddy_fls_sizet cnt) = int k"
    and "k \<le> MAX_ORDER" and "2 ^ k \<le> unat cnt" and "k = MAX_ORDER \<or> unat cnt < 2 ^ Suc k"
proof -
  obtain j where j: "buddy_fls_sizet cnt = int j" "j < 64" "2 ^ j \<le> unat cnt" "unat cnt < 2 ^ Suc j"
    using assms by (rule buddy_fls_sizet_nat)
  show thesis
  proof (cases "MAX_ORDER < j")
    case True
    then have "(2::nat) ^ MAX_ORDER \<le> 2 ^ j" by (intro power_increasing) auto
    with True j show thesis by (intro that[of MAX_ORDER]) auto
  next
    case False
    with j show thesis by (intro that[of j]) auto
  qed
qed

function buddy_fill :: "buddy_system_t \<Rightarrow> nat \<Rightarrow> u64 \<Rightarrow> buddy_system_t option" where
  "buddy_fill s i cnt =
     (if cnt = 0 then Some s
      else do {
        let ord = buddy_fls_sizet cnt;
        assert_that (0 \<le> ord);
        let ord = (if int MAX_ORDER < ord then int MAX_ORDER else ord);
        p \<leftarrow> page_ref s i;
        s' \<leftarrow> buddy_add_page (set_page s i (p\<lparr>order := of_int ord\<rparr>)) i;
        buddy_fill s' (i + 2 ^ nat ord) (cnt - 2 ^ nat ord)
      })"
  by pat_completeness auto

termination
proof (relation "measure (\<lambda>(s, i, cnt). unat cnt)", goal_cases)
  case (2 s i cnt ord u ord' p s')
  obtain k where k: "ord' = int k" "2 ^ k \<le> unat cnt" "k \<le> MAX_ORDER"
    using buddy_fls_sizet_clamped[OF 2(1)] 2 by metis
  then have "unat (cnt - 2 ^ k) = unat cnt - 2 ^ k"
    by (simp add: unat_sub word_le_nat_alt)
  moreover have "0 < unat cnt" using 2(1) by (simp add: unat_gt_0)
  ultimately show ?case using k by simp
qed simp

declare buddy_fill.simps [simp del]

definition buddy_create :: "buddy_system_t \<Rightarrow> u64 \<Rightarrow> u64 \<Rightarrow> buddy_system_t option" where
  "buddy_create raw mem sz = do {
     assert_that (mem \<noteq> 0 \<and> sz \<noteq> 0);
     let s = buddy_new raw;
     let mem = mem + sizeof_buddy_system_t;
     let sz = sz - sizeof_buddy_system_t;
     let page_count = drop_bit PAGE_SHIFT sz;
     map_size \<leftarrow> align_up (page_count * sizeof_page_t) (of_nat PAGE_SIZE);
     let mem = mem + map_size;
     let sz = sz - map_size;
     aligned \<leftarrow> align_ptr mem (of_nat PAGE_SIZE);
     let mem_diff = aligned - mem;
     let mem = mem + mem_diff;
     let sz = sz - mem_diff;
     let page_count = drop_bit PAGE_SHIFT sz;
     let s = s\<lparr>page_start := mem, max_pfn := page_count - 1\<rparr>;
     assert_that (mem AND mask PAGE_SHIFT = 0);
     let s = s\<lparr>page_map := (\<lambda>i. if i < unat page_count
                               then (page_map s i)\<lparr>order := INVALID_ORDER\<rparr> else page_map s i)\<rparr>;
     buddy_fill s 0 page_count
   }"

text \<open>The result is the page found, or no page (\<open>Some None\<close>, the C \<^verbatim>\<open>NULL\<close>).\<close>

definition buddy_locate_free :: "buddy_system_t \<Rightarrow> int \<Rightarrow> nat option option" where
  "buddy_locate_free s ord = do {
     assert_that (0 \<le> ord);
     xs \<leftarrow> arr_geti (page_buddy s) ord;
     c \<leftarrow> arr_geti (count s) ord;
     assert_that ((xs = []) = (c = 0));
     if xs = [] then do {
       let bm = bitmap s AND push_bit (nat ord) (- 1);
       if bm = 0 then Some None
       else do {
         let ord = buddy_ffs_sizet bm;
         assert_that (0 \<le> ord);
         xs \<leftarrow> arr_geti (page_buddy s) ord;
         assert_that (xs \<noteq> []);
         Some (Some (last xs))
       }
     }
     else Some (Some (last xs))
   }"

function page_split_loop :: "buddy_system_t \<Rightarrow> nat \<Rightarrow> int \<Rightarrow> int \<Rightarrow> buddy_system_t option" where
  "page_split_loop s pfn i ord =
     (if ord < i then do {
        let new = i - 1;
        assert_that (0 \<le> new);
        let buddy = pfn + 2 ^ nat new;
        b \<leftarrow> page_ref s buddy;
        s' \<leftarrow> buddy_add_page (set_page s buddy (b\<lparr>order := of_int new\<rparr>)) buddy;
        page_split_loop s' pfn (i - 1) ord
      }
      else Some s)"
  by pat_completeness auto
termination
  by (relation "measure (\<lambda>(s, pfn, i, ord). nat (i - ord))") auto

declare page_split_loop.simps [simp del]

definition page_split :: "buddy_system_t \<Rightarrow> nat \<Rightarrow> int \<Rightarrow> buddy_system_t option" where
  "page_split s pfn ord = do {
     assert_that (0 \<le> ord);
     p \<leftarrow> page_ref s pfn;
     s \<leftarrow> page_split_loop s pfn (sint (order p)) ord;
     p \<leftarrow> page_ref s pfn;
     Some (set_page s pfn (p\<lparr>order := of_int ord\<rparr>))
   }"

text \<open>The loop of \<^verbatim>\<open>page_merge\<close>; it returns the order reached with the page.\<close>

function page_merge_loop :: "buddy_system_t \<Rightarrow> nat \<Rightarrow> int \<Rightarrow> (buddy_system_t \<times> nat \<times> int) option" where
  "page_merge_loop s pfn ord =
     (if ord \<le> int MAX_ORDER then do {
        assert_that (0 \<le> ord);
        let buddy_pfn = pfn XOR 2 ^ nat ord;
        if \<not> pfn_valid s buddy_pfn then Some (s, pfn, ord)
        else do {
          buddy \<leftarrow> page_ref s buddy_pfn;
          if order buddy \<noteq> of_int ord then Some (s, pfn, ord)
          else if \<not> page_free buddy then Some (s, pfn, ord)
          else do {
            s' \<leftarrow> buddy_del_page s buddy_pfn;
            let private_pfn = buddy_pfn OR pfn;
            priv \<leftarrow> page_ref s' private_pfn;
            let s'' = set_page s' private_pfn (priv\<lparr>order := INVALID_ORDER\<rparr>);
            page_merge_loop s'' (buddy_pfn AND pfn) (ord + 1)
          }
        }
      }
      else Some (s, pfn, ord))"
  by pat_completeness auto
termination
  by (relation "measure (\<lambda>(s, pfn, ord). nat (21 - ord))") auto

declare page_merge_loop.simps [simp del]

definition page_merge :: "buddy_system_t \<Rightarrow> nat \<Rightarrow> (buddy_system_t \<times> nat) option" where
  "page_merge s pfn = do {
     p \<leftarrow> page_ref s pfn;
     (s, pfn, ord) \<leftarrow> page_merge_loop s pfn (sint (order p));
     p \<leftarrow> page_ref s pfn;
     Some (set_page s pfn (p\<lparr>order := of_int ord\<rparr>), pfn)
   }"

definition page_prepare_used :: "buddy_system_t \<Rightarrow> nat \<Rightarrow> int \<Rightarrow> (buddy_system_t \<times> u64) option" where
  "page_prepare_used s pfn ord = do {
     assert_that (0 \<le> ord);
     s \<leftarrow> buddy_del_page s pfn;
     p \<leftarrow> page_ref s pfn;
     s \<leftarrow> (if of_int ord < order p then page_split s pfn ord else Some s);
     Some (s, page_to_ptr s pfn)
   }"

definition buddy_alloc_order :: "u64 \<Rightarrow> int" where
  "buddy_alloc_order cnt = buddy_fls_sizet (cnt + (push_bit (nat (buddy_fls_sizet cnt)) 1 - 1))"

definition buddy_alloc_page :: "buddy_system_t \<Rightarrow> u64 \<Rightarrow> (buddy_system_t \<times> u64) option" where
  "buddy_alloc_page s cnt = do {
     assert_that (cnt \<noteq> 0);
     let ord = buddy_alloc_order cnt;
     page \<leftarrow> buddy_locate_free s ord;
     (case page of
        None \<Rightarrow> Some (s, 0)
      | Some pfn \<Rightarrow> page_prepare_used s pfn ord)
   }"

definition buddy_free_page :: "buddy_system_t \<Rightarrow> u64 \<Rightarrow> buddy_system_t option" where
  "buddy_free_page s ptr = do {
     assert_that (ptr \<noteq> 0);
     pfn \<leftarrow> page_from_ptr s ptr;
     p \<leftarrow> page_ref s pfn;
     if page_free p then Some s
     else do {
       (s, pfn) \<leftarrow> page_merge s pfn;
       buddy_add_page s pfn
     }
   }"

end
