(* ===== verification/Page_Allocator.thy ===== *)
theory Page_Allocator
  imports Kernel_Prelude
begin

text \<open>
  What the kernel relies on of its page allocator (\<^verbatim>\<open>alloc_page\<close> and \<^verbatim>\<open>free_page\<close>
  of \<^verbatim>\<open>src/mm/kalloc.c\<close>), as an interface. A region is an address and a
  number of pages; \<open>ok s R\<close> says that \<open>s\<close> is a state of the allocator in which the regions \<open>R\<close>
  are handed out. The lemmas are those of a client: what a sequence of requests keeps.
\<close>

type_synonym region = "u64 \<times> nat"

definition region_bytes :: "region \<Rightarrow> nat set" where
  "region_bytes r = {unat (fst r) ..< unat (fst r) + snd r * 4096}"

locale page_allocator =
  fixes alloc :: "'s \<Rightarrow> u64 \<Rightarrow> ('s \<times> u64) option"
    and free :: "'s \<Rightarrow> u64 \<Rightarrow> 's option"
    and ok :: "'s \<Rightarrow> region set \<Rightarrow> bool"
    and limit :: nat
  assumes alloc_ok: "ok s R \<Longrightarrow> 0 < unat cnt \<Longrightarrow> unat cnt \<le> limit \<Longrightarrow>
      alloc s cnt = Some (s, 0) \<or>
      (\<exists>s' a n. alloc s cnt = Some (s', a) \<and> unat cnt \<le> n \<and> (a, n) \<notin> R \<and> ok s' (insert (a, n) R))"
    and free_ok: "ok s R \<Longrightarrow> (a, n) \<in> R \<Longrightarrow> \<exists>s'. free s a = Some s' \<and> ok s' (R - {(a, n)})"
    and region_ok: "ok s R \<Longrightarrow> (a, n) \<in> R \<Longrightarrow> a \<noteq> 0 \<and> unat a mod 4096 = 0 \<and> 0 < n \<and> unat a + n * 4096 \<le> 2 ^ 64"
    and regions_disjoint: "ok s R \<Longrightarrow> r \<in> R \<Longrightarrow> r' \<in> R \<Longrightarrow> r \<noteq> r' \<Longrightarrow> disjnt (region_bytes r) (region_bytes r')"
begin

lemma alloc_total:
  assumes "ok s R" "0 < unat cnt" "unat cnt \<le> limit"
  obtains s' a where "alloc s cnt = Some (s', a)"
  using alloc_ok[OF assms] by blast

lemma alloc_cases:
  assumes "ok s R" "0 < unat cnt" "unat cnt \<le> limit" "alloc s cnt = Some (s', a)"
  obtains (none) "a = 0" "s' = s"
    | (some) n where "a \<noteq> 0" "unat cnt \<le> n" "(a, n) \<notin> R" "ok s' (insert (a, n) R)"
proof -
  from alloc_ok[OF assms(1-3)] assms(4)
  consider "a = 0" "s' = s" | n where "unat cnt \<le> n" "(a, n) \<notin> R" "ok s' (insert (a, n) R)" by auto
  then show thesis
  proof cases
    case (2 n)
    then show thesis using region_ok[of s' "insert (a, n) R" a n] some by blast
  qed (rule none)
qed

text \<open>A block that was handed out shares no byte with the blocks already in use.\<close>

lemma alloc_fresh:
  assumes "ok s R" "0 < unat cnt" "unat cnt \<le> limit" "alloc s cnt = Some (s', a)" "a \<noteq> 0" "r \<in> R"
  shows "disjnt {unat a ..< unat a + unat cnt * 4096} (region_bytes r)"
  using assms(1-4)
proof (cases rule: alloc_cases)
  case (some n)
  then have "disjnt (region_bytes (a, n)) (region_bytes r)"
    using regions_disjoint[OF some(4), of "(a, n)" r] assms(6) by auto
  moreover have "{unat a ..< unat a + unat cnt * 4096} \<subseteq> region_bytes (a, n)"
    using some(2) by (auto simp: region_bytes_def)
  ultimately show ?thesis by (auto simp: disjnt_def)
qed (use assms in simp)

lemma alloc_aligned:
  assumes "ok s R" "0 < unat cnt" "unat cnt \<le> limit" "alloc s cnt = Some (s', a)"
  shows "unat a mod 4096 = 0" "a \<noteq> 0 \<Longrightarrow> unat a + unat cnt * 4096 \<le> 2 ^ 64"
proof -
  show "unat a mod 4096 = 0" using assms
  proof (cases rule: alloc_cases)
    case (some n) then show ?thesis using region_ok[OF some(4), of a n] by simp
  qed simp
  show "unat a + unat cnt * 4096 \<le> 2 ^ 64" if "a \<noteq> 0" using assms
  proof (cases rule: alloc_cases)
    case (some n)
    have "unat cnt * 4096 \<le> n * 4096" using some(2) by simp
    moreover have "unat a + n * 4096 \<le> 2 ^ 64" using region_ok[OF some(4), of a n] by simp
    ultimately show ?thesis by linarith
  qed (use that in simp)
qed

text \<open>Taking a block and giving it back leaves the regions in use as they were.\<close>

lemma alloc_free:
  assumes "ok s R" "0 < unat cnt" "unat cnt \<le> limit" "alloc s cnt = Some (s', a)" "a \<noteq> 0"
  obtains s'' where "free s' a = Some s''" "ok s'' R"
  using assms(1-4)
proof (cases rule: alloc_cases)
  case (some n)
  moreover have "insert (a, n) R - {(a, n)} = R" using some(3) by blast
  ultimately show ?thesis using free_ok[OF some(4), of a n] that by auto
qed (use assms(5) in simp)

end

end
