(* ===== verification/Buddy_Invariant.thy ===== *)
theory Buddy_Invariant
  imports Buddy Page_Allocator
begin

text \<open>
  The correctness of the page allocator of \<^verbatim>\<open>src/mm/buddy.c\<close>. The free lists, the
  counters, the bitmap and the page map of a system represent a tiling of its pages by free and
  allocated blocks; creation establishes this, and allocation (splitting) and freeing
  (merging) keep it. Free buddies are always merged, so that the free blocks of a system with
  nothing allocated are those it was created with.
\<close>

section \<open>Invariant\<close>

definition free_blocks :: "buddy_system_t \<Rightarrow> block set" where
  "free_blocks s = {(p, k). k \<le> MAX_ORDER \<and> p \<in> set (page_buddy s ! k)}"

text \<open>The free lists, the counters and the bitmap agree.\<close>

definition lists_ok :: "buddy_system_t \<Rightarrow> bool" where
  "lists_ok s \<longleftrightarrow>
     length (page_buddy s) = Suc MAX_ORDER \<and> length (count s) = Suc MAX_ORDER \<and>
     unat (max_pfn s) < 2 ^ 52 \<and>
     (\<forall>k \<le> MAX_ORDER. distinct (page_buddy s ! k) \<and> set (page_buddy s ! k) \<subseteq> {.. unat (max_pfn s)} \<and>
        unat (count s ! k) = length (page_buddy s ! k)) \<and>
     (\<forall>k. bit (bitmap s) k \<longleftrightarrow> k \<le> MAX_ORDER \<and> page_buddy s ! k \<noteq> [])"

text \<open>The page map records the head of every block, free or allocated, and nothing else.\<close>

definition heads_ok :: "nat \<Rightarrow> (nat \<Rightarrow> page_t) \<Rightarrow> block set \<Rightarrow> block set \<Rightarrow> bool" where
  "heads_ok m mp F A \<longleftrightarrow>
     (\<forall>p \<le> m. \<forall>k \<le> MAX_ORDER. order (mp p) = of_nat k \<longleftrightarrow> (p, k) \<in> F \<union> A) \<and>
     (\<forall>p k. (p, k) \<in> F \<longrightarrow> page_free (mp p)) \<and> (\<forall>p k. (p, k) \<in> A \<longrightarrow> \<not> page_free (mp p))"

definition buddy_inv :: "buddy_system_t \<Rightarrow> nat \<Rightarrow> block set \<Rightarrow> bool" where
  "buddy_inv s M A \<longleftrightarrow>
     lists_ok s \<and> M \<le> Suc (unat (max_pfn s)) \<and> free_blocks s \<inter> A = {} \<and>
     tiling MAX_ORDER M (free_blocks s \<union> A) \<and>
     heads_ok (unat (max_pfn s)) (page_map s) (free_blocks s) A"

lemma of_nat_order_inj [simp]:
  assumes "j \<le> 20" "k \<le> 20"
  shows "(of_nat j :: u32) = of_nat k \<longleftrightarrow> j = k"
proof
  assume "(of_nat j :: u32) = of_nat k"
  then have "unat (of_nat j :: u32) = unat (of_nat k :: u32)" by simp
  with assms show "j = k" by simp
qed simp

lemma INVALID_ORDER_neq [simp]: "k \<le> 20 \<Longrightarrow> INVALID_ORDER \<noteq> of_nat k"
proof
  assume k: "k \<le> 20" "INVALID_ORDER = of_nat k"
  from arg_cong[OF k(2), of sint] k(1) show False by simp
qed

lemma bit_2p: "k < 64 \<Longrightarrow> bit (2 ^ k :: u64) j \<longleftrightarrow> j = k"
  by (auto simp: bit_exp_iff)

lemma lists_ok_length_bound:
  assumes "lists_ok s" "k \<le> MAX_ORDER"
  shows "length (page_buddy s ! k) \<le> 2 ^ 52"
proof -
  have "distinct (page_buddy s ! k)" "set (page_buddy s ! k) \<subseteq> {.. unat (max_pfn s)}" "unat (max_pfn s) < 2 ^ 52"
    using assms by (auto simp: lists_ok_def)
  moreover have "card (set (page_buddy s ! k)) \<le> card {.. unat (max_pfn s)}"
    using calculation by (intro card_mono) auto
  ultimately show ?thesis by (simp add: distinct_card)
qed

lemma buddy_add_page_step:
  assumes l: "lists_ok s" and p: "p \<le> unat (max_pfn s)" and k: "k \<le> MAX_ORDER" "order (page_map s p) = of_nat k"
    and new: "(p, k) \<notin> free_blocks s"
  obtains s' where "buddy_add_page s p = Some s'" and "lists_ok s'"
    and "free_blocks s' = insert (p, k) (free_blocks s)"
    and "page_map s' = (page_map s)(p := (page_map s p)\<lparr>u32_flags := 1\<rparr>)"
    and "max_pfn s' = max_pfn s" and "page_start s' = page_start s"
proof -
  let ?xs = "page_buddy s ! k"
  define s' where "s' = s\<lparr>page_map := (page_map s)(p := (page_map s p)\<lparr>u32_flags := 1\<rparr>),
     page_buddy := (page_buddy s)[k := ?xs @ [p]], bitmap := bitmap s OR push_bit k 1,
     count := (count s)[k := count s ! k + 1]\<rparr>"
  have len: "length (page_buddy s) = 21" "length (count s) = 21" using l by (auto simp: lists_ok_def)
  have eq: "buddy_add_page s p = Some s'"
    using p k len by (simp add: buddy_add_page_def page_ref_def set_page_def s'_def)
  have "unat (count s ! k + 1) = Suc (length ?xs)"
  proof -
    have "unat (count s ! k) = length ?xs" "length ?xs \<le> 2 ^ 52"
      using l k lists_ok_length_bound by (auto simp: lists_ok_def)
    then show ?thesis by (simp add: unat_word_ariths)
  qed
  then have "lists_ok s'"
    using l k p new len
    by (auto simp: lists_ok_def s'_def nth_list_update bit_or_iff bit_2p free_blocks_def)
  moreover have "free_blocks s' = insert (p, k) (free_blocks s)"
    using k len by (auto simp: free_blocks_def s'_def nth_list_update split: if_splits)
  ultimately show ?thesis using that[OF eq] by (simp add: s'_def)
qed

lemma buddy_del_page_step:
  assumes l: "lists_ok s" and p: "p \<le> unat (max_pfn s)" and k: "order (page_map s p) = of_nat k"
    and old: "(p, k) \<in> free_blocks s"
  obtains s' where "buddy_del_page s p = Some s'" and "lists_ok s'"
    and "free_blocks s' = free_blocks s - {(p, k)}"
    and "page_map s' = (page_map s)(p := (page_map s p)\<lparr>u32_flags := 0\<rparr>)"
    and "max_pfn s' = max_pfn s" and "page_start s' = page_start s"
proof -
  let ?xs = "page_buddy s ! k"
  have k20: "k \<le> 20" and pin: "p \<in> set ?xs" using old by (auto simp: free_blocks_def)
  define s' where "s' = s\<lparr>page_map := (page_map s)(p := (page_map s p)\<lparr>u32_flags := 0\<rparr>),
     page_buddy := (page_buddy s)[k := remove1 p ?xs],
     bitmap := (if remove1 p ?xs = [] then bitmap s AND NOT (push_bit k 1) else bitmap s),
     count := (count s)[k := count s ! k - 1]\<rparr>"
  have len: "length (page_buddy s) = 21" "length (count s) = 21" using l by (auto simp: lists_ok_def)
  have eq: "buddy_del_page s p = Some s'"
    using p k k20 len pin by (simp add: buddy_del_page_def page_ref_def set_page_def s'_def)
  have "unat (count s ! k - 1) = length ?xs - 1"
  proof -
    have "unat (count s ! k) = length ?xs" using l k20 by (auto simp: lists_ok_def)
    moreover have "1 \<le> length ?xs" using pin by (cases ?xs) auto
    ultimately have "1 \<le> count s ! k" by (simp add: word_le_nat_alt del: length_greater_0_conv)
    then show ?thesis using \<open>unat (count s ! k) = length ?xs\<close> by (simp add: unat_sub)
  qed
  moreover have "distinct ?xs" using l k20 by (auto simp: lists_ok_def)
  ultimately have "lists_ok s'"
    using l k20 p len pin
    by (auto simp: lists_ok_def s'_def nth_list_update bit_and_iff bit_not_iff bit_2p length_remove1)
  moreover have "free_blocks s' = free_blocks s - {(p, k)}"
    using k20 len \<open>distinct ?xs\<close> by (auto simp: free_blocks_def s'_def nth_list_update split: if_splits)
  ultimately show ?thesis using that[OF eq] by (simp add: s'_def)
qed

section \<open>Steps that keep the page map consistent\<close>

lemma heads_ok_order:
  "heads_ok m mp F A \<Longrightarrow> (p, k) \<in> F \<union> A \<Longrightarrow> p \<le> m \<Longrightarrow> k \<le> MAX_ORDER \<Longrightarrow> order (mp p) = of_nat k"
  by (auto simp: heads_ok_def)

lemma heads_okD:
  assumes "heads_ok m mp F A"
  shows "p \<le> m \<Longrightarrow> k \<le> MAX_ORDER \<Longrightarrow> order (mp p) = of_nat k \<longleftrightarrow> (p, k) \<in> F \<or> (p, k) \<in> A"
    and "(p, k) \<in> F \<Longrightarrow> page_free (mp p)" and "(p, k) \<in> A \<Longrightarrow> \<not> page_free (mp p)"
  using assms by (auto simp: heads_ok_def)

lemma heads_okI:
  assumes "\<And>p k. p \<le> m \<Longrightarrow> k \<le> MAX_ORDER \<Longrightarrow> order (mp p) = of_nat k \<longleftrightarrow> (p, k) \<in> F \<or> (p, k) \<in> A"
    and "\<And>p k. (p, k) \<in> F \<Longrightarrow> page_free (mp p)" and "\<And>p k. (p, k) \<in> A \<Longrightarrow> \<not> page_free (mp p)"
  shows "heads_ok m mp F A"
  using assms by (auto simp: heads_ok_def)

text \<open>Unlinking a free block turns it into an allocated one.\<close>

lemma heads_ok_del:
  assumes h: "heads_ok m mp F A" and t: "tiling MAX_ORDER M (F \<union> A)" and d: "F \<inter> A = {}"
    and pk: "(p, k) \<in> F"
  shows "heads_ok m (mp(p := (mp p)\<lparr>u32_flags := 0\<rparr>)) (F - {(p, k)}) (insert (p, k) A)"
proof (rule heads_okI)
  have p: "(p, j) \<notin> F - {(p, k)}" for j
    using tiling_head_unique[OF t, of p j k] pk by auto
  show "order ((mp(p := (mp p)\<lparr>u32_flags := 0\<rparr>)) q) = of_nat i \<longleftrightarrow> (q, i) \<in> F - {(p, k)} \<or> (q, i) \<in> insert (p, k) A"
    if "q \<le> m" "i \<le> MAX_ORDER" for q i
    using heads_okD(1)[OF h that] pk by auto
  show "page_free ((mp(p := (mp p)\<lparr>u32_flags := 0\<rparr>)) q)" if "(q, i) \<in> F - {(p, k)}" for q i
    using heads_okD(2)[OF h] that p[of i] by auto
  show "\<not> page_free ((mp(p := (mp p)\<lparr>u32_flags := 0\<rparr>)) q)" if "(q, i) \<in> insert (p, k) A" for q i
    using heads_okD(3)[OF h] that by (auto simp: page_free_def)
qed

lemma heads_ok_add:
  assumes h: "heads_ok m mp F (insert (p, k) A)" and t: "tiling MAX_ORDER M (F \<union> insert (p, k) A)"
    and new: "(p, k) \<notin> A"
  shows "heads_ok m (mp(p := (mp p)\<lparr>u32_flags := 1\<rparr>)) (insert (p, k) F) A"
proof (rule heads_okI)
  have p: "(p, j) \<notin> A" for j
    using tiling_head_unique[OF t, of p j k] new by auto
  show "order ((mp(p := (mp p)\<lparr>u32_flags := 1\<rparr>)) q) = of_nat i \<longleftrightarrow> (q, i) \<in> insert (p, k) F \<or> (q, i) \<in> A"
    if "q \<le> m" "i \<le> MAX_ORDER" for q i
    using heads_okD(1)[OF h that] by auto
  show "page_free ((mp(p := (mp p)\<lparr>u32_flags := 1\<rparr>)) q)" if "(q, i) \<in> insert (p, k) F" for q i
    using heads_okD(2)[OF h] that by (auto simp: page_free_def)
  show "\<not> page_free ((mp(p := (mp p)\<lparr>u32_flags := 1\<rparr>)) q)" if "(q, i) \<in> A" for q i
    using heads_okD(3)[OF h] that p[of i] by auto
qed

text \<open>No block starts inside another one.\<close>

lemma tiling_no_inner_head:
  assumes t: "tiling m M B" "(p, k) \<in> B" and q: "p < q" "q < p + 2 ^ k"
  shows "(q, j) \<notin> B"
proof
  assume "(q, j) \<in> B"
  moreover have "q \<in> pages_of (q, j)" "q \<in> pages_of (p, k)" using q by (simp_all add: pages_of_def)
  ultimately have "(q, j) = (p, k)" using t tiling_unique by blast
  with q show False by simp
qed

lemma heads_ok_split:
  assumes h: "heads_ok m mp F (insert (p, Suc j) A)" and t: "tiling MAX_ORDER M (F \<union> insert (p, Suc j) A)"
    and new: "(p, Suc j) \<notin> A" "(p, Suc j) \<notin> F"
    and mp': "mp' = mp(p + 2 ^ j := \<lparr>u32_flags = 1, order = of_nat j\<rparr>, p := (mp p)\<lparr>order := of_nat j\<rparr>)"
  shows "heads_ok m mp' (insert (p + 2 ^ j, j) F) (insert (p, j) A)"
proof (rule heads_okI)
  have j: "Suc j \<le> MAX_ORDER" using tiling_order[OF t, of p "Suc j"] by simp
  have p: "(p, i) \<notin> F" "(p, i) \<notin> A" for i
    using tiling_head_unique[OF t, of p i "Suc j"] new by auto
  have b: "(p + 2 ^ j, i) \<notin> F" "(p + 2 ^ j, i) \<notin> A" for i
    using tiling_no_inner_head[OF t, of p "Suc j" "p + 2 ^ j" i] by auto
  show "order (mp' q) = of_nat i \<longleftrightarrow> (q, i) \<in> insert (p + 2 ^ j, j) F \<or> (q, i) \<in> insert (p, j) A"
    if "q \<le> m" "i \<le> MAX_ORDER" for q i
    using heads_okD(1)[OF h that] j p[of i] b[of i] that
    by (cases "q = p"; cases "q = p + 2 ^ j") (auto simp: mp')
  show "page_free (mp' q)" if "(q, i) \<in> insert (p + 2 ^ j, j) F" for q i
    using heads_okD(2)[OF h, of q i] p[of i] that by (auto simp: mp' page_free_def)
  show "\<not> page_free (mp' q)" if "(q, i) \<in> insert (p, j) A" for q i
    using heads_okD(3)[OF h, of q i] heads_okD(3)[OF h, of p "Suc j"] p[of i] b[of i] that
    by (auto simp: mp' page_free_def)
qed

lemma heads_ok_merge:
  assumes h: "heads_ok m mp F (insert (p, k) (insert (p + 2 ^ k, k) A))"
    and t: "tiling MAX_ORDER M (F \<union> insert (p, k) (insert (p + 2 ^ k, k) A))"
    and new: "(p, k) \<notin> A" "(p + 2 ^ k, k) \<notin> A" "(p, k) \<notin> F" "(p + 2 ^ k, k) \<notin> F" and k: "Suc k \<le> MAX_ORDER"
    and mp': "mp' = mp(p + 2 ^ k := (mp (p + 2 ^ k))\<lparr>order := INVALID_ORDER\<rparr>, p := (mp p)\<lparr>order := of_nat (Suc k)\<rparr>)"
  shows "heads_ok m mp' F (insert (p, Suc k) A)"
proof (rule heads_okI)
  have p: "(p, i) \<notin> F" "(p, i) \<notin> A" for i
    using tiling_head_unique[OF t, of p i k] new by auto
  have b: "(p + 2 ^ k, i) \<notin> F" "(p + 2 ^ k, i) \<notin> A" for i
    using tiling_head_unique[OF t, of "p + 2 ^ k" i k] new by auto
  show "order (mp' q) = of_nat i \<longleftrightarrow> (q, i) \<in> F \<or> (q, i) \<in> insert (p, Suc k) A"
    if "q \<le> m" "i \<le> MAX_ORDER" for q i
    using heads_okD(1)[OF h that] k p[of i] b[of i] that
    by (cases "q = p"; cases "q = p + 2 ^ k") (auto simp: mp' simp del: of_nat_Suc)
  show "page_free (mp' q)" if "(q, i) \<in> F" for q i
    using heads_okD(2)[OF h, of q i] p[of i] b[of i] that by (auto simp: mp' page_free_def)
  show "\<not> page_free (mp' q)" if "(q, i) \<in> insert (p, Suc k) A" for q i
    using heads_okD(3)[OF h, of q i] heads_okD(3)[OF h, of p k] p[of i] b[of i] that
    by (auto simp: mp' page_free_def)
qed

section \<open>Linking and unlinking keep the invariant\<close>

lemma buddy_invD:
  assumes "buddy_inv s M A"
  shows "lists_ok s" "M \<le> Suc (unat (max_pfn s))" "free_blocks s \<inter> A = {}"
    "tiling MAX_ORDER M (free_blocks s \<union> A)" "heads_ok (unat (max_pfn s)) (page_map s) (free_blocks s) A"
  using assms by (auto simp: buddy_inv_def)

lemma buddy_inv_head:
  assumes "buddy_inv s M A" "(p, k) \<in> free_blocks s \<union> A"
  shows "p \<le> unat (max_pfn s)" "k \<le> MAX_ORDER" "order (page_map s p) = of_nat k" "p + 2 ^ k \<le> M"
proof -
  note i = buddy_invD[OF assms(1)]
  show "p + 2 ^ k \<le> M" using tiling_bound[OF i(4) assms(2)] .
  moreover have "0 < (2::nat) ^ k" by simp
  ultimately show "p \<le> unat (max_pfn s)" using i(2) by linarith
  moreover show "k \<le> MAX_ORDER" using tiling_order[OF i(4) assms(2)] .
  ultimately show "order (page_map s p) = of_nat k" using heads_okD(1)[OF i(5)] assms(2) by blast
qed

lemma buddy_inv_del:
  assumes inv: "buddy_inv s M A" and pk: "(p, k) \<in> free_blocks s"
  obtains s' where "buddy_del_page s p = Some s'" and "buddy_inv s' M (insert (p, k) A)"
    and "free_blocks s' = free_blocks s - {(p, k)}"
    and "page_map s' = (page_map s)(p := (page_map s p)\<lparr>u32_flags := 0\<rparr>)"
    and "max_pfn s' = max_pfn s" and "page_start s' = page_start s"
proof -
  note i = buddy_invD[OF inv]
  note h = buddy_inv_head[OF inv, of p k]
  obtain s' where s': "buddy_del_page s p = Some s'" "lists_ok s'" "free_blocks s' = free_blocks s - {(p, k)}"
    "page_map s' = (page_map s)(p := (page_map s p)\<lparr>u32_flags := 0\<rparr>)"
    "max_pfn s' = max_pfn s" "page_start s' = page_start s"
    by (rule buddy_del_page_step[OF i(1), of p k]) (use h pk in auto)
  have "free_blocks s' \<union> insert (p, k) A = free_blocks s \<union> A" using pk s'(3) by auto
  then have "buddy_inv s' M (insert (p, k) A)"
    using i s' heads_ok_del[OF i(5,4,3) pk] by (auto simp: buddy_inv_def)
  then show ?thesis using that s' by blast
qed

lemma buddy_inv_add:
  assumes inv: "buddy_inv s M (insert (p, k) A)" and pk: "(p, k) \<notin> A"
  obtains s' where "buddy_add_page s p = Some s'" and "buddy_inv s' M A"
    and "free_blocks s' = insert (p, k) (free_blocks s)"
    and "max_pfn s' = max_pfn s" and "page_start s' = page_start s"
proof -
  note i = buddy_invD[OF inv]
  note h = buddy_inv_head[OF inv, of p k]
  obtain s' where s': "buddy_add_page s p = Some s'" "lists_ok s'" "free_blocks s' = insert (p, k) (free_blocks s)"
    "page_map s' = (page_map s)(p := (page_map s p)\<lparr>u32_flags := 1\<rparr>)"
    "max_pfn s' = max_pfn s" "page_start s' = page_start s"
    by (rule buddy_add_page_step[OF i(1), of p k]) (use h i(3) in auto)
  have "free_blocks s' \<union> A = free_blocks s \<union> insert (p, k) A" using s'(3) by auto
  then have "buddy_inv s' M A"
    using i s' pk heads_ok_add[OF i(5,4) pk] by (auto simp: buddy_inv_def)
  then show ?thesis using that s' by blast
qed

section \<open>Splitting\<close>

text \<open>
  While the loops run, the order field of the block being split or merged is
  stale: the invariant holds of the state in which it has its current order.
\<close>

definition with_order :: "buddy_system_t \<Rightarrow> nat \<Rightarrow> nat \<Rightarrow> buddy_system_t" where
  "with_order s p k = set_page s p ((page_map s p)\<lparr>order := of_nat k\<rparr>)"

lemma with_order_simps [simp]:
  "page_buddy (with_order s p k) = page_buddy s" "count (with_order s p k) = count s"
  "bitmap (with_order s p k) = bitmap s" "max_pfn (with_order s p k) = max_pfn s"
  "page_start (with_order s p k) = page_start s"
  "page_map (with_order s p k) = (page_map s)(p := (page_map s p)\<lparr>order := of_nat k\<rparr>)"
  by (simp_all add: with_order_def set_page_def)

lemma set_page_simps [simp]:
  "page_buddy (set_page s p v) = page_buddy s" "count (set_page s p v) = count s"
  "bitmap (set_page s p v) = bitmap s" "max_pfn (set_page s p v) = max_pfn s"
  "page_start (set_page s p v) = page_start s"
  "page_map (set_page s p v) = (page_map s)(p := v)"
  by (simp_all add: set_page_def)

lemma page_map_frame [simp]:
  "lists_ok (with_order s p k) = lists_ok s" "free_blocks (with_order s p k) = free_blocks s"
  "lists_ok (set_page s p v) = lists_ok s" "free_blocks (set_page s p v) = free_blocks s"
  by (simp_all add: lists_ok_def free_blocks_def)

lemma with_order_same: "order (page_map s p) = of_nat k \<Longrightarrow> with_order s p k = s"
  by (simp add: with_order_def set_page_def fun_upd_idem)

lemma page_split_step:
  assumes inv: "buddy_inv (with_order s p (Suc i)) M (insert (p, Suc i) A)" and new: "(p, Suc i) \<notin> A"
  obtains s' where "page_ref s (p + 2 ^ i) = Some (page_map s (p + 2 ^ i))"
    and "buddy_add_page (set_page s (p + 2 ^ i) ((page_map s (p + 2 ^ i))\<lparr>order := of_nat i\<rparr>)) (p + 2 ^ i) = Some s'"
    and "buddy_inv (with_order s' p i) M (insert (p, i) A)" and "(p, i) \<notin> A"
    and "free_blocks s' = insert (p + 2 ^ i, i) (free_blocks s)"
    and "max_pfn s' = max_pfn s" and "page_start s' = page_start s"
proof -
  let ?b = "p + 2 ^ i"
  note I = buddy_invD[OF inv]
  have i: "Suc i \<le> MAX_ORDER" "p + 2 ^ Suc i \<le> M" using buddy_inv_head[OF inv, of p "Suc i"] by auto
  have "1 \<le> (2::nat) ^ i" "(2::nat) ^ Suc i = 2 ^ i + 2 ^ i" "M \<le> Suc (unat (max_pfn s))" using I(2) by simp_all
  then have b: "?b \<le> unat (max_pfn s)" using i(2) by linarith
  have inner: "(?b, j) \<notin> free_blocks s" "(p, j) \<notin> free_blocks s" "(?b, j) \<notin> A" "(p, i) \<notin> A" for j
    using tiling_no_inner_head[OF I(4), of p "Suc i" ?b] tiling_head_unique[OF I(4), of p i "Suc i"]
      tiling_head_unique[OF I(4), of p j "Suc i"] new I(3) by auto
  let ?s = "set_page s ?b ((page_map s ?b)\<lparr>order := of_nat i\<rparr>)"
  obtain s' where s': "buddy_add_page ?s ?b = Some s'" "lists_ok s'" "free_blocks s' = insert (?b, i) (free_blocks ?s)"
     "page_map s' = (page_map ?s)(?b := (page_map ?s ?b)\<lparr>u32_flags := 1\<rparr>)"
    "max_pfn s' = max_pfn ?s" "page_start s' = page_start ?s"
    by (rule buddy_add_page_step[of ?s ?b i]) (use I i b inner in auto)
  have "heads_ok (unat (max_pfn s)) (page_map (with_order s' p i)) (insert (?b, i) (free_blocks s)) (insert (p, i) A)"
    by (rule heads_ok_split[OF I(5)[simplified page_map_frame with_order_simps(4)] I(4)[simplified page_map_frame] new])
      (use s' I(3) in auto)
  moreover have "tiling MAX_ORDER M (insert (?b, i) (free_blocks s) \<union> insert (p, i) A)"
    using tiling_split[of MAX_ORDER M p i "free_blocks s \<union> A"] I(3,4) new inner by (simp add: insert_commute)
  ultimately have "buddy_inv (with_order s' p i) M (insert (p, i) A)"
    using I s' inner by (auto simp: buddy_inv_def)
  then show ?thesis using that b s' inner by (simp add: page_ref_def)
qed

lemma page_split_loop_inv:
  assumes "buddy_inv (with_order s p i) M (insert (p, i) A)" and "(p, i) \<notin> A" and "j \<le> i"
  obtains s' where "page_split_loop s p (int i) (int j) = Some s'"
    and "buddy_inv (with_order s' p j) M (insert (p, j) A)" and "(p, j) \<notin> A"
    and "free_blocks s' = free_blocks s \<union> {(p + 2 ^ l, l) | l. j \<le> l \<and> l < i}"
    and "max_pfn s' = max_pfn s" and "page_start s' = page_start s"
  using assms
proof (induction i arbitrary: s thesis)
  case 0
  then show ?case by (simp add: page_split_loop.simps)
next
  case (Suc i)
  show ?case
  proof (cases "j = Suc i")
    case True
    then have "free_blocks s = free_blocks s \<union> {(p + 2 ^ l, l) | l. j \<le> l \<and> l < Suc i}" by auto
    with True show ?thesis using Suc.prems(1)[of s] Suc.prems(2,3) by (simp add: page_split_loop.simps)
  next
    case False
    then have j: "j \<le> i" using Suc.prems by simp
    obtain s1 where s1: "page_ref s (p + 2 ^ i) = Some (page_map s (p + 2 ^ i))"
      "buddy_add_page (set_page s (p + 2 ^ i) ((page_map s (p + 2 ^ i))\<lparr>order := of_nat i\<rparr>)) (p + 2 ^ i) = Some s1"
      "buddy_inv (with_order s1 p i) M (insert (p, i) A)" "(p, i) \<notin> A"
      "free_blocks s1 = insert (p + 2 ^ i, i) (free_blocks s)" "max_pfn s1 = max_pfn s" "page_start s1 = page_start s"
      by (rule page_split_step[OF Suc.prems(2,3)])
    obtain s' where s': "page_split_loop s1 p (int i) (int j) = Some s'"
      "buddy_inv (with_order s' p j) M (insert (p, j) A)" "(p, j) \<notin> A"
      "free_blocks s' = free_blocks s1 \<union> {(p + 2 ^ l, l) | l. j \<le> l \<and> l < i}"
      "max_pfn s' = max_pfn s1" "page_start s' = page_start s1"
      by (rule Suc.IH[OF _ s1(3,4) j])
    have "page_split_loop s p (int (Suc i)) (int j) = Some s'"
      using s1(1,2) s'(1) j by (subst page_split_loop.simps) (simp add: Let_def)
    moreover have "free_blocks s' = free_blocks s \<union> {(p + 2 ^ l, l) | l. j \<le> l \<and> l < Suc i}"
      using s'(4) s1(5) j by (auto simp: less_Suc_eq)
    ultimately show ?thesis using Suc.prems(1)[of s'] s' s1 by simp
  qed
qed


section \<open>Merging\<close>

text \<open>
  One round of the merge loop: the free buddy of order \<open>k\<close> leaves its list and
  the two halves become the block of order \<open>Suc k\<close> at the lower of the two.
\<close>

lemma buddy_xor_eq: "buddy_of (p, k) = (p XOR 2 ^ k, k)"
  by (simp add: buddy_of_def)

lemma page_merge_halves:
  assumes inv: "buddy_inv (with_order s p k) M (insert (q, k) (insert (q + 2 ^ k, k) A))"
    and p: "p = q \<or> p = q + 2 ^ k" and q: "2 ^ Suc k dvd q"
    and new: "(q, k) \<notin> A" "(q + 2 ^ k, k) \<notin> A" and k: "Suc k \<le> MAX_ORDER"
  shows "buddy_inv (with_order (set_page s (q + 2 ^ k) ((page_map s (q + 2 ^ k))\<lparr>order := INVALID_ORDER\<rparr>)) q (Suc k))
      M (insert (q, Suc k) A)" and "(q, Suc k) \<notin> A"
proof -
  let ?s = "set_page s (q + 2 ^ k) ((page_map s (q + 2 ^ k))\<lparr>order := INVALID_ORDER\<rparr>)"
  note I = buddy_invD[OF inv]
  have F: "(q, k) \<notin> free_blocks s" "(q + 2 ^ k, k) \<notin> free_blocks s" using I(3) by auto
  have hs: "(q, Suc k) \<notin> free_blocks s" "(q, Suc k) \<notin> A"
    using tiling_head_unique[OF I(4), of q k "Suc k"] by auto
  have "tiling MAX_ORDER M (insert (q, k) (insert (q + 2 ^ k, k) (free_blocks s \<union> A)))"
    using I(4) by (simp add: insert_commute)
  then have t: "tiling MAX_ORDER M (insert (q, Suc k) (free_blocks s \<union> A))"
    by (rule tiling_merge) (use F new k q in auto)
  have "page_map (with_order ?s q (Suc k)) =
    (page_map (with_order s p k))(q + 2 ^ k := (page_map (with_order s p k) (q + 2 ^ k))\<lparr>order := INVALID_ORDER\<rparr>,
      q := (page_map (with_order s p k) q)\<lparr>order := of_nat (Suc k)\<rparr>)"
    using p by auto
  then have "heads_ok (unat (max_pfn s)) (page_map (with_order ?s q (Suc k))) (free_blocks s) (insert (q, Suc k) A)"
    by (rule heads_ok_merge[OF I(5)[simplified page_map_frame with_order_simps(4)] I(4)[simplified page_map_frame] new F k, rotated])
  then show "buddy_inv (with_order ?s q (Suc k)) M (insert (q, Suc k) A)"
    using I t hs by (auto simp: buddy_inv_def simp del: with_order_simps(6))
  show "(q, Suc k) \<notin> A" by (rule hs)
qed

lemma buddy_del_page_with_order:
  assumes "p \<noteq> b" "buddy_del_page (with_order s p k) b = Some s'"
  obtains s1 where "buddy_del_page s b = Some s1" "s' = with_order s1 p k"
  using assms
  by (auto simp: buddy_del_page_def page_ref_def with_order_def set_page_def Let_def fun_upd_twist
      split: if_splits option.splits elim!: option_elims)

lemma of_nat_int_word: "(of_int (int k) :: 'a::len word) = of_nat k"
  by simp

lemma page_merge_round:
  assumes inv: "buddy_inv (with_order s p k) M (insert (p, k) A)" and new: "(p, k) \<notin> A"
    and b: "(p XOR 2 ^ k, k) \<in> free_blocks s" and M: "M < 2 ^ Suc MAX_ORDER"
  obtains s' q where "Suc k \<le> MAX_ORDER" and "buddy_del_page s (p XOR 2 ^ k) = Some s'"
    and "page_ref s' ((p XOR 2 ^ k) OR p) = Some (page_map s' ((p XOR 2 ^ k) OR p))"
    and "(p XOR 2 ^ k) AND p = q"
    and "buddy_inv (with_order (set_page s' ((p XOR 2 ^ k) OR p)
           ((page_map s' ((p XOR 2 ^ k) OR p))\<lparr>order := INVALID_ORDER\<rparr>)) q (Suc k)) M (insert (q, Suc k) A)"
    and "(q, Suc k) \<notin> A" and "free_blocks s' = free_blocks s - {(p XOR 2 ^ k, k)}"
    and "max_pfn s' = max_pfn s" and "page_start s' = page_start s"
proof -
  let ?b = "p XOR 2 ^ k"
  note I = buddy_invD[OF inv]
  have al: "2 ^ k dvd p" using tiling_aligned[OF I(4), of p k] by simp
  have pb: "p \<noteq> ?b" using b I(3) by auto
  have bf: "(?b, k) \<in> free_blocks (with_order s p k)" using b by simp
  obtain s1 where s1: "buddy_del_page (with_order s p k) ?b = Some s1"
     "buddy_inv s1 M (insert (?b, k) (insert (p, k) A))"
     "free_blocks s1 = free_blocks s - {(?b, k)}" "max_pfn s1 = max_pfn s" "page_start s1 = page_start s"
    by (rule buddy_inv_del[OF inv bf]) simp
  obtain s' where s': "buddy_del_page s ?b = Some s'" "s1 = with_order s' p k"
    using buddy_del_page_with_order[OF pb s1(1)] by blast
  have bA: "(?b, k) \<notin> A" using b I(3) by auto
  have inv1: "buddy_inv (with_order s' p k) M (insert (?b, k) (insert (p, k) A))" using s1(2) s'(2) by simp
  obtain q where q: "(p = q \<or> p = q + 2 ^ k)" "?b AND p = q" "?b OR p = q + 2 ^ k" "2 ^ Suc k dvd q"
     "insert (?b, k) (insert (p, k) A) = insert (q, k) (insert (q + 2 ^ k, k) A)" "(q, k) \<notin> A" "(q + 2 ^ k, k) \<notin> A"
    using al by (rule buddy_cases) (use new bA in \<open>auto simp: insert_commute\<close>)
  have inv2: "buddy_inv (with_order s' p k) M (insert (q, k) (insert (q + 2 ^ k, k) A))" using inv1 q(5) by simp
  have hd: "q + 2 ^ k \<le> unat (max_pfn (with_order s' p k))" "k \<le> MAX_ORDER" "q + 2 ^ k + 2 ^ k \<le> M"
    using buddy_inv_head[OF inv2, of "q + 2 ^ k" k] by auto
  have k: "Suc k \<le> MAX_ORDER"
  proof (rule ccontr)
    assume "\<not> Suc k \<le> MAX_ORDER"
    then have "k = MAX_ORDER" using hd(2) by simp
    then show False using hd(3) M by simp
  qed
  note mh = page_merge_halves[OF inv2 q(1,4,6,7) k]
  show ?thesis
    by (rule that[OF k s'(1) _ q(2)]) (use mh hd q(3) s' s1 in \<open>auto simp: page_ref_def\<close>)
qed

lemma page_merge_loop_inv:
  assumes "buddy_inv (with_order s p k) M (insert (p, k) A)" and "(p, k) \<notin> A" and "M < 2 ^ Suc MAX_ORDER"
  obtains s' q j where "page_merge_loop s p (int k) = Some (s', q, int j)"
    and "buddy_inv (with_order s' q j) M (insert (q, j) A)" and "(q, j) \<notin> A"
    and "buddy_of (q, j) \<notin> free_blocks s'" and "free_blocks s' \<subseteq> free_blocks s"
    and "max_pfn s' = max_pfn s" and "page_start s' = page_start s"
  using assms
proof (induction "MAX_ORDER - k" arbitrary: s p k thesis rule: less_induct)
  case less
  let ?b = "p XOR 2 ^ k"
  note I = buddy_invD[OF less.prems(2)]
  have k: "k \<le> MAX_ORDER" and ps: "p < Suc (unat (max_pfn s))"
    using buddy_inv_head[OF less.prems(2), of p k] by auto
  have "2 ^ k dvd p" using tiling_aligned[OF I(4), of p k] by simp
  then have pb: "p \<noteq> ?b" by (rule buddy_cases) auto
  show ?case
  proof (cases "(?b, k) \<in> free_blocks s")
    case False
    have "?b \<le> unat (max_pfn s) \<Longrightarrow> order (page_map s ?b) = of_nat k \<Longrightarrow> \<not> page_free (page_map s ?b)"
      using heads_okD[OF I(5), of ?b k] False k pb by auto
    then have "page_merge_loop s p (int k) = Some (s, p, int k)"
      using k by (subst page_merge_loop.simps) (auto simp: pfn_valid_def page_ref_def Let_def)
    then show ?thesis using less.prems False by (auto simp: buddy_xor_eq)
  next
    case True
    obtain s' q where r: "Suc k \<le> MAX_ORDER" "buddy_del_page s ?b = Some s'"
      "page_ref s' (?b OR p) = Some (page_map s' (?b OR p))" "?b AND p = q"
      "buddy_inv (with_order (set_page s' (?b OR p) ((page_map s' (?b OR p))\<lparr>order := INVALID_ORDER\<rparr>)) q (Suc k))
        M (insert (q, Suc k) A)" "(q, Suc k) \<notin> A"
      "free_blocks s' = free_blocks s - {(?b, k)}" "max_pfn s' = max_pfn s" "page_start s' = page_start s"
      by (rule page_merge_round[OF less.prems(2,3) True less.prems(4)])
    let ?s = "set_page s' (?b OR p) ((page_map s' (?b OR p))\<lparr>order := INVALID_ORDER\<rparr>)"
    have lt: "MAX_ORDER - Suc k < MAX_ORDER - k" using r(1) by simp
    obtain s2 q2 j where t: "page_merge_loop ?s q (int (Suc k)) = Some (s2, q2, int j)"
      "buddy_inv (with_order s2 q2 j) M (insert (q2, j) A)" "(q2, j) \<notin> A"
      "buddy_of (q2, j) \<notin> free_blocks s2" "free_blocks s2 \<subseteq> free_blocks ?s"
      "max_pfn s2 = max_pfn ?s" "page_start s2 = page_start ?s"
      by (rule less.hyps[OF lt _ r(5,6) less.prems(4)])
    have bb: "?b \<le> unat (max_pfn s)" "order (page_map s ?b) = of_nat k" "page_free (page_map s ?b)"
      using buddy_inv_head[OF less.prems(2), of ?b k] True pb heads_okD(2)[OF I(5), of ?b] by auto
    have "page_merge_loop s p (int k) = Some (s2, q2, int j)"
      using k bb r(2,3,4) t(1) by (subst page_merge_loop.simps) (simp add: pfn_valid_def page_ref_def Let_def add.commute)
    then show ?thesis by (rule less.prems(1)) (use t r in auto)
  qed
qed

section \<open>Allocation\<close>

text \<open>
  \<open>buddy_ok s A\<close>: the blocks \<open>A\<close> are handed out and tile all pages together with the
  free ones, and the pages lie in the address space without wrap-around.
\<close>

definition buddy_ok :: "buddy_system_t \<Rightarrow> block set \<Rightarrow> bool" where
  "buddy_ok s A \<longleftrightarrow> buddy_inv s (Suc (unat (max_pfn s))) A \<and>
     page_start s \<noteq> 0 \<and> unat (page_start s) mod PAGE_SIZE = 0 \<and>
     Suc (unat (max_pfn s)) * PAGE_SIZE \<le> 2 ^ 63 \<and>
     unat (page_start s) + Suc (unat (max_pfn s)) * PAGE_SIZE \<le> 2 ^ 64"

lemma buddy_ok_inv: "buddy_ok s A \<Longrightarrow> buddy_inv s (Suc (unat (max_pfn s))) A"
  by (simp add: buddy_ok_def)

lemma buddy_ok_frame:
  assumes "buddy_ok s A" "buddy_inv s' (Suc (unat (max_pfn s))) A'" "max_pfn s' = max_pfn s" "page_start s' = page_start s"
  shows "buddy_ok s' A'"
  using assms by (simp add: buddy_ok_def)

lemma buddy_alloc_order_least:
  assumes "0 < unat cnt" "unat cnt \<le> 2 ^ 63"
  obtains k where "buddy_alloc_order cnt = int k" and "unat cnt \<le> 2 ^ k" and "\<forall>j. unat cnt \<le> 2 ^ j \<longrightarrow> k \<le> j"
proof -
  have "cnt \<noteq> 0" using assms by auto
  then obtain j where j: "buddy_fls_sizet cnt = int j" "j < 64" "2 ^ j \<le> unat cnt" "unat cnt < 2 ^ Suc j"
    by (rule buddy_fls_sizet_nat)
  let ?x = "cnt + (2 ^ j - 1)"
  have m: "unat (2 ^ j - 1 :: u64) = 2 ^ j - 1"
    using j(2) by (simp add: unat_sub word_le_nat_alt)
  have "(2::nat) ^ 64 = 2 ^ 63 + 2 ^ 63" and pj: "1 \<le> (2::nat) ^ j" by simp_all
  then have "unat cnt + (2 ^ j - 1) < 2 ^ 64" using j(3) assms by linarith
  then have x: "unat ?x = unat cnt + (2 ^ j - 1)" by (subst unat_word_ariths) (simp add: m)
  have least: "i \<le> l" if "unat cnt \<le> 2 ^ l" "2 ^ i < 2 * unat cnt" for i l :: nat
  proof -
    have "(2::nat) ^ i < 2 ^ Suc l" using that by simp
    then have "i < Suc l" by (simp only: power_strict_increasing_iff)
    then show ?thesis by simp
  qed
  show ?thesis
  proof (cases "unat cnt = 2 ^ j")
    case True
    have "2 ^ j \<le> unat ?x" "unat ?x < 2 ^ Suc j" using x True pj unfolding power_Suc by linarith+
    then have "buddy_fls_sizet ?x = int j" by (rule buddy_fls_sizet_unique)
    then show ?thesis using True j least by (intro that[of j]) (auto simp: buddy_alloc_order_def)
  next
    case False
    then have "2 ^ Suc j \<le> unat ?x" "unat ?x < 2 ^ Suc (Suc j)" using x j(3,4) pj unfolding power_Suc by linarith+
    then have "buddy_fls_sizet ?x = int (Suc j)" by (rule buddy_fls_sizet_unique)
    then show ?thesis using False j least[of _ "Suc j"] by (intro that[of "Suc j"]) (auto simp: buddy_alloc_order_def)
  qed
qed

lemma lists_ok_last:
  assumes "lists_ok s" "k \<le> MAX_ORDER" "page_buddy s ! k \<noteq> []"
  shows "(last (page_buddy s ! k), k) \<in> free_blocks s"
  using assms by (simp add: free_blocks_def)

lemma buddy_locate_free_spec:
  assumes ok: "lists_ok s" and k: "k \<le> MAX_ORDER"
  shows "(buddy_locate_free s (int k) = Some None \<and> (\<forall>(q, j) \<in> free_blocks s. j < k)) \<or>
         (\<exists>q j. buddy_locate_free s (int k) = Some (Some q) \<and> (q, j) \<in> free_blocks s \<and> k \<le> j)"
proof -
  have l: "length (page_buddy s) = Suc MAX_ORDER" "length (count s) = Suc MAX_ORDER"
    and c: "unat (count s ! k) = length (page_buddy s ! k)"
    and bm: "\<And>j. bit (bitmap s) j \<longleftrightarrow> j \<le> MAX_ORDER \<and> page_buddy s ! j \<noteq> []"
    using ok k by (auto simp: lists_ok_def)
  have e: "page_buddy s ! k = [] \<longleftrightarrow> count s ! k = 0"
    using c by (metis length_0_conv unat_eq_zero)
  let ?bm = "bitmap s AND push_bit k (- 1)"
  have b: "bit ?bm j \<longleftrightarrow> k \<le> j \<and> j \<le> MAX_ORDER \<and> page_buddy s ! j \<noteq> []" for j
    using bm[of j] by (auto simp: bit_and_iff bit_not_iff bit_mask_iff)
  consider (here) "page_buddy s ! k \<noteq> []" | (none) "page_buddy s ! k = []" "?bm = 0"
    | (up) "page_buddy s ! k = []" "?bm \<noteq> 0" by blast
  then show ?thesis
  proof cases
    case here
    then show ?thesis using lists_ok_last[OF ok k] e l k
      by (auto simp: buddy_locate_free_def buddy_locate_free_def)
  next
    case none
    have "\<forall>(q, j) \<in> free_blocks s. j < k"
      using b none by (auto simp: free_blocks_def not_le[symmetric])
    then show ?thesis using none e l k by (simp add: buddy_locate_free_def buddy_locate_free_def Let_def)
  next
    case up
    obtain j where j: "buddy_ffs_sizet ?bm = int j" "bit ?bm j"
      using up(2) by (rule buddy_ffs_sizet_lowest)
    then show ?thesis using up e l k b[of j] lists_ok_last[OF ok, of j]
      by (auto simp: buddy_locate_free_def buddy_locate_free_def Let_def)
  qed
qed

lemma of_nat_order_less [simp]:
  "k \<le> 20 \<Longrightarrow> j \<le> 20 \<Longrightarrow> (of_nat k :: u32) < of_nat j \<longleftrightarrow> k < j"
  by (simp add: word_less_nat_alt)

lemma page_prepare_used_spec:
  assumes inv: "buddy_inv s M A" and q: "(q, j) \<in> free_blocks s" and k: "k \<le> j"
  obtains s' where "page_prepare_used s q (int k) = Some (s', page_to_ptr s q)"
    and "buddy_inv s' M (insert (q, k) A)" and "(q, k) \<notin> A"
    and "free_blocks s' = (free_blocks s - {(q, j)}) \<union> {(q + 2 ^ l, l) | l. k \<le> l \<and> l < j}"
    and "max_pfn s' = max_pfn s" and "page_start s' = page_start s"
proof -
  note h = buddy_inv_head[OF inv, of q j]
  obtain s1 where s1: "buddy_del_page s q = Some s1" "buddy_inv s1 M (insert (q, j) A)"
    "free_blocks s1 = free_blocks s - {(q, j)}" "page_map s1 = (page_map s)(q := (page_map s q)\<lparr>u32_flags := 0\<rparr>)"
    "max_pfn s1 = max_pfn s" "page_start s1 = page_start s"
    by (rule buddy_inv_del[OF inv q])
  have o: "order (page_map s1 q) = of_nat j" "q \<le> unat (max_pfn s1)" "j \<le> 20" using h q s1 by auto
  then have w: "buddy_inv (with_order s1 q j) M (insert (q, j) A)" using s1(2) by (simp add: with_order_same)
  have nA: "(q, j) \<notin> A" using q buddy_invD(3)[OF inv] by auto
  obtain s2 where s2: "page_split_loop s1 q (int j) (int k) = Some s2"
    "buddy_inv (with_order s2 q k) M (insert (q, k) A)" "(q, k) \<notin> A"
    "free_blocks s2 = free_blocks s1 \<union> {(q + 2 ^ l, l) | l. k \<le> l \<and> l < j}"
    "max_pfn s2 = max_pfn s1" "page_start s2 = page_start s1"
    by (rule page_split_loop_inv[OF w nA k])
  show ?thesis
  proof (cases "k = j")
    case True
    then have "page_prepare_used s q (int k) = Some (s1, page_to_ptr s q)"
      using s1(1,6) o by (simp add: page_prepare_used_def page_ref_def page_to_ptr_def)
    note pp = this
    have "{(q + 2 ^ l, l) | l. k \<le> l \<and> l < j} = {}" using True by auto
    then have fb: "free_blocks s1 = (free_blocks s - {(q, j)}) \<union> {(q + 2 ^ l, l) | l. k \<le> l \<and> l < j}"
      using s1(3) by (simp only: Un_empty_right)
    show ?thesis by (rule that[OF pp _ _ fb s1(5,6)]) (use True s1(2) nA in simp_all)
  next
    case False
    then have "page_split s1 q (int k) = Some (with_order s2 q k)"
      using s2(1,5) o by (simp add: page_split_def page_ref_def with_order_def)
    then have "page_prepare_used s q (int k) = Some (with_order s2 q k, page_to_ptr s q)"
      using False s1(1,6) s2(6) o k by (simp add: page_prepare_used_def page_ref_def page_to_ptr_def)
    then show ?thesis by (rule that) (use s1(3,5,6) s2(2-6) in simp_all)
  qed
qed

lemma buddy_alloc_page_spec:
  assumes ok: "buddy_ok s A" and cnt: "0 < unat cnt" "unat cnt \<le> 2 ^ MAX_ORDER"
  obtains (none) "buddy_alloc_page s cnt = Some (s, 0)" "\<forall>(q, j) \<in> free_blocks s. 2 ^ j < unat cnt"
    | (some) s' p k j where "buddy_alloc_page s cnt = Some (s', page_to_ptr s p)"
      and "unat cnt \<le> 2 ^ k" and "\<forall>i. unat cnt \<le> 2 ^ i \<longrightarrow> k \<le> i" and "(p, k) \<notin> A" and "buddy_ok s' (insert (p, k) A)"
      and "(p, j) \<in> free_blocks s" and "k \<le> j"
      and "free_blocks s' = (free_blocks s - {(p, j)}) \<union> {(p + 2 ^ l, l) | l. k \<le> l \<and> l < j}"
      and "max_pfn s' = max_pfn s" and "page_start s' = page_start s"
proof -
  note inv = buddy_ok_inv[OF ok]
  have nz: "cnt \<noteq> 0" and le: "unat cnt \<le> 2 ^ 63" using cnt by auto
  obtain k where k: "buddy_alloc_order cnt = int k" "unat cnt \<le> 2 ^ k" "\<forall>j. unat cnt \<le> 2 ^ j \<longrightarrow> k \<le> j"
    using cnt(1) le by (rule buddy_alloc_order_least)
  have k20: "k \<le> MAX_ORDER" using k(3) cnt(2) by blast
  from buddy_locate_free_spec[OF buddy_invD(1)[OF inv] k20] show ?thesis
  proof
    assume l: "buddy_locate_free s (int k) = Some None \<and> (\<forall>(q, j) \<in> free_blocks s. j < k)"
    have "2 ^ j < unat cnt" if "(q, j) \<in> free_blocks s" for q j
    proof (rule ccontr)
      assume "\<not> 2 ^ j < unat cnt"
      then have "k \<le> j" using k(3) by simp
      moreover have "j < k" using l that by auto
      ultimately show False by simp
    qed
    then have "\<forall>(q, j) \<in> free_blocks s. 2 ^ j < unat cnt" by auto
    then show ?thesis using l k nz by (intro none) (simp add: buddy_alloc_page_def)
  next
    assume "\<exists>q j. buddy_locate_free s (int k) = Some (Some q) \<and> (q, j) \<in> free_blocks s \<and> k \<le> j"
    then obtain q j where l: "buddy_locate_free s (int k) = Some (Some q)" "(q, j) \<in> free_blocks s" "k \<le> j"
      by blast
    obtain s' where s': "page_prepare_used s q (int k) = Some (s', page_to_ptr s q)"
       "buddy_inv s' (Suc (unat (max_pfn s))) (insert (q, k) A)" "(q, k) \<notin> A"
       "free_blocks s' = (free_blocks s - {(q, j)}) \<union> {(q + 2 ^ l, l) | l. k \<le> l \<and> l < j}"
       "max_pfn s' = max_pfn s" "page_start s' = page_start s"
      by (rule page_prepare_used_spec[OF inv l(2,3)])
    have "buddy_alloc_page s cnt = Some (s', page_to_ptr s q)"
      using l s'(1) k(1) nz by (simp add: buddy_alloc_page_def)
    then show ?thesis
      by (rule some[OF _ k(2,3) s'(3) _ l(2,3) s'(4,5,6)]) (rule buddy_ok_frame[OF ok s'(2,5,6)])
  qed
qed

section \<open>Freeing\<close>

lemma page_from_to_ptr:
  assumes ok: "buddy_ok s A" and p: "p \<le> unat (max_pfn s)"
  shows "unat (page_to_ptr s p) = unat (page_start s) + p * PAGE_SIZE" and "page_to_ptr s p \<noteq> 0"
    and "page_from_ptr s (page_to_ptr s p) = Some p"
proof -
  have ps: "unat (page_start s) mod PAGE_SIZE = 0" "0 < unat (page_start s)"
     "Suc (unat (max_pfn s)) * PAGE_SIZE \<le> 2 ^ 63"
     "unat (page_start s) + Suc (unat (max_pfn s)) * PAGE_SIZE \<le> 2 ^ 64"
    using ok by (auto simp: buddy_ok_def unat_gt_0)
  have pl: "p * PAGE_SIZE < 2 ^ 63" "unat (page_start s) + p * PAGE_SIZE < 2 ^ 64" using ps(3,4) p by auto
  have un: "unat (of_nat (p * PAGE_SIZE) :: u64) = p * PAGE_SIZE" by (rule unat_of_nat_64) (use pl in simp)
  show u: "unat (page_to_ptr s p) = unat (page_start s) + p * PAGE_SIZE"
    unfolding page_to_ptr_def using pl(2) by (subst unat_word_ariths) (simp add: un del: of_nat_mult)
  then show "page_to_ptr s p \<noteq> 0" using ps(2) by auto
  have d: "page_to_ptr s p - page_start s = of_nat (p * PAGE_SIZE)" by (simp add: page_to_ptr_def)
  have "sint (of_nat (p * PAGE_SIZE) :: u64) = int (p * PAGE_SIZE)"
    using pl(1) by (intro sint_of_nat_64) simp
  then have "page_from_ptr s (page_to_ptr s p) = Some (nat (int (p * PAGE_SIZE) div int PAGE_SIZE))"
    unfolding page_from_ptr_def d Let_def using u ps(1) by (simp add: mod_add_eq)
  then show "page_from_ptr s (page_to_ptr s p) = Some p" by simp
qed

lemma buddy_free_page_spec:
  assumes ok: "buddy_ok s A" and p: "(p, k) \<in> A" and M: "Suc (unat (max_pfn s)) < 2 ^ Suc MAX_ORDER"
  obtains s' q j F where "buddy_free_page s (page_to_ptr s p) = Some s'" and "buddy_ok s' (A - {(p, k)})"
    and "free_blocks s' = insert (q, j) F" and "F \<subseteq> free_blocks s" and "buddy_of (q, j) \<notin> F"
    and "max_pfn s' = max_pfn s" and "page_start s' = page_start s"
proof -
  let ?A = "A - {(p, k)}"
  have A: "insert (p, k) ?A = A" "(p, k) \<notin> ?A" using p by auto
  note inv = buddy_ok_inv[OF ok]
  note h = buddy_inv_head[OF inv, of p k]
  have o: "order (page_map s p) = of_nat k" "p \<le> unat (max_pfn s)" "k \<le> 20" using h p by auto
  have nf: "\<not> page_free (page_map s p)" using heads_okD(3)[OF buddy_invD(5)[OF inv] p] .
  have w: "buddy_inv (with_order s p k) (Suc (unat (max_pfn s))) (insert (p, k) ?A)"
    using inv o A by (simp add: with_order_same)
  obtain s1 q j where s1: "page_merge_loop s p (int k) = Some (s1, q, int j)"
    "buddy_inv (with_order s1 q j) (Suc (unat (max_pfn s))) (insert (q, j) ?A)" "(q, j) \<notin> ?A"
    "buddy_of (q, j) \<notin> free_blocks s1" "free_blocks s1 \<subseteq> free_blocks s"
    "max_pfn s1 = max_pfn s" "page_start s1 = page_start s"
    by (rule page_merge_loop_inv[OF w A(2) M])
  have q: "q \<le> unat (max_pfn s1)" using buddy_inv_head[OF s1(2), of q j] by simp
  have m: "page_merge s p = Some (with_order s1 q j, q)"
    using s1(1) o q by (simp add: page_merge_def page_ref_def with_order_def)
  obtain s' where s': "buddy_add_page (with_order s1 q j) q = Some s'" "buddy_inv s' (Suc (unat (max_pfn s))) ?A"
    "free_blocks s' = insert (q, j) (free_blocks (with_order s1 q j))"
    "max_pfn s' = max_pfn (with_order s1 q j)" "page_start s' = page_start (with_order s1 q j)"
    by (rule buddy_inv_add[OF s1(2,3)])
  have "buddy_free_page s (page_to_ptr s p) = Some s'"
    using page_from_to_ptr[OF ok o(2)] o nf m s'(1) by (simp add: buddy_free_page_def page_ref_def)
  moreover have "buddy_ok s' ?A" by (rule buddy_ok_frame[OF ok s'(2)]) (use s' s1 in auto)
  ultimately show ?thesis by (rule that) (use s' s1 in auto)
qed

section \<open>No two free buddies\<close>

definition coalesced :: "buddy_system_t \<Rightarrow> bool" where
  "coalesced s \<longleftrightarrow> (\<forall>b \<in> free_blocks s. snd b < MAX_ORDER \<longrightarrow> buddy_of b \<notin> free_blocks s)"

lemma buddy_of_involution [simp]: "buddy_of (buddy_of b) = b"
  by (cases b) (simp add: buddy_of_def xor.assoc)

lemma coalesced_insert:
  assumes "\<forall>b \<in> F. snd b < m \<longrightarrow> buddy_of b \<notin> F" and "\<forall>b \<in> B. snd b < m \<longrightarrow> buddy_of b \<notin> F \<union> B"
  shows "\<forall>b \<in> F \<union> B. snd b < m \<longrightarrow> buddy_of b \<notin> F \<union> B"
proof (intro ballI impI)
  fix b assume b: "b \<in> F \<union> B" "snd b < m"
  show "buddy_of b \<notin> F \<union> B"
  proof (cases "b \<in> B")
    case False
    moreover have "buddy_of b \<notin> B"
      using assms(2) b False buddy_of_involution[of b] by (metis buddy_of_def snd_conv)
    ultimately show ?thesis using assms(1) b by auto
  qed (use assms(2) b in auto)
qed

lemma buddy_alloc_page_coalesced_aux:
  assumes ok: "buddy_ok s A" and c: "coalesced s" and j: "(p, j) \<in> free_blocks s" "k \<le> j"
    and F: "F = (free_blocks s - {(p, j)}) \<union> {(p + 2 ^ l, l) | l. k \<le> l \<and> l < j}"
    and pA: "\<And>l. (p, l) \<notin> F"
  shows "\<forall>b \<in> F. snd b < MAX_ORDER \<longrightarrow> buddy_of b \<notin> F"
  unfolding F
proof (rule coalesced_insert)
  have "2 ^ j dvd p" using tiling_aligned[OF buddy_invD(4)[OF buddy_ok_inv[OF ok]]] j by blast
  then have "buddy_of (p + 2 ^ l, l) = (p, l)" if "l < j" for l
  proof -
    have "2 ^ Suc l dvd p" using \<open>2 ^ j dvd p\<close> that by (meson Suc_leI dvd_trans le_imp_power_dvd)
    then show ?thesis using xor_pow2[of l "p + 2 ^ l"]
      by (auto simp: buddy_of_def)
  qed
  then show "\<forall>b\<in>{(p + 2 ^ l, l) |l. k \<le> l \<and> l < j}. snd b < MAX_ORDER \<longrightarrow>
       buddy_of b \<notin> free_blocks s - {(p, j)} \<union> {(p + 2 ^ l, l) |l. k \<le> l \<and> l < j}"
    using pA unfolding F by auto
qed (use c in \<open>auto simp: coalesced_def\<close>)

section \<open>Creation\<close>

text \<open>
  \<open>fill_ok s i n\<close>: the pages below \<open>i\<close> are tiled by free blocks, the \<open>n\<close> pages from \<open>i\<close> on
  are not yet part of any block.
\<close>

definition fill_ok :: "buddy_system_t \<Rightarrow> nat \<Rightarrow> nat \<Rightarrow> bool" where
  "fill_ok s i n \<longleftrightarrow> buddy_inv s i {} \<and> coalesced s \<and> i + n = Suc (unat (max_pfn s)) \<and>
     (\<forall>q. i \<le> q \<and> q \<le> unat (max_pfn s) \<longrightarrow> order (page_map s q) = INVALID_ORDER) \<and>
     (\<forall>k \<le> MAX_ORDER. 2 ^ k \<le> n \<longrightarrow> 2 ^ k dvd i) \<and>
     (\<forall>(p, k) \<in> free_blocks s. k < MAX_ORDER \<longrightarrow> n < 2 ^ k)"

lemma heads_ok_new:
  assumes h: "heads_ok m mp F {}" and i: "order (mp i) = INVALID_ORDER" and k: "k \<le> MAX_ORDER"
    and nF: "\<And>j. (i, j) \<notin> F" and im: "i \<le> m"
  shows "heads_ok m (mp(i := \<lparr>u32_flags = 1, order = of_nat k\<rparr>)) (insert (i, k) F) {}"
proof (rule heads_okI)
  fix p j assume "p \<le> m" "j \<le> MAX_ORDER"
  then show "order ((mp(i := \<lparr>u32_flags = 1, order = of_nat k\<rparr>)) p) = of_nat j \<longleftrightarrow> (p, j) \<in> insert (i, k) F \<or> (p, j) \<in> {}"
    using heads_okD(1)[OF h, of p j] nF k by auto
next
  fix p j assume "(p, j) \<in> insert (i, k) F"
  then show "page_free ((mp(i := \<lparr>u32_flags = 1, order = of_nat k\<rparr>)) p)"
    using heads_okD(2)[OF h, of p j] nF by (auto simp: page_free_def)
qed simp

lemma coalesced_new:
  assumes c: "coalesced s" and F: "free_blocks s' = insert (i, k) (free_blocks s)"
    and big: "\<forall>(p, j) \<in> free_blocks s. j < MAX_ORDER \<longrightarrow> j \<noteq> k" and nb: "buddy_of (i, k) \<noteq> (i, k)"
  shows "coalesced s'"
proof -
  have "buddy_of (i, k) \<notin> free_blocks s" if "k < MAX_ORDER"
    using big that by (auto simp: buddy_of_def)
  then have "\<forall>b \<in> free_blocks s \<union> {(i, k)}. snd b < MAX_ORDER \<longrightarrow> buddy_of b \<notin> free_blocks s \<union> {(i, k)}"
    using c nb by (intro coalesced_insert) (auto simp: coalesced_def)
  then show ?thesis by (simp add: coalesced_def F)
qed

lemma buddy_of_neq: "2 ^ k dvd p \<Longrightarrow> buddy_of (p, k) \<noteq> (p, k)"
  by (erule buddy_cases) (auto simp: buddy_of_def)

lemma buddy_fill_step:
  assumes f: "fill_ok s i n" and k: "k \<le> MAX_ORDER" "2 ^ k \<le> n" "k = MAX_ORDER \<or> n < 2 ^ Suc k"
  obtains s' where "page_ref s i = Some (page_map s i)"
    and "buddy_add_page (set_page s i ((page_map s i)\<lparr>order := of_nat k\<rparr>)) i = Some s'"
    and "fill_ok s' (i + 2 ^ k) (n - 2 ^ k)" and "max_pfn s' = max_pfn s" and "page_start s' = page_start s"
proof -
  have I: "lists_ok s" "tiling MAX_ORDER i (free_blocks s)" "heads_ok (unat (max_pfn s)) (page_map s) (free_blocks s) {}"
    and fi: "coalesced s" "i + n = Suc (unat (max_pfn s))" "2 ^ k dvd i"
    "\<And>q. i \<le> q \<Longrightarrow> q \<le> unat (max_pfn s) \<Longrightarrow> order (page_map s q) = INVALID_ORDER"
    "\<And>l. l \<le> MAX_ORDER \<Longrightarrow> 2 ^ l \<le> n \<Longrightarrow> 2 ^ l dvd i"
    "\<And>p l. (p, l) \<in> free_blocks s \<Longrightarrow> l < MAX_ORDER \<Longrightarrow> n < 2 ^ l"
    using f k by (auto simp: fill_ok_def buddy_inv_def)
  have p1: "1 \<le> (2::nat) ^ k" by simp
  then have i: "i \<le> unat (max_pfn s)" using fi(2) k(2) by linarith
  have nF: "(i, j) \<notin> free_blocks s" for j using tiling_head_bound[OF I(2), of i j] by auto
  let ?s = "set_page s i ((page_map s i)\<lparr>order := of_nat k\<rparr>)"
  obtain s' where s': "buddy_add_page ?s i = Some s'" "lists_ok s'" "free_blocks s' = insert (i, k) (free_blocks ?s)"
     "page_map s' = (page_map ?s)(i := (page_map ?s i)\<lparr>u32_flags := 1\<rparr>)"
    "max_pfn s' = max_pfn ?s" "page_start s' = page_start ?s"
    by (rule buddy_add_page_step[of ?s i k]) (use I i k nF in auto)
  have pm: "page_map s' = (page_map s)(i := \<lparr>u32_flags = 1, order = of_nat k\<rparr>)"
    using s'(4) by (cases "page_map s i") simp
  have "heads_ok (unat (max_pfn s)) (page_map s') (insert (i, k) (free_blocks s)) {}"
    unfolding pm using heads_ok_new[OF I(3) fi(4)[OF order_refl i] k(1) nF i] .
  then have inv: "buddy_inv s' (i + 2 ^ k) {}"
    using s' tiling_extend[OF I(2) k(1) fi(3)] fi(2) k(2) by (auto simp: buddy_inv_def)
  have ltk: "n < 2 ^ l \<Longrightarrow> l \<noteq> k" for l using k(2) by auto
  have co: "coalesced s'"
    by (rule coalesced_new[OF fi(1), of _ i k]) (use s' fi(6) ltk buddy_of_neq[OF fi(3)] in auto)
  have dv: "2 ^ l dvd i + 2 ^ k" if "l \<le> MAX_ORDER" "2 ^ l \<le> n - 2 ^ k" for l
  proof -
    have "2 ^ l dvd i" using fi(5)[of l] that by simp
    moreover have "l \<le> k"
    proof (rule ccontr)
      assume "\<not> l \<le> k"
      then have "(2::nat) ^ Suc k \<le> 2 ^ l" "k \<noteq> MAX_ORDER" using that(1) by (auto intro: power_increasing simp del: power_Suc)
      then show False using k(3) that(2) by linarith
    qed
    ultimately show ?thesis by (simp add: le_imp_power_dvd)
  qed
  have lb: "n - 2 ^ k < 2 ^ l" if "(p, l) \<in> insert (i, k) (free_blocks s)" "l < MAX_ORDER" for p l
    using fi(6)[of p l] that k p1 by (auto simp: less_imp_diff_less)
  have "fill_ok s' (i + 2 ^ k) (n - 2 ^ k)"
    unfolding fill_ok_def using lb s'(3)
    by (intro conjI inv co) (use dv s'(5) pm fi(2,4) k(2) p1 in auto)
  then show ?thesis using that i s' by (simp add: page_ref_def)
qed

lemma buddy_fill_ok:
  assumes "fill_ok s i (unat cnt)"
  obtains s' where "buddy_fill s i cnt = Some s'" and "fill_ok s' (Suc (unat (max_pfn s))) 0"
    and "max_pfn s' = max_pfn s" and "page_start s' = page_start s"
  using assms
proof (induction "unat cnt" arbitrary: s i cnt thesis rule: less_induct)
  case less
  show ?case
  proof (cases "cnt = 0")
    case True
    then have "i = Suc (unat (max_pfn s))" using less.prems(2) by (simp add: fill_ok_def)
    moreover have "buddy_fill s i cnt = Some s" using True by (subst buddy_fill.simps) simp
    ultimately show ?thesis using True less.prems(1)[of s] less.prems(2) by simp
  next
    case False
    obtain k where k: "(if int MAX_ORDER < buddy_fls_sizet cnt then int MAX_ORDER else buddy_fls_sizet cnt) = int k"
      "k \<le> MAX_ORDER" "2 ^ k \<le> unat cnt" "k = MAX_ORDER \<or> unat cnt < 2 ^ Suc k"
      using False by (rule buddy_fls_sizet_clamped)
    have nn: "0 \<le> buddy_fls_sizet cnt" using False by (rule buddy_fls_sizet_nat) simp
    obtain s1 where s1: "page_ref s i = Some (page_map s i)"
      "buddy_add_page (set_page s i ((page_map s i)\<lparr>order := of_nat k\<rparr>)) i = Some s1"
      "fill_ok s1 (i + 2 ^ k) (unat cnt - 2 ^ k)" "max_pfn s1 = max_pfn s" "page_start s1 = page_start s"
      by (rule buddy_fill_step[OF less.prems(2) k(2,3,4)])
    have u: "unat (cnt - 2 ^ k) = unat cnt - 2 ^ k" using k(2,3) by (simp add: unat_sub word_le_nat_alt)
    have lt: "unat (cnt - 2 ^ k) < unat cnt" using u False k(3) by (simp add: unat_gt_0)
    obtain s2 where s2: "buddy_fill s1 (i + 2 ^ k) (cnt - 2 ^ k) = Some s2" "fill_ok s2 (Suc (unat (max_pfn s1))) 0"
       "max_pfn s2 = max_pfn s1" "page_start s2 = page_start s1"
      by (rule less.hyps[OF lt, of s1 "i + 2 ^ k"]) (use s1(3) u in auto)
    have "buddy_fill s i cnt = Some s2"
      using False nn s1(1,2) s2(1) k(1) by (subst buddy_fill.simps) (simp add: Let_def)
    then show ?thesis by (rule less.prems(1)) (use s2 s1 in auto)
  qed
qed

lemma fill_ok_start:
  assumes "n \<noteq> 0" "unat n \<le> 2 ^ 51"
  shows "fill_ok ((buddy_new raw)\<lparr>page_start := a, max_pfn := n - 1,
     page_map := (\<lambda>i. if i < unat n then (page_map raw i)\<lparr>order := INVALID_ORDER\<rparr> else page_map raw i)\<rparr>) 0 (unat n)"
proof -
  let ?s = "(buddy_new raw)\<lparr>page_start := a, max_pfn := n - 1,
     page_map := (\<lambda>i. if i < unat n then (page_map raw i)\<lparr>order := INVALID_ORDER\<rparr> else page_map raw i)\<rparr>"
  have u: "unat (n - 1) = unat n - 1" "0 < unat n"
    using assms(1) by (simp_all add: unat_minus_one unat_gt_0)
  have e: "page_buddy ?s ! k = []" if "k \<le> MAX_ORDER" for k using that by (simp add: buddy_new_def del: replicate_Suc)
  then have F: "free_blocks ?s = {}" by (auto simp: free_blocks_def)
  have "lists_ok ?s" using u assms(2) e by (auto simp: lists_ok_def buddy_new_def simp del: replicate_Suc)
  moreover have "heads_ok (unat (max_pfn ?s)) (page_map ?s) {} {}"
    using u by (intro heads_okI) auto
  ultimately have "buddy_inv ?s 0 {}" using F by (simp add: buddy_inv_def tiling_empty)
  then show ?thesis using F u by (auto simp: fill_ok_def coalesced_def)
qed

text \<open>From three pages on, the page map leaves room for two more than alignment can cost.\<close>

lemma page_map_leaves_pages: "3 \<le> q \<Longrightarrow> (q * 24 + (2 ^ 12 - 1)) div 2 ^ 12 * 2 ^ 12 + 8192 \<le> 4096 * (q :: nat)"
  by (cases "q = 3") auto

text \<open>The layout \<^verbatim>\<open>buddy_create\<close> computes: header, page map, pages.\<close>

lemma buddy_create_layout:
  assumes sz: "12816 \<le> unat sz" "unat sz \<le> 2 ^ 63" and mem: "unat mem + unat sz < 2 ^ 64"
  obtains ms a n where "align_up (drop_bit PAGE_SHIFT (sz - sizeof_buddy_system_t) * sizeof_page_t) (of_nat PAGE_SIZE) = Some ms"
    and "align_ptr (mem + sizeof_buddy_system_t + ms) (of_nat PAGE_SIZE) = Some a"
    and "n = drop_bit PAGE_SHIFT (sz - sizeof_buddy_system_t - ms - (a - (mem + sizeof_buddy_system_t + ms)))"
    and "0 < unat n" and "unat n \<le> 2 ^ 51" and "unat a mod PAGE_SIZE = 0"
    and "unat mem + 528 + 24 * unat n \<le> unat a" and "unat a + unat n * PAGE_SIZE \<le> unat mem + unat sz"
    and "unat mem + unat sz < unat a + unat n * PAGE_SIZE + PAGE_SIZE"
proof -
  let ?sz1 = "sz - sizeof_buddy_system_t"
  have s1: "unat ?sz1 = unat sz - 528" using sz by (simp add: unat_sub word_le_nat_alt)
  let ?pc = "drop_bit PAGE_SHIFT ?sz1"
  have pc: "unat ?pc = (unat sz - 528) div 4096" by (simp add: unat_drop_bit s1)
  have m24: "unat (?pc * sizeof_page_t) = (unat sz - 528) div 4096 * 24"
    using sz by (simp add: unat_word_ariths pc)
  obtain ms where ms: "align_up (?pc * sizeof_page_t) (2 ^ 12) = Some ms"
     "unat ms = ((unat sz - 528) div 4096 * 24 + (2 ^ 12 - 1)) div 2 ^ 12 * 2 ^ 12"
    by (rule align_up_pow2[of 12 "?pc * sizeof_page_t"]) (use sz in \<open>auto simp: m24\<close>)
  have q: "4096 * ((unat sz - 528) div 4096) \<le> unat sz - 528" "3 \<le> (unat sz - 528) div 4096" using sz(1) by auto
  have msle: "unat ms + 8192 \<le> unat sz - 528" using page_map_leaves_pages[OF q(2)] ms(2) q(1) by linarith
  let ?m2 = "mem + sizeof_buddy_system_t + ms"
  have m1: "unat (mem + sizeof_buddy_system_t) = unat mem + 528" using mem sz by (simp add: unat_word_ariths)
  have m2: "unat ?m2 = unat mem + 528 + unat ms" using mem msle by (subst unat_add_64) (auto simp: m1)
  obtain a where a: "align_up ?m2 (2 ^ 12) = Some a" "unat a = (unat ?m2 + (2 ^ 12 - 1)) div 2 ^ 12 * 2 ^ 12"
    by (rule align_up_pow2[of 12 ?m2]) (use mem msle m2 in auto)
  have ale: "unat ?m2 \<le> unat a" "unat a < unat ?m2 + 4096" "unat a mod 4096 = 0" using a(2) by auto
  have d: "unat (a - ?m2) = unat a - unat ?m2" using ale by (simp add: unat_sub word_le_nat_alt)
  have z2: "unat (?sz1 - ms) = unat sz - 528 - unat ms" using msle s1 by (simp add: unat_sub word_le_nat_alt)
  have z3: "unat (?sz1 - ms - (a - ?m2)) = unat sz - 528 - unat ms - (unat a - unat ?m2)"
    using ale msle by (subst unat_diff_64) (auto simp: word_le_nat_alt d z2)
  define n where "n = drop_bit PAGE_SHIFT (?sz1 - ms - (a - ?m2))"
  have n: "unat n = (unat sz - 528 - unat ms - (unat a - unat ?m2)) div 4096" 
    unfolding n_def unat_drop_bit z3 by simp
  have nq: "unat n \<le> (unat sz - 528) div 4096" unfolding n by (intro div_le_mono) simp
  have "x \<le> (x + (2 ^ 12 - 1)) div 2 ^ 12 * 2 ^ 12" for x :: nat by simp
  from this[of "(unat sz - 528) div 4096 * 24"] have fits: "24 * unat n \<le> unat ms" using nq unfolding ms(2) by linarith
  have zb: "unat sz - 528 - unat ms - (unat a - unat ?m2) = unat mem + unat sz - unat a" "unat a + 4096 \<le> unat mem + unat sz"
    using ale msle m2 by linarith+
  have nb: "unat n * 4096 \<le> unat mem + unat sz - unat a" "unat mem + unat sz - unat a < unat n * 4096 + 4096"
    unfolding n zb(1) by simp_all
  show ?thesis
  proof (rule that[of ms a n])
    show "align_up (?pc * sizeof_page_t) (of_nat PAGE_SIZE) = Some ms" using ms(1) by simp
    show "align_ptr ?m2 (of_nat PAGE_SIZE) = Some a"
      using a(1) m2 by (auto simp: align_ptr_def align_up_def unat_eq_zero[symmetric])
    show "n = drop_bit PAGE_SHIFT (?sz1 - ms - (a - ?m2))" by (rule n_def)
    show "unat mem + 528 + 24 * unat n \<le> unat a" using fits ale(1) m2 by linarith
    show "0 < unat n" using nb zb by linarith
    have "unat n \<le> 2 ^ 63 div 4096" using nq div_le_mono[of "unat sz - 528" "2 ^ 63" 4096] sz(2) by linarith
    then show "unat n \<le> 2 ^ 51" by simp
    show "unat a mod PAGE_SIZE = 0" by (rule ale)
    show "unat a + unat n * PAGE_SIZE \<le> unat mem + unat sz" 
      "unat mem + unat sz < unat a + unat n * PAGE_SIZE + PAGE_SIZE" using nb zb by linarith+
  qed
qed


lemma buddy_create_spec:
  assumes mem0: "mem \<noteq> 0" and sz: "12816 \<le> unat sz" "unat sz \<le> 2 ^ 63" and mem: "unat mem + unat sz < 2 ^ 64"
  obtains s where "buddy_create raw mem sz = Some s" and "buddy_ok s {}" and "coalesced s"
    and "unat mem + 528 + 24 * Suc (unat (max_pfn s)) \<le> unat (page_start s)"
    and "unat (page_start s) + Suc (unat (max_pfn s)) * PAGE_SIZE \<le> unat mem + unat sz"
    and "unat mem + unat sz < unat (page_start s) + Suc (unat (max_pfn s)) * PAGE_SIZE + PAGE_SIZE"
proof -
  obtain ms a n where l: "align_up (drop_bit PAGE_SHIFT (sz - sizeof_buddy_system_t) * sizeof_page_t) (of_nat PAGE_SIZE) = Some ms"
    "align_ptr (mem + sizeof_buddy_system_t + ms) (of_nat PAGE_SIZE) = Some a"
    "n = drop_bit PAGE_SHIFT (sz - sizeof_buddy_system_t - ms - (a - (mem + sizeof_buddy_system_t + ms)))"
    "0 < unat n" "unat n \<le> 2 ^ 51" "unat a mod PAGE_SIZE = 0" "unat mem + 528 + 24 * unat n \<le> unat a"
    "unat a + unat n * PAGE_SIZE \<le> unat mem + unat sz" "unat mem + unat sz < unat a + unat n * PAGE_SIZE + PAGE_SIZE"
    by (rule buddy_create_layout[OF sz mem])
  let ?s = "(buddy_new raw)\<lparr>page_start := a, max_pfn := n - 1,
     page_map := (\<lambda>i. if i < unat n then (page_map raw i)\<lparr>order := INVALID_ORDER\<rparr> else page_map raw i)\<rparr>"
  have n0: "n \<noteq> 0" using l(4) by auto
  then have n1: "Suc (unat (n - 1)) = unat n" using l(4) by (simp add: unat_minus_one)
  obtain s where s: "buddy_fill ?s 0 n = Some s" "fill_ok s (Suc (unat (max_pfn ?s))) 0"
    "max_pfn s = max_pfn ?s" "page_start s = page_start ?s"
    using fill_ok_start[OF n0 l(5), of raw a] by (rule buddy_fill_ok)
  have "a AND mask PAGE_SHIFT = 0"
    using l(6) by (simp add: word_unat_eq_iff unat_take_bit flip: take_bit_eq_mask)
  moreover have "sz \<noteq> 0" using sz by auto
  ultimately have "buddy_create raw mem sz = Some s"
    using mem0 l(1,2) s(1) unfolding buddy_create_def l(3) by (simp add: Let_def buddy_new_def cong: if_cong)
  moreover have "buddy_ok s {}"
    using s l(4-8) mem sz n1 by (auto simp: buddy_ok_def fill_ok_def)
  moreover have "coalesced s" using s(2) by (simp add: fill_ok_def)
  ultimately show ?thesis by (rule that) (use s(3,4) n1 l(7,8,9) in simp_all)
qed

section \<open>The contract of the page allocator\<close>

definition block_region :: "buddy_system_t \<Rightarrow> block \<Rightarrow> region" where
  "block_region s b = (page_to_ptr s (fst b), 2 ^ snd b)"

definition page_regions :: "buddy_system_t \<Rightarrow> region set \<Rightarrow> bool" where
  "page_regions s R \<longleftrightarrow> Suc (unat (max_pfn s)) < 2 ^ Suc MAX_ORDER \<and>
     (\<exists>A. buddy_ok s A \<and> R = block_region s ` A)"

lemma buddy_ok_block:
  assumes "buddy_ok s A" "(p, k) \<in> A"
  shows "p \<le> unat (max_pfn s)" "p + 2 ^ k \<le> Suc (unat (max_pfn s))"
    "unat (page_to_ptr s p) = unat (page_start s) + p * PAGE_SIZE"
  using buddy_inv_head[OF buddy_ok_inv[OF assms(1)], of p k] page_from_to_ptr(1)[OF assms(1), of p] assms(2) by auto

lemma block_region_inj:
  assumes "buddy_ok s A" "b \<in> A" "c \<in> A" "block_region s b = block_region s c"
  shows "b = c"
proof -
  obtain p k q j where b: "b = (p, k)" "c = (q, j)" by (cases b, cases c) auto
  then show ?thesis
    using assms buddy_ok_block(3)[OF assms(1), of p k] buddy_ok_block(3)[OF assms(1), of q j]
    by (auto simp: block_region_def)
qed

lemma region_bytes_block:
  assumes "buddy_ok s A" "(p, k) \<in> A"
  shows "region_bytes (block_region s (p, k)) =
    {unat (page_start s) + p * PAGE_SIZE ..< unat (page_start s) + (p + 2 ^ k) * PAGE_SIZE}"
  using buddy_ok_block(3)[OF assms] by (simp add: region_bytes_def block_region_def algebra_simps)

lemma block_regions_disjoint:
  assumes ok: "buddy_ok s A" and b: "b \<in> A" "c \<in> A" "b \<noteq> c"
  shows "disjnt (region_bytes (block_region s b)) (region_bytes (block_region s c))"
proof -
  obtain p k q j where e: "b = (p, k)" "c = (q, j)" by (cases b, cases c) auto
  have d: "disjnt (pages_of b) (pages_of c)"
    using tiling_disjoint[OF buddy_invD(4)[OF buddy_ok_inv[OF ok]]] b by blast
  then have "max p q \<notin> pages_of b \<or> max p q \<notin> pages_of c" by (auto simp: disjnt_iff)
  then have "p + 2 ^ k \<le> q \<or> q + 2 ^ j \<le> p" using e by (auto simp: pages_of_def max_def split: if_splits)
  then have "(p + 2 ^ k) * PAGE_SIZE \<le> q * PAGE_SIZE \<or> (q + 2 ^ j) * PAGE_SIZE \<le> p * PAGE_SIZE"
    by (auto intro: mult_le_mono1)
  then show ?thesis
    using region_bytes_block[OF ok b(1)[unfolded e]] region_bytes_block[OF ok b(2)[unfolded e]] e
    by (auto simp: disjnt_iff)
qed

lemma page_regions_alloc:
  assumes "page_regions s R" "0 < unat cnt" "unat cnt \<le> 2 ^ MAX_ORDER"
  shows "buddy_alloc_page s cnt = Some (s, 0) \<or>
    (\<exists>s' a n. buddy_alloc_page s cnt = Some (s', a) \<and> unat cnt \<le> n \<and> (a, n) \<notin> R \<and> page_regions s' (insert (a, n) R))"
proof -
  obtain A where A: "buddy_ok s A" "R = block_region s ` A" and sz: "Suc (unat (max_pfn s)) < 2 ^ Suc MAX_ORDER"
    using assms(1) by (auto simp: page_regions_def)
  show ?thesis using A(1) assms(2,3)
  proof (cases rule: buddy_alloc_page_spec)
    case (some s' p k j)
    have r: "block_region s' = block_region s"
      using some(9,10) by (simp add: block_region_def page_to_ptr_def fun_eq_iff)
    have "page_regions s' (insert (block_region s (p, k)) R)"
      using some(5,9) sz A(2) r by (auto simp: page_regions_def intro!: exI[of _ "insert (p, k) A"])
    moreover have "block_region s (p, k) \<notin> R"
      using block_region_inj[OF some(5), of "(p, k)"] some(4) A(2) r by auto
    ultimately show ?thesis using some(1,2) by (auto simp: block_region_def)
  qed simp
qed

lemma page_regions_free:
  assumes "page_regions s R" "(a, n) \<in> R"
  shows "\<exists>s'. buddy_free_page s a = Some s' \<and> page_regions s' (R - {(a, n)})"
proof -
  obtain A where A: "buddy_ok s A" "R = block_region s ` A" and sz: "Suc (unat (max_pfn s)) < 2 ^ Suc MAX_ORDER"
    using assms(1) by (auto simp: page_regions_def)
  then obtain p k where p: "(p, k) \<in> A" "a = page_to_ptr s p" "block_region s (p, k) = (a, n)"
    using assms(2) by (auto simp: block_region_def)
  obtain s' where s': "buddy_free_page s a = Some s'" "buddy_ok s' (A - {(p, k)})" "max_pfn s' = max_pfn s" "page_start s' = page_start s"
    unfolding p(2) by (rule buddy_free_page_spec[OF A(1) p(1) sz])
  have r: "block_region s' = block_region s"
    using s' by (simp add: block_region_def page_to_ptr_def fun_eq_iff)
  have "inj_on (block_region s) A" by (rule inj_onI) (rule block_region_inj[OF A(1)])
  then have "R - {(a, n)} = block_region s ` (A - {(p, k)})"
    using inj_on_image_set_diff[of "block_region s" A A "{(p, k)}"] p(1,3) A(2) by simp
  then show ?thesis using s' sz r by (auto simp: page_regions_def)
qed

interpretation ba: page_allocator buddy_alloc_page buddy_free_page page_regions "2 ^ MAX_ORDER"
proof
  fix s R a n assume "page_regions s R" "(a, n) \<in> R"
  then obtain A p k where A: "buddy_ok s A" "(p, k) \<in> A" "a = page_to_ptr s p" "n = 2 ^ k"
    by (auto simp: page_regions_def block_region_def)
  note b = buddy_ok_block[OF A(1,2)] and f = page_from_to_ptr[OF A(1) buddy_ok_block(1)[OF A(1,2)]]
  have "(p + 2 ^ k) * PAGE_SIZE \<le> Suc (unat (max_pfn s)) * PAGE_SIZE" using b(2) by (intro mult_le_mono1)
  then show "a \<noteq> 0 \<and> unat a mod 4096 = 0 \<and> 0 < n \<and> unat a + n * 4096 \<le> 2 ^ 64"
    using A f(1,2) by (auto simp: buddy_ok_def algebra_simps)
next
  fix s R r r' assume "page_regions s R" "r \<in> R" "r' \<in> R" "r \<noteq> r'"
  then show "disjnt (region_bytes r) (region_bytes r')"
    by (auto simp: page_regions_def intro: block_regions_disjoint)
qed (use page_regions_alloc page_regions_free in auto)

section \<open>Runs\<close>

text \<open>
  The states a client can bring a system \<open>s0\<close> to, with the blocks it holds: it asks for at most
  \<open>2 ^ MAX_ORDER\<close> pages at a time and frees what it was given.
\<close>

inductive buddy_run :: "buddy_system_t \<Rightarrow> buddy_system_t \<Rightarrow> block set \<Rightarrow> bool" for s0 where
  start: "buddy_run s0 s0 {}"
| alloc: "buddy_run s0 s A \<Longrightarrow> 0 < unat cnt \<Longrightarrow> unat cnt \<le> 2 ^ MAX_ORDER \<Longrightarrow>
    buddy_alloc_page s cnt = Some (s', page_to_ptr s p) \<Longrightarrow> page_to_ptr s p \<noteq> 0 \<Longrightarrow> p \<le> unat (max_pfn s) \<Longrightarrow>
    buddy_run s0 s' (insert (p, nat (buddy_alloc_order cnt)) A)"
| free: "buddy_run s0 s A \<Longrightarrow> (p, k) \<in> A \<Longrightarrow> buddy_free_page s (page_to_ptr s p) = Some s' \<Longrightarrow>
    buddy_run s0 s' (A - {(p, k)})"

lemma buddy_alloc_page_coalesced:
  assumes ok: "buddy_ok s A" and c: "coalesced s" and cnt: "0 < unat cnt" "unat cnt \<le> 2 ^ MAX_ORDER"
    and r: "buddy_alloc_page s cnt = Some (s', page_to_ptr s p)" "page_to_ptr s p \<noteq> 0" "p \<le> unat (max_pfn s)"
  shows "buddy_ok s' (insert (p, nat (buddy_alloc_order cnt)) A)" "coalesced s'" "max_pfn s' = max_pfn s"
proof -
  from ok cnt have "buddy_ok s' (insert (p, nat (buddy_alloc_order cnt)) A) \<and> coalesced s' \<and> max_pfn s' = max_pfn s"
  proof (cases rule: buddy_alloc_page_spec)
    case none
    then show ?thesis using r by simp
  next
    case (some s2 q k j)
    have s2: "s2 = s'" "page_to_ptr s q = page_to_ptr s p" using some(1) r(1) by auto
    have "q \<le> unat (max_pfn s)" using buddy_inv_head(1)[OF buddy_ok_inv[OF ok], of q j] some(6) by simp
    then have q: "q = p" using s2(2) page_from_to_ptr(3)[OF ok] r(3) by (metis option.inject)
    obtain i where i: "buddy_alloc_order cnt = int i" "unat cnt \<le> 2 ^ i" "\<forall>j. unat cnt \<le> 2 ^ j \<longrightarrow> i \<le> j"
      by (rule buddy_alloc_order_least[OF cnt(1)]) (use cnt(2) in auto)
    have k: "nat (buddy_alloc_order cnt) = k" using i some(2,3) by (simp add: dual_order.antisym)
    have "(q, l) \<notin> free_blocks s'" for l
      using tiling_head_unique[OF buddy_invD(4)[OF buddy_ok_inv[OF some(5)]], of q l k]
        buddy_invD(3)[OF buddy_ok_inv[OF some(5)]] s2(1) by auto
    from buddy_alloc_page_coalesced_aux[OF ok c some(6,7) some(8)[unfolded s2(1)] this]
    have "coalesced s'" by (simp add: coalesced_def)
    then show ?thesis using some(5,9) s2(1) q k by simp
  qed
  then show "buddy_ok s' (insert (p, nat (buddy_alloc_order cnt)) A)" "coalesced s'" "max_pfn s' = max_pfn s" by auto
qed

lemma buddy_free_page_coalesced:
  assumes ok: "buddy_ok s A" and c: "coalesced s" and p: "(p, k) \<in> A" and M: "Suc (unat (max_pfn s)) < 2 ^ Suc MAX_ORDER"
    and r: "buddy_free_page s (page_to_ptr s p) = Some s'"
  shows "buddy_ok s' (A - {(p, k)})" "coalesced s'" "max_pfn s' = max_pfn s"
proof -
  obtain s2 q j F where f: "buddy_free_page s (page_to_ptr s p) = Some s2" "buddy_ok s2 (A - {(p, k)})"
    "free_blocks s2 = insert (q, j) F" "F \<subseteq> free_blocks s" "buddy_of (q, j) \<notin> F" "max_pfn s2 = max_pfn s" "page_start s2 = page_start s"
    by (rule buddy_free_page_spec[OF ok p M])
  have s2: "s2 = s'" using f(1) r by simp
  have "2 ^ j dvd q" using tiling_aligned[OF buddy_invD(4)[OF buddy_ok_inv[OF f(2)]], of q j] f(3) by simp
  then have "buddy_of (q, j) \<notin> F \<union> {(q, j)}" using f(5) buddy_of_neq by simp
  then have "\<forall>b \<in> F \<union> {(q, j)}. snd b < MAX_ORDER \<longrightarrow> buddy_of b \<notin> F \<union> {(q, j)}"
    using c f(4) by (intro coalesced_insert) (auto simp: coalesced_def)
  then show "coalesced s'" using f(3) s2 by (simp add: coalesced_def)
  show "buddy_ok s' (A - {(p, k)})" "max_pfn s' = max_pfn s" using f s2 by auto
qed

lemma buddy_run_ok:
  assumes "buddy_run s0 s A" "buddy_ok s0 {}" "coalesced s0" "Suc (unat (max_pfn s0)) < 2 ^ Suc MAX_ORDER"
  shows "buddy_ok s A \<and> coalesced s \<and> max_pfn s = max_pfn s0"
  using assms
proof (induction rule: buddy_run.induct)
  case (alloc s A cnt s' p)
  then show ?case using buddy_alloc_page_coalesced[of s A cnt s' p] by simp
next
  case (free s A p k s')
  then show ?case using buddy_free_page_coalesced[of s A p k s'] by simp
qed simp

lemma buddy_all_free_unique:
  assumes "buddy_ok s {}" "coalesced s" "buddy_ok s' {}" "coalesced s'" "max_pfn s' = max_pfn s"
  shows "free_blocks s' = free_blocks s"
  using coalesced_tiling_unique[of MAX_ORDER "Suc (unat (max_pfn s))" "free_blocks s'" "free_blocks s"]
    buddy_invD(4)[OF buddy_ok_inv[OF assms(1)]] buddy_invD(4)[OF buddy_ok_inv[OF assms(3)]] assms
  by (simp add: coalesced_def)

section \<open>A small system\<close>

text \<open>Four pages at \<open>0x80200000\<close>, one free block of order 2.\<close>

definition four_pages :: buddy_system_t where
  "four_pages = \<lparr>page_buddy = [[], [], [0]] @ replicate 18 [], count = [0, 0, 1] @ replicate 18 0, bitmap = 4,
     page_start = 0x80200000, max_pfn = 3,
     page_map = (\<lambda>p. if p = 0 then \<lparr>u32_flags = 1, order = 2\<rparr> else \<lparr>u32_flags = 0, order = INVALID_ORDER\<rparr>)\<rparr>"

text \<open>The same system with its block handed out.\<close>

definition four_pages_used :: buddy_system_t where
  "four_pages_used = four_pages\<lparr>page_buddy := replicate 21 [], count := replicate 21 0, bitmap := 0,
     page_map := (\<lambda>p. if p = 0 then \<lparr>u32_flags = 0, order = 2\<rparr> else \<lparr>u32_flags = 0, order = INVALID_ORDER\<rparr>)\<rparr>"

lemma nth_at: "k < Suc n \<Longrightarrow> ([[], [], [0::nat]] @ replicate 18 []) ! k = (if k = 2 then [0] else [])" if "n = 20"
  using that by (auto simp: less_Suc_eq numeral_eq_Suc)

lemma four_pages_free_blocks: "free_blocks four_pages = {(0, 2)}"
proof -
  have "page_buddy four_pages ! k = (if k = 2 then [0] else [])" if "k \<le> 20" for k
    using that nth_at[of 20 k] by (simp add: four_pages_def)
  then show ?thesis by (auto simp: free_blocks_def split: if_splits)
qed

lemma four_pages_tiling: "tiling MAX_ORDER 4 {(0, 2)}"
  by (auto simp: tiling_def pages_of_def)

lemma word_order_2 [simp]: "k \<le> 20 \<Longrightarrow> (2 :: u32) = of_nat k \<longleftrightarrow> k = 2"
  using of_nat_order_inj[of 2 k] by auto

lemma four_pages_ok: "buddy_ok four_pages {}" "coalesced four_pages"
proof -
  have l: "page_buddy four_pages ! k = (if k = 2 then [0] else [])" "count four_pages ! k = (if k = 2 then 1 else 0)" if "k \<le> 20" for k
    using that nth_at[of 20 k] by (auto simp: four_pages_def less_Suc_eq_le[symmetric] less_Suc_eq numeral_eq_Suc)
  have b: "bit (bitmap four_pages) k \<longleftrightarrow> k = 2" for k using bit_2p[of 2 k] by (simp add: four_pages_def)
  have "length (page_buddy four_pages) = 21" "length (count four_pages) = 21" "unat (max_pfn four_pages) = 3"
    by (simp_all add: four_pages_def)
  then have "lists_ok four_pages" using l b by (auto simp: lists_ok_def split: if_splits)
  moreover have "heads_ok 3 (page_map four_pages) {(0, 2)} {}"
    by (rule heads_okI) (auto simp: four_pages_def page_free_def)
  ultimately show "buddy_ok four_pages {}"
    using four_pages_tiling four_pages_free_blocks by (simp add: buddy_ok_def buddy_inv_def) (simp add: four_pages_def)
  show "coalesced four_pages" by (simp add: coalesced_def four_pages_free_blocks buddy_of_def)
qed

lemma four_pages_used_ok: "buddy_ok four_pages_used {(0, 2)}"
proof -
  have l: "page_buddy four_pages_used ! k = []" "count four_pages_used ! k = 0" if "k \<le> 20" for k
    using that by (simp_all add: four_pages_used_def)
  have F: "free_blocks four_pages_used = {}" using l by (auto simp: free_blocks_def)
  have "lists_ok four_pages_used" using l by (auto simp: lists_ok_def) (auto simp: four_pages_used_def four_pages_def)
  moreover have "heads_ok 3 (page_map four_pages_used) {} {(0, 2)}"
    by (rule heads_okI) (auto simp: four_pages_used_def page_free_def)
  ultimately show ?thesis
    using four_pages_tiling F by (simp add: buddy_ok_def buddy_inv_def) (simp add: four_pages_used_def four_pages_def)
qed

lemma buddy_alloc_one:
  assumes ok: "buddy_ok s A" and f: "free_blocks s \<noteq> {}"
  obtains s' p where "buddy_alloc_page s 1 = Some (s', page_to_ptr s p)" and "page_to_ptr s p \<noteq> 0"
    and "buddy_ok s' (insert (p, 0) A)" and "(p, 0) \<notin> A" and "p \<le> unat (max_pfn s)"
    and "max_pfn s' = max_pfn s" and "page_start s' = page_start s"
proof -
  have c: "0 < unat (1 :: u64)" "unat (1 :: u64) \<le> 2 ^ MAX_ORDER" by simp_all
  from ok c show thesis
  proof (cases rule: buddy_alloc_page_spec)
    case none
    then show ?thesis using f by auto
  next
    case (some s' p k j)
    have k: "k = 0" using some(3) by (metis le_zero_eq power_0 unsigned_1 order_refl)
    have p: "p \<le> unat (max_pfn s)" using buddy_inv_head(1)[OF buddy_ok_inv[OF ok], of p j] some(6) by simp
    show ?thesis by (rule that[OF some(1) page_from_to_ptr(2)[OF ok p] _ _ p some(9,10)]) (use some(4,5) k in auto)
  qed
qed

lemma four_pages_two_allocs:
  obtains s1 a1 s2 a2 where "buddy_alloc_page four_pages 1 = Some (s1, a1)" and "page_regions s1 {(a1, 1)}"
    and "buddy_alloc_page s1 1 = Some (s2, a2)" and "a2 \<noteq> 0"
proof -
  obtain s1 p where s1: "buddy_alloc_page four_pages 1 = Some (s1, page_to_ptr four_pages p)" "buddy_ok s1 {(p, 0)}"
    "max_pfn s1 = max_pfn four_pages" "page_start s1 = page_start four_pages"
    by (rule buddy_alloc_one[OF four_pages_ok(1)]) (use four_pages_free_blocks in auto)
  have m: "unat (max_pfn s1) = 3" using s1(3) by (simp add: four_pages_def)
  have "page_regions s1 {(page_to_ptr four_pages p, 1)}"
    unfolding page_regions_def using s1 m by (auto simp: block_region_def page_to_ptr_def intro!: exI[of _ "{(p, 0)}"])
  moreover have "free_blocks s1 \<noteq> {}"
  proof
    assume "free_blocks s1 = {}"
    then have t: "tiling MAX_ORDER 4 {(p, 0)}" using buddy_invD(4)[OF buddy_ok_inv[OF s1(2)]] m by simp
    then have "card (\<Union> (pages_of ` {(p, 0)})) = card {0 ..< 4 :: nat}" unfolding tiling_def by metis
    then show False by (simp add: pages_of_def)
  qed
  from buddy_alloc_one[OF s1(2) this] obtain s2 a2 where "buddy_alloc_page s1 1 = Some (s2, a2)" "a2 \<noteq> 0" by metis
  ultimately show ?thesis using that s1(1) by blast
qed

section \<open>Properties\<close>

text \<open>C1: \<^verbatim>\<open>buddy_alloc_page\<close> for up to \<open>2 ^ MAX_ORDER\<close> pages never stops the
  kernel. Either it returns the null pointer, leaves the system as it is, and every free block is indeed too
  small; or it returns the address of a block of the least order that holds the request, which is disjoint from
  all blocks in use, and the system is consistent with that block in use as well.\<close>

theorem buddy_alloc_page_correct:
  assumes "buddy_ok s A" "0 < unat cnt" "unat cnt \<le> 2 ^ MAX_ORDER"
  shows "(buddy_alloc_page s cnt = Some (s, 0) \<and> (\<forall>(q, j) \<in> free_blocks s. 2 ^ j < unat cnt)) \<or>
    (\<exists>s' p k. buddy_alloc_page s cnt = Some (s', page_to_ptr s p) \<and> page_to_ptr s p \<noteq> 0 \<and>
       unat cnt \<le> 2 ^ k \<and> (\<forall>i. unat cnt \<le> 2 ^ i \<longrightarrow> k \<le> i) \<and>
       p + 2 ^ k \<le> Suc (unat (max_pfn s)) \<and> 2 ^ k dvd p \<and>
       (\<forall>b \<in> A. disjnt (pages_of (p, k)) (pages_of b)) \<and> buddy_ok s' (insert (p, k) A))"
  using assms
proof (cases rule: buddy_alloc_page_spec)
  case (some s' p k j)
  note i = buddy_invD(4)[OF buddy_ok_inv[OF some(5)]]
  have h: "p \<le> unat (max_pfn s)" "p + 2 ^ k \<le> Suc (unat (max_pfn s))"
    using buddy_inv_head[OF buddy_ok_inv[OF some(5)], of p k] some(9) by auto
  have "disjnt (pages_of (p, k)) (pages_of b)" if "b \<in> A" for b
    using tiling_disjoint[OF i, of "(p, k)" b] that some(4) by auto
  then show ?thesis
    using some(1-3,5) h(2) tiling_aligned[OF i, of p k] page_from_to_ptr(2)[OF assms(1) h(1)] by blast
qed simp

theorem buddy_alloc_page_correct_witness:
  "\<exists>s' p k. buddy_alloc_page four_pages 3 = Some (s', page_to_ptr four_pages p) \<and> 3 \<le> (2::nat) ^ k \<and>
     buddy_ok s' {(p, k)}"
  using buddy_alloc_page_correct[of four_pages "{}" 3] four_pages_ok(1) four_pages_free_blocks by fastforce

text \<open>C2: \<^verbatim>\<open>buddy_free_page\<close> of a block in use, on a system of fewer than
  \<open>2 ^ (MAX_ORDER + 1)\<close> pages, never stops the kernel and gives a consistent system in which exactly that block
  is no longer in use.\<close>

theorem buddy_free_page_correct:
  assumes "buddy_ok s A" "(p, k) \<in> A" "Suc (unat (max_pfn s)) < 2 ^ Suc MAX_ORDER"
  shows "\<exists>s'. buddy_free_page s (page_to_ptr s p) = Some s' \<and> buddy_ok s' (A - {(p, k)}) \<and>
    max_pfn s' = max_pfn s \<and> page_start s' = page_start s"
  by (rule buddy_free_page_spec[OF assms]) blast

theorem buddy_free_page_correct_witness:
  "\<exists>s'. buddy_free_page four_pages_used 0x80200000 = Some s' \<and> buddy_ok s' {}"
proof -
  have "unat (max_pfn four_pages_used) = 3" "page_to_ptr four_pages_used 0 = 0x80200000"
    by (simp_all add: four_pages_used_def four_pages_def page_to_ptr_def)
  then show ?thesis using buddy_free_page_correct[OF four_pages_used_ok, of 0 2] by auto
qed

text \<open>C28: \<^verbatim>\<open>buddy_create\<close> on a memory region that does not wrap around and holds at least
  12816 bytes returns a consistent system with nothing in use and no two free buddies. The system header and the page
  map lie before the first page, all pages lie in the region, and less than one page of its end is left unused.\<close>

theorem buddy_create_correct:
  assumes "mem \<noteq> 0" "12816 \<le> unat sz" "unat sz \<le> 2 ^ 63" "unat mem + unat sz < 2 ^ 64"
  shows "\<exists>s. buddy_create raw mem sz = Some s \<and> buddy_ok s {} \<and> coalesced s \<and>
    unat mem + 528 + 24 * Suc (unat (max_pfn s)) \<le> unat (page_start s) \<and>
    unat (page_start s) + Suc (unat (max_pfn s)) * PAGE_SIZE \<le> unat mem + unat sz \<and>
    unat mem + unat sz < unat (page_start s) + Suc (unat (max_pfn s)) * PAGE_SIZE + PAGE_SIZE"
  by (rule buddy_create_spec[OF assms, where raw = raw]) blast

theorem buddy_create_correct_witness:
  "\<exists>s. buddy_create four_pages 0x80200000 0x100000 = Some s \<and> buddy_ok s {} \<and> coalesced s"
  using buddy_create_correct[of "0x80200000" "0x100000" four_pages] by auto

text \<open>C27: whatever a client allocates and frees, the system stays consistent with the blocks the
  client holds, free buddies are always merged, and when everything has been given back the free blocks are
  exactly those of the fresh system: no run of the allocator fragments memory for good.\<close>

theorem buddy_run_consistent:
  assumes "buddy_create raw mem sz = Some s0" "mem \<noteq> 0" "12816 \<le> unat sz" "unat sz \<le> 2 ^ 63" "unat mem + unat sz < 2 ^ 64"
    and "Suc (unat (max_pfn s0)) < 2 ^ Suc MAX_ORDER" and "buddy_run s0 s A"
  shows "buddy_ok s A \<and> coalesced s \<and> (A = {} \<longrightarrow> free_blocks s = free_blocks s0)"
proof -
  have s0: "buddy_ok s0 {}" "coalesced s0"
    using assms(1) by (auto intro: buddy_create_spec[OF assms(2-5), where raw = raw])
  note r = buddy_run_ok[OF assms(7) s0 assms(6)]
  then show ?thesis using buddy_all_free_unique[OF s0] by auto
qed

theorem buddy_run_consistent_witness:
  "\<exists>s0 s1 s2 a. buddy_create four_pages 0x80200000 0x100000 = Some s0 \<and>
     buddy_alloc_page s0 1 = Some (s1, a) \<and> buddy_free_page s1 a = Some s2 \<and> free_blocks s2 = free_blocks s0"
proof -
  obtain s0 where s0: "buddy_create four_pages 0x80200000 0x100000 = Some s0" "buddy_ok s0 {}"
     "unat (0x80200000 :: u64) + 528 + 24 * Suc (unat (max_pfn s0)) \<le> unat (page_start s0)"
     "unat (page_start s0) + Suc (unat (max_pfn s0)) * PAGE_SIZE \<le> unat (0x80200000 :: u64) + unat (0x100000 :: u64)"
    by (rule buddy_create_spec[where mem = "0x80200000" and sz = "0x100000" and raw = four_pages]) simp_all
  then have N: "Suc (unat (max_pfn s0)) < 2 ^ Suc MAX_ORDER" by simp
  have "free_blocks s0 \<noteq> {}"
    using tiling_cover[OF buddy_invD(4)[OF buddy_ok_inv[OF s0(2)]], of 0] by auto
  then obtain s1 p where s1: "buddy_alloc_page s0 1 = Some (s1, page_to_ptr s0 p)" "page_to_ptr s0 p \<noteq> 0"
     "buddy_ok s1 {(p, 0)}" "p \<le> unat (max_pfn s0)" "max_pfn s1 = max_pfn s0" "page_start s1 = page_start s0"
    by (rule buddy_alloc_one[OF s0(2)])
  have ptr: "page_to_ptr s1 p = page_to_ptr s0 p" using s1(6) by (simp add: page_to_ptr_def)
  obtain s2 where s2: "buddy_free_page s1 (page_to_ptr s1 p) = Some s2"
    by (rule buddy_free_page_spec[OF s1(3), of p 0]) (use N s1(5) in auto)
  obtain k where k: "buddy_alloc_order 1 = int k" "\<forall>j. unat (1 :: u64) \<le> 2 ^ j \<longrightarrow> k \<le> j"
    by (rule buddy_alloc_order_least[of 1]) simp_all
  from k(2)[THEN spec, of 0] have "nat (buddy_alloc_order 1) = 0" using k(1) by simp
  then have "buddy_run s0 s1 {(p, 0)}"
    using buddy_run.alloc[OF buddy_run.start _ _ s1(1,2,4)] by simp
  then have "buddy_run s0 s2 {}" using buddy_run.free[OF _ _ s2, of _ "{(p, 0)}" 0] by simp
  from buddy_run_consistent[OF s0(1) _ _ _ _ N this] show ?thesis using s0(1) s1(1) s2 ptr by auto
qed

text \<open>The address contract clients rely on: while the regions \<open>R\<close> are in use, the bytes of a
  newly allocated run of pages belong to none of them.\<close>

lemma buddy_alloc_page_fresh:
  assumes "page_regions s R" "0 < unat cnt" "unat cnt \<le> 2 ^ MAX_ORDER" "buddy_alloc_page s cnt = Some (s', a)" "a \<noteq> 0" "r \<in> R"
  shows "disjnt {unat a ..< unat a + unat cnt * PAGE_SIZE} (region_bytes r)"
  using assms by (rule ba.alloc_fresh)

lemma buddy_alloc_page_fresh_witness:
  "\<exists>s1 a1 s2 a2. buddy_alloc_page four_pages 1 = Some (s1, a1) \<and> buddy_alloc_page s1 1 = Some (s2, a2) \<and>
     disjnt {unat a2 ..< unat a2 + 4096} {unat a1 ..< unat a1 + 4096}"
proof -
  obtain s1 a1 s2 a2 where "buddy_alloc_page four_pages 1 = Some (s1, a1)" "page_regions s1 {(a1, 1)}"
    "buddy_alloc_page s1 1 = Some (s2, a2)" "a2 \<noteq> 0"
    by (rule four_pages_two_allocs)
  then show ?thesis using buddy_alloc_page_fresh[of s1 "{(a1, 1)}" 1 s2 a2 "(a1, 1)"]
    by (auto simp: region_bytes_def)
qed

text \<open>Freeing a page that is already free changes nothing.\<close>

lemma buddy_double_free:
  assumes "buddy_ok s A" "(p, k) \<in> free_blocks s"
  shows "buddy_free_page s (page_to_ptr s p) = Some s"
  using buddy_inv_head(1)[OF buddy_ok_inv[OF assms(1)], of p k] assms(2) page_from_to_ptr[OF assms(1), of p]
    heads_okD(2)[OF buddy_invD(5)[OF buddy_ok_inv[OF assms(1)]] assms(2)]
  by (simp add: buddy_free_page_def page_ref_def)

lemma buddy_double_free_witness:
  "buddy_free_page four_pages (page_to_ptr four_pages 0) = Some four_pages"
  using buddy_double_free[OF four_pages_ok(1), of 0 2] four_pages_free_blocks by simp

section \<open>Where the allocator stops the kernel\<close>

text \<open>Twice \<open>2 ^ MAX_ORDER\<close> pages, the first half free, the second in use.\<close>

definition two_max_blocks :: buddy_system_t where
  "two_max_blocks = \<lparr>page_buddy = replicate 20 [] @ [[0]], count = replicate 20 0 @ [1], bitmap = 2 ^ 20,
     page_start = 0x80200000, max_pfn = 2 ^ 21 - 1,
     page_map = (\<lambda>p. if p = 0 then \<lparr>u32_flags = 1, order = 20\<rparr>
                      else if p = 2 ^ 20 then \<lparr>u32_flags = 0, order = 20\<rparr>
                      else \<lparr>u32_flags = 0, order = INVALID_ORDER\<rparr>)\<rparr>"

lemma word_order_20 [simp]: "k \<le> 20 \<Longrightarrow> (20 :: u32) = of_nat k \<longleftrightarrow> k = 20"
  using of_nat_order_inj[of 20 k] by auto

lemma two_max_blocks_free: "free_blocks two_max_blocks = {(0, 20)}"
  by (auto simp: free_blocks_def two_max_blocks_def nth_append split: if_splits)

lemma two_max_blocks_ok: "buddy_ok two_max_blocks {(2 ^ 20, 20)}"
proof -
  have l: "page_buddy two_max_blocks ! k = (if k = 20 then [0] else [])" "count two_max_blocks ! k = (if k = 20 then 1 else 0)"
    if "k \<le> 20" for k using that by (auto simp: two_max_blocks_def nth_append)
  have b: "bit (bitmap two_max_blocks) k \<longleftrightarrow> k = 20" for k using bit_2p[of 20 k] by (simp add: two_max_blocks_def)
  have m: "length (page_buddy two_max_blocks) = 21" "length (count two_max_blocks) = 21" "unat (max_pfn two_max_blocks) = 2 ^ 21 - 1"
    by (simp_all add: two_max_blocks_def)
  then have lo: "lists_ok two_max_blocks" using l b by (auto simp: lists_ok_def split: if_splits)
  have "heads_ok (2 ^ 21 - 1) (page_map two_max_blocks) {(0, 20)} {(2 ^ 20, 20)}"
    by (rule heads_okI) (auto simp: two_max_blocks_def page_free_def)
  moreover have "tiling MAX_ORDER (2 ^ 21) {(0, 20), (2 ^ 20, 20)}"
    by (auto simp: tiling_def pages_of_def pairwise_def disjnt_iff)
  ultimately show ?thesis
    using lo two_max_blocks_free m by (simp add: buddy_ok_def buddy_inv_def insert_commute) (simp add: two_max_blocks_def)
qed

text \<open>C29: the bound on the number of pages in C2 is needed. With \<open>2 ^ (MAX_ORDER + 1)\<close> pages, freeing the second block of
  order \<open>MAX_ORDER\<close> merges it with the first into a block of order \<open>MAX_ORDER + 1\<close>, and
  \<^verbatim>\<open>buddy_add_page\<close> then indexes the free lists out of bounds: the loop of
  \<^verbatim>\<open>page_merge\<close> tests \<open>order <= MAX_ORDER\<close> where it needs \<open>order < MAX_ORDER\<close>.\<close>

theorem buddy_free_page_order_overflow:
  "buddy_ok two_max_blocks {(2 ^ 20, 20)} \<and> buddy_free_page two_max_blocks (page_to_ptr two_max_blocks (2 ^ 20)) = None"
proof
  let ?s = two_max_blocks
  show ok: "buddy_ok ?s {(2 ^ 20, 20)}" by (rule two_max_blocks_ok)
  have m: "unat (max_pfn ?s) = 2 ^ 21 - 1" by (simp add: two_max_blocks_def)
  have x: "(2 ^ 20 :: nat) XOR 2 ^ 20 = 0" "(0 :: nat) OR 2 ^ 20 = 2 ^ 20" "(0 :: nat) AND 2 ^ 20 = 0" by simp_all
  obtain s' where d: "buddy_del_page ?s 0 = Some s'" "max_pfn s' = max_pfn ?s"
     "buddy_inv s' (Suc (unat (max_pfn ?s))) {(0, 20), (2 ^ 20, 20)}"
    by (rule buddy_inv_del[OF buddy_ok_inv[OF ok], of 0 20]) (use two_max_blocks_free in auto)
  have len: "length (page_buddy s') = 21" using buddy_invD(1)[OF d(3)] by (simp add: lists_ok_def)
  have "page_merge_loop s'' 0 21 = Some (s'', 0, 21)" for s'' by (subst page_merge_loop.simps) simp
  then have "page_merge_loop ?s (2 ^ 20) 20 = Some (set_page s' (2 ^ 20) ((page_map s' (2 ^ 20))\<lparr>order := INVALID_ORDER\<rparr>), 0, 21)"
    using d(1,2) x m by (subst page_merge_loop.simps) (simp add: pfn_valid_def page_ref_def page_free_def two_max_blocks_def Let_def)
  then obtain s1 where "page_merge ?s (2 ^ 20) = Some (s1, 0)" "order (page_map s1 0) = 21" "length (page_buddy s1) = 21"
      "max_pfn s1 = max_pfn ?s"
    using d(2) m len by (simp add: page_merge_def page_ref_def two_max_blocks_def)
  moreover have "\<not> page_free (page_map ?s (2 ^ 20))" by (simp add: two_max_blocks_def page_free_def)
  ultimately show "buddy_free_page ?s (page_to_ptr ?s (2 ^ 20)) = None"
    using page_from_to_ptr[OF ok, of "2 ^ 20"] m
    by (simp add: buddy_free_page_def page_ref_def buddy_add_page_def arr_geti_def)
qed

text \<open>A request for more than \<open>2 ^ MAX_ORDER\<close> pages is not refused: its order is used as an index of the
  free lists, which ends before it.\<close>

lemma buddy_alloc_page_too_big:
  assumes "buddy_ok s A" "2 ^ MAX_ORDER < unat cnt" "unat cnt \<le> 2 ^ 63"
  shows "buddy_alloc_page s cnt = None"
proof -
  obtain k where k: "buddy_alloc_order cnt = int k" "unat cnt \<le> 2 ^ k"
    by (rule buddy_alloc_order_least[of cnt]) (use assms in auto)
  have "\<not> k \<le> MAX_ORDER"
    using k(2) assms(2) power_increasing[of k MAX_ORDER "2::nat"] by linarith
  moreover have "length (page_buddy s) = Suc MAX_ORDER"
    using buddy_invD(1)[OF buddy_ok_inv[OF assms(1)]] by (simp add: lists_ok_def)
  moreover have "cnt \<noteq> 0" using assms by auto
  ultimately show ?thesis using k(1)
    by (simp add: buddy_alloc_page_def buddy_locate_free_def arr_geti_def)
qed

lemma buddy_alloc_page_too_big_witness: "buddy_alloc_page four_pages 0x100001 = None"
  using buddy_alloc_page_too_big[OF four_pages_ok(1), of "0x100001"] by simp

end
