(* ===== verification/Mem_Pool_Invariant.thy ===== *)
theory Mem_Pool_Invariant
  imports Mem_Pool
begin

text \<open>
  The correctness of the small-object allocator. Its invariant relates the free lists and the
  headers to the blocks of the pages it owns; the blocks in use are those in no free list.
\<close>

section \<open>Size classes\<close>

definition class_shift :: "nat \<Rightarrow> nat" where
  "class_shift i = min i 2"

definition class_size :: "pool_ptr \<Rightarrow> nat" where
  "class_size pp = 2 ^ (fst pp + 4) + 2 ^ (fst pp + 4 - class_shift (fst pp)) * snd pp"

definition class_valid :: "pool_ptr \<Rightarrow> bool" where
  "class_valid pp \<longleftrightarrow> fst pp < 8 \<and> snd pp < 2 ^ class_shift (fst pp)"

lemma pool_shift_nat: "pool_shift (int (i + 4)) = int (class_shift i)"
  by (simp add: pool_shift_def class_shift_def)

lemma class_index_bound: "class_valid pp \<Longrightarrow> fst pp < 8 \<and> snd pp < 4"
proof -
  assume v: "class_valid pp"
  have "(2::nat) ^ class_shift (fst pp) \<le> 2 ^ 2" by (rule power_increasing) (auto simp: class_shift_def)
  then show ?thesis using v by (auto simp: class_valid_def)
qed

lemma class_valid_cases:
  assumes "class_valid (i, j)"
  shows "(i, j) \<in> set (List.product [0 ..< 8] [0 ..< 4])"
  using class_index_bound[OF assms] by simp

lemma class_size_facts:
  assumes "class_valid pp"
  shows "16 \<le> class_size pp" "class_size pp \<le> 3584" "16 dvd class_size pp"
proof -
  obtain i j where pp: "pp = (i, j)" by (cases pp)
  have "i \<in> set [0 ..< 8]" "j \<in> set [0 ..< 4]" using class_index_bound[OF assms] pp by auto
  then have "i \<in> {0, 1, 2, 3, 4, 5, 6, 7} \<and> j \<in> {0, 1, 2, 3}" by (auto simp: upt_rec)
  then have "16 \<le> class_size pp \<and> class_size pp \<le> 3584 \<and> 16 dvd class_size pp"
    using assms unfolding pp by (auto simp: class_size_def class_valid_def class_shift_def)
  then show "16 \<le> class_size pp" "class_size pp \<le> 3584" "16 dvd class_size pp" by auto
qed

text \<open>A size with highest bit \<open>i + 4\<close> that is a multiple of the class step is the size of its class.\<close>

lemma class_size_of:
  assumes n: "2 ^ (i + 4) \<le> n" "n < 2 ^ Suc (i + 4)" and d: "2 ^ (i + 4 - class_shift i) dvd n"
  shows "class_size (i, n div 2 ^ (i + 4 - class_shift i) mod 2 ^ class_shift i) = n"
    and "n div 2 ^ (i + 4 - class_shift i) mod 2 ^ class_shift i < 2 ^ class_shift i"
proof -
  let ?s = "class_shift i" and ?st = "2 ^ (i + 4 - class_shift i) :: nat"
  obtain q where q: "n = ?st * q" using d by blast
  have p: "(2::nat) ^ (i + 4) = ?st * 2 ^ ?s" by (simp add: class_shift_def flip: power_add)
  have "?st * 2 ^ ?s \<le> ?st * q" "?st * q < ?st * (2 * 2 ^ ?s)" using n unfolding q power_Suc p by linarith+
  then have b: "2 ^ ?s \<le> q" "q < 2 * 2 ^ ?s" by (simp_all only: nat_mult_le_cancel_disj nat_mult_less_cancel_disj zero_less_power)
  then have "q mod 2 ^ ?s = q - 2 ^ ?s" by (simp add: mod_if le_mod_geq)
  then show "class_size (i, n div ?st mod 2 ^ ?s) = n"
    using q p b by (simp add: class_size_def diff_mult_distrib2)
qed simp

lemma class_round_up:
  assumes "i < 8" "2 ^ (i + 4) \<le> z" "z < 2 ^ Suc (i + 4)" "z \<le> 3584"
  defines "st \<equiv> 2 ^ (i + 4 - class_shift i) :: nat"
  shows "z \<le> (z + (st - 1)) div st * st" "(z + (st - 1)) div st * st \<le> 3584" "st dvd (z + (st - 1)) div st * st"
    "(z + (st - 1)) div st * st \<le> 2 ^ Suc (i + 4)" "4 * ((z + (st - 1)) div st * st) \<le> 5 * z + 60"
proof -
  have "i \<in> {0, 1, 2, 3, 4, 5, 6, 7}" using assms(1) by auto
  then have "z \<le> (z + (st - 1)) div st * st \<and> (z + (st - 1)) div st * st \<le> 3584 \<and>
    (z + (st - 1)) div st * st \<le> 2 ^ Suc (i + 4) \<and> 4 * ((z + (st - 1)) div st * st) \<le> 5 * z + 60"
    using assms(2-4) unfolding st_def by (elim insertE) (auto simp: class_shift_def)
  then show "z \<le> (z + (st - 1)) div st * st" "(z + (st - 1)) div st * st \<le> 3584"
    "(z + (st - 1)) div st * st \<le> 2 ^ Suc (i + 4)" "4 * ((z + (st - 1)) div st * st) \<le> 5 * z + 60" by auto
  show "st dvd (z + (st - 1)) div st * st" by simp
qed

text \<open>What \<^verbatim>\<open>adjust_request_size\<close> returns: the least multiple of the class step.\<close>

lemma adjust_request_size_spec:
  assumes "unat sz \<le> 3584"
  obtains a i where "adjust_request_size sz = Some a" and "max 16 (unat sz) \<le> unat a" and "unat a \<le> 3584"
    and "i < 8" and "2 ^ (i + 4) \<le> unat a" and "unat a < 2 ^ Suc (i + 4)" and "2 ^ (i + 4 - class_shift i) dvd unat a"
    and "4 * unat a \<le> 5 * max 16 (unat sz) + 60"
proof -
  define z where "z = (if sz < 16 then 16 else sz)"
  have z: "unat z = max 16 (unat sz)" by (simp add: z_def word_less_nat_alt)
  then have "z \<noteq> 0" by auto
  then obtain l where l: "buddy_fls_sizet z = int l" "2 ^ l \<le> unat z" "unat z < 2 ^ Suc l"
    by (rule buddy_fls_sizet_nat)
  have z3: "16 \<le> unat z" "unat z \<le> 3584" using z assms by auto
  have l4: "4 \<le> l"
  proof (rule ccontr)
    assume "\<not> 4 \<le> l" then have "(2::nat) ^ Suc l \<le> 2 ^ 4" by (intro power_increasing) auto
    then show False using l z3 by simp
  qed
  have l11: "l < 12"
  proof (rule ccontr)
    assume "\<not> l < 12" then have "(2::nat) ^ 12 \<le> 2 ^ l" by (intro power_increasing) auto
    then show False using l z3 by simp
  qed
  obtain i where i: "l = i + 4" using l4 by (metis add.commute le_Suc_ex)
  let ?k = "i + 4 - class_shift i"
  have sh: "pool_shift (buddy_fls_sizet z) = int (class_shift i)" unfolding l(1) i by (rule pool_shift_nat)
  have k: "nat (buddy_fls_sizet z - pool_shift (buddy_fls_sizet z)) = ?k"
    unfolding sh unfolding l(1) i by (simp add: class_shift_def nat_diff_distrib)
  have i8: "i < 8" using l11 i by simp
  obtain a where a: "align_up z (2 ^ ?k) = Some a" "unat a = (unat z + (2 ^ ?k - 1)) div 2 ^ ?k * 2 ^ ?k"
  proof (rule align_up_pow2[of ?k z])
    have "(2::nat) ^ ?k \<le> 2 ^ 12" using i8 by (intro power_increasing) auto
    then show "unat z + 2 ^ ?k \<le> 2 ^ 64" using z3 by simp
  qed (use i8 in auto)
  note c = class_round_up[OF i8 l(2)[unfolded i] l(3)[unfolded i] z3(2), folded a(2)]
  have adj: "adjust_request_size sz = Some a"
    unfolding adjust_request_size_def Let_def z_def[symmetric] k using a(1) by simp
  show ?thesis
  proof (cases "unat a = 2 ^ Suc (i + 4)")
    case True
    then have "i < 7" using c(2) i8 by (cases "i = 7") auto
    then show ?thesis using True c z3 z adj by (intro that[of a "Suc i"]) (auto simp: le_imp_power_dvd)
  next
    case False
    moreover have "2 ^ (i + 4) \<le> unat a" using l(2)[unfolded i] c(1) by linarith
    ultimately show ?thesis using c z3 z adj i8 by (intro that[of a i]) auto
  qed
qed

section \<open>Blocks and pages\<close>

definition page_base :: "u64 \<Rightarrow> u64" where
  "page_base b = b AND NOT (mask 12)"

lemma unat_page_base: "unat (page_base b) = unat b div 4096 * 4096"
  by (simp add: page_base_def unat_and_not_mask)

lemma page_base_idem: "unat h mod 4096 = 0 \<Longrightarrow> page_base h = h"
  by (simp add: word_unat_eq_iff unat_page_base mod_0_imp_dvd)

lemma header_from_block_base:
  assumes "unat b mod 4096 \<noteq> 0"
  shows "header_from_block b = Some (page_base b)"
proof -
  have "b AND mask 12 \<noteq> 0"
  proof
    assume "b AND mask 12 = 0"
    then have "unat (take_bit 12 b) = 0" by (simp add: take_bit_eq_mask)
    then show False using assms by (simp add: unat_take_bit)
  qed
  moreover have "b - (b AND mask 12) = page_base b"
  proof -
    have m: "unat (b AND mask 12) = unat b mod 4096" by (simp add: unat_take_bit flip: take_bit_eq_mask)
    then have "b AND mask 12 \<le> b" by (simp add: word_le_nat_alt)
    then show ?thesis by (simp add: word_unat_eq_iff unat_page_base unat_diff_64 m minus_mod_eq_div_mult)
  qed
  ultimately show ?thesis by (simp add: header_from_block_def align_down_def mask_eq_exp_minus_1)
qed

text \<open>The \<open>k\<close>-th block of a page.\<close>

definition nth_block :: "u64 \<Rightarrow> nat \<Rightarrow> nat \<Rightarrow> u64" where
  "nth_block h z k = h + 32 + of_nat z * of_nat k"

lemma nth_block_unat:
  assumes h: "unat h mod 4096 = 0" and z: "16 \<le> z" and k: "k < 4064 div z"
  shows "unat (nth_block h z k) = unat h + 32 + z * k" "32 + z * k + z \<le> 4096"
proof -
  have "z * Suc k \<le> 4064" using k z by (metis Suc_leI less_eq_div_iff_mult_less_eq mult.commute zero_less_numeral order_less_le_trans)
  then show b: "32 + z * k + z \<le> 4096" by simp
  have "unat h \<le> 2 ^ 64 - 4096"
  proof -
    obtain q where "unat h = 4096 * q" using h by auto
    moreover have "unat h < 2 ^ 64" by (rule order_less_le_trans[OF unsigned_less]) simp
    ultimately show ?thesis by simp
  qed
  then have lt: "unat h + (32 + z * k) < 2 ^ 64" using b z by simp
  have "nth_block h z k = h + of_nat (32 + z * k)" by (simp add: nth_block_def)
  moreover have "unat (of_nat (32 + z * k) :: u64) = 32 + z * k" by (rule unat_of_nat_64) (use b in simp)
  ultimately show "unat (nth_block h z k) = unat h + 32 + z * k" using lt by (simp add: unat_add_64)
qed

lemma nth_block_facts:
  assumes h: "unat h mod 4096 = 0" and z: "16 \<le> z" "16 dvd z" and k: "k < 4064 div z"
  shows "page_base (nth_block h z k) = h" "unat (nth_block h z k) mod 4096 \<noteq> 0" "unat (nth_block h z k) mod 16 = 0"
proof -
  note u = nth_block_unat[OF h z(1) k]
  obtain q where q: "unat h = 4096 * q" using h by auto
  have e: "unat (nth_block h z k) = 4096 * q + (32 + z * k)" "32 + z * k < 4096" using u q z by auto
  then have "unat (nth_block h z k) div 4096 = q" "unat (nth_block h z k) mod 4096 = 32 + z * k"
    unfolding e(1) by simp_all
  then show "page_base (nth_block h z k) = h" "unat (nth_block h z k) mod 4096 \<noteq> 0"
    using q by (auto simp: word_unat_eq_iff unat_page_base)
  have "16 dvd unat (nth_block h z k)" unfolding u(1) using q z(2) by (intro dvd_add) auto
  then show "unat (nth_block h z k) mod 16 = 0" by simp
qed

lemma nth_block_inj:
  assumes "unat h mod 4096 = 0" "16 \<le> z" "k < 4064 div z" "j < 4064 div z" "nth_block h z k = nth_block h z j"
  shows "k = j"
proof -
  have "z * k = z * j"
    using nth_block_unat(1)[OF assms(1,2,3)] nth_block_unat(1)[OF assms(1,2,4)] arg_cong[OF assms(5), of unat] by linarith
  then show ?thesis using assms(2) by simp
qed

section \<open>Invariant\<close>

definition the_pool :: "mem_pool_control_t \<Rightarrow> pool_ptr \<Rightarrow> mem_pool_t" where
  "the_pool c pp = pool c ! fst pp ! snd pp"

definition pools_ok :: "mem_pool_control_t \<Rightarrow> bool" where
  "pools_ok c \<longleftrightarrow> length (pool c) = 8 \<and> (\<forall>row \<in> set (pool c). length row = 4) \<and>
     (\<forall>pp. class_valid pp \<longrightarrow> pool_size (the_pool c pp) = of_nat (class_size pp))"

text \<open>\<open>page_pool c a\<close> is the pool the page at \<open>a\<close> belongs to; the addresses of its blocks follow from it.\<close>

definition page_pool :: "mem_pool_control_t \<Rightarrow> u64 \<Rightarrow> pool_ptr option" where
  "page_pool c a = map_option pool_of (headers c a)"

definition is_block :: "mem_pool_control_t \<Rightarrow> u64 \<Rightarrow> bool" where
  "is_block c b \<longleftrightarrow> (\<exists>pp k. page_pool c (page_base b) = Some pp \<and> k < 4064 div class_size pp \<and>
     b = nth_block (page_base b) (class_size pp) k)"

definition block_class :: "mem_pool_control_t \<Rightarrow> u64 \<Rightarrow> pool_ptr" where
  "block_class c b = the (page_pool c (page_base b))"

definition used_blocks :: "mem_pool_control_t \<Rightarrow> u64 set" where
  "used_blocks c = {b. is_block c b \<and> b \<notin> set (free_block (the_pool c (block_class c b)))}"

lemma used_is_block: "b \<in> used_blocks c \<Longrightarrow> is_block c b"
  by (simp add: used_blocks_def)

definition headers_ok :: "mem_pool_control_t \<Rightarrow> region set \<Rightarrow> bool" where
  "headers_ok c R \<longleftrightarrow> (\<forall>a h. headers c a = Some h \<longrightarrow>
     class_valid (pool_of h) \<and> unat a mod 4096 = 0 \<and> (\<exists>n. (a, n) \<in> R) \<and>
     unat (free_count h) = length (filter (\<lambda>b. page_base b = a) (free_block (the_pool c (pool_of h)))))"

definition free_ok :: "mem_pool_control_t \<Rightarrow> bool" where
  "free_ok c \<longleftrightarrow> (\<forall>pp. class_valid pp \<longrightarrow> distinct (free_block (the_pool c pp)) \<and>
     (\<forall>b \<in> set (free_block (the_pool c pp)). is_block c b \<and> block_class c b = pp))"

definition pool_inv :: "mem_pool_control_t \<Rightarrow> region set \<Rightarrow> bool" where
  "pool_inv c R \<longleftrightarrow> pools_ok c \<and> page_regions (system c) R \<and> headers_ok c R \<and> free_ok c"

lemma pools_okD: "pools_ok c \<Longrightarrow> class_valid pp \<Longrightarrow> pool_size (the_pool c pp) = of_nat (class_size pp)"
  by (cases pp) (simp add: pools_ok_def)

lemma get_pool_valid:
  assumes "pools_ok c" "class_valid pp"
  shows "get_pool c pp = Some (the_pool c pp)"
  using assms class_index_bound[OF assms(2)] by (simp add: get_pool_def the_pool_def pools_ok_def)

lemma set_pool_simps [simp]:
  "system (set_pool c pp p) = system c" "headers (set_pool c pp p) = headers c"
  by (simp_all add: set_pool_def)

lemma the_pool_update [simp]:
  "the_pool (c\<lparr>headers := h\<rparr>) = the_pool c" "the_pool (c\<lparr>system := s\<rparr>) = the_pool c"
  "pools_ok (c\<lparr>headers := h\<rparr>) = pools_ok c" "pools_ok (c\<lparr>system := s\<rparr>) = pools_ok c"
  by (simp_all add: the_pool_def fun_eq_iff pools_ok_def)

lemma the_pool_set:
  assumes "pools_ok c" "class_valid pp"
  shows "the_pool (set_pool c pp p) qq = (if qq = pp then p else the_pool c qq)"
proof (cases "fst qq = fst pp")
  case True
  then show ?thesis using assms class_index_bound[OF assms(2)]
    by (cases "snd qq = snd pp") (auto simp: the_pool_def set_pool_def pools_ok_def prod_eq_iff)
qed (auto simp: the_pool_def set_pool_def)

lemma pools_ok_set:
  assumes ok: "pools_ok c" and v: "class_valid pp" and sz: "pool_size p = pool_size (the_pool c pp)"
  shows "pools_ok (set_pool c pp p)"
proof -
  have "pool_size (the_pool (set_pool c pp p) qq) = of_nat (class_size qq)" if "class_valid qq" for qq
    using pools_okD[OF ok v] pools_okD[OF ok that] sz by (simp add: the_pool_set[OF ok v])
  moreover have "length (pool c ! fst pp) = 4" using ok class_index_bound[OF v] by (simp add: pools_ok_def)
  ultimately show ?thesis
    using ok by (auto simp: pools_ok_def set_pool_def dest!: set_update_subset_insert[THEN subsetD])
qed

lemma is_block_cong:
  assumes "\<And>a. page_pool c' a = page_pool c a"
  shows "is_block c' = is_block c" "block_class c' = block_class c"
  using assms by (simp_all add: is_block_def block_class_def fun_eq_iff)

lemma is_block_facts:
  assumes "headers_ok c R" "is_block c b"
  obtains h k where "headers c (page_base b) = Some h" and "block_class c b = pool_of h" and "class_valid (pool_of h)"
    and "k < 4064 div class_size (pool_of h)" and "b = nth_block (page_base b) (class_size (pool_of h)) k"
    and "unat (page_base b) mod 4096 = 0" and "unat b mod 4096 \<noteq> 0" and "unat b mod 16 = 0"
proof -
  from assms(2) obtain h k where h: "headers c (page_base b) = Some h" "k < 4064 div class_size (pool_of h)"
    "b = nth_block (page_base b) (class_size (pool_of h)) k"
    by (auto simp: is_block_def page_pool_def)
  have v: "class_valid (pool_of h)" "unat (page_base b) mod 4096 = 0" using assms(1) h(1) by (auto simp: headers_ok_def)
  show ?thesis
    using that[OF h(1) _ v(1) h(2,3) v(2)] nth_block_facts[OF v(2) class_size_facts(1,3)[OF v(1)] h(2)] h
    by (simp add: block_class_def page_pool_def)
qed

text \<open>A page has at most 254 free blocks.\<close>

lemma page_free_bound:
  assumes "distinct xs" "\<forall>b \<in> set xs. page_base b = a \<longrightarrow> (\<exists>k < 4064 div z. b = nth_block a z k)" "16 \<le> z"
  shows "length (filter (\<lambda>b. page_base b = a) xs) \<le> 254"
proof -
  have "set (filter (\<lambda>b. page_base b = a) xs) \<subseteq> nth_block a z ` {..< 4064 div z}" using assms(2) by auto
  then have "card (set (filter (\<lambda>b. page_base b = a) xs)) \<le> card (nth_block a z ` {..< 4064 div z})"
    by (intro card_mono) auto
  also have "\<dots> \<le> 4064 div z" by (rule order_trans[OF card_image_le]) auto
  also have "\<dots> \<le> 4064 div 16" using assms(3) by (intro div_le_mono2) auto
  finally show ?thesis unfolding distinct_card[OF distinct_filter[OF assms(1)]] by simp
qed

section \<open>Taking and returning a block\<close>

lemma pool_invD:
  assumes "pool_inv c R"
  shows "pools_ok c" "page_regions (system c) R" "headers_ok c R" "free_ok c"
  using assms by (auto simp: pool_inv_def)

lemma free_okD:
  assumes "free_ok c" "class_valid pp"
  shows "distinct (free_block (the_pool c pp))"
    "b \<in> set (free_block (the_pool c pp)) \<Longrightarrow> is_block c b"
    "b \<in> set (free_block (the_pool c pp)) \<Longrightarrow> block_class c b = pp"
  using assms unfolding free_ok_def by blast+

lemma headers_okD:
  assumes "headers_ok c R" "headers c a = Some h"
  shows "class_valid (pool_of h)" "unat a mod 4096 = 0" "\<exists>n. (a, n) \<in> R"
    "unat (free_count h) = length (filter (\<lambda>b. page_base b = a) (free_block (the_pool c (pool_of h))))"
  using assms unfolding headers_ok_def by blast+

text \<open>A free list replaced, and the count of one page with it.\<close>

lemma pool_inv_update:
  assumes inv: "pool_inv c R" and a: "headers c a = Some h" and xs: "distinct xs"
    and blocks: "\<And>b. b \<in> set xs \<Longrightarrow> is_block c b \<and> block_class c b = pool_of h"
    and n: "unat n = length (filter (\<lambda>b. page_base b = a) xs)"
    and other: "\<And>a'. a' \<noteq> a \<Longrightarrow> length (filter (\<lambda>b. page_base b = a') xs) =
                   length (filter (\<lambda>b. page_base b = a') (free_block (the_pool c (pool_of h))))"
  defines "c' \<equiv> (set_pool c (pool_of h) ((the_pool c (pool_of h))\<lparr>free_block := xs\<rparr>))
                   \<lparr>headers := (headers c)(a \<mapsto> h\<lparr>free_count := n\<rparr>)\<rparr>"
  shows "pool_inv c' R" and "\<And>b. is_block c' b = is_block c b" and "\<And>b. block_class c' b = block_class c b"
    and "\<And>pp. free_block (the_pool c' pp) = (if pp = pool_of h then xs else free_block (the_pool c pp))"
    and "system c' = system c"
proof -
  note I = pool_invD[OF inv]
  have v: "class_valid (pool_of h)" using headers_okD[OF I(3) a] by blast
  have tp: "the_pool c' pp = (if pp = pool_of h then (the_pool c (pool_of h))\<lparr>free_block := xs\<rparr> else the_pool c pp)" for pp
    unfolding c'_def by (simp add: the_pool_set[OF I(1) v])
  then show fb: "\<And>pp. free_block (the_pool c' pp) = (if pp = pool_of h then xs else free_block (the_pool c pp))" by simp
  have "page_pool c' b = page_pool c b" for b using a by (simp add: page_pool_def c'_def)
  then show bl: "\<And>b. is_block c' b = is_block c b" "\<And>b. block_class c' b = block_class c b"
    using is_block_cong[of c' c] by metis+
  show sy: "system c' = system c" by (simp add: c'_def)
  have "pools_ok c'" unfolding c'_def using pools_ok_set[OF I(1) v] by simp
  moreover have "free_ok c'"
    unfolding free_ok_def using free_okD[OF I(4)] xs blocks by (auto simp: fb bl)
  moreover have "headers_ok c' R"
    unfolding headers_ok_def
  proof (intro allI impI)
    fix a' h' assume h': "headers c' a' = Some h'"
    show "class_valid (pool_of h') \<and> unat a' mod 4096 = 0 \<and> (\<exists>n. (a', n) \<in> R) \<and>
       unat (free_count h') = length (filter (\<lambda>b. page_base b = a') (free_block (the_pool c' (pool_of h'))))"
      using h' headers_okD[OF I(3), of a'] headers_okD[OF I(3) a] n other[of a'] fb
      by (cases "a' = a") (auto simp: c'_def)
  qed
  ultimately show "pool_inv c' R" using I(2) sy by (simp add: pool_inv_def)
qed

lemma page_free_le:
  assumes inv: "pool_inv c R" and a: "headers c a = Some h" and xs: "distinct xs"
    and blocks: "\<And>b. b \<in> set xs \<Longrightarrow> is_block c b \<and> block_class c b = pool_of h"
  shows "length (filter (\<lambda>b. page_base b = a) xs) \<le> 254"
proof (rule page_free_bound[OF xs])
  note I = pool_invD[OF inv]
  show "16 \<le> class_size (pool_of h)" using class_size_facts headers_okD(1)[OF I(3) a] by blast
  show "\<forall>b\<in>set xs. page_base b = a \<longrightarrow> (\<exists>k<4064 div class_size (pool_of h). b = nth_block a (class_size (pool_of h)) k)"
    using blocks a by (fastforce simp: is_block_def page_pool_def)
qed

lemma filter_remove1_length:
  assumes "distinct xs" "b \<in> set xs"
  shows "length (filter P xs) = length (filter P (remove1 b xs)) + (if P b then 1 else 0)"
  using assms by (induction xs) auto

lemma mem_pool_del_block_spec:
  assumes inv: "pool_inv c R" and v: "class_valid pp" and b: "b \<in> set (free_block (the_pool c pp))"
  obtains c' where "mem_pool_del_block c b = Some c'" and "pool_inv c' R" and "used_blocks c' = insert b (used_blocks c)"
    and "b \<notin> used_blocks c" and "block_class c' = block_class c" and "system c' = system c" and "block_class c b = pp"
    and "dom (headers c') = dom (headers c)"
proof -
  note I = pool_invD[OF inv]
  have bl: "is_block c b" "block_class c b = pp" using free_okD[OF I(4) v] b by auto
  obtain h where h: "headers c (page_base b) = Some h" "block_class c b = pool_of h" "class_valid (pool_of h)"
    "unat b mod 4096 \<noteq> 0" using is_block_facts[OF I(3) bl(1)] by metis
  have pp: "pool_of h = pp" using h(2) bl(2) by simp
  let ?xs = "free_block (the_pool c pp)" and ?P = "\<lambda>x. page_base x = page_base b"
  have d: "distinct ?xs" using free_okD(1)[OF I(4) v] .
  have n: "unat (free_count h) = length (filter ?P ?xs)" using headers_okD(4)[OF I(3) h(1)] pp by simp
  have r: "length (filter ?P ?xs) = Suc (length (filter ?P (remove1 b ?xs)))" using filter_remove1_length[OF d b, of ?P] by simp
  have le: "length (filter ?P ?xs) \<le> 254" by (rule page_free_le[OF inv h(1) d]) (use free_okD[OF I(4) v] pp in auto)
  have "free_count h \<noteq> 0" using n r by (metis nat.simps(3) unat_0)
  then have m: "unat (free_count h - 1) = length (filter ?P (remove1 b ?xs))" using n r by (simp add: unat_minus_one)
  then have m': "free_count h - 1 < 256" using r le by (simp add: word_less_nat_alt)
  note U = pool_inv_update[OF inv h(1), of "remove1 b ?xs" "free_count h - 1", unfolded pp]
  define c' where "c' = (set_pool c pp ((the_pool c pp)\<lparr>free_block := remove1 b ?xs\<rparr>))
       \<lparr>headers := (headers c)(page_base b \<mapsto> h\<lparr>free_count := free_count h - 1\<rparr>)\<rparr>"
  have inv': "pool_inv c' R" "\<And>x. is_block c' x = is_block c x" "\<And>x. block_class c' x = block_class c x"
    "\<And>qq. free_block (the_pool c' qq) = (if qq = pp then remove1 b ?xs else free_block (the_pool c qq))" "system c' = system c"
    unfolding c'_def
    using U[OF distinct_remove1[OF d] _ m] filter_remove1_length[OF d b] free_okD[OF I(4) v] notin_set_remove1 by auto
  have b0: "b \<noteq> 0" using h(4) by auto
  have "mem_pool_del_block c b = Some c'"
    using b b0 h(1) m' header_from_block_base[OF h(4)] get_pool_valid[OF I(1) v] pp by (simp add: mem_pool_del_block_def c'_def)
  moreover have "used_blocks c' = insert b (used_blocks c)"
    using bl d by (auto simp: used_blocks_def inv' split: if_splits)
  moreover have "b \<notin> used_blocks c" using b bl by (simp add: used_blocks_def)
  moreover have "dom (headers c') = dom (headers c)" using h(1) by (auto simp: c'_def)
  ultimately show ?thesis using that inv'(1,3,5) bl(2) by blast
qed


lemma mem_pool_add_block_spec:
  assumes inv: "pool_inv c R" and b: "b \<in> used_blocks c"
  obtains c' h where "mem_pool_add_block c b = Some c'" and "pool_inv c' R" and "used_blocks c' = used_blocks c - {b}"
    and "block_class c' = block_class c" and "system c' = system c"
    and "header_from_block b = Some (page_base b)" and "headers c' (page_base b) = Some h" and "free_count h \<noteq> 0" and "b \<noteq> 0"
    and "dom (headers c') = dom (headers c)"
proof -
  note I = pool_invD[OF inv]
  have bl: "is_block c b" "b \<notin> set (free_block (the_pool c (block_class c b)))" using b by (auto simp: used_blocks_def)
  obtain h where h: "headers c (page_base b) = Some h" "block_class c b = pool_of h" "class_valid (pool_of h)"
    "unat b mod 4096 \<noteq> 0" using is_block_facts[OF I(3) bl(1)] by metis
  let ?pp = "pool_of h"
  let ?xs = "free_block (the_pool c ?pp)" and ?P = "\<lambda>x. page_base x = page_base b"
  have n: "unat (free_count h) = length (filter ?P ?xs)" using headers_okD(4)[OF I(3) h(1)] .
  have d: "distinct (?xs @ [b])" using free_okD(1)[OF I(4) h(3)] bl(2) h(2) by simp
  have fb: "x \<in> set (?xs @ [b]) \<Longrightarrow> is_block c x \<and> block_class c x = ?pp" for x
    using free_okD[OF I(4) h(3)] bl(1) h(2) by auto
  have le: "length (filter ?P (?xs @ [b])) \<le> 254" by (rule page_free_le[OF inv h(1) d fb])
  then have m: "unat (free_count h + 1) = length (filter ?P (?xs @ [b]))"
    using n by (simp add: unat_add_64)
  then have m': "free_count h + 1 < 256" "free_count h + 1 \<noteq> 0" using le by (auto simp: word_less_nat_alt)
  define c' where "c' = (set_pool c ?pp ((the_pool c ?pp)\<lparr>free_block := ?xs @ [b]\<rparr>))
       \<lparr>headers := (headers c)(page_base b \<mapsto> h\<lparr>free_count := free_count h + 1\<rparr>)\<rparr>"
  have inv': "pool_inv c' R" "\<And>x. is_block c' x = is_block c x" "\<And>x. block_class c' x = block_class c x"
    "\<And>qq. free_block (the_pool c' qq) = (if qq = ?pp then ?xs @ [b] else free_block (the_pool c qq))" "system c' = system c"
    unfolding c'_def using pool_inv_update[OF inv h(1) d fb m] by auto
  have b0: "b \<noteq> 0" using h(4) by auto
  have "mem_pool_add_block c b = Some c'"
    using bl(2) b0 h(1,2) m' header_from_block_base[OF h(4)] get_pool_valid[OF I(1) h(3)]
    by (simp add: mem_pool_add_block_def c'_def)
  moreover have "used_blocks c' = used_blocks c - {b}"
    using bl h(2) by (auto simp: used_blocks_def inv' split: if_splits)
  moreover have "headers c' (page_base b) = Some (h\<lparr>free_count := free_count h + 1\<rparr>)" by (simp add: c'_def)
  moreover have "dom (headers c') = dom (headers c)" using h(1) by (auto simp: c'_def)
  ultimately show ?thesis using that inv'(1,3,5) header_from_block_base[OF h(4)] m'(2) b0 by fastforce
qed

text \<open>A freed block never empties its page's header count, so \<^verbatim>\<open>mem_pool_recycle\<close> never returns a page.\<close>

lemma mem_pool_free_spec:
  assumes inv: "pool_inv c R" and b: "b \<in> used_blocks c"
  obtains c' where "mem_pool_free c b = Some c'" and "pool_inv c' R" and "used_blocks c' = used_blocks c - {b}"
    and "block_class c' = block_class c" and "system c' = system c" and "dom (headers c') = dom (headers c)"
proof -
  obtain c' h where s: "mem_pool_add_block c b = Some c'" "pool_inv c' R" "used_blocks c' = used_blocks c - {b}"
    "block_class c' = block_class c" "system c' = system c"
    "header_from_block b = Some (page_base b)" "headers c' (page_base b) = Some h" "free_count h \<noteq> 0" "b \<noteq> 0"
    "dom (headers c') = dom (headers c)"
    by (rule mem_pool_add_block_spec[OF inv b])
  have "mem_pool_free c b = Some c'" using s by (simp add: mem_pool_free_def mem_pool_recycle_def)
  then show ?thesis using that s by blast
qed

section \<open>A new page\<close>

lemma page_regions_distinct_bytes:
  assumes "page_regions s R" "(a, n) \<in> R" "(a, m) \<in> R"
  shows "n = m"
proof (rule ccontr)
  assume "n \<noteq> m"
  then have "disjnt (region_bytes (a, n)) (region_bytes (a, m))" using ba.regions_disjoint[OF assms] by simp
  moreover have "0 < n" "0 < m" using ba.region_ok[OF assms(1)] assms(2,3) by blast+
  ultimately show False by (auto simp: region_bytes_def disjnt_iff)
qed

definition page_blocks :: "u64 \<Rightarrow> nat \<Rightarrow> u64 list" where
  "page_blocks h z = map (nth_block h z) [0 ..< 4064 div z]"

lemma page_blocks_facts:
  assumes h: "unat h mod 4096 = 0" and v: "class_valid pp"
  shows "distinct (page_blocks h (class_size pp))" "b \<in> set (page_blocks h (class_size pp)) \<Longrightarrow> page_base b = h"
    "page_blocks h (class_size pp) \<noteq> []"
    "b \<in> set (page_blocks h (class_size pp)) \<Longrightarrow> \<exists>k < 4064 div class_size pp. b = nth_block (page_base b) (class_size pp) k"
proof -
  note z = class_size_facts[OF v]
  show "distinct (page_blocks h (class_size pp))"
    using nth_block_inj[OF h z(1)] by (auto simp: page_blocks_def distinct_map inj_on_def)
  show pb: "page_base b = h" if "b \<in> set (page_blocks h (class_size pp))" for b
    using that nth_block_facts(1)[OF h z(1,3)] by (auto simp: page_blocks_def)
  show "\<exists>k < 4064 div class_size pp. b = nth_block (page_base b) (class_size pp) k"
    if "b \<in> set (page_blocks h (class_size pp))" using that pb[OF that] by (auto simp: page_blocks_def)
  have "1 \<le> 4064 div class_size pp" using z by (simp add: less_eq_div_iff_mult_less_eq)
  then show "page_blocks h (class_size pp) \<noteq> []" by (simp add: page_blocks_def)
qed

lemma page_of_block_mapped:
  assumes "free_ok c" "class_valid pp" "b \<in> set (free_block (the_pool c pp))"
  shows "headers c (page_base b) \<noteq> None"
  using free_okD(2)[OF assms(1,2,3)] by (auto simp: is_block_def page_pool_def)

lemma pool_inv_new_page:
  assumes inv: "pool_inv c R" and v: "class_valid pp" and s: "page_regions s (insert (a, n) R)" and new: "headers c a = None"
    and a: "unat a mod 4096 = 0" and cnt: "unat cnt = 4064 div class_size pp"
  defines "c' \<equiv> set_pool (c\<lparr>system := s, headers := (headers c)(a \<mapsto> \<lparr>pool_of = pp, free_count = cnt\<rparr>)\<rparr>) pp
     ((the_pool c pp)\<lparr>free_block := free_block (the_pool c pp) @ page_blocks a (class_size pp)\<rparr>)"
  shows "pool_inv c' (insert (a, n) R)" "used_blocks c' = used_blocks c"
    "free_block (the_pool c' pp) = free_block (the_pool c pp) @ page_blocks a (class_size pp)"
    "\<And>b. b \<in> used_blocks c \<Longrightarrow> block_class c' b = block_class c b"
proof -
  note I = pool_invD[OF inv] and B = page_blocks_facts[OF a v]
  let ?c = "c\<lparr>system := s, headers := (headers c)(a \<mapsto> \<lparr>pool_of = pp, free_count = cnt\<rparr>)\<rparr>"
  have tp: "the_pool c' qq = (if qq = pp then (the_pool c pp)\<lparr>free_block := free_block (the_pool c pp) @ page_blocks a (class_size pp)\<rparr> else the_pool c qq)" for qq
    unfolding c'_def using the_pool_set[of ?c pp _ qq] I(1) v by (simp add: the_pool_def pools_ok_def)
  then show fb: "free_block (the_pool c' pp) = free_block (the_pool c pp) @ page_blocks a (class_size pp)" by simp
  have hd: "headers c' = (headers c)(a \<mapsto> \<lparr>pool_of = pp, free_count = cnt\<rparr>)" "system c' = s" by (simp_all add: c'_def)
  have pp: "page_pool c' x = (if x = a then Some pp else page_pool c x)" for x by (simp add: page_pool_def hd)
  have old: "page_base b \<noteq> a" if "is_block c b" for b using that new by (auto simp: is_block_def page_pool_def)
  have isb: "is_block c' b = is_block c b \<and> block_class c' b = block_class c b" if "page_base b \<noteq> a" for b
    using that by (simp add: is_block_def block_class_def pp)
  have newb: "is_block c' b \<longleftrightarrow> b \<in> set (page_blocks a (class_size pp))" "block_class c' b = pp" if "page_base b = a" for b
    using that by (auto simp: is_block_def block_class_def pp page_blocks_def)
  have nf: "b \<notin> set (free_block (the_pool c qq))" if "page_base b = a" "class_valid qq" for b qq
    using free_okD(2)[OF I(4) that(2)] old that(1) by blast
  have "pools_ok c'" unfolding c'_def using I(1) v by (intro pools_ok_set) (simp_all add: the_pool_def pools_ok_def)
  moreover have "free_ok c'"
    unfolding free_ok_def
  proof (intro allI impI conjI ballI)
    fix qq assume q: "class_valid qq"
    show "distinct (free_block (the_pool c' qq))"
      using free_okD(1)[OF I(4) q] B(1) B(2) nf[OF _ v] by (auto simp: tp)
    fix b assume "b \<in> set (free_block (the_pool c' qq))"
    then have "b \<in> set (free_block (the_pool c qq)) \<or> qq = pp \<and> b \<in> set (page_blocks a (class_size pp))" by (auto simp: tp split: if_splits)
    then show "is_block c' b" "block_class c' b = qq"
      using free_okD(2,3)[OF I(4) q, of b] isb[of b] old[of b] newb[of b] B(2)[of b] by auto
  qed
  moreover have "headers_ok c' (insert (a, n) R)"
    unfolding headers_ok_def
  proof (intro allI impI)
    fix a' h' assume h': "headers c' a' = Some h'"
    have z: "filter (\<lambda>b. page_base b = a) (free_block (the_pool c pp)) = []" using nf[OF _ v] by (auto simp: filter_empty_conv)
    have all: "filter (\<lambda>b. page_base b = a) (page_blocks a (class_size pp)) = page_blocks a (class_size pp)"
      using B(2) by (auto simp: filter_id_conv)
    have none: "a' \<noteq> a \<Longrightarrow> filter (\<lambda>b. page_base b = a') (page_blocks a (class_size pp)) = []"
      using B(2) by (auto simp: filter_empty_conv)
    show "class_valid (pool_of h') \<and> unat a' mod 4096 = 0 \<and> (\<exists>na. (a', na) \<in> insert (a, n) R) \<and>
       unat (free_count h') = length (filter (\<lambda>b. page_base b = a') (free_block (the_pool c' (pool_of h'))))"
    proof (cases "a' = a")
      case True
      then show ?thesis using h' v a cnt z all by (auto simp: hd tp page_blocks_def)
    next
      case False
      then show ?thesis using h' headers_okD[OF I(3), of a' h'] none by (auto simp: hd tp)
    qed
  qed
  ultimately show "pool_inv c' (insert (a, n) R)" using s by (simp add: pool_inv_def hd)
  have used_old: "b \<in> used_blocks c' \<longleftrightarrow> b \<in> used_blocks c" for b
  proof (cases "page_base b = a")
    case True
    then show ?thesis using newb[OF True] old[of b] by (auto simp: used_blocks_def fb)
  next
    case False
    have "b \<notin> set (page_blocks a (class_size pp))" using B(2) False by blast
    then show ?thesis using isb[OF False] by (auto simp: used_blocks_def tp)
  qed
  then show "used_blocks c' = used_blocks c" by blast
  show "block_class c' b = block_class c b" if "b \<in> used_blocks c" for b
    using that isb old by (simp add: used_blocks_def)
qed

section \<open>Allocation\<close>

lemma mem_pool_alloc_page_spec:
  assumes inv: "pool_inv c R" and v: "class_valid pp"
  obtains (none) "mem_pool_alloc_page c pp = Some (c, -1)" "buddy_alloc_page (system c) 1 = Some (system c, 0)"
    | (some) c' a n where "mem_pool_alloc_page c pp = Some (c', 0)" and "pool_inv c' (insert (a, n) R)" and "(a, n) \<notin> R"
      and "used_blocks c' = used_blocks c" and "free_block (the_pool c' pp) \<noteq> []"
      and "\<And>b. b \<in> used_blocks c \<Longrightarrow> block_class c' b = block_class c b"
      and "dom (headers c') = insert a (dom (headers c))"
proof -
  note I = pool_invD[OF inv]
  have one: "0 < unat (1 :: u64)" "unat (1 :: u64) \<le> 2 ^ 20" by simp_all
  obtain s a where al: "buddy_alloc_page (system c) 1 = Some (s, a)" by (rule ba.alloc_total[OF I(2) one])
  from I(2) one al show thesis
  proof (cases rule: ba.alloc_cases)
    case none
    then show ?thesis using al that(1) by (simp add: mem_pool_alloc_page_def)
  next
    case (some n)
    have new: "headers c a = None"
    proof (rule ccontr)
      assume "headers c a \<noteq> None"
      then obtain m where "(a, m) \<in> R" using headers_okD(3)[OF I(3)] by blast
      then have "m = n" using page_regions_distinct_bytes[OF some(4), of a m n] by simp
      then show False using \<open>(a, m) \<in> R\<close> some(3) by simp
    qed
    have a: "unat a mod 4096 = 0" using ba.region_ok[OF some(4), of a n] by simp
    note z = class_size_facts[OF v]
    let ?n = "(of_nat PAGE_SIZE - 32) div of_nat (class_size pp) :: u64"
    have zw: "unat (of_nat (class_size pp) :: u64) = class_size pp" by (rule unat_of_nat_64) (use z in simp)
    have cnt: "unat ?n = 4064 div class_size pp" by (simp add: unat_div_distrib zw)
    have zn: "(of_nat (class_size pp) :: u64) \<noteq> 0" using zw z by (metis unat_0 le_zero_eq zero_neq_numeral)
    note N = pool_inv_new_page[OF inv v some(4) new a cnt]
    have "mem_pool_alloc_page c pp = Some (set_pool (c\<lparr>system := s, headers := (headers c)(a \<mapsto> \<lparr>pool_of = pp, free_count = ?n\<rparr>)\<rparr>) pp
       ((the_pool c pp)\<lparr>free_block := free_block (the_pool c pp) @ page_blocks a (class_size pp)\<rparr>), 0)"
      using al some(1) get_pool_valid[of "c\<lparr>system := s\<rparr>" pp] I(1) v pools_okD[OF I(1) v] cnt zn
      by (simp add: mem_pool_alloc_page_def page_blocks_def nth_block_def[abs_def] Let_def)
    then show ?thesis
      by (rule that(2)[OF _ N(1) some(3) N(2) _ N(4)])
        (simp_all only: N(3) append_is_Nil_conv page_blocks_facts(3)[OF a v] simp_thms, simp)
  qed
qed

lemma drop_bit_class_index:
  "unat (drop_bit k a AND (push_bit s 1 - 1) :: u64) = unat a div 2 ^ k mod 2 ^ s"
proof -
  have "drop_bit k a AND (push_bit s 1 - 1) = take_bit s (drop_bit k a)"
    by (simp add: take_bit_eq_mask mask_eq_exp_minus_1 push_bit_eq_mult)
  then show ?thesis by (simp add: unat_take_bit unat_drop_bit)
qed

lemma mem_pool_locate_free_spec:
  assumes inv: "pool_inv c R" and i: "i < 8" "2 ^ (i + 4) \<le> unat a" "unat a < 2 ^ Suc (i + 4)" "2 ^ (i + 4 - class_shift i) dvd unat a"
  defines "pp \<equiv> (i, unat a div 2 ^ (i + 4 - class_shift i) mod 2 ^ class_shift i)"
  obtains (none) "mem_pool_locate_free c a = Some (c, 0)" "buddy_alloc_page (system c) 1 = Some (system c, 0)"
    | (some) c' b R' where "mem_pool_locate_free c a = Some (c', b)" and "b \<in> set (free_block (the_pool c' pp))" and "pool_inv c' R'"
      and "R \<subseteq> R'" and "used_blocks c' = used_blocks c" and "\<And>b. b \<in> used_blocks c \<Longrightarrow> block_class c' b = block_class c b"
      and "\<And>x. x \<in> dom (headers c') \<Longrightarrow> x \<in> dom (headers c) \<or> (\<exists>n. (x, n) \<in> R' - R)"
proof -
  have v: "class_valid pp" using i(1) by (simp add: pp_def class_valid_def)
  note I = pool_invD[OF inv]
  have fls: "buddy_fls_sizet a = int (i + 4)" using i(2,3) by (rule buddy_fls_sizet_unique)
  have sh: "pool_shift (int (i + 4)) = int (class_shift i)" by (rule pool_shift_nat)
  have k: "nat (int (i + 4) - int (class_shift i)) = i + 4 - class_shift i" by (simp add: class_shift_def nat_diff_distrib)
  have a0: "a \<noteq> 0" using i(2) by auto
  have ix: "unat (drop_bit (i + 4 - class_shift i) a AND (push_bit (class_shift i) 1 - 1)) = snd pp"
    unfolding pp_def snd_conv by (rule drop_bit_class_index)
  have pe: "(nat (int (i + 4) - 4), unat (drop_bit (i + 4 - class_shift i) a AND (push_bit (nat (int (class_shift i))) 1 - 1))) = pp"
    unfolding nat_int ix by (simp add: pp_def)
  have eq: "mem_pool_locate_free c a = do {
     p \<leftarrow> get_pool c pp;
     (c, ret) \<leftarrow> (if free_block p = [] then mem_pool_alloc_page c pp else Some (c, 0));
     if ret \<noteq> 0 then Some (c, 0)
     else do { p \<leftarrow> get_pool c pp; assert_that (free_block p \<noteq> []); Some (c, last (free_block p)) } }"
    using a0 unfolding mem_pool_locate_free_def fls Let_def sh k pe by simp
  show thesis
  proof (cases "free_block (the_pool c pp) = []")
    case False
    then have "mem_pool_locate_free c a = Some (c, last (free_block (the_pool c pp)))"
      unfolding eq using get_pool_valid[OF I(1) v] by simp
    then show ?thesis by (rule that(2)[OF _ _ inv]) (use False in auto)
  next
    case True
    from inv v show ?thesis
    proof (cases rule: mem_pool_alloc_page_spec)
      case none
      then have "mem_pool_locate_free c a = Some (c, 0)" unfolding eq using get_pool_valid[OF I(1) v] True by simp
      then show ?thesis using none(2) by (rule that(1))
    next
      case (some c' h n)
      have "mem_pool_locate_free c a = Some (c', last (free_block (the_pool c' pp)))"
        unfolding eq using get_pool_valid[OF I(1) v] get_pool_valid[OF pool_invD(1)[OF some(2)] v] True some by simp
      then show ?thesis by (rule that(2)[OF _ _ some(2)]) (use some in auto)
    qed
  qed
qed

lemma mem_pool_alloc_spec:
  assumes inv: "pool_inv c R" and sz: "0 < unat sz" "unat sz \<le> 3584"
  obtains (none) "mem_pool_alloc c sz = Some (c, 0)" "buddy_alloc_page (system c) 1 = Some (system c, 0)"
    | (some) c' b R' where "mem_pool_alloc c sz = Some (c', b)" and "b \<noteq> 0" and "pool_inv c' R'" and "R \<subseteq> R'"
      and "b \<notin> used_blocks c" and "used_blocks c' = insert b (used_blocks c)" and "class_valid (block_class c' b)"
      and "unat sz \<le> class_size (block_class c' b)" and "4 * class_size (block_class c' b) \<le> 5 * max 16 (unat sz) + 60"
      and "\<And>x. x \<in> used_blocks c \<Longrightarrow> block_class c' x = block_class c x"
      and "\<And>x. x \<in> dom (headers c') \<Longrightarrow> x \<in> dom (headers c) \<or> (\<exists>n. (x, n) \<in> R' - R)"
proof -
  obtain a i where a: "adjust_request_size sz = Some a" "max 16 (unat sz) \<le> unat a" "unat a \<le> 3584"
    "i < 8" "2 ^ (i + 4) \<le> unat a" "unat a < 2 ^ Suc (i + 4)" "2 ^ (i + 4 - class_shift i) dvd unat a"
    "4 * unat a \<le> 5 * max 16 (unat sz) + 60"
    by (rule adjust_request_size_spec[OF sz(2)])
  let ?pp = "(i, unat a div 2 ^ (i + 4 - class_shift i) mod 2 ^ class_shift i)"
  have v: "class_valid ?pp" using a(4) by (simp add: class_valid_def)
  have cs: "class_size ?pp = unat a" by (rule class_size_of(1)[OF a(5,6,7)])
  have nz: "\<not> (sz = 0 \<or> 3584 < sz)" using sz by (auto simp: word_less_nat_alt)
  from inv a(4-7) show thesis
  proof (cases rule: mem_pool_locate_free_spec)
    case none
    then show ?thesis using that(1) a(1) nz by (simp add: mem_pool_alloc_def)
  next
    case (some c1 b R')
    obtain c' where c': "mem_pool_del_block c1 b = Some c'" "pool_inv c' R'" "used_blocks c' = insert b (used_blocks c1)"
      "b \<notin> used_blocks c1" "block_class c' = block_class c1" "system c' = system c1" "block_class c1 b = ?pp"
      "dom (headers c') = dom (headers c1)"
      by (rule mem_pool_del_block_spec[OF some(3) v some(2)])
    have "is_block c1 b" using free_okD(2)[OF pool_invD(4)[OF some(3)] v some(2)] .
    then have b: "unat b mod 4096 \<noteq> 0" "unat b mod 16 = 0"
      using is_block_facts[OF pool_invD(3)[OF some(3)], of b] by metis+
    then have b0: "b \<noteq> 0" and b16: "b AND 15 = 0"
      using unat_take_bit[of 4 b] by (auto simp: take_bit_eq_mask mask_eq_exp_minus_1 word_unat_eq_iff)
    have "mem_pool_alloc c sz = Some (c', b)"
      using nz a(1) some(1) b0 b16 c'(1) by (simp add: mem_pool_alloc_def mem_pool_prepare_used_def)
    then show ?thesis
      by (rule that(2)[OF _ b0 c'(2) some(4)]) (use c' some(5-7) v cs a in auto)
  qed
qed

section \<open>Creation\<close>

lemma class_size_word:
  assumes "class_valid (i, j)"
  shows "push_bit (nat (int i + 4)) 1 + push_bit (nat (int i + 4 - pool_shift (int i + 4))) 1 * of_nat j = (of_nat (class_size (i, j)) :: u64)"
proof -
  have "nat (int i + 4) = i + 4" "nat (int i + 4 - pool_shift (int i + 4)) = i + 4 - class_shift i"
    using pool_shift_nat[of i] by (simp_all add: class_shift_def nat_diff_distrib)
  then show ?thesis by (simp add: class_size_def)
qed

lemma mem_pool_create_spec:
  assumes s: "page_regions s R" and h: "headers c0 = Map.empty"
  obtains c where "mem_pool_create c0 s = Some (c, 0)" and "pool_inv c R" and "used_blocks c = {}" and "system c = s"
proof -
  define init where "init = (\<lambda>i j p. if int j < 2 ^ nat (pool_shift (int i + 4))
      then \<lparr>page_list = [], free_block = [], pool_size = push_bit (nat (int i + 4)) 1 + push_bit (nat (int i + 4 - pool_shift (int i + 4))) 1 * of_nat j\<rparr>
      else p)"
  define ps where "ps = map (\<lambda>i. map (\<lambda>j. init i j (pool c0 ! i ! j)) [0 ..< 4]) [0 ..< 8]"
  define c where "c = c0\<lparr>system := s, pool := ps\<rparr>"
  have i: "init i j p = \<lparr>page_list = [], free_block = [], pool_size = of_nat (class_size (i, j))\<rparr>" if "class_valid (i, j)" for i j p
    using that class_size_word[OF that] pool_shift_nat[of i] by (simp add: init_def class_valid_def)
  have tp: "the_pool c pp = \<lparr>page_list = [], free_block = [], pool_size = of_nat (class_size pp)\<rparr>" if "class_valid pp" for pp
    using that i[of "fst pp" "snd pp"] class_index_bound[OF that] by (simp add: the_pool_def c_def ps_def)
  have al: "x AND 15 = 0" if "x = of_nat (class_size pp)" "class_valid pp" for x :: u64 and pp
  proof -
    have "unat x = class_size pp" unfolding that(1) by (rule unat_of_nat_64) (use class_size_facts[OF that(2)] in simp)
    then have "unat (take_bit 4 x) = 0" using class_size_facts(3)[OF that(2)] by (simp add: unat_take_bit)
    then show ?thesis by (simp add: take_bit_eq_mask mask_eq_exp_minus_1 unat_eq_zero)
  qed
  have "list_all (list_all (\<lambda>p. pool_size p AND (16 - 1) = 0))
     (map2 (\<lambda>i row. take (2 ^ nat (pool_shift (int i + 4))) row) [0 ..< 8] ps)"
  proof -
    have "list_all (\<lambda>p. pool_size p AND 15 = 0) (take (2 ^ class_shift i) (ps ! i))" if "i < 8" for i
      unfolding list_all_length
    proof (intro allI impI)
      fix j assume j: "j < length (take (2 ^ class_shift i) (ps ! i))"
      have "class_valid (i, j)" using j that by (simp add: class_valid_def)
      moreover have "j < 4" using class_index_bound[OF calculation] by simp
      ultimately show "pool_size (take (2 ^ class_shift i) (ps ! i) ! j) AND 15 = 0"
        using i[of i j] al[of _ "(i, j)"] that j by (simp add: ps_def)
    qed
    moreover have "length ps = 8" by (simp add: ps_def)
    ultimately show ?thesis using pool_shift_nat by (simp add: list_all_length)
  qed
  then have "mem_pool_create c0 s = Some (c, 0)"
    unfolding mem_pool_create_def Let_def c_def ps_def init_def by (simp only: assert_that_bind if_True)
  moreover have "pools_ok c" using tp by (auto simp: pools_ok_def c_def ps_def)
  then have "pool_inv c R"
    using s h tp by (auto simp: pool_inv_def headers_ok_def free_ok_def c_def) 
  moreover have "used_blocks c = {}" using h by (simp add: used_blocks_def is_block_def page_pool_def c_def)
  moreover have "system c = s" by (simp add: c_def)
  ultimately show ?thesis by (rule that)
qed

section \<open>The bytes of a block\<close>

definition block_bytes :: "mem_pool_control_t \<Rightarrow> u64 \<Rightarrow> nat set" where
  "block_bytes c b = {unat b ..< unat b + class_size (block_class c b)}"

lemma block_bytes_page:
  assumes inv: "headers_ok c R" and b: "is_block c b"
  shows "block_bytes c b \<subseteq> {unat (page_base b) ..< unat (page_base b) + 4096}"
proof -
  obtain h k where h0: "headers c (page_base b) = Some h" and h: "block_class c b = pool_of h" "class_valid (pool_of h)" "k < 4064 div class_size (pool_of h)"
    "b = nth_block (page_base b) (class_size (pool_of h)) k" "unat (page_base b) mod 4096 = 0"
    using is_block_facts[OF inv b] by metis
  note u = nth_block_unat[OF h(5) class_size_facts(1)[OF h(2)] h(3)]
  have "unat b = unat (page_base b) + 32 + class_size (pool_of h) * k" using u(1) h(4) by metis
  then show ?thesis using u(2) h(1) by (auto simp: block_bytes_def)
qed

lemma block_bytes_disjoint:
  assumes inv: "headers_ok c R" and b: "is_block c b" "is_block c d" "b \<noteq> d"
  shows "disjnt (block_bytes c b) (block_bytes c d)"
proof (cases "page_base b = page_base d")
  case False
  then have "unat b div 4096 \<noteq> unat d div 4096" by (auto simp: word_unat_eq_iff unat_page_base)
  then have "disjnt {unat (page_base b) ..< unat (page_base b) + 4096} {unat (page_base d) ..< unat (page_base d) + 4096}"
    by (auto simp: unat_page_base disjnt_iff)
  then show ?thesis using block_bytes_page[OF inv b(1)] block_bytes_page[OF inv b(2)] by (meson disjnt_subset1 disjnt_subset2)
next
  case True
  obtain h k where h: "headers c (page_base b) = Some h" "block_class c b = pool_of h" "class_valid (pool_of h)" "k < 4064 div class_size (pool_of h)"
    "b = nth_block (page_base b) (class_size (pool_of h)) k" "unat (page_base b) mod 4096 = 0"
    using is_block_facts[OF inv b(1)] by metis
  obtain h' j where j: "headers c (page_base d) = Some h'" "block_class c d = pool_of h'" "j < 4064 div class_size (pool_of h')"
    "d = nth_block (page_base d) (class_size (pool_of h')) j"
    using is_block_facts[OF inv b(2)] by metis
  have e: "h' = h" using h(1) j(1) True by simp
  let ?z = "class_size (pool_of h)"
  note z = class_size_facts(1)[OF h(3)]
  have u: "unat b = unat (page_base b) + 32 + ?z * k" "unat d = unat (page_base b) + 32 + ?z * j"
    using nth_block_unat(1)[OF h(6) z h(4)] nth_block_unat(1)[OF h(6) z j(3)[unfolded e]] h(5) j(4) e True by metis+
  then have "k \<noteq> j" using b(3) by (metis word_unat_eq_iff)
  then have "?z * Suc k \<le> ?z * j \<or> ?z * Suc j \<le> ?z * k" 
    by (metis mult_le_mono2 Suc_leI nat_neq_iff)
  then show ?thesis using u h(2) j(2) e by (auto simp: block_bytes_def disjnt_iff)
qed


section \<open>Properties\<close>

definition fresh_pools :: mem_pool_control_t where
  "fresh_pools = fst (the (mem_pool_create \<lparr>system = four_pages, pool = [], headers = Map.empty\<rparr> four_pages))"

lemma fresh_pools_inv: "pool_inv fresh_pools {}" "used_blocks fresh_pools = {}" "system fresh_pools = four_pages"
proof -
  have "page_regions four_pages {}"
    unfolding page_regions_def using four_pages_ok(1) by (auto simp: four_pages_def intro!: exI[of _ "{}"])
  then obtain c where "mem_pool_create \<lparr>system = four_pages, pool = [], headers = Map.empty\<rparr> four_pages = Some (c, 0)"
    "pool_inv c {}" "used_blocks c = {}" "system c = four_pages"
    by (rule mem_pool_create_spec[where ?c0.0 = "\<lparr>system = four_pages, pool = [], headers = Map.empty\<rparr>"]) simp_all
  then show "pool_inv fresh_pools {}" "used_blocks fresh_pools = {}" "system fresh_pools = four_pages"
    by (simp_all add: fresh_pools_def)
qed

lemma four_pages_alloc_nonzero: "buddy_alloc_page four_pages 1 \<noteq> Some (four_pages, 0)"
  by (rule buddy_alloc_one[OF four_pages_ok(1)]) (use four_pages_free_blocks in auto)

text \<open>C23: \<^verbatim>\<open>mem_pool_alloc\<close> of 1 to 3584 bytes never stops the kernel. It returns the null pointer and
  changes nothing only when the page allocator has no page left; otherwise it returns a block that was not in use, 16-byte
  aligned, inside one page and after its header, of a class at least as large as the request and larger by at
  most a quarter (and 15 bytes).\<close>

theorem mem_pool_alloc_correct:
  assumes "pool_inv c R" "0 < unat sz" "unat sz \<le> 3584"
  shows "(mem_pool_alloc c sz = Some (c, 0) \<and> buddy_alloc_page (system c) 1 = Some (system c, 0)) \<or>
    (\<exists>c' b R'. mem_pool_alloc c sz = Some (c', b) \<and> pool_inv c' R' \<and> R \<subseteq> R' \<and>
       b \<notin> used_blocks c \<and> used_blocks c' = insert b (used_blocks c) \<and> unat b mod 16 = 0 \<and>
       unat (page_base b) + 32 \<le> unat b \<and> unat b + class_size (block_class c' b) \<le> unat (page_base b) + 4096 \<and>
       unat sz \<le> class_size (block_class c' b) \<and> 4 * class_size (block_class c' b) \<le> 5 * max 16 (unat sz) + 60)"
  using assms
proof (cases rule: mem_pool_alloc_spec)
  case (some c' b R')
  note H = pool_invD(3)[OF some(3)]
  have "is_block c' b" using some(6) used_is_block by blast
  then obtain h k where h: "headers c' (page_base b) = Some h" "block_class c' b = pool_of h" "class_valid (pool_of h)"
    "k < 4064 div class_size (pool_of h)" "b = nth_block (page_base b) (class_size (pool_of h)) k"
    "unat (page_base b) mod 4096 = 0" "unat b mod 16 = 0"
    using is_block_facts[OF H] by metis
  note u = nth_block_unat[OF h(6) class_size_facts(1)[OF h(3)] h(4)]
  have "unat b = unat (page_base b) + 32 + class_size (pool_of h) * k" using u(1) h(5) by metis
  then have "unat (page_base b) + 32 \<le> unat b" "unat b + class_size (block_class c' b) \<le> unat (page_base b) + 4096"
    using u(2) h(2) by auto
  then show ?thesis
    by (intro disjI2 exI[of _ c'] exI[of _ b] exI[of _ R'] conjI) (use some(1,3-6,8,9) h(7) in simp_all)
qed simp

theorem mem_pool_alloc_correct_witness:
  "\<exists>c' b. mem_pool_alloc fresh_pools 100 = Some (c', b) \<and> used_blocks c' = {b} \<and> 100 \<le> class_size (block_class c' b)"
  using mem_pool_alloc_correct[OF fresh_pools_inv(1), of 100] four_pages_alloc_nonzero fresh_pools_inv(2,3) by auto

text \<open>C30: \<^verbatim>\<open>mem_pool_free\<close> of a block in use never stops the kernel and makes exactly that block free;
  it never gives a page back to the page allocator, also when all blocks of the page are free.\<close>

theorem mem_pool_free_keeps_pages:
  assumes "pool_inv c R" "b \<in> used_blocks c"
  shows "\<exists>c'. mem_pool_free c b = Some c' \<and> pool_inv c' R \<and> used_blocks c' = used_blocks c - {b} \<and> system c' = system c"
  by (rule mem_pool_free_spec[OF assms]) blast

theorem mem_pool_free_keeps_pages_witness:
  "\<exists>c b c'. mem_pool_alloc fresh_pools 100 = Some (c, b) \<and> mem_pool_free c b = Some c' \<and> used_blocks c' = {} \<and> system c' = system c"
proof -
  have "0 < unat (100 :: u64)" "unat (100 :: u64) \<le> 3584" by simp_all
  with fresh_pools_inv(1) obtain c b R' where c: "mem_pool_alloc fresh_pools 100 = Some (c, b)" "pool_inv c R'" "used_blocks c = {b}"
    by (rule mem_pool_alloc_spec) (use fresh_pools_inv four_pages_alloc_nonzero in auto)
  then show ?thesis using mem_pool_free_keeps_pages[OF c(2), of b] by auto
qed

end
