(* ===== verification/Libc_String.thy ===== *)
theory Libc_String
  imports Kernel_Prelude
begin

text \<open>
  The memory and string functions of \<^verbatim>\<open>src/lib/libc/string.c\<close> over a byte-addressed memory.
  The loops are translated as written; a pointer is a 64-bit word, and \<^verbatim>\<open>char\<close> is an unsigned
  byte, as on RISC-V. Overflow of an \<^verbatim>\<open>int\<close> loop counter is undefined and stops the kernel.
\<close>

type_synonym memory = "u64 \<Rightarrow> u8"

section \<open>Blocks of memory\<close>

text \<open>The arguments of a loop are its position and the number of iterations left.\<close>

primrec memset_loop :: "memory \<Rightarrow> u64 \<Rightarrow> u8 \<Rightarrow> nat \<Rightarrow> nat \<Rightarrow> memory" where
  "memset_loop m cdst c i 0 = m"
| "memset_loop m cdst c i (Suc k) = memset_loop (m(cdst + of_nat i := c)) cdst c (i + 1) k"

definition memset :: "memory \<Rightarrow> u64 \<Rightarrow> u32 \<Rightarrow> u32 \<Rightarrow> (memory \<times> u64) option" where
  "memset m dst c n = do {
     assert_that (unat n < 2 ^ 31);
     Some (memset_loop m dst (ucast c) 0 (unat n), dst)
   }"

primrec memcmp_loop :: "memory \<Rightarrow> u64 \<Rightarrow> u64 \<Rightarrow> nat \<Rightarrow> int" where
  "memcmp_loop m s1 s2 0 = 0"
| "memcmp_loop m s1 s2 (Suc n) =
     (if m s1 \<noteq> m s2 then uint (m s1) - uint (m s2) else memcmp_loop m (s1 + 1) (s2 + 1) n)"

definition memcmp :: "memory \<Rightarrow> u64 \<Rightarrow> u64 \<Rightarrow> u32 \<Rightarrow> int" where
  "memcmp m v1 v2 n = memcmp_loop m v1 v2 (unat n)"

primrec copy_down :: "memory \<Rightarrow> u64 \<Rightarrow> u64 \<Rightarrow> nat \<Rightarrow> memory" where
  "copy_down m d s 0 = m"
| "copy_down m d s (Suc n) = copy_down (m(d - 1 := m (s - 1))) (d - 1) (s - 1) n"

primrec copy_up :: "memory \<Rightarrow> u64 \<Rightarrow> u64 \<Rightarrow> nat \<Rightarrow> memory" where
  "copy_up m d s 0 = m"
| "copy_up m d s (Suc n) = copy_up (m(d := m s)) (d + 1) (s + 1) n"

definition memmove :: "memory \<Rightarrow> u64 \<Rightarrow> u64 \<Rightarrow> u32 \<Rightarrow> memory \<times> u64" where
  "memmove m dst src n =
     (if src < dst \<and> dst < src + ucast n
      then (copy_down m (dst + ucast n) (src + ucast n) (unat n), dst)
      else (copy_up m dst src (unat n), dst))"

definition memcpy :: "memory \<Rightarrow> u64 \<Rightarrow> u64 \<Rightarrow> u32 \<Rightarrow> memory \<times> u64" where
  "memcpy m dst src n = memmove m dst src n"

section \<open>Strings\<close>

primrec strncmp_loop :: "memory \<Rightarrow> u64 \<Rightarrow> u64 \<Rightarrow> nat \<Rightarrow> int" where
  "strncmp_loop m p q 0 = 0"
| "strncmp_loop m p q (Suc n) =
     (if m p \<noteq> 0 \<and> m p = m q then strncmp_loop m (p + 1) (q + 1) n else uint (m p) - uint (m q))"

definition strncmp :: "memory \<Rightarrow> u64 \<Rightarrow> u64 \<Rightarrow> u32 \<Rightarrow> int" where
  "strncmp m p q n = strncmp_loop m p q (unat n)"

primrec strncpy_pad :: "memory \<Rightarrow> u64 \<Rightarrow> nat \<Rightarrow> memory" where
  "strncpy_pad m s 0 = m"
| "strncpy_pad m s (Suc n) = strncpy_pad (m(s := 0)) (s + 1) n"

primrec strncpy_loop :: "memory \<Rightarrow> u64 \<Rightarrow> u64 \<Rightarrow> nat \<Rightarrow> memory" where
  "strncpy_loop m s t 0 = m"
| "strncpy_loop m s t (Suc n) =
     (let m' = m(s := m t)
      in if m t \<noteq> 0 then strncpy_loop m' (s + 1) (t + 1) n else strncpy_pad m' (s + 1) n)"

definition strncpy :: "memory \<Rightarrow> u64 \<Rightarrow> u64 \<Rightarrow> int \<Rightarrow> memory \<times> u64" where
  "strncpy m s t n = (strncpy_loop m s t (nat n), s)"

primrec safestrcpy_loop :: "memory \<Rightarrow> u64 \<Rightarrow> u64 \<Rightarrow> nat \<Rightarrow> memory" where
  "safestrcpy_loop m s t 0 = m(s := 0)"
| "safestrcpy_loop m s t (Suc n) =
     (let m' = m(s := m t)
      in if m t \<noteq> 0 then safestrcpy_loop m' (s + 1) (t + 1) n else m'(s + 1 := 0))"

definition safestrcpy :: "memory \<Rightarrow> u64 \<Rightarrow> u64 \<Rightarrow> int \<Rightarrow> memory \<times> u64" where
  "safestrcpy m s t n = (if n \<le> 0 then (m, s) else (safestrcpy_loop m s t (nat (n - 1)), s))"

function strlen_loop :: "memory \<Rightarrow> u64 \<Rightarrow> nat \<Rightarrow> nat option" where
  "strlen_loop m s n =
     (if 2 ^ 31 \<le> n then None
      else if m (s + of_nat n) = 0 then Some n
      else strlen_loop m s (n + 1))"
  by pat_completeness auto
termination
  by (relation "measure (\<lambda>(m, s, n). 2 ^ 31 - n)") auto

declare strlen_loop.simps [simp del]

definition strlen :: "memory \<Rightarrow> u64 \<Rightarrow> nat option" where
  "strlen m s = strlen_loop m s 0"

text \<open>The loops below have no counter: they need not end on a memory without a zero byte.\<close>

partial_function (option) strcmp :: "memory \<Rightarrow> u64 \<Rightarrow> u64 \<Rightarrow> int option" where
  "strcmp m s1 s2 =
     (let res = uint (m s1) - uint (m s2)
      in if res \<noteq> 0 \<or> m s1 = 0 then Some res else strcmp m (s1 + 1) (s2 + 1))"

partial_function (option) strcpy_loop :: "memory \<Rightarrow> u64 \<Rightarrow> u64 \<Rightarrow> memory option" where
  "strcpy_loop m dest src =
     (let m' = m(dest := m src)
      in if m src \<noteq> 0 then strcpy_loop m' (dest + 1) (src + 1) else Some m')"

definition strcpy :: "memory \<Rightarrow> u64 \<Rightarrow> u64 \<Rightarrow> (memory \<times> u64) option" where
  "strcpy m dest src = do { m' \<leftarrow> strcpy_loop m dest src; Some (m', dest) }"

text \<open>\<open>l1\<close> counts down to \<open>l2\<close>; the result 0 is the null pointer.\<close>

function strstr_loop :: "memory \<Rightarrow> u64 \<Rightarrow> u64 \<Rightarrow> nat \<Rightarrow> nat \<Rightarrow> u64" where
  "strstr_loop m s1 s2 l1 l2 =
     (if l2 \<le> l1 \<and> 0 < l2 then
        if memcmp m s1 s2 (of_nat l2) = 0 then s1
        else strstr_loop m (s1 + 1) s2 (l1 - 1) l2
      else 0)"
  by pat_completeness auto
termination
  by (relation "measure (\<lambda>(m, s1, s2, l1, l2). l1)") auto

declare strstr_loop.simps [simp del]

definition strstr :: "memory \<Rightarrow> u64 \<Rightarrow> u64 \<Rightarrow> u64 option" where
  "strstr m s1 s2 = do {
     l2 \<leftarrow> strlen m s2;
     if l2 = 0 then Some s1
     else do {
       l1 \<leftarrow> strlen m s1;
       Some (strstr_loop m s1 s2 l1 l2)
     }
   }"

definition strlcpy :: "memory \<Rightarrow> u64 \<Rightarrow> u64 \<Rightarrow> u64 \<Rightarrow> (memory \<times> nat) option" where
  "strlcpy m dest src n = do {
     ret \<leftarrow> strlen m src;
     if n \<noteq> 0 then do {
       let len = (if unat n \<le> ret then unat n - 1 else ret);
       let m = fst (memcpy m dest src (of_nat len));
       Some (m(dest + of_nat len := 0), ret)
     }
     else Some (m, ret)
   }"

partial_function (option) strchr :: "memory \<Rightarrow> u64 \<Rightarrow> u8 \<Rightarrow> u64 option" where
  "strchr m s c =
     (if m s \<noteq> c then if m s = 0 then Some 0 else strchr m (s + 1) c
      else Some s)"

text \<open>The loop runs from the terminating zero back to the start of the string.\<close>

primrec strrchr_loop :: "memory \<Rightarrow> u64 \<Rightarrow> u8 \<Rightarrow> nat \<Rightarrow> u64" where
  "strrchr_loop m s c 0 = (if m s = c then s else 0)"
| "strrchr_loop m s c (Suc n) = (if m (s + of_nat (Suc n)) = c then s + of_nat (Suc n) else strrchr_loop m s c n)"

definition strrchr :: "memory \<Rightarrow> u64 \<Rightarrow> u8 \<Rightarrow> u64 option" where
  "strrchr m s c = do {
     n \<leftarrow> strlen m s;
     Some (strrchr_loop m s c n)
   }"

section \<open>Blocks of memory: correctness\<close>

lemma of_nat_64_eq_iff: "i < 2 ^ 64 \<Longrightarrow> j < 2 ^ 64 \<Longrightarrow> (of_nat i :: u64) = of_nat j \<longleftrightarrow> i = j"
  by (metis unat_of_nat_64)

lemma add_of_nat_Suc: "(p :: u64) + of_nat (Suc i) = (p + 1) + of_nat i"
  by simp

lemma memset_loop_correct:
  assumes "i + k \<le> 2 ^ 64"
  shows "memset_loop m d c i k a = (if \<exists>j. i \<le> j \<and> j < i + k \<and> a = d + of_nat j then c else m a)"
  using assms
proof (induction k arbitrary: m i)
  case (Suc k)
  then show ?case by (auto simp: less_Suc_eq_le le_Suc_eq) (metis Suc_leI le_neq_implies_less)+
qed auto

lemma memset_correct:
  assumes "unat n < 2 ^ 31"
  obtains m' where "memset m dst c n = Some (m', dst)"
    and "\<And>i. i < unat n \<Longrightarrow> m' (dst + of_nat i) = ucast c"
    and "\<And>a. (\<And>i. i < unat n \<Longrightarrow> a \<noteq> dst + of_nat i) \<Longrightarrow> m' a = m a"
  using assms memset_loop_correct[of 0 "unat n" m dst "ucast c"]
  by (auto simp: memset_def intro!: that[of "memset_loop m dst (ucast c) 0 (unat n)"])

lemma offset_neq: "0 < j \<Longrightarrow> j < 2 ^ 64 \<Longrightarrow> (d :: u64) \<noteq> d + of_nat j"
  using of_nat_64_eq_iff[of j 0] by auto

lemma copy_up_correct:
  assumes "n \<le> 2 ^ 64" and "\<forall>i j. i < j \<and> j < n \<longrightarrow> d + of_nat i \<noteq> s + of_nat j"
  shows "(\<forall>i < n. copy_up m d s n (d + of_nat i) = m (s + of_nat i)) \<and>
    (\<forall>a. (\<forall>i < n. a \<noteq> d + of_nat i) \<longrightarrow> copy_up m d s n a = m a)"
  using assms
proof (induction n arbitrary: m d s)
  case (Suc n)
  have ap: "\<forall>i j. i < j \<and> j < n \<longrightarrow> d + 1 + of_nat i \<noteq> s + 1 + of_nat j"
    using Suc.prems(2) by (metis Suc_mono add_of_nat_Suc)
  define m1 where "m1 = m(d := m s)"
  have st: "copy_up m d s (Suc n) = copy_up m1 (d + 1) (s + 1) n" by (simp add: m1_def)
  have IH: "\<forall>i < n. copy_up m1 (d + 1) (s + 1) n (d + 1 + of_nat i) = m1 (s + 1 + of_nat i)"
     "\<forall>a. (\<forall>i < n. a \<noteq> d + 1 + of_nat i) \<longrightarrow> copy_up m1 (d + 1) (s + 1) n a = m1 a"
    using Suc.IH[OF _ ap, of m1] Suc.prems(1) by auto
  have dn: "d \<noteq> d + 1 + of_nat i" if "i < n" for i using offset_neq[of "Suc i" d] that Suc.prems(1) by (simp add: add.assoc)
  show ?case
    unfolding st
  proof (intro conjI allI impI)
    fix i assume i: "i < Suc n"
    show "copy_up m1 (d + 1) (s + 1) n (d + of_nat i) = m (s + of_nat i)"
    proof (cases i)
      case 0
      then show ?thesis using IH(2) dn by (simp add: m1_def)
    next
      case (Suc i')
      have "s + of_nat i \<noteq> d" using Suc.prems(2)[rule_format, of 0 i] Suc i by simp
      then have "m1 (s + of_nat i) = m (s + of_nat i)" by (simp add: m1_def del: of_nat_Suc)
      moreover have "d + of_nat i = d + 1 + of_nat i'" "s + of_nat i = s + 1 + of_nat i'" using Suc by simp_all
      moreover have "i' < n" using Suc i by simp
      ultimately show ?thesis using IH(1) by metis
    qed
  next
    fix a assume a: "\<forall>i < Suc n. a \<noteq> d + of_nat i"
    have "\<forall>j < n. a \<noteq> d + 1 + of_nat j" using a by (metis Suc_mono add_of_nat_Suc)
    moreover have "a \<noteq> d" using a by auto
    ultimately show "copy_up m1 (d + 1) (s + 1) n a = m a" using IH(2) by (simp add: m1_def)
  qed
qed simp

lemma copy_down_correct:
  assumes "n \<le> 2 ^ 64" and "\<forall>i j. i < j \<and> j < n \<longrightarrow> s + of_nat i \<noteq> d + of_nat j"
  shows "(\<forall>i < n. copy_down m (d + of_nat n) (s + of_nat n) n (d + of_nat i) = m (s + of_nat i)) \<and>
    (\<forall>a. (\<forall>i < n. a \<noteq> d + of_nat i) \<longrightarrow> copy_down m (d + of_nat n) (s + of_nat n) n a = m a)"
  using assms
proof (induction n arbitrary: m)
  case (Suc n)
  define m1 where "m1 = m(d + of_nat n := m (s + of_nat n))"
  have st: "copy_down m (d + of_nat (Suc n)) (s + of_nat (Suc n)) (Suc n) = copy_down m1 (d + of_nat n) (s + of_nat n) n" by (simp add: m1_def)
  have IH: "\<forall>i < n. copy_down m1 (d + of_nat n) (s + of_nat n) n (d + of_nat i) = m1 (s + of_nat i)"
     "\<forall>a. (\<forall>i < n. a \<noteq> d + of_nat i) \<longrightarrow> copy_down m1 (d + of_nat n) (s + of_nat n) n a = m1 a"
    using Suc.IH[of m1] Suc.prems by auto
  have dn: "\<forall>i < n. d + of_nat n \<noteq> d + of_nat i" using of_nat_64_eq_iff[of n] Suc.prems(1) by auto
  show ?case
    unfolding st
  proof (intro conjI allI impI)
    fix i assume i: "i < Suc n"
    show "copy_down m1 (d + of_nat n) (s + of_nat n) n (d + of_nat i) = m (s + of_nat i)"
    proof (cases "i = n")
      case True
      then show ?thesis using IH(2) dn by (simp add: m1_def)
    next
      case False
      then have "s + of_nat i \<noteq> d + of_nat n" using Suc.prems(2)[rule_format, of i n] i by simp
      then show ?thesis using IH(1) False i by (simp add: m1_def)
    qed
  next
    fix a assume "\<forall>i < Suc n. a \<noteq> d + of_nat i"
    then show "copy_down m1 (d + of_nat n) (s + of_nat n) n a = m a" using IH(2) by (simp add: m1_def)
  qed
qed simp

lemma memmove_correct_aux:
  assumes s: "unat src + unat n < 2 ^ 64" and d: "unat dst + unat n < 2 ^ 64"
  shows "(\<forall>i < unat n. fst (memmove m dst src n) (dst + of_nat i) = m (src + of_nat i)) \<and>
    (\<forall>a. (\<forall>i < unat n. a \<noteq> dst + of_nat i) \<longrightarrow> fst (memmove m dst src n) a = m a)"
proof -
  have un: "(ucast n :: u64) = of_nat (unat n)" by simp
  have ub: "unat n < 2 ^ 32" using unsigned_less[of n, where ?'a = nat] by simp
  then have le: "unat n \<le> 2 ^ 64" by simp
  have off: "unat (p + of_nat i :: u64) = unat p + i" if "unat p + unat n < 2 ^ 64" "i \<le> unat n" for p i
  proof -
    have "unat (of_nat i :: u64) = i" by (rule unat_of_nat_64) (use that ub in simp)
    then show ?thesis using that by (simp add: unat_word_ariths)
  qed
  show ?thesis
  proof (cases "src < dst \<and> dst < src + ucast n")
    case True
    have "\<forall>i j. i < j \<and> j < unat n \<longrightarrow> src + of_nat i \<noteq> dst + of_nat j"
    proof (intro allI impI)
      fix i j assume ij: "i < j \<and> j < unat n"
      have "unat src + i < unat dst + j" using True ij by (simp add: word_less_nat_alt)
      then show "src + of_nat i \<noteq> dst + of_nat j" using off[OF s, of i] off[OF d, of j] ij by auto
    qed
    then show ?thesis using copy_down_correct[OF le, of src dst m] True unfolding memmove_def un by simp
  next
    case False
    have "\<forall>i j. i < j \<and> j < unat n \<longrightarrow> dst + of_nat i \<noteq> src + of_nat j"
    proof (intro allI impI)
      fix i j assume ij: "i < j \<and> j < unat n"
      have "unat dst \<le> unat src \<or> unat src + unat n \<le> unat dst"
        using False off[OF s, of "unat n"] unfolding un by (auto simp: word_less_nat_alt)
      then have "unat dst + i \<noteq> unat src + j" using ij by auto
      then show "dst + of_nat i \<noteq> src + of_nat j" using off[OF s, of j] off[OF d, of i] ij by auto
    qed
    then show ?thesis using copy_up_correct[OF le, of dst src m] False unfolding memmove_def un by auto
  qed
qed

section \<open>Strings: correctness\<close>

primrec cstring :: "memory \<Rightarrow> u64 \<Rightarrow> u8 list \<Rightarrow> bool" where
  "cstring m p [] \<longleftrightarrow> m p = 0"
| "cstring m p (c # s) \<longleftrightarrow> m p = c \<and> c \<noteq> 0 \<and> cstring m (p + 1) s"

lemma cstring_nth: "cstring m p s \<Longrightarrow> i < length s \<Longrightarrow> m (p + of_nat i) = s ! i \<and> s ! i \<noteq> 0"
proof (induction s arbitrary: p i)
  case (Cons c s)
  then show ?case by (cases i) (auto simp: add.assoc[symmetric])
qed simp

lemma cstring_end: "cstring m p s \<Longrightarrow> m (p + of_nat (length s)) = 0"
proof (induction s arbitrary: p)
  case (Cons c s)
  then show ?case by (auto simp: add.assoc[symmetric])
qed simp

lemma cstring_iff:
  "cstring m p s \<longleftrightarrow> (\<forall>i < length s. m (p + of_nat i) = s ! i \<and> s ! i \<noteq> 0) \<and> m (p + of_nat (length s)) = 0"
proof
  assume r: "(\<forall>i < length s. m (p + of_nat i) = s ! i \<and> s ! i \<noteq> 0) \<and> m (p + of_nat (length s)) = 0"
  then show "cstring m p s"
  proof (induction s arbitrary: p)
    case (Cons c s)
    have "m (p + 1 + of_nat i) = s ! i \<and> s ! i \<noteq> 0" if "i < length s" for i
      using Cons.prems[THEN conjunct1, rule_format, of "Suc i"] that by (simp add: add.assoc)
    moreover have "m (p + 1 + of_nat (length s)) = 0" using Cons.prems by (simp add: add.assoc)
    ultimately show ?case using Cons.IH[of "p + 1"] Cons.prems[THEN conjunct1, rule_format, of 0] by simp
  qed simp
qed (use cstring_nth cstring_end in blast)

lemma cstring_unique: "cstring m p s \<Longrightarrow> cstring m p t \<Longrightarrow> s = t"
proof (induction s arbitrary: p t)
  case Nil then show ?case by (cases t) auto
next
  case (Cons c s) then show ?case by (cases t) auto
qed

lemma strlen_loop_correct:
  assumes "cstring m (p + of_nat n) s" "n + length s < 2 ^ 31"
  shows "strlen_loop m p n = Some (n + length s)"
  using assms
proof (induction s arbitrary: n)
  case Nil
  then show ?case by (subst strlen_loop.simps) simp
next
  case (Cons c s)
  have "strlen_loop m p (n + 1) = Some (n + 1 + length s)"
    by (rule Cons.IH) (use Cons.prems in \<open>simp_all add: ac_simps\<close>)
  then show ?case using Cons.prems by (subst strlen_loop.simps) simp
qed

lemma strlen_correct: "cstring m p s \<Longrightarrow> length s < 2 ^ 31 \<Longrightarrow> strlen m p = Some (length s)"
  using strlen_loop_correct[of m p 0 s] by (simp add: strlen_def)

text \<open>The comparison \<^verbatim>\<open>strcmp\<close> computes, on the strings themselves.\<close>

fun str_cmp :: "u8 list \<Rightarrow> u8 list \<Rightarrow> int" where
  "str_cmp [] [] = 0"
| "str_cmp [] (d # t) = - uint d"
| "str_cmp (c # s) [] = uint c"
| "str_cmp (c # s) (d # t) = (if c \<noteq> d then uint c - uint d else str_cmp s t)"

lemma strcmp_eq:
  "cstring m p s \<Longrightarrow> cstring m q t \<Longrightarrow> strcmp m p q = Some (str_cmp s t)"
proof (induction s t arbitrary: p q rule: str_cmp.induct)
  case (4 c s d t)
  then show ?case by (subst strcmp.simps) (auto simp: Let_def word_uint_eq_iff)
qed (subst strcmp.simps, auto simp: Let_def word_uint_eq_iff)+

lemma str_cmp_0: "0 \<notin> set s \<Longrightarrow> 0 \<notin> set t \<Longrightarrow> str_cmp s t = 0 \<longleftrightarrow> s = t"
  by (induction s t rule: str_cmp.induct) (auto simp: word_uint_eq_iff)

lemma str_cmp_less: "0 \<notin> set s \<Longrightarrow> 0 \<notin> set t \<Longrightarrow> str_cmp s t < 0 \<longleftrightarrow> ord_class.lexordp s t"
proof (induction s t rule: str_cmp.induct)
  case (2 d t)
  then have "0 < uint d" by (metis insertI1 list.set(2) uint_0_iff uint_ge_0 less_le)
  then show ?case by simp
next
  case (3 c s)
  then show ?case by (simp add: not_less)
next
  case (4 c s d t)
  then show ?case by (auto simp: word_less_def not_less_iff_gr_or_eq word_uint_eq_iff)
qed simp

lemma cstring_no_zero: "cstring m p s \<Longrightarrow> 0 \<notin> set s"
  by (induction s arbitrary: p) auto

lemma memcmp_loop_0: "memcmp_loop m p q n = 0 \<longleftrightarrow> (\<forall>i < n. m (p + of_nat i) = m (q + of_nat i))"
proof (induction n arbitrary: p q)
  case (Suc n)
  have "(\<forall>i < Suc n. m (p + of_nat i) = m (q + of_nat i)) \<longleftrightarrow>
    m p = m q \<and> (\<forall>i < n. m (p + 1 + of_nat i) = m (q + 1 + of_nat i))"
    by (auto simp: All_less_Suc2 add.assoc)
  then show ?case using Suc.IH[of "p + 1" "q + 1"] by (simp add: word_uint_eq_iff)
qed simp

section \<open>Searching\<close>

text \<open>The first position at which \<open>t\<close> occurs in \<open>s\<close>.\<close>

fun find_sub :: "u8 list \<Rightarrow> u8 list \<Rightarrow> nat option" where
  "find_sub t [] = (if t = [] then Some 0 else None)"
| "find_sub t (c # s) = (if take (length t) (c # s) = t then Some 0 else map_option Suc (find_sub t s))"

lemma find_sub_first:
  "find_sub t s = Some i \<longleftrightarrow> i \<le> length s \<and> take (length t) (drop i s) = t \<and> (\<forall>j < i. take (length t) (drop j s) \<noteq> t)"
proof (induction s arbitrary: i)
  case (Cons c s)
  show ?case
  proof (cases i)
    case 0 then show ?thesis by auto
  next
    case (Suc j)
    then show ?thesis using Cons.IH[of j] by (auto simp: All_less_Suc2)
  qed
qed auto

lemma memcmp_prefix:
  assumes "cstring m p s" "cstring m q t" "length t \<le> length s" "length t < 2 ^ 31"
  shows "memcmp m p q (of_nat (length t)) = 0 \<longleftrightarrow> take (length t) s = t"
proof -
  have "memcmp m p q (of_nat (length t)) = 0 \<longleftrightarrow> (\<forall>i < length t. s ! i = t ! i)"
    using assms cstring_nth[OF assms(1)] cstring_nth[OF assms(2)]
    by (simp add: memcmp_def memcmp_loop_0)
  then show ?thesis using assms(3) by (auto simp: list_eq_iff_nth_eq)
qed

lemma strstr_loop_correct:
  assumes "cstring m p s" "cstring m q t" "t \<noteq> []" "length t < 2 ^ 31"
  shows "strstr_loop m p q (length s) (length t) = (case find_sub t s of None \<Rightarrow> 0 | Some i \<Rightarrow> p + of_nat i)"
  using assms
proof (induction s arbitrary: p)
  case Nil
  then show ?case by (subst strstr_loop.simps) auto
next
  case (Cons c s)
  have IH: "strstr_loop m (p + 1) q (length s) (length t) = (case find_sub t s of None \<Rightarrow> 0 | Some i \<Rightarrow> p + 1 + of_nat i)"
    using Cons by auto
  show ?case
  proof (cases "length t \<le> length (c # s)")
    case True
    note mp = memcmp_prefix[OF Cons.prems(1,2) True Cons.prems(4)]
    show ?thesis
    proof (cases "take (length t) (c # s) = t")
      case True
      then show ?thesis using mp \<open>length t \<le> length (c # s)\<close> Cons.prems(3) by (subst strstr_loop.simps) simp
    next
      case False
      then have "strstr_loop m p q (length (c # s)) (length t) = strstr_loop m (p + 1) q (length s) (length t)"
        using mp True Cons.prems(3) by (subst strstr_loop.simps) simp
      then show ?thesis using IH False by (auto split: option.splits simp: add.assoc)
    qed
  next
    case False
    then have n: "find_sub t (c # s) = None"
      using find_sub_first[of t "c # s"] by (cases "find_sub t (c # s)") (auto dest: arg_cong[of _ _ length])
    show ?thesis using False unfolding n by (subst strstr_loop.simps) simp
  qed
qed

lemma strstr_correct:
  assumes "cstring m p s" "cstring m q t" "length s < 2 ^ 31" "length t < 2 ^ 31"
  shows "strstr m p q = Some (case find_sub t s of None \<Rightarrow> 0 | Some i \<Rightarrow> p + of_nat i)"
proof (cases "t = []")
  case True
  then have "find_sub t s = Some 0" by (cases s) auto
  then show ?thesis using strlen_correct[OF assms(2,4)] True by (simp add: strstr_def)
next
  case False
  then show ?thesis
    using strlen_correct[OF assms(1,3)] strlen_correct[OF assms(2,4)] strstr_loop_correct[OF assms(1,2) False assms(4)]
    by (simp add: strstr_def)
qed

section \<open>Copying strings\<close>

text \<open>\<open>apart d p n\<close>: the \<open>n\<close> bytes at \<open>d\<close> and the \<open>n\<close> bytes at \<open>p\<close> have none in common.\<close>

definition apart :: "u64 \<Rightarrow> u64 \<Rightarrow> nat \<Rightarrow> bool" where
  "apart d p n \<longleftrightarrow> (\<forall>i < n. \<forall>j < n. d + of_nat i \<noteq> p + of_nat j)"

lemma apart_Suc: "apart d p (Suc n) \<Longrightarrow> apart (d + 1) (p + 1) n"
  unfolding apart_def by (metis Suc_mono add_of_nat_Suc)

lemma strcpy_loop_correct:
  assumes "cstring m p s" "apart d p (Suc (length s))" "Suc (length s) < 2 ^ 64"
  shows "\<exists>m'. strcpy_loop m d p = Some m' \<and> cstring m' d s \<and> (\<forall>a. (\<forall>i \<le> length s. a \<noteq> d + of_nat i) \<longrightarrow> m' a = m a)"
  using assms
proof (induction s arbitrary: m d p)
  case Nil
  have "a \<noteq> d" if "\<forall>i \<le> 0. a \<noteq> d + of_nat i" for a using that by auto
  then show ?case using Nil by (subst strcpy_loop.simps) auto
next
  case (Cons c s)
  define m1 where "m1 = m(d := m p)"
  have pd: "p + of_nat j \<noteq> d" if "j \<le> Suc (length s)" for j
    using Cons.prems(2)[unfolded apart_def, rule_format, of 0 j] that by auto
  have "cstring m1 (p + 1) s"
    unfolding cstring_iff
  proof (intro conjI allI impI)
    fix i assume i: "i < length s"
    show "m1 (p + 1 + of_nat i) = s ! i" "s ! i \<noteq> 0"
      using pd[of "Suc i"] cstring_nth[of m "p + 1" s i] Cons.prems(1) i by (auto simp: m1_def add.assoc)
  next
    show "m1 (p + 1 + of_nat (length s)) = 0"
      using pd[of "Suc (length s)"] cstring_end[of m "p + 1" s] Cons.prems(1) by (auto simp: m1_def add.assoc)
  qed
  moreover have "apart (d + 1) (p + 1) (Suc (length s))" using Cons.prems(2) apart_Suc by simp
  ultimately obtain m' where m': "strcpy_loop m1 (d + 1) (p + 1) = Some m'" "cstring m' (d + 1) s"
    "\<forall>a. (\<forall>i \<le> length s. a \<noteq> d + 1 + of_nat i) \<longrightarrow> m' a = m1 a"
    using Cons.IH[of m1 "p + 1" "d + 1"] Cons.prems(3) by auto
  have e: "strcpy_loop m d p = Some m'" using m'(1) Cons.prems(1) by (subst strcpy_loop.simps) (simp add: m1_def)
  have "d \<noteq> d + 1 + of_nat i" if "i \<le> length s" for i using offset_neq[of "Suc i" d] that Cons.prems(3) by (simp add: add.assoc)
  then have "m' d = c" using m'(3) Cons.prems(1) by (simp add: m1_def)
  moreover have "m' a = m a" if a: "\<forall>i \<le> length (c # s). a \<noteq> d + of_nat i" for a
  proof -
    have "\<forall>i \<le> length s. a \<noteq> d + 1 + of_nat i" using a by (metis Suc_le_mono add_of_nat_Suc length_Cons)
    moreover have "a \<noteq> d" using a by auto
    ultimately show ?thesis using m'(3) by (simp add: m1_def)
  qed
  ultimately show ?case using e m'(2) Cons.prems(1) by auto
qed

lemma strlcpy_correct_aux:
  assumes s: "cstring m src s" and len: "length s < 2 ^ 31" and n: "n \<noteq> 0"
    and ws: "unat src + length s < 2 ^ 64" and wd: "unat dest + length s < 2 ^ 64"
  obtains m' where "strlcpy m dest src n = Some (m', length s)" and "cstring m' dest (take (unat n - 1) s)"
    and "\<And>a. (\<And>i. i < unat n \<Longrightarrow> i \<le> length s \<Longrightarrow> a \<noteq> dest + of_nat i) \<Longrightarrow> m' a = m a"
proof -
  define k where "k = (if unat n \<le> length s then unat n - 1 else length s)"
  have k: "k \<le> length s" "k < unat n" "take (unat n - 1) s = take k s" using n by (auto simp: k_def unat_gt_0)
  have uk: "unat (of_nat k :: u32) = k" by (rule unat_of_nat_32) (use k len in simp)
  note mm = memmove_correct_aux[where src = src and dst = dest and n = "of_nat k" and m = m, unfolded uk]
  define m1 where "m1 = fst (memcpy m dest src (of_nat k))"
  have m1: "\<forall>i < k. m1 (dest + of_nat i) = m (src + of_nat i)" "\<forall>a. (\<forall>i < k. a \<noteq> dest + of_nat i) \<longrightarrow> m1 a = m a"
    using mm ws wd k(1) by (auto simp: m1_def memcpy_def)
  let ?m = "m1(dest + of_nat k := 0)"
  have "strlcpy m dest src n = Some (?m, length s)"
    using strlen_correct[OF s len] n unfolding strlcpy_def m1_def k_def by (simp add: Let_def)
  moreover have "cstring ?m dest (take (unat n - 1) s)"
    unfolding k(3) cstring_iff
  proof (intro conjI allI impI)
    fix i assume "i < length (take k s)"
    then have i: "i < k" "i < length s" by simp_all
    have "dest + of_nat i \<noteq> dest + of_nat k" using of_nat_64_eq_iff[of i k] i k(1) len by simp
    then show "?m (dest + of_nat i) = take k s ! i" "take k s ! i \<noteq> 0"
      using m1(1) cstring_nth[OF s i(2)] i by auto
  qed (use k in simp)
  moreover have "?m a = m a" if "\<And>i. i < unat n \<Longrightarrow> i \<le> length s \<Longrightarrow> a \<noteq> dest + of_nat i" for a
    using m1(2) that k by auto
  ultimately show ?thesis by (rule that)
qed

section \<open>Properties\<close>

text \<open>\<^verbatim>\<open>memmove\<close> copies the source as it was, also when the two ranges overlap in either
  direction, and changes no other byte; it needs that neither range reaches the end of the address space.\<close>

lemma memmove_correct:
  assumes "unat src + unat n < 2 ^ 64" "unat dst + unat n < 2 ^ 64"
  shows "snd (memmove m dst src n) = dst \<and>
    (\<forall>i < unat n. fst (memmove m dst src n) (dst + of_nat i) = m (src + of_nat i)) \<and>
    (\<forall>a. (\<forall>i < unat n. a \<noteq> dst + of_nat i) \<longrightarrow> fst (memmove m dst src n) a = m a)"
  using memmove_correct_aux[OF assms, of m] by (simp add: memmove_def)

lemma memmove_correct_witness:
  "fst (memmove (\<lambda>a. ucast a) 0x1001 0x1000 3) 0x1003 = 2 \<and> fst (memmove (\<lambda>a. ucast a) 0x1001 0x1000 3) 0x1004 = 4"
proof -
  have r: "i < unat (3 :: u32) \<longleftrightarrow> i = 0 \<or> i = 1 \<or> i = 2" for i by auto
  show ?thesis using memmove_correct[of "0x1000" 3 "0x1001" "\<lambda>a. ucast a"] unfolding r by auto
qed

text \<open>\<^verbatim>\<open>strcmp\<close> on two terminated strings returns, its result is 0 exactly for equal strings, and
  negative exactly when the first precedes the second in lexicographic order of unsigned bytes.\<close>

lemma strcmp_correct:
  assumes "cstring m p s" "cstring m q t"
  shows "\<exists>r. strcmp m p q = Some r \<and> (r = 0 \<longleftrightarrow> s = t) \<and> (r < 0 \<longleftrightarrow> ord_class.lexordp s t)"
  using strcmp_eq[OF assms] str_cmp_0 str_cmp_less cstring_no_zero[OF assms(1)] cstring_no_zero[OF assms(2)] by simp

definition sample_memory :: memory where
  "sample_memory = (\<lambda>_. 0)(0x100 := 97, 0x101 := 98, 0x102 := 97, 0x103 := 98, 0x104 := 99, 0x200 := 97, 0x201 := 98, 0x202 := 99)"

lemma sample_strings: "cstring sample_memory 0x100 [97, 98, 97, 98, 99]" "cstring sample_memory 0x200 [97, 98, 99]"
  by (simp_all add: sample_memory_def)

lemma strcmp_correct_witness:
  "\<exists>r. strcmp sample_memory 0x100 0x200 = Some r \<and> r < 0"
  using strcmp_correct[OF sample_strings] by auto

text \<open>\<^verbatim>\<open>strlcpy\<close> with a nonempty buffer stores the longest prefix of the source that fits, always
  terminated, returns the length of the whole source, and writes at most \<open>n\<close> bytes.\<close>

lemma strlcpy_correct:
  assumes "cstring m src s" "length s < 2 ^ 31" "n \<noteq> 0" "unat src + length s < 2 ^ 64" "unat dest + length s < 2 ^ 64"
  shows "\<exists>m'. strlcpy m dest src n = Some (m', length s) \<and> cstring m' dest (take (unat n - 1) s) \<and>
    (\<forall>a. (\<forall>i < unat n. a \<noteq> dest + of_nat i) \<longrightarrow> m' a = m a)"
  by (rule strlcpy_correct_aux[OF assms]) blast

lemma strlcpy_correct_witness:
  "\<exists>m'. strlcpy sample_memory 0x300 0x100 3 = Some (m', 5) \<and> cstring m' 0x300 [97, 98]"
  using strlcpy_correct[OF sample_strings(1), of 3 "0x300"] by auto

text \<open>\<^verbatim>\<open>strstr\<close> returns the address of the first occurrence, and the null pointer exactly when
  there is none.\<close>

lemma strstr_first:
  assumes "cstring m p s" "cstring m q t" "length s < 2 ^ 31" "length t < 2 ^ 31"
  shows "(\<exists>i \<le> length s. strstr m p q = Some (p + of_nat i) \<and> take (length t) (drop i s) = t \<and>
            (\<forall>j < i. take (length t) (drop j s) \<noteq> t)) \<or>
         (strstr m p q = Some 0 \<and> (\<forall>i \<le> length s. take (length t) (drop i s) \<noteq> t))"
proof (cases "find_sub t s")
  case None
  have "take (length t) (drop i s) \<noteq> t" if "i \<le> length s" for i
  proof
    assume "take (length t) (drop i s) = t"
    then obtain j where "j \<le> i" "take (length t) (drop j s) = t" "\<forall>l < j. take (length t) (drop l s) \<noteq> t"
      using ex_has_least_nat[of "\<lambda>l. take (length t) (drop l s) = t" i "\<lambda>x. x"] by (metis not_le)
    then show False using find_sub_first[of t s j] None that by simp
  qed
  then show ?thesis using strstr_correct[OF assms] None by simp
next
  case (Some i)
  then show ?thesis using strstr_correct[OF assms] find_sub_first[of t s i] by auto
qed

lemma strstr_first_witness:
  "strstr sample_memory 0x100 0x200 = Some 0x102"
proof -
  let ?s = "[97, 98, 97, 98, 99] :: u8 list" and ?t = "[97, 98, 99] :: u8 list"
  have "i = 2" if "i \<le> length ?s" "take (length ?t) (drop i ?s) = ?t" for i
  proof -
    have "i = 0 \<or> i = 1 \<or> i = 2 \<or> i = 3 \<or> i = 4 \<or> i = 5" using that(1) by auto
    then show ?thesis using that(2) by (elim disjE) simp_all
  qed
  moreover have "2 \<le> length ?s" "take (length ?t) (drop 2 ?s) = ?t" by simp_all
  moreover have "length ?s < 2 ^ 31" "length ?t < 2 ^ 31" by simp_all
  note strstr_first[OF sample_strings this]
  ultimately have "strstr sample_memory 0x100 0x200 = Some (0x100 + of_nat 2)" by metis
  then show ?thesis by simp
qed

end
