(* ===== verification/Heap_Allocator.thy ===== *)
theory Heap_Allocator
  imports Kernel_Prelude
begin

text \<open>
  The interface of the kernel heap (\<^verbatim>\<open>malloc\<close> and \<^verbatim>\<open>free\<close>): an object is an address
  and a size in bytes, \<open>ok s V\<close> says that in state \<open>s\<close> the objects \<open>V\<close> are live. The lemmas are what the callers of
  \<^verbatim>\<open>malloc\<close> use: a new object overlaps no live one, and freeing it restores the set of live objects.
\<close>

type_synonym object = "u64 \<times> nat"

definition object_bytes :: "object \<Rightarrow> nat set" where
  "object_bytes v = {unat (fst v) ..< unat (fst v) + snd v}"

locale heap_allocator =
  fixes alloc :: "'s \<Rightarrow> u64 \<Rightarrow> ('s \<times> u64) option"
    and dealloc :: "'s \<Rightarrow> u64 \<Rightarrow> 's option"
    and ok :: "'s \<Rightarrow> object set \<Rightarrow> bool"
    and limit :: nat
  assumes alloc_ok: "ok s V \<Longrightarrow> 0 < unat n \<Longrightarrow> unat n \<le> limit \<Longrightarrow>
      alloc s n = Some (s, 0) \<or>
      (\<exists>s' p z. alloc s n = Some (s', p) \<and> p \<noteq> 0 \<and> unat n \<le> z \<and> (p, z) \<notin> V \<and> ok s' (insert (p, z) V))"
    and dealloc_ok: "ok s V \<Longrightarrow> (p, z) \<in> V \<Longrightarrow> \<exists>s'. dealloc s p = Some s' \<and> ok s' (V - {(p, z)})"
    and live_disjoint: "ok s V \<Longrightarrow> v \<in> V \<Longrightarrow> w \<in> V \<Longrightarrow> v \<noteq> w \<Longrightarrow> disjnt (object_bytes v) (object_bytes w)"
    and live_space: "ok s V \<Longrightarrow> (p, z) \<in> V \<Longrightarrow> unat p + z \<le> 2 ^ 64"
begin

lemma heap_alloc_cases:
  assumes "ok s V" "0 < unat n" "unat n \<le> limit"
  obtains (none) "alloc s n = Some (s, 0)"
    | (some) s' p z where "alloc s n = Some (s', p)" "p \<noteq> 0" "unat n \<le> z" "(p, z) \<notin> V" "ok s' (insert (p, z) V)"
  using alloc_ok[OF assms] by blast

lemma heap_alloc_fresh:
  assumes "ok s V" "0 < unat n" "unat n \<le> limit" "alloc s n = Some (s', p)" "p \<noteq> 0"
  shows "unat p + unat n \<le> 2 ^ 64" and "v \<in> V \<Longrightarrow> disjnt {unat p ..< unat p + unat n} (object_bytes v)"
proof -
  obtain z where z: "unat n \<le> z" "(p, z) \<notin> V" "ok s' (insert (p, z) V)"
    using assms(1-3) by (rule heap_alloc_cases) (use assms(4,5) in auto)
  show "unat p + unat n \<le> 2 ^ 64" using live_space[OF z(3), of p z] z(1) by simp
  assume v: "v \<in> V"
  have "disjnt (object_bytes (p, z)) (object_bytes v)" using live_disjoint[OF z(3), of "(p, z)" v] v z(2) by auto
  moreover have "{unat p ..< unat p + unat n} \<subseteq> object_bytes (p, z)" using z(1) by (auto simp: object_bytes_def)
  ultimately show "disjnt {unat p ..< unat p + unat n} (object_bytes v)" by (meson disjnt_subset1)
qed

lemma heap_alloc_dealloc:
  assumes "ok s V" "0 < unat n" "unat n \<le> limit" "alloc s n = Some (s', p)" "p \<noteq> 0"
  obtains s'' where "dealloc s' p = Some s''" "ok s'' V"
proof -
  obtain z where z: "(p, z) \<notin> V" "ok s' (insert (p, z) V)"
    using assms(1-3) by (rule heap_alloc_cases) (use assms(4,5) in auto)
  moreover have "insert (p, z) V - {(p, z)} = V" using z(1) by blast
  ultimately show ?thesis using dealloc_ok[OF z(2), of p z] that by auto
qed

end

end
