(* ===== verification/Kalloc.thy ===== *)
theory Kalloc
  imports Mem_Pool_Invariant Libc_String Heap_Allocator
begin

text \<open>
  The kernel heap of \<^verbatim>\<open>src/mm/kalloc.c\<close>: small requests go to the small-object allocator, large ones to
  the page allocator, and \<^verbatim>\<open>free\<close> tells them apart by the alignment of the pointer. The state is the
  allocator and the bytes of memory, which \<^verbatim>\<open>calloc\<close>, \<^verbatim>\<open>realloc\<close> and
  \<^verbatim>\<open>strdup\<close> write. The headers and list links that the allocators keep inside their pages are part of the records of the
  allocators and not of these bytes: the bytes of live objects are modelled, those of free memory mean nothing.
  The heap implements the interface of \<^theory_text>\<open>heap_allocator\<close>.
\<close>

section \<open>Definitions\<close>

text \<open>The static variables \<^verbatim>\<open>system\<close> and \<^verbatim>\<open>control\<close>; \<^verbatim>\<open>system\<close> and
  \<^verbatim>\<open>control->system\<close> are the same object.\<close>

record kernel_heap =
  control :: mem_pool_control_t
  bytes :: memory

definition alloc_page :: "kernel_heap \<Rightarrow> u64 \<Rightarrow> (kernel_heap \<times> u64) option" where
  "alloc_page h cnt = do {
     (s, ptr) \<leftarrow> buddy_alloc_page (system (control h)) cnt;
     Some (h\<lparr>control := (control h)\<lparr>system := s\<rparr>\<rparr>, ptr)
   }"

definition free_page :: "kernel_heap \<Rightarrow> u64 \<Rightarrow> kernel_heap option" where
  "free_page h ptr = do {
     s \<leftarrow> buddy_free_page (system (control h)) ptr;
     Some (h\<lparr>control := (control h)\<lparr>system := s\<rparr>\<rparr>)
   }"

definition malloc :: "kernel_heap \<Rightarrow> u64 \<Rightarrow> (kernel_heap \<times> u64) option" where
  "malloc h sz =
     (if MEM_POOL_MAX_SIZE < sz then do {
        a \<leftarrow> align_up sz (of_nat PAGE_SIZE);
        alloc_page h (drop_bit PAGE_SHIFT a)
      }
      else do {
        (c, ptr) \<leftarrow> mem_pool_alloc (control h) sz;
        Some (h\<lparr>control := c\<rparr>, ptr)
      })"

text \<open>\<^verbatim>\<open>memset\<close> and \<^verbatim>\<open>memcpy\<close> take a 32-bit length.\<close>

definition calloc :: "kernel_heap \<Rightarrow> u64 \<Rightarrow> u64 \<Rightarrow> (kernel_heap \<times> u64) option" where
  "calloc h nmemb sz = do {
     (h, ptr) \<leftarrow> malloc h (nmemb * sz);
     if ptr \<noteq> 0 then do {
       (m, _) \<leftarrow> memset (bytes h) ptr 0 (ucast (nmemb * sz));
       Some (h\<lparr>bytes := m\<rparr>, ptr)
     }
     else Some (h, ptr)
   }"

definition free :: "kernel_heap \<Rightarrow> u64 \<Rightarrow> kernel_heap option" where
  "free h ptr =
     (if ptr AND (of_nat PAGE_SIZE - 1) = 0 then free_page h ptr
      else do {
        c \<leftarrow> mem_pool_free (control h) ptr;
        Some (h\<lparr>control := c\<rparr>)
      })"

definition realloc :: "kernel_heap \<Rightarrow> u64 \<Rightarrow> u64 \<Rightarrow> (kernel_heap \<times> u64) option" where
  "realloc h old sz = do {
     (h, new) \<leftarrow> malloc h sz;
     if new \<noteq> 0 then do {
       let h = h\<lparr>bytes := fst (memcpy (bytes h) new old (ucast sz))\<rparr>;
       h \<leftarrow> free h old;
       Some (h, new)
     }
     else Some (h, new)
   }"

text \<open>The linker symbol \<^verbatim>\<open>__end\<close> is an argument.\<close>

abbreviation PHYSTOP :: u64 where "PHYSTOP \<equiv> 0x80000000 + 128 * 1024 * 1024"

definition do_mem_init :: "kernel_heap \<Rightarrow> buddy_system_t \<Rightarrow> u64 \<Rightarrow> kernel_heap option" where
  "do_mem_init h raw kernel_end = do {
     s \<leftarrow> buddy_create raw kernel_end (PHYSTOP - kernel_end);
     (c, _) \<leftarrow> mem_pool_create (control h) s;
     Some (h\<lparr>control := c\<rparr>)
   }"

definition strdup :: "kernel_heap \<Rightarrow> u64 \<Rightarrow> (kernel_heap \<times> u64) option" where
  "strdup h s =
     (if s = 0 then Some (h, 0)
      else do {
        n \<leftarrow> strlen (bytes h) s;
        (h, p) \<leftarrow> malloc h (of_nat (n + 1));
        if p \<noteq> 0 then do {
          (m, p) \<leftarrow> strcpy (bytes h) p s;
          Some (h\<lparr>bytes := m\<rparr>, p)
        }
        else Some (h, 0)
      })"

section \<open>Live objects\<close>

text \<open>The large objects are runs of pages that no pool owns.\<close>

definition heap_inv :: "kernel_heap \<Rightarrow> region set \<Rightarrow> bool" where
  "heap_inv h L \<longleftrightarrow> (\<exists>R. pool_inv (control h) R \<and> L \<subseteq> R \<and> fst ` L \<inter> dom (headers (control h)) = {})"

definition small_objects :: "kernel_heap \<Rightarrow> object set" where
  "small_objects h = (\<lambda>b. (b, class_size (block_class (control h) b))) ` used_blocks (control h)"

definition large_objects :: "region set \<Rightarrow> object set" where
  "large_objects L = (\<lambda>r. (fst r, snd r * PAGE_SIZE)) ` L"

definition heap_ok :: "kernel_heap \<Rightarrow> object set \<Rightarrow> bool" where
  "heap_ok h V \<longleftrightarrow> (\<exists>L. heap_inv h L \<and> V = small_objects h \<union> large_objects L)"

lemma pool_inv_block_region:
  assumes inv: "pool_inv c R" and b: "is_block c b"
  obtains n where "(page_base b, n) \<in> R" and "page_base b \<in> dom (headers c)"
    and "block_bytes c b \<subseteq> region_bytes (page_base b, n)"
proof -
  note I = pool_invD[OF inv]
  obtain h where h: "headers c (page_base b) = Some h" using is_block_facts[OF I(3) b] by metis
  then obtain n where n: "(page_base b, n) \<in> R" using headers_okD(3)[OF I(3)] by blast
  have "0 < n" using ba.region_ok[OF I(2) n] by blast
  then have "{unat (page_base b) ..< unat (page_base b) + 4096} \<subseteq> region_bytes (page_base b, n)"
    by (auto simp: region_bytes_def)
  then show ?thesis using that[OF n] h block_bytes_page[OF I(3) b] by blast
qed

lemma object_bytes_small: "object_bytes (b, class_size (block_class c b)) = block_bytes c b"
  by (simp add: object_bytes_def block_bytes_def)

lemma object_bytes_large: "object_bytes (a, n * PAGE_SIZE) = region_bytes (a, n)"
  by (simp add: object_bytes_def region_bytes_def)

lemma heap_live_disjoint:
  assumes "heap_ok h V" "v \<in> V" "w \<in> V" "v \<noteq> w"
  shows "disjnt (object_bytes v) (object_bytes w)"
proof -
  let ?c = "control h"
  obtain L R where inv: "pool_inv ?c R" "L \<subseteq> R" "fst ` L \<inter> dom (headers ?c) = {}" and V: "V = small_objects h \<union> large_objects L"
    using assms(1) by (auto simp: heap_ok_def heap_inv_def)
  note I = pool_invD[OF inv(1)]
  have sl: "disjnt (block_bytes ?c b) (region_bytes r)" if b: "b \<in> used_blocks ?c" and r: "r \<in> L" for b r
  proof -
    obtain n where n: "(page_base b, n) \<in> R" "page_base b \<in> dom (headers ?c)" "block_bytes ?c b \<subseteq> region_bytes (page_base b, n)"
      by (rule pool_inv_block_region[OF inv(1) used_is_block[OF b]])
    have "(page_base b, n) \<noteq> r" using n(2) r inv(3) by (metis disjoint_iff fst_conv image_eqI)
    then have "disjnt (region_bytes (page_base b, n)) (region_bytes r)" using ba.regions_disjoint[OF I(2) n(1)] r inv(2) by blast
    then show ?thesis using n(3) by (meson disjnt_subset1)
  qed
  show ?thesis
    using assms(2-4) unfolding V small_objects_def large_objects_def
    by (auto simp: object_bytes_small object_bytes_large disjnt_sym sl
        intro!: block_bytes_disjoint[OF I(3)] ba.regions_disjoint[OF I(2)] disjnt_sym[OF sl] dest: used_is_block inv(2)[THEN subsetD])
qed

lemma heap_live_space:
  assumes "heap_ok h V" "(p, z) \<in> V"
  shows "unat p + z \<le> 2 ^ 64"
proof -
  obtain L R where inv: "pool_inv (control h) R" "L \<subseteq> R" and V: "V = small_objects h \<union> large_objects L"
    using assms(1) by (auto simp: heap_ok_def heap_inv_def)
  note I = pool_invD[OF inv(1)]
  consider b where "b \<in> used_blocks (control h)" "p = b" "z = class_size (block_class (control h) b)"
    | n where "(p, n) \<in> L" "z = n * PAGE_SIZE"
    using assms(2) V by (auto simp: small_objects_def large_objects_def)
  then show ?thesis
  proof cases
    case (1 b)
    obtain n where n: "(page_base b, n) \<in> R" "block_bytes (control h) b \<subseteq> region_bytes (page_base b, n)"
      by (rule pool_inv_block_region[OF inv(1) used_is_block[OF 1(1)]])
    have "unat (page_base b) + n * 4096 \<le> 2 ^ 64" using ba.region_ok[OF I(2) n(1)] by blast
    moreover have "unat b < 2 ^ 64" by (rule order_less_le_trans[OF unsigned_less]) simp
    ultimately show ?thesis using n(2) 1 by (auto simp: block_bytes_def region_bytes_def atLeastLessThan_subset_iff)
  next
    case (2 n)
    then show ?thesis using ba.region_ok[OF I(2)] inv(2) by blast
  qed
qed

section \<open>The heap implements the interface\<close>

lemma heap_okE:
  assumes "heap_ok h V"
  obtains L R where "pool_inv (control h) R" "L \<subseteq> R" "fst ` L \<inter> dom (headers (control h)) = {}" "V = small_objects h \<union> large_objects L"
  using assms by (auto simp: heap_ok_def heap_inv_def)

lemma heap_okI:
  assumes "pool_inv (control h) R" "L \<subseteq> R" "fst ` L \<inter> dom (headers (control h)) = {}" "V = small_objects h \<union> large_objects L"
  shows "heap_ok h V"
  using assms by (auto simp: heap_ok_def heap_inv_def)

lemma used_blocks_system [simp]: "used_blocks (c\<lparr>system := s\<rparr>) = used_blocks c" "block_class (c\<lparr>system := s\<rparr>) = block_class c"
  by (simp_all add: used_blocks_def is_block_def block_class_def page_pool_def fun_eq_iff)

lemma pool_inv_system:
  assumes "pool_inv c R" "page_regions s R'" "\<And>a n. (a, n) \<in> R \<Longrightarrow> a \<in> dom (headers c) \<Longrightarrow> (a, n) \<in> R'"
  shows "pool_inv (c\<lparr>system := s\<rparr>) R'"
proof -
  note I = pool_invD[OF assms(1)]
  have "headers_ok (c\<lparr>system := s\<rparr>) R'"
    unfolding headers_ok_def using headers_okD[OF I(3)] assms(3) by (simp add: domI) (meson domI)
  moreover have "free_ok (c\<lparr>system := s\<rparr>)" using I(4) by (simp add: free_ok_def is_block_def block_class_def page_pool_def)
  ultimately show ?thesis using I assms(2) by (simp add: pool_inv_def)
qed

lemma large_request_pages:
  assumes "3584 < unat n" "unat n \<le> 2 ^ 32"
  obtains a where "align_up n (of_nat PAGE_SIZE) = Some a" and "0 < unat (drop_bit PAGE_SHIFT a)"
    and "unat (drop_bit PAGE_SHIFT a) \<le> 2 ^ 20" and "unat n \<le> unat (drop_bit PAGE_SHIFT a) * PAGE_SIZE"
proof -
  obtain a where a: "align_up n (2 ^ 12) = Some a" "unat a = (unat n + (2 ^ 12 - 1)) div 2 ^ 12 * 2 ^ 12"
    by (rule align_up_pow2[of 12 n]) (use assms in auto)
  have "unat (drop_bit PAGE_SHIFT a) = (unat n + 4095) div 4096" using a(2) by (simp add: unat_drop_bit)
  then show ?thesis using a(1) assms by (intro that[of a]) auto
qed

lemma alloc_page_ok:
  assumes ok: "heap_ok h V" and cnt: "0 < unat cnt" "unat cnt \<le> 2 ^ 20"
  shows "alloc_page h cnt = Some (h, 0) \<or>
    (\<exists>h' p k. alloc_page h cnt = Some (h', p) \<and> bytes h' = bytes h \<and> p \<noteq> 0 \<and> unat p mod PAGE_SIZE = 0 \<and> unat cnt \<le> k \<and>
       (p, k * PAGE_SIZE) \<notin> V \<and> heap_ok h' (insert (p, k * PAGE_SIZE) V))"
proof -
  let ?c = "control h"
  obtain L R where h: "pool_inv ?c R" "L \<subseteq> R" "fst ` L \<inter> dom (headers ?c) = {}" "V = small_objects h \<union> large_objects L"
    by (rule heap_okE[OF ok])
  note I = pool_invD[OF h(1)]
  obtain s p where al: "buddy_alloc_page (system ?c) cnt = Some (s, p)"
    by (rule ba.alloc_total[OF I(2) cnt])
  let ?h = "h\<lparr>control := ?c\<lparr>system := s\<rparr>\<rparr>"
  have m: "alloc_page h cnt = Some (?h, p)" using al by (simp add: alloc_page_def)
  from I(2) cnt al show ?thesis
  proof (cases rule: ba.alloc_cases)
    case none
    then show ?thesis using m by simp
  next
    case (some k)
    have new: "p \<notin> fst ` R"
    proof
      assume "p \<in> fst ` R"
      then obtain j where j: "(p, j) \<in> R" by auto
      then have "j = k" using page_regions_distinct_bytes[OF some(4), of p j k] by simp
      then show False using j some(3) by simp
    qed
    then have nd: "p \<notin> dom (headers ?c)" using headers_okD(3)[OF I(3)] by (metis domD fst_conv image_eqI)
    have "pool_inv (control ?h) (insert (p, k) R)" using pool_inv_system[OF h(1) some(4)] by simp
    moreover have "small_objects ?h = small_objects h" by (simp add: small_objects_def)
    moreover have "large_objects (insert (p, k) L) = insert (p, k * PAGE_SIZE) (large_objects L)" by (simp add: large_objects_def)
    ultimately have "heap_ok ?h (insert (p, k * PAGE_SIZE) V)"
      using h nd by (intro heap_okI[of _ "insert (p, k) R" "insert (p, k) L"]) auto
    moreover have aligned: "unat p mod 4096 = 0" using ba.region_ok[OF some(4), of p k] by simp
    moreover have "(p, k * PAGE_SIZE) \<notin> V"
    proof
      assume "(p, k * PAGE_SIZE) \<in> V"
      then consider "p \<in> used_blocks ?c" | "p \<in> fst ` L" using h(4) by (auto simp: small_objects_def large_objects_def image_iff)
      then show False
      proof cases
        case 1
        then show False using is_block_facts[OF I(3) used_is_block[OF 1]] aligned by metis
      qed (use new h(2) in blast)
    qed
    ultimately show ?thesis using m some(1,2) by auto
  qed
qed

lemma malloc_large:
  assumes ok: "heap_ok h V" and n: "3584 < unat n" "unat n \<le> 2 ^ 32"
  shows "malloc h n = Some (h, 0) \<or>
    (\<exists>h' p z. malloc h n = Some (h', p) \<and> p \<noteq> 0 \<and> unat n \<le> z \<and> (p, z) \<notin> V \<and> heap_ok h' (insert (p, z) V))"
proof -
  obtain a where a: "align_up n (of_nat PAGE_SIZE) = Some a" "0 < unat (drop_bit PAGE_SHIFT a)"
    "unat (drop_bit PAGE_SHIFT a) \<le> 2 ^ 20" "unat n \<le> unat (drop_bit PAGE_SHIFT a) * PAGE_SIZE"
    by (rule large_request_pages[OF n])
  have m: "malloc h n = alloc_page h (drop_bit PAGE_SHIFT a)" using n(1) a(1) by (simp add: malloc_def word_less_nat_alt)
  from alloc_page_ok[OF ok a(2,3)] show ?thesis
  proof
    assume "\<exists>h' p k. alloc_page h (drop_bit PAGE_SHIFT a) = Some (h', p) \<and> bytes h' = bytes h \<and> p \<noteq> 0 \<and> unat p mod PAGE_SIZE = 0 \<and>
      unat (drop_bit PAGE_SHIFT a) \<le> k \<and> (p, k * PAGE_SIZE) \<notin> V \<and> heap_ok h' (insert (p, k * PAGE_SIZE) V)"
    then obtain h' p k where k: "alloc_page h (drop_bit PAGE_SHIFT a) = Some (h', p)" "p \<noteq> 0" "unat (drop_bit PAGE_SHIFT a) \<le> k"
      "(p, k * PAGE_SIZE) \<notin> V" "heap_ok h' (insert (p, k * PAGE_SIZE) V)" by blast
    have "unat n \<le> k * PAGE_SIZE" using a(4) mult_le_mono1[OF k(3), of PAGE_SIZE] by linarith
    then show ?thesis using m k by (intro disjI2 exI[of _ h'] exI[of _ p] exI[of _ "k * PAGE_SIZE"]) simp
  qed (simp add: m)
qed

lemma malloc_small:
  assumes ok: "heap_ok h V" and n: "0 < unat n" "unat n \<le> 3584"
  shows "malloc h n = Some (h, 0) \<or>
    (\<exists>h' p z. malloc h n = Some (h', p) \<and> p \<noteq> 0 \<and> unat n \<le> z \<and> (p, z) \<notin> V \<and> heap_ok h' (insert (p, z) V))"
proof -
  let ?c = "control h"
  obtain L R where h: "pool_inv ?c R" "L \<subseteq> R" "fst ` L \<inter> dom (headers ?c) = {}" "V = small_objects h \<union> large_objects L"
    by (rule heap_okE[OF ok])
  have nl: "\<not> 3584 < n" using n by (simp add: word_less_nat_alt)
  from h(1) n show ?thesis
  proof (cases rule: mem_pool_alloc_spec)
    case none
    then show ?thesis using nl by (simp add: malloc_def)
  next
    case (some c' b R')
    let ?h = "h\<lparr>control := c'\<rparr>" and ?z = "class_size (block_class c' b)"
    have m: "malloc h n = Some (?h, b)" using some(1) nl by (simp add: malloc_def)
    have "small_objects ?h = insert (b, ?z) (small_objects h)"
      using some(6,10) by (auto simp: small_objects_def image_iff)
    moreover have "fst ` L \<inter> dom (headers c') = {}"
    proof (rule ccontr)
      assume "fst ` L \<inter> dom (headers c') \<noteq> {}"
      then obtain x j where x: "(x, j) \<in> L" "x \<in> dom (headers c')" by force
      then obtain k where k: "(x, k) \<in> R' - R" using some(11)[of x] h(3) by force
      have "(x, j) \<in> R'" using x(1) h(2) some(4) by blast
      then have "j = k" using page_regions_distinct_bytes[OF pool_invD(2)[OF some(3)]] k by blast
      then show False using k x(1) h(2) by blast
    qed
    ultimately have "heap_ok ?h (insert (b, ?z) V)"
      using h some(3,4) by (intro heap_okI[of _ R' L]) auto
    moreover have "(b, ?z) \<notin> V"
    proof
      assume "(b, ?z) \<in> V"
      then consider "b \<in> used_blocks ?c" | "b \<in> fst ` L" using h(4) by (auto simp: small_objects_def large_objects_def image_iff)
      then show False
      proof cases
        case 2
        then obtain j where "(b, j) \<in> R'" using h(2) some(4) by auto
        then have "unat b mod 4096 = 0" using ba.region_ok[OF pool_invD(2)[OF some(3)]] by blast
        moreover have "is_block c' b" using some(6) used_is_block by blast
        then have "unat b mod 4096 \<noteq> 0" using is_block_facts[OF pool_invD(3)[OF some(3)]] by metis
        ultimately show False by simp
      qed (use some(5) in blast)
    qed
    ultimately show ?thesis using m some(2,8) by blast
  qed
qed

lemma and_page_mask_0: "ptr AND (of_nat PAGE_SIZE - 1) = 0 \<longleftrightarrow> unat ptr mod PAGE_SIZE = 0" for ptr :: u64
proof -
  have "ptr AND (of_nat PAGE_SIZE - 1) = take_bit 12 ptr" by (simp add: take_bit_eq_mask mask_eq_exp_minus_1)
  then show ?thesis by (simp add: word_unat_eq_iff unat_take_bit)
qed

lemma small_object_unaligned:
  assumes "pool_inv c R" "b \<in> used_blocks c"
  shows "unat b mod PAGE_SIZE \<noteq> 0"
  using is_block_facts[OF pool_invD(3)[OF assms(1)] used_is_block[OF assms(2)]] by metis

lemma free_live:
  assumes ok: "heap_ok h V" and p: "(p, z) \<in> V"
  shows "\<exists>h'. free h p = Some h' \<and> heap_ok h' (V - {(p, z)})"
proof -
  let ?c = "control h"
  obtain L R where h: "pool_inv ?c R" "L \<subseteq> R" "fst ` L \<inter> dom (headers ?c) = {}" "V = small_objects h \<union> large_objects L"
    by (rule heap_okE[OF ok])
  note I = pool_invD[OF h(1)]
  have lal: "unat (fst r) mod PAGE_SIZE = 0" if "r \<in> L" for r
    using ba.region_ok[OF I(2), of "fst r" "snd r"] subsetD[OF h(2) that] by simp
  show ?thesis
  proof (cases "p \<in> used_blocks ?c")
    case True
    have al: "unat p mod PAGE_SIZE \<noteq> 0" by (rule small_object_unaligned[OF h(1) True])
    then have nl: "(p, y) \<notin> large_objects L" for y using lal by (auto simp: large_objects_def)
    then have z: "z = class_size (block_class ?c p)" using p h(4) by (auto simp: small_objects_def)
    obtain c' where c': "mem_pool_free ?c p = Some c'" "pool_inv c' R" "used_blocks c' = used_blocks ?c - {p}"
      "block_class c' = block_class ?c" "dom (headers c') = dom (headers ?c)"
      by (rule mem_pool_free_spec[OF h(1) True])
    let ?h = "h\<lparr>control := c'\<rparr>"
    have "small_objects ?h = small_objects h - {(p, z)}" using c'(3,4) z by (auto simp: small_objects_def)
    then have "heap_ok ?h (V - {(p, z)})" using c' h nl by (intro heap_okI[of _ R L]) auto
    moreover have "free h p = Some ?h" using al c'(1) by (simp add: free_def and_page_mask_0[simplified])
    ultimately show ?thesis by blast
  next
    case False
    then obtain n where n: "(p, n) \<in> L" "z = n * PAGE_SIZE" using p h(4) by (auto simp: small_objects_def large_objects_def)
    have pr: "(p, n) \<in> R" using n(1) h(2) by blast
    obtain s where s: "buddy_free_page (system ?c) p = Some s" "page_regions s (R - {(p, n)})"
      using ba.free_ok[OF I(2) pr] by blast
    let ?h = "h\<lparr>control := ?c\<lparr>system := s\<rparr>\<rparr>"
    have "p \<notin> dom (headers ?c)" using n(1) h(3) by (metis disjoint_iff fst_conv image_eqI)
    then have "pool_inv (control ?h) (R - {(p, n)})" using pool_inv_system[OF h(1) s(2)] by auto
    moreover have "(p, z) \<notin> small_objects h" using False by (auto simp: small_objects_def)
    moreover have "inj_on (\<lambda>r :: region. (fst r, snd r * PAGE_SIZE)) L" by (auto simp: inj_on_def prod_eq_iff)
    then have "large_objects (L - {(p, n)}) = large_objects L - {(p, z)}"
      using inj_on_image_set_diff[of "\<lambda>r. (fst r, snd r * PAGE_SIZE)" L L "{(p, n)}"] n by (simp add: large_objects_def)
    moreover have "small_objects ?h = small_objects h" by (simp add: small_objects_def)
    ultimately have "heap_ok ?h (V - {(p, z)})"
      by (intro heap_okI[of _ "R - {(p, n)}" "L - {(p, n)}"]) (use h(2,3,4) in \<open>simp_all, blast+\<close>)
    moreover have "free h p = Some ?h" using lal[OF n(1)] s(1) by (simp add: free_def and_page_mask_0[simplified] free_page_def)
    ultimately show ?thesis by blast
  qed
qed

interpretation kh: heap_allocator malloc free heap_ok "2 ^ 32"
proof
  fix s V and n :: u64 assume "heap_ok s V" "0 < unat n" "unat n \<le> 2 ^ 32"
  then show "malloc s n = Some (s, 0) \<or>
    (\<exists>s' p z. malloc s n = Some (s', p) \<and> p \<noteq> 0 \<and> unat n \<le> z \<and> (p, z) \<notin> V \<and> heap_ok s' (insert (p, z) V))"
    by (cases "unat n \<le> 3584") (use malloc_small malloc_large in \<open>simp_all add: not_le\<close>)
qed (use free_live heap_live_disjoint heap_live_space in blast)+

section \<open>Filling, growing and duplicating\<close>

lemma heap_ok_bytes [simp]: "heap_ok (h\<lparr>bytes := m\<rparr>) V \<longleftrightarrow> heap_ok h V"
  by (simp add: heap_ok_def heap_inv_def small_objects_def)

lemma heap_bytes_frame: "malloc h n = Some (h', p) \<Longrightarrow> bytes h' = bytes h" "free h p = Some h' \<Longrightarrow> bytes h' = bytes h"
  by (auto simp: malloc_def free_def alloc_page_def free_page_def elim!: option_elims split: if_splits)

lemma not_in_object:
  fixes a p :: u64
  assumes d: "disjnt {unat p ..< unat p + n} (object_bytes v)" and a: "unat a \<in> object_bytes v" and s: "unat p + n \<le> 2 ^ 64" and i: "i < n"
  shows "a \<noteq> p + of_nat i"
proof
  assume "a = p + of_nat i"
  moreover have e: "unat (of_nat i :: u64) = i" by (rule unat_of_nat_64) (use s i in simp)
  moreover have "unat (p + of_nat i) = unat p + unat (of_nat i :: u64)" by (rule unat_add_64) (use s i e in simp)
  ultimately have "unat a = unat p + i" by simp
  then show False using d a i by (auto simp: disjnt_iff)
qed

lemma calloc_spec:
  assumes ok: "heap_ok h V" and n: "0 < unat nmemb * unat sz" "unat nmemb * unat sz < 2 ^ 31"
  obtains (none) "calloc h nmemb sz = Some (h, 0)"
    | (some) h' p z where "calloc h nmemb sz = Some (h', p)" "p \<noteq> 0" "unat nmemb * unat sz \<le> z" "(p, z) \<notin> V" "heap_ok h' (insert (p, z) V)"
      "\<And>i. i < unat nmemb * unat sz \<Longrightarrow> bytes h' (p + of_nat i) = 0"
      "\<And>a v. v \<in> V \<Longrightarrow> unat a \<in> object_bytes v \<Longrightarrow> bytes h' a = bytes h a"
proof -
  let ?n = "nmemb * sz"
  have u: "unat ?n = unat nmemb * unat sz" using n(2) by (simp add: unat_word_ariths)
  have u32: "unat (ucast ?n :: u32) = unat ?n" using n(2) u by (simp add: unsigned_ucast_eq take_bit_nat_eq_self)
  have n': "0 < unat ?n" "unat ?n \<le> 2 ^ 32" using u n by auto
  from ok n' show thesis
  proof (cases rule: kh.heap_alloc_cases)
    case none
    then show ?thesis using that(1) by (simp add: calloc_def)
  next
    case (some h1 p z)
    obtain m' where m': "memset (bytes h1) p 0 (ucast ?n) = Some (m', p)"
      "\<And>i. i < unat (ucast ?n :: u32) \<Longrightarrow> m' (p + of_nat i) = ucast (0 :: u32)"
      "\<And>a. (\<And>i. i < unat (ucast ?n :: u32) \<Longrightarrow> a \<noteq> p + of_nat i) \<Longrightarrow> m' a = bytes h1 a"
      by (rule memset_correct[of "ucast ?n" "bytes h1" p 0]) (use u32 u n(2) in auto)
    note fr = kh.heap_alloc_fresh[OF ok n' some(1,2)]
    have "calloc h nmemb sz = Some (h1\<lparr>bytes := m'\<rparr>, p)" using some(1,2) m'(1) by (simp add: calloc_def)
    moreover have "m' a = bytes h a" if "v \<in> V" "unat a \<in> object_bytes v" for a v
      using m'(3)[of a] not_in_object[OF fr(2)[OF that(1)] that(2) fr(1)] heap_bytes_frame(1)[OF some(1)] u32 by simp
    ultimately show ?thesis using that(2)[of "h1\<lparr>bytes := m'\<rparr>" p z] some m'(2) u u32 by simp
  qed
qed

lemma strdup_spec:
  assumes ok: "heap_ok h V" and s: "cstring (bytes h) p s" "p \<noteq> 0" "Suc (length s) < 2 ^ 31"
    and v: "v \<in> V" "\<And>i. i \<le> length s \<Longrightarrow> unat (p + of_nat i) \<in> object_bytes v"
  obtains (none) "strdup h p = Some (h, 0)"
    | (some) h' q z where "strdup h p = Some (h', q)" "q \<noteq> 0" "length s < z" "(q, z) \<notin> V" "heap_ok h' (insert (q, z) V)"
      "cstring (bytes h') q s" "\<And>a w. w \<in> V \<Longrightarrow> unat a \<in> object_bytes w \<Longrightarrow> bytes h' a = bytes h a"
proof -
  let ?n = "of_nat (length s + 1) :: u64"
  have u: "unat ?n = Suc (length s)" using unat_of_nat_64[of "length s + 1"] s(3) by simp
  have n: "0 < unat ?n" "unat ?n \<le> 2 ^ 32" using u s(3) by auto
  have len: "strlen (bytes h) p = Some (length s)" using s by (intro strlen_correct) auto
  from ok n show thesis
  proof (cases rule: kh.heap_alloc_cases)
    case none
    then show ?thesis using that(1) s(2) len by (simp add: strdup_def)
  next
    case (some h1 q z)
    note fr = kh.heap_alloc_fresh[OF ok n some(1,2), unfolded u]
    have b: "bytes h1 = bytes h" using heap_bytes_frame(1)[OF some(1)] .
    have "apart q p (Suc (length s))"
      unfolding apart_def
    proof (intro allI impI)
      fix i j assume "i < Suc (length s)" "j < Suc (length s)"
      then show "q + of_nat i \<noteq> p + of_nat j" using not_in_object[OF fr(2)[OF v(1)] v(2)[of j] fr(1), of i] by auto
    qed
    then obtain m' where m': "strcpy_loop (bytes h) q p = Some m'" "cstring m' q s"
      "\<forall>a. (\<forall>i \<le> length s. a \<noteq> q + of_nat i) \<longrightarrow> m' a = bytes h a"
      using strcpy_loop_correct[OF s(1), of q] s(3) by auto
    have "strdup h p = Some (h1\<lparr>bytes := m'\<rparr>, q)"
      using s(2) len some(1,2) m'(1) b by (simp add: strdup_def strcpy_def)
    moreover have "m' a = bytes h a" if "w \<in> V" "unat a \<in> object_bytes w" for a w
      using m'(3) not_in_object[OF fr(2)[OF that(1)] that(2) fr(1)] by (simp add: le_imp_less_Suc)
    ultimately show ?thesis using that(2)[of "h1\<lparr>bytes := m'\<rparr>" q z] some m'(2) u by simp
  qed
qed

lemma realloc_spec:
  assumes ok: "heap_ok h V" and n: "0 < unat n" "unat n < 2 ^ 32" and old: "(p, z) \<in> V" "unat p + unat n < 2 ^ 64"
  obtains (none) "realloc h p n = Some (h, 0)"
    | (some) h' q y where "realloc h p n = Some (h', q)" "q \<noteq> 0" "unat n \<le> y" "(q, y) \<notin> V" "heap_ok h' (insert (q, y) (V - {(p, z)}))"
      "\<And>i. i < unat n \<Longrightarrow> unat q + unat n < 2 ^ 64 \<Longrightarrow> bytes h' (q + of_nat i) = bytes h (p + of_nat i)"
proof -
  have n': "unat n \<le> 2 ^ 32" using n by simp
  have u32: "unat (ucast n :: u32) = unat n" using n(2) by (simp add: unsigned_ucast_eq take_bit_nat_eq_self)
  from ok n(1) n' show thesis
  proof (cases rule: kh.heap_alloc_cases)
    case none
    then show ?thesis using that(1) by (simp add: realloc_def)
  next
    case (some h1 q y)
    define m where "m = fst (memcpy (bytes h1) q p (ucast n))"
    let ?h = "h1\<lparr>bytes := m\<rparr>"
    have "heap_ok ?h (insert (q, y) V)" using some(5) by simp
    from kh.dealloc_ok[OF this, of p z] old(1) obtain h2
      where h2: "free ?h p = Some h2" "heap_ok h2 (insert (q, y) V - {(p, z)})" by auto
    have "(q, y) \<noteq> (p, z)" using some(4) old(1) by auto
    then have e: "insert (q, y) V - {(p, z)} = insert (q, y) (V - {(p, z)})" by blast
    have "realloc h p n = Some (h2, q)" using some(1,2) h2(1) by (simp add: realloc_def m_def Let_def)
    moreover have "bytes h2 (q + of_nat i) = bytes h (p + of_nat i)" if "i < unat n" "unat q + unat n < 2 ^ 64" for i
    proof -
      have "bytes h2 = m" using heap_bytes_frame(2)[OF h2(1)] by simp
      moreover have "bytes h1 = bytes h" using heap_bytes_frame(1)[OF some(1)] .
      ultimately show ?thesis
        using memmove_correct_aux[of p "ucast n" q "bytes h1"] that old(2) u32 by (simp add: m_def memcpy_def)
    qed
    ultimately show ?thesis using that(2) some(2-4) h2(2) e by auto
  qed
qed

lemma do_mem_init_spec:
  assumes h: "headers (control h) = Map.empty" and e: "0x80000000 \<le> unat kernel_end" "unat kernel_end + 12816 \<le> 0x88000000"
  obtains h' where "do_mem_init h raw kernel_end = Some h'" and "heap_ok h' {}"
proof -
  let ?sz = "PHYSTOP - kernel_end"
  have ph: "unat PHYSTOP = 0x88000000" by simp
  have le: "kernel_end \<le> PHYSTOP" using e ph by (simp add: word_le_nat_alt)
  have u: "unat ?sz = 0x88000000 - unat kernel_end" using unat_sub[OF le] by simp
  have k0: "kernel_end \<noteq> 0" using e by auto
  obtain s where s: "buddy_create raw kernel_end ?sz = Some s" "buddy_ok s {}"
     "unat kernel_end + 528 + 24 * Suc (unat (max_pfn s)) \<le> unat (page_start s)"
     "unat (page_start s) + Suc (unat (max_pfn s)) * PAGE_SIZE \<le> unat kernel_end + unat ?sz"
    by (rule buddy_create_spec[OF k0, of ?sz raw]) (use u e in auto)
  have "page_regions s {}"
    unfolding page_regions_def using s u e by (auto intro!: exI[of _ "{}"])
  then obtain c where c: "mem_pool_create (control h) s = Some (c, 0)" "pool_inv c {}" "used_blocks c = {}"
    using h by (rule mem_pool_create_spec)
  have "do_mem_init h raw kernel_end = Some (h\<lparr>control := c\<rparr>)" using s(1) c(1) by (simp add: do_mem_init_def)
  moreover have "heap_ok (h\<lparr>control := c\<rparr>) {}"
    using c(2,3) by (intro heap_okI[of _ "{}" "{}"]) (auto simp: small_objects_def large_objects_def)
  ultimately show ?thesis by (rule that)
qed

section \<open>A small heap\<close>

definition empty_control :: mem_pool_control_t where
  "empty_control = \<lparr>system = four_pages, pool = [], headers = Map.empty\<rparr>"

text \<open>The heap over the four pages of \<^const>\<open>four_pages_used\<close>, which are one live object of 16384 bytes.\<close>

definition small_heap :: kernel_heap where
  "small_heap = \<lparr>control = fst (the (mem_pool_create empty_control four_pages_used)),
     bytes = (\<lambda>_. 0)(0x80200000 := 97, 0x80200001 := 98)\<rparr>"

lemma four_pages_used_regions: "page_regions four_pages_used {(0x80200000, 4)}"
proof -
  have "block_region four_pages_used (0, 2) = (0x80200000, 4)" "unat (max_pfn four_pages_used) = 3"
    by (simp_all add: block_region_def page_to_ptr_def four_pages_used_def four_pages_def)
  then show ?thesis unfolding page_regions_def using four_pages_used_ok
    by (auto intro!: exI[of _ "{(0, 2)}"])
qed

lemma small_heap_ok: "heap_ok small_heap {(0x80200000, 16384)}"
proof -
  obtain c where c: "mem_pool_create empty_control four_pages_used = Some (c, 0)" "pool_inv c {(0x80200000, 4)}"
    "used_blocks c = {}" "system c = four_pages_used"
    by (rule mem_pool_create_spec[OF four_pages_used_regions, of empty_control]) (simp_all add: empty_control_def)
  have "headers c = Map.empty" using c(1) by (auto simp: mem_pool_create_def Let_def empty_control_def elim!: option_elims)
  moreover have "control small_heap = c" using c(1) by (simp add: small_heap_def)
  ultimately show ?thesis using c
    by (intro heap_okI[of _ "{(0x80200000, 4)}" "{(0x80200000, 4)}"]) (simp_all add: small_objects_def large_objects_def)
qed

section \<open>Properties\<close>

text \<open>C3: \<^verbatim>\<open>malloc\<close> of 1 to \<open>2 ^ 32\<close> bytes never stops the kernel: it returns the null pointer
  and changes nothing, or it returns a new object that holds the request, lies in the address space and
  overlaps no live object, small or large.\<close>

theorem malloc_correct:
  assumes "heap_ok h V" "0 < unat n" "unat n \<le> 2 ^ 32"
  shows "malloc h n = Some (h, 0) \<or>
    (\<exists>h' p z. malloc h n = Some (h', p) \<and> p \<noteq> 0 \<and> unat n \<le> z \<and> heap_ok h' (insert (p, z) V) \<and>
       unat p + unat n \<le> 2 ^ 64 \<and> (\<forall>v \<in> V. disjnt {unat p ..< unat p + unat n} (object_bytes v)))"
  using assms
proof (cases rule: kh.heap_alloc_cases)
  case (some h' p z)
  then show ?thesis using kh.heap_alloc_fresh[OF assms some(1,2)] by blast
qed simp

theorem malloc_correct_witness:
  "malloc small_heap 100 = Some (small_heap, 0) \<or>
    (\<exists>h' p z. malloc small_heap 100 = Some (h', p) \<and> p \<noteq> 0 \<and> 100 \<le> z \<and> heap_ok h' {(p, z), (0x80200000, 16384)})"
  using malloc_correct[OF small_heap_ok, of 100] by auto

text \<open>C4: \<^verbatim>\<open>free\<close> of a live object never stops the kernel, whether the object came from a pool or is
  a run of pages, and removes exactly that object from the live ones.\<close>

theorem free_correct:
  assumes "heap_ok h V" "(p, z) \<in> V"
  shows "\<exists>h'. free h p = Some h' \<and> heap_ok h' (V - {(p, z)}) \<and> bytes h' = bytes h"
  using kh.dealloc_ok[OF assms] heap_bytes_frame(2)[of h p] by blast

theorem free_correct_witness: "\<exists>h'. free small_heap 0x80200000 = Some h' \<and> heap_ok h' {}"
  using free_correct[OF small_heap_ok, of "0x80200000" 16384] by auto

text \<open>\<^verbatim>\<open>calloc\<close> of less than \<open>2 ^ 31\<close> bytes that succeeds returns a new object whose bytes are all zero
  and leaves the bytes of every live object as they are.\<close>

lemma calloc_correct:
  assumes "heap_ok h V" "0 < unat nmemb * unat sz" "unat nmemb * unat sz < 2 ^ 31"
  shows "calloc h nmemb sz = Some (h, 0) \<or>
    (\<exists>h' p z. calloc h nmemb sz = Some (h', p) \<and> p \<noteq> 0 \<and> unat nmemb * unat sz \<le> z \<and> (p, z) \<notin> V \<and> heap_ok h' (insert (p, z) V) \<and>
       (\<forall>i < unat nmemb * unat sz. bytes h' (p + of_nat i) = 0) \<and>
       (\<forall>v \<in> V. \<forall>a. unat a \<in> object_bytes v \<longrightarrow> bytes h' a = bytes h a))"
  using assms by (cases rule: calloc_spec) blast+

lemma calloc_correct_witness:
  "calloc small_heap 10 20 = Some (small_heap, 0) \<or>
    (\<exists>h' p. calloc small_heap 10 20 = Some (h', p) \<and> bytes h' (p + of_nat 199) = 0 \<and> bytes h' 0x80200001 = 98)"
proof -
  have "unat (0x80200001 :: u64) \<in> object_bytes (0x80200000, 16384)" by (simp add: object_bytes_def)
  moreover have "bytes small_heap 0x80200001 = 98" by (simp add: small_heap_def)
  moreover obtain h' p where "calloc small_heap 10 20 = Some (small_heap, 0) \<or>
      calloc small_heap 10 20 = Some (h', p) \<and> (\<forall>i < 200. bytes h' (p + of_nat i) = 0) \<and>
      (\<forall>a. unat a \<in> object_bytes (0x80200000, 16384) \<longrightarrow> bytes h' a = bytes small_heap a)"
    using calloc_correct[OF small_heap_ok, of 10 20] by auto
  moreover have "(199 :: nat) < 200" by simp
  ultimately show ?thesis by metis
qed

text \<open>\<^verbatim>\<open>strdup\<close> of a terminated string that lies in a live object returns a new object that holds a
  copy of the string, and leaves the bytes of every live object as they are.\<close>

lemma strdup_correct:
  assumes "heap_ok h V" "cstring (bytes h) p s" "p \<noteq> 0" "Suc (length s) < 2 ^ 31"
    and "v \<in> V" "\<forall>i \<le> length s. unat (p + of_nat i) \<in> object_bytes v"
  shows "strdup h p = Some (h, 0) \<or>
    (\<exists>h' q z. strdup h p = Some (h', q) \<and> q \<noteq> 0 \<and> length s < z \<and> (q, z) \<notin> V \<and> heap_ok h' (insert (q, z) V) \<and>
       cstring (bytes h') q s \<and> (\<forall>w \<in> V. \<forall>a. unat a \<in> object_bytes w \<longrightarrow> bytes h' a = bytes h a))"
  by (rule strdup_spec[OF assms(1-5)]) (use assms(6) in blast)+

lemma strdup_correct_witness:
  "strdup small_heap 0x80200000 = Some (small_heap, 0) \<or>
    (\<exists>h' q. strdup small_heap 0x80200000 = Some (h', q) \<and> q \<noteq> 0 \<and> cstring (bytes h') q [97, 98])"
proof -
  have "cstring (bytes small_heap) 0x80200000 [97, 98]" by (simp add: small_heap_def)
  moreover have "\<forall>i \<le> length [97, 98 :: u8]. unat (0x80200000 + of_nat i :: u64) \<in> object_bytes (0x80200000, 16384)"
    by (auto simp: object_bytes_def le_Suc_eq)
  ultimately show ?thesis
    using strdup_correct[OF small_heap_ok, of "0x80200000" "[97, 98]" "(0x80200000, 16384)"] by auto
qed

text \<open>\<^verbatim>\<open>realloc\<close> of a live object that succeeds returns a new object, frees the old one, and the new
  object starts with the \<open>n\<close> bytes found at the old address.\<close>

lemma realloc_correct:
  assumes "heap_ok h V" "0 < unat n" "unat n < 2 ^ 32" "(p, z) \<in> V" "unat p + unat n < 2 ^ 64"
  shows "realloc h p n = Some (h, 0) \<or>
    (\<exists>h' q y. realloc h p n = Some (h', q) \<and> q \<noteq> 0 \<and> unat n \<le> y \<and> (q, y) \<notin> V \<and> heap_ok h' (insert (q, y) (V - {(p, z)})) \<and>
       (unat q + unat n < 2 ^ 64 \<longrightarrow> (\<forall>i < unat n. bytes h' (q + of_nat i) = bytes h (p + of_nat i))))"
  using assms by (cases rule: realloc_spec) blast+

lemma realloc_correct_witness:
  "realloc small_heap 0x80200000 50 = Some (small_heap, 0) \<or>
    (\<exists>h' q y. realloc small_heap 0x80200000 50 = Some (h', q) \<and> 50 \<le> y \<and> heap_ok h' {(q, y)})"
  using realloc_correct[OF small_heap_ok, of 50 "0x80200000" 16384] by auto

text \<open>\<^verbatim>\<open>do_mem_init\<close> gives a heap with no live object, for every kernel image that leaves
  at least 12816 bytes below \<^verbatim>\<open>PHYSTOP\<close>.\<close>

lemma do_mem_init_correct:
  assumes "headers (control h) = Map.empty" "0x80000000 \<le> unat kernel_end" "unat kernel_end + 12816 \<le> 0x88000000"
  shows "\<exists>h'. do_mem_init h raw kernel_end = Some h' \<and> heap_ok h' {}"
  by (rule do_mem_init_spec[OF assms, where raw = raw]) blast

lemma do_mem_init_correct_witness:
  "\<exists>h'. do_mem_init \<lparr>control = empty_control, bytes = \<lambda>_. 0\<rparr> four_pages 0x80200000 = Some h' \<and> heap_ok h' {}"
  using do_mem_init_correct[of "\<lparr>control = empty_control, bytes = \<lambda>_. 0\<rparr>" "0x80200000" four_pages]
  by (simp add: empty_control_def)

end
