(* ===== verification/Vfs_Types.thy ===== *)
theory Vfs_Types
  imports Kernel_Prelude
begin

text \<open>
  The virtual file system of \<^verbatim>\<open>src/fs/vfs.c\<close>: mounts, the hashed cache of reference-counted
  nodes, path resolution, the table of open files and the operations on files and directories.

  A pointer to a node or a mount is a natural number, and the heap objects are finite maps from them, so that an
  access to a freed object stops the kernel. A path is a string without its terminating zero; a C pointer into a path is
  a suffix of it. The \<open>n\<close>-th call of \<^verbatim>\<open>calloc\<close> succeeds if \<open>can_alloc n\<close>. The locks are not
  modelled: each operation runs alone. The reference counters are unbounded, since a counter is at most the number of open
  files, mounts and the few references an operation holds while it runs.

  A file system is a record of functions, as in the code; it may change its own data (\<open>world\<close>) and the nodes and
  mounts it is given.
\<close>

section \<open>Data\<close>

type_synonym s64 = "64 word"
type_synonym node_ptr = nat
type_synonym mount_ptr = nat
type_synonym dev_ptr = nat

abbreviation VFS_MAX_PATH :: nat where "VFS_MAX_PATH \<equiv> 1024"
abbreviation VFS_MAX_NAME :: nat where "VFS_MAX_NAME \<equiv> 256"
abbreviation VFS_MAX_FD :: nat where "VFS_MAX_FD \<equiv> 256"
abbreviation VFS_NODE_HASH_SIZE :: nat where "VFS_NODE_HASH_SIZE \<equiv> 256"

abbreviation O_RDONLY :: u32 where "O_RDONLY \<equiv> 0x1"
abbreviation O_WRONLY :: u32 where "O_WRONLY \<equiv> 0x2"
abbreviation O_ACCMODE :: u32 where "O_ACCMODE \<equiv> 0x3"
abbreviation O_CREAT :: u32 where "O_CREAT \<equiv> 0x100"
abbreviation O_EXCL :: u32 where "O_EXCL \<equiv> 0x200"
abbreviation O_TRUNC :: u32 where "O_TRUNC \<equiv> 0x800"

abbreviation S_IRWXO :: u32 where "S_IRWXO \<equiv> 0x7"
abbreviation S_IRWXG :: u32 where "S_IRWXG \<equiv> 0x38"
abbreviation S_IRWXU :: u32 where "S_IRWXU \<equiv> 0x1C0"
abbreviation S_IRANY :: u32 where "S_IRANY \<equiv> 0x124"
abbreviation S_IWANY :: u32 where "S_IWANY \<equiv> 0x92"
abbreviation S_IXANY :: u32 where "S_IXANY \<equiv> 0x49"
abbreviation S_IFDIR :: u32 where "S_IFDIR \<equiv> 0x10000"
abbreviation S_IFCHR :: u32 where "S_IFCHR \<equiv> 0x20000"
abbreviation S_IFBLK :: u32 where "S_IFBLK \<equiv> 0x40000"
abbreviation S_IFREG :: u32 where "S_IFREG \<equiv> 0x80000"
abbreviation S_IFLNK :: u32 where "S_IFLNK \<equiv> 0x100000"
abbreviation S_IFIFO :: u32 where "S_IFIFO \<equiv> 0x200000"
abbreviation S_IFSOCK :: u32 where "S_IFSOCK \<equiv> 0x400000"
abbreviation S_IFMT :: u32 where "S_IFMT \<equiv> 0x7F0000"

abbreviation R_OK :: u32 where "R_OK \<equiv> 0x4"
abbreviation W_OK :: u32 where "W_OK \<equiv> 0x2"
abbreviation X_OK :: u32 where "X_OK \<equiv> 0x1"

abbreviation MOUNT_RO :: u32 where "MOUNT_RO \<equiv> 0x1"
abbreviation MOUNT_MASK :: u32 where "MOUNT_MASK \<equiv> 0x1"

record vfs_stat_t =
  st_ino :: u64
  st_size :: s64
  st_mode :: u32
  st_dev :: u64
  st_uid :: u32
  st_gid :: u32
  st_ctime :: u64
  st_atime :: u64
  st_mtime :: u64

datatype vfs_dirent_type_t = VDT_UNK | VDT_DIR | VDT_CHR | VDT_BLK | VDT_REG | VDT_LNK | VDT_FIFO | VDT_SOCK

record vfs_dirent_t =
  d_off :: u64
  d_reclen :: u32
  d_type :: vfs_dirent_type_t
  d_name :: string

datatype vfs_node_flag_t = VNF_NONE | VNF_ROOT

datatype vfs_node_type_t = VNT_UNK | VNT_DIR | VNT_CHR | VNT_BLK | VNT_REG | VNT_LNK | VNT_FIFO | VNT_SOCK

record vfs_node_t =
  v_mount :: mount_ptr
  v_refcnt :: int
  v_path :: string
  v_flags :: vfs_node_flag_t
  v_type :: vfs_node_type_t
  v_ctime :: u64
  v_atime :: u64
  v_mtime :: u64
  v_mode :: u32
  v_size :: s64
  v_data :: u64

text \<open>\<open>m_fs\<close> is the name of the file system class.\<close>

record vfs_mount_t =
  m_fs :: string
  m_dev :: "dev_ptr option"
  m_path :: string
  m_flags :: u32
  m_refcnt :: int
  m_root :: "node_ptr option"
  m_covered :: "node_ptr option"
  m_data :: u64

record 'w vfs_mem =
  nodes :: "node_ptr \<Rightarrow> vfs_node_t option"
  mounts :: "mount_ptr \<Rightarrow> vfs_mount_t option"
  world :: 'w

type_synonym ('w, 'r) fs_op = "'w vfs_mem \<Rightarrow> ('w vfs_mem \<times> 'r) option"

record 'w filesystem_t =
  fs_mount :: "mount_ptr \<Rightarrow> string option \<Rightarrow> ('w, int) fs_op"
  fs_unmount :: "mount_ptr \<Rightarrow> ('w, int) fs_op"
  fs_msync :: "mount_ptr \<Rightarrow> ('w, int) fs_op"
  fs_vget :: "mount_ptr \<Rightarrow> node_ptr \<Rightarrow> ('w, int) fs_op"
  fs_vput :: "mount_ptr \<Rightarrow> node_ptr \<Rightarrow> ('w, int) fs_op"
  fs_read :: "node_ptr \<Rightarrow> s64 \<Rightarrow> u64 \<Rightarrow> ('w, u8 list \<times> u64) fs_op"
  fs_write :: "node_ptr \<Rightarrow> s64 \<Rightarrow> u8 list \<Rightarrow> u64 \<Rightarrow> ('w, u64) fs_op"
  fs_truncate :: "node_ptr \<Rightarrow> s64 \<Rightarrow> ('w, int) fs_op"
  fs_sync :: "node_ptr \<Rightarrow> ('w, int) fs_op"
  fs_readdir :: "node_ptr \<Rightarrow> s64 \<Rightarrow> ('w, vfs_dirent_t \<times> int) fs_op"
  fs_lookup :: "node_ptr \<Rightarrow> string \<Rightarrow> node_ptr \<Rightarrow> ('w, int) fs_op"
  fs_create :: "node_ptr \<Rightarrow> string \<Rightarrow> u32 \<Rightarrow> ('w, int) fs_op"
  fs_remove :: "node_ptr \<Rightarrow> node_ptr \<Rightarrow> string \<Rightarrow> ('w, int) fs_op"
  fs_rename :: "node_ptr \<Rightarrow> string \<Rightarrow> node_ptr \<Rightarrow> node_ptr \<Rightarrow> string \<Rightarrow> ('w, int) fs_op"
  fs_mkdir :: "node_ptr \<Rightarrow> string \<Rightarrow> u32 \<Rightarrow> ('w, int) fs_op"
  fs_rmdir :: "node_ptr \<Rightarrow> node_ptr \<Rightarrow> string \<Rightarrow> ('w, int) fs_op"
  fs_chmod :: "node_ptr \<Rightarrow> u32 \<Rightarrow> ('w, int) fs_op"

record vfs_file_t =
  f_node :: "node_ptr option"
  f_offset :: s64
  f_flags :: u32

record 'w vfs_t =
  mem :: "'w vfs_mem"
  mnt_list :: "mount_ptr list"
  node_list :: "node_ptr list list"
  fd_file :: "vfs_file_t list"
  next_ptr :: nat
  can_alloc :: "nat \<Rightarrow> bool"

text \<open>What the virtual file system finds in the rest of the kernel: the registered file systems, the block devices and
  \<^verbatim>\<open>block_sync\<close>.\<close>

record 'w vfs_env =
  filesystems :: "string \<Rightarrow> 'w filesystem_t option"
  block_devices :: "string \<Rightarrow> dev_ptr option"
  env_block_sync :: "dev_ptr \<Rightarrow> 'w \<Rightarrow> 'w"

section \<open>Heap objects\<close>

definition get_node :: "'w vfs_t \<Rightarrow> node_ptr \<Rightarrow> vfs_node_t option" where
  "get_node st n = nodes (mem st) n"

definition put_node :: "'w vfs_t \<Rightarrow> node_ptr \<Rightarrow> vfs_node_t \<Rightarrow> 'w vfs_t" where
  "put_node st n v = st\<lparr>mem := (mem st)\<lparr>nodes := (nodes (mem st))(n \<mapsto> v)\<rparr>\<rparr>"

definition del_node :: "'w vfs_t \<Rightarrow> node_ptr \<Rightarrow> 'w vfs_t" where
  "del_node st n = st\<lparr>mem := (mem st)\<lparr>nodes := (nodes (mem st))(n := None)\<rparr>\<rparr>"

definition get_mount :: "'w vfs_t \<Rightarrow> mount_ptr \<Rightarrow> vfs_mount_t option" where
  "get_mount st m = mounts (mem st) m"

definition put_mount :: "'w vfs_t \<Rightarrow> mount_ptr \<Rightarrow> vfs_mount_t \<Rightarrow> 'w vfs_t" where
  "put_mount st m v = st\<lparr>mem := (mem st)\<lparr>mounts := (mounts (mem st))(m \<mapsto> v)\<rparr>\<rparr>"

definition del_mount :: "'w vfs_t \<Rightarrow> mount_ptr \<Rightarrow> 'w vfs_t" where
  "del_mount st m = st\<lparr>mem := (mem st)\<lparr>mounts := (mounts (mem st))(m := None)\<rparr>\<rparr>"

definition vfs_calloc :: "'w vfs_t \<Rightarrow> 'w vfs_t \<times> nat option" where
  "vfs_calloc st =
     (st\<lparr>next_ptr := Suc (next_ptr st)\<rparr>,
      if can_alloc st (next_ptr st) then Some (next_ptr st) else None)"

text \<open>The call of a file system operation through \<^verbatim>\<open>m->m_fs\<close>.\<close>

definition call_fs :: "'w vfs_env \<Rightarrow> 'w vfs_t \<Rightarrow> mount_ptr \<Rightarrow> ('w filesystem_t \<Rightarrow> ('w, 'r) fs_op) \<Rightarrow> ('w vfs_t \<times> 'r) option" where
  "call_fs env st m op = do {
     mt \<leftarrow> get_mount st m;
     fs \<leftarrow> filesystems env (m_fs mt);
     (mem', r) \<leftarrow> op fs (mem st);
     Some (st\<lparr>mem := mem'\<rparr>, r)
   }"

text \<open>The registry of file systems is a parameter; an object of the class found there is its operations.\<close>

definition search_filesystem :: "'w vfs_env \<Rightarrow> string option \<Rightarrow> 'w filesystem_t option" where
  "search_filesystem env name = (case name of None \<Rightarrow> None | Some s \<Rightarrow> filesystems env s)"

end
