(* ===== verification/Vfs_Node.thy ===== *)
theory Vfs_Node
  imports Vfs_Types
begin

text \<open>
  The mount lookup, the table of open files and the node cache of \<^verbatim>\<open>src/fs/vfs.c\<close>: everything up to
  \<^verbatim>\<open>vfs_node_acquire\<close> and \<^verbatim>\<open>vfs_node_release\<close>.
\<close>

section \<open>Mount points\<close>

text \<open>The loop of \<^verbatim>\<open>count_match\<close>: the length of the common prefix and what is left of both strings.\<close>

fun match_loop :: "string \<Rightarrow> string \<Rightarrow> nat \<Rightarrow> nat \<times> string \<times> string" where
  "match_loop (c # path) (d # mount_root) len =
     (if c \<noteq> d then (len, c # path, d # mount_root) else match_loop path mount_root (Suc len))"
| "match_loop path mount_root len = (len, path, mount_root)"

definition count_match :: "string \<Rightarrow> string \<Rightarrow> nat" where
  "count_match path mount_root =
     (let (len, p, r) = match_loop path mount_root 0 in
      if r \<noteq> [] then 0
      else if len = 1 \<and> path ! (len - 1) = CHR ''/'' then 1
      else if p = [] \<or> hd p = CHR ''/'' then len
      else 0)"

fun findroot_loop :: "'w vfs_t \<Rightarrow> string \<Rightarrow> mount_ptr list \<Rightarrow> mount_ptr option \<Rightarrow> nat \<Rightarrow> (mount_ptr option \<times> nat) option" where
  "findroot_loop st path [] m max_len = Some (m, max_len)"
| "findroot_loop st path (pos # ms) m max_len = do {
     mt \<leftarrow> get_mount st pos;
     let len = count_match path (m_path mt);
     if len > max_len then findroot_loop st path ms (Some pos) len
     else findroot_loop st path ms m max_len
   }"

definition vfs_findroot :: "'w vfs_t \<Rightarrow> string \<Rightarrow> (mount_ptr \<times> string) option option" where
  "vfs_findroot st path = do {
     (m, max_len) \<leftarrow> findroot_loop st path (mnt_list st) None 0;
     Some (case m of
       None \<Rightarrow> None
     | Some mp \<Rightarrow> Some (mp, dropWhile (\<lambda>c. c = CHR ''/'') (drop max_len path)))
   }"

section \<open>Open files\<close>

definition vfs_fd_alloc :: "'w vfs_t \<Rightarrow> int" where
  "vfs_fd_alloc st =
     (case find (\<lambda>i. f_node (fd_file st ! i) = None) [3..<VFS_MAX_FD] of
        Some i \<Rightarrow> int i
      | None \<Rightarrow> -1)"

definition closed_file :: vfs_file_t where
  "closed_file = \<lparr>f_node = None, f_offset = 0, f_flags = 0\<rparr>"

definition vfs_fd_free :: "'w vfs_t \<Rightarrow> int \<Rightarrow> 'w vfs_t" where
  "vfs_fd_free st fd =
     (if fd \<ge> 3 \<and> fd < int VFS_MAX_FD \<and> f_node (fd_file st ! nat fd) \<noteq> None
      then st\<lparr>fd_file := (fd_file st)[nat fd := closed_file]\<rparr>
      else st)"

definition vfs_fd_to_file :: "int \<Rightarrow> nat option" where
  "vfs_fd_to_file fd = (if fd \<ge> 0 \<and> fd < int VFS_MAX_FD then Some (nat fd) else None)"

section \<open>The node cache\<close>

fun hash_loop :: "u32 \<Rightarrow> string \<Rightarrow> u32" where
  "hash_loop val [] = val"
| "hash_loop val (c # path) = hash_loop (push_bit 5 val + val + of_char c) path"

definition vfs_node_hash :: "mount_ptr \<Rightarrow> string \<Rightarrow> nat" where
  "vfs_node_hash m path = unat ((hash_loop 0 path XOR of_nat m) AND of_nat (VFS_NODE_HASH_SIZE - 1))"

definition new_node :: "mount_ptr \<Rightarrow> string \<Rightarrow> vfs_node_t" where
  "new_node m path =
     \<lparr>v_mount = m, v_refcnt = 1, v_path = path, v_flags = VNF_NONE, v_type = VNT_UNK,
      v_ctime = 0, v_atime = 0, v_mtime = 0, v_mode = 0, v_size = 0, v_data = 0\<rparr>"

definition link_node :: "'w vfs_t \<Rightarrow> nat \<Rightarrow> node_ptr \<Rightarrow> 'w vfs_t" where
  "link_node st hash n = st\<lparr>node_list := (node_list st)[hash := n # node_list st ! hash]\<rparr>"

definition unlink_node :: "'w vfs_t \<Rightarrow> nat \<Rightarrow> node_ptr \<Rightarrow> 'w vfs_t" where
  "unlink_node st hash n = st\<lparr>node_list := (node_list st)[hash := remove1 n (node_list st ! hash)]\<rparr>"

definition mount_count :: "'w vfs_t \<Rightarrow> mount_ptr \<Rightarrow> int \<Rightarrow> 'w vfs_t option" where
  "mount_count st m d = do {
     mt \<leftarrow> get_mount st m;
     Some (put_mount st m (mt\<lparr>m_refcnt := m_refcnt mt + d\<rparr>))
   }"

definition vfs_node_get :: "'w vfs_env \<Rightarrow> 'w vfs_t \<Rightarrow> mount_ptr \<Rightarrow> string \<Rightarrow> ('w vfs_t \<times> node_ptr option) option" where
  "vfs_node_get env st m path = (
     let hash = vfs_node_hash m path in
     case vfs_calloc st of
       (st1, None) \<Rightarrow> Some (st1, None)
     | (st1, Some n) \<Rightarrow>
         let st2 = put_node st1 n (new_node m path) in
         if length path \<ge> VFS_MAX_PATH then Some (del_node st2 n, None)
         else do {
           (st3, err) \<leftarrow> call_fs env st2 m (\<lambda>fs. fs_vget fs m n);
           if err \<noteq> 0 then Some (del_node st3 n, None)
           else do {
             st4 \<leftarrow> mount_count st3 m 1;
             Some (link_node st4 hash n, Some n)
           }
         })"

text \<open>\<^verbatim>\<open>strncmp(a, b, VFS_MAX_PATH) == 0\<close>.\<close>

definition same_path :: "string \<Rightarrow> string \<Rightarrow> bool" where
  "same_path a b \<longleftrightarrow> take VFS_MAX_PATH a = take VFS_MAX_PATH b"

fun lookup_loop :: "'w vfs_t \<Rightarrow> mount_ptr \<Rightarrow> string \<Rightarrow> node_ptr list \<Rightarrow> node_ptr option option" where
  "lookup_loop st m path [] = Some None"
| "lookup_loop st m path (n # ns) = do {
     v \<leftarrow> get_node st n;
     if v_mount v = m \<and> same_path (v_path v) path then Some (Some n)
     else lookup_loop st m path ns
   }"

definition vfs_node_ref :: "'w vfs_t \<Rightarrow> node_ptr \<Rightarrow> 'w vfs_t option" where
  "vfs_node_ref st n = do {
     v \<leftarrow> get_node st n;
     Some (put_node st n (v\<lparr>v_refcnt := v_refcnt v + 1\<rparr>))
   }"

definition vfs_node_lookup :: "'w vfs_t \<Rightarrow> mount_ptr \<Rightarrow> string \<Rightarrow> ('w vfs_t \<times> node_ptr option) option" where
  "vfs_node_lookup st m path = do {
     found \<leftarrow> lookup_loop st m path (node_list st ! vfs_node_hash m path);
     case found of
       None \<Rightarrow> Some (st, None)
     | Some n \<Rightarrow> do {
         st' \<leftarrow> vfs_node_ref st n;
         Some (st', Some n)
       }
   }"

definition vfs_node_put :: "'w vfs_env \<Rightarrow> 'w vfs_t \<Rightarrow> node_ptr \<Rightarrow> 'w vfs_t option" where
  "vfs_node_put env st n = do {
     v \<leftarrow> get_node st n;
     let st1 = put_node st n (v\<lparr>v_refcnt := v_refcnt v - 1\<rparr>);
     if v_refcnt v - 1 \<noteq> 0 then Some st1
     else do {
       let hash = vfs_node_hash (v_mount v) (v_path v);
       let st2 = unlink_node st1 hash n;
       (st3, _) \<leftarrow> call_fs env st2 (v_mount v) (\<lambda>fs. fs_vput fs (v_mount v) n);
       st4 \<leftarrow> mount_count st3 (v_mount v) (-1);
       Some (del_node st4 n)
     }
   }"

definition node_type_mode :: "vfs_node_type_t \<Rightarrow> u32 option" where
  "node_type_mode t =
     (case t of
        VNT_REG \<Rightarrow> Some S_IFREG
      | VNT_DIR \<Rightarrow> Some S_IFDIR
      | VNT_BLK \<Rightarrow> Some S_IFBLK
      | VNT_CHR \<Rightarrow> Some S_IFCHR
      | VNT_LNK \<Rightarrow> Some S_IFLNK
      | VNT_SOCK \<Rightarrow> Some S_IFSOCK
      | VNT_FIFO \<Rightarrow> Some S_IFIFO
      | VNT_UNK \<Rightarrow> None)"

definition vfs_node_stat :: "'w vfs_t \<Rightarrow> node_ptr \<Rightarrow> (vfs_stat_t \<times> int) option" where
  "vfs_node_stat st n = do {
     v \<leftarrow> get_node st n;
     let s = \<lparr>st_ino = of_nat n, st_size = v_size v, st_mode = 0, st_dev = 0, st_uid = 0, st_gid = 0,
              st_ctime = v_ctime v, st_atime = v_atime v, st_mtime = v_mtime v\<rparr>;
     let mode = v_mode v AND (S_IRWXU OR S_IRWXG OR S_IRWXO);
     case node_type_mode (v_type v) of
       None \<Rightarrow> Some (s, -1)
     | Some fmt \<Rightarrow>
         Some (s\<lparr>st_mode := mode OR fmt,
                 st_dev := (if v_type v = VNT_CHR \<or> v_type v = VNT_BLK then v_data v else 0)\<rparr>, 0)
   }"

definition vfs_node_access :: "'w vfs_t \<Rightarrow> node_ptr \<Rightarrow> u32 \<Rightarrow> int option" where
  "vfs_node_access st n mode = do {
     v \<leftarrow> get_node st n;
     mt \<leftarrow> get_mount st (v_mount v);
     let m = v_mode v;
     Some (if mode AND R_OK \<noteq> 0 \<and> m AND S_IRANY = 0 then -1
           else if mode AND W_OK \<noteq> 0 \<and> m_flags mt AND MOUNT_RO \<noteq> 0 then -1
           else if mode AND W_OK \<noteq> 0 \<and> m AND S_IWANY = 0 then -1
           else if mode AND X_OK \<noteq> 0 \<and> m AND S_IXANY = 0 then -1
           else 0)
   }"

section \<open>Path resolution\<close>

text \<open>\<^verbatim>\<open>strrchr(path, '/')\<close>, as an index into the path.\<close>

definition last_slash :: "string \<Rightarrow> nat option" where
  "last_slash path =
     (case dropWhile (\<lambda>c. c \<noteq> CHR ''/'') (rev path) of
        [] \<Rightarrow> None
      | c # before \<Rightarrow> Some (length before))"

lemma last_slash_less: "last_slash path = Some i \<Longrightarrow> i < length path"
proof -
  assume a: "last_slash path = Some i"
  have "length (dropWhile (\<lambda>c. c \<noteq> CHR ''/'') (rev path)) \<le> length (rev path)"
    by (rule length_dropWhile_le)
  with a show "i < length path"
    by (simp add: last_slash_def split: list.splits)
qed

function release_loop :: "'w vfs_env \<Rightarrow> 'w vfs_t \<Rightarrow> mount_ptr \<Rightarrow> string \<Rightarrow> 'w vfs_t option" where
  "release_loop env st m path =
     (case last_slash path of
        None \<Rightarrow> Some st
      | Some i \<Rightarrow>
          let path' = take i path in
          if path' = [] then Some st
          else do {
            (st1, found) \<leftarrow> vfs_node_lookup st m path';
            case found of
              None \<Rightarrow> release_loop env st1 m path'
            | Some n \<Rightarrow> do {
                st2 \<leftarrow> vfs_node_put env st1 n;
                st3 \<leftarrow> vfs_node_put env st2 n;
                release_loop env st3 m path'
              }
          })"
  by pat_completeness auto
termination
  by (relation "measure (\<lambda>(env, st, m, path). length path)") (auto dest: last_slash_less)

declare release_loop.simps [simp del]

definition vfs_node_release :: "'w vfs_env \<Rightarrow> 'w vfs_t \<Rightarrow> node_ptr option \<Rightarrow> 'w vfs_t option" where
  "vfs_node_release env st np =
     (case np of
        None \<Rightarrow> Some st
      | Some n \<Rightarrow> do {
          v \<leftarrow> get_node st n;
          let m = v_mount v;
          mt \<leftarrow> get_mount st m;
          if m_root mt = Some n then vfs_node_put env st n
          else if length (v_path v) \<ge> VFS_MAX_PATH then Some st
          else do {
            st1 \<leftarrow> vfs_node_put env st n;
            st2 \<leftarrow> release_loop env st1 m (v_path v);
            mt' \<leftarrow> get_mount st2 m;
            root \<leftarrow> m_root mt';
            vfs_node_put env st2 root
          }
        })"

lemma component_shorter:
  fixes p :: string
  assumes "dropWhile (\<lambda>c. c = CHR ''/'') p \<noteq> []"
  shows "length (dropWhile (\<lambda>c. c \<noteq> CHR ''/'') (dropWhile (\<lambda>c. c = CHR ''/'') p)) < length p"
proof -
  have "hd (dropWhile (\<lambda>c. c = CHR ''/'') p) \<noteq> CHR ''/''"
    using hd_dropWhile [OF assms] by simp
  then obtain c q where q: "dropWhile (\<lambda>c. c = CHR ''/'') p = c # q" and c: "c \<noteq> CHR ''/''"
    using assms by (cases "dropWhile (\<lambda>c. c = CHR ''/'') p") auto
  have "length (dropWhile (\<lambda>c. c \<noteq> CHR ''/'') q) \<le> length q" by (rule length_dropWhile_le)
  moreover have "length (c # q) \<le> length p"
    using length_dropWhile_le [of "\<lambda>c. c = CHR ''/''" p] q by simp
  ultimately show ?thesis using q c by simp
qed

text \<open>The loop of \<^verbatim>\<open>vfs_node_acquire\<close>: \<open>p\<close> is the rest of the path, \<open>node\<close> the
  contents of the buffer, \<open>dn\<close> the node of what has been walked. The result is the error code and the node that
  is stored through \<^verbatim>\<open>np\<close>, if any.\<close>

function acquire_loop :: "'w vfs_env \<Rightarrow> 'w vfs_t \<Rightarrow> mount_ptr \<Rightarrow> string \<Rightarrow> string \<Rightarrow> node_ptr
    \<Rightarrow> ('w vfs_t \<times> int \<times> node_ptr option) option" where
  "acquire_loop env st m p node dn =
     (let q = dropWhile (\<lambda>c. c = CHR ''/'') p in
      if q = [] then Some (st, 0, Some dn)
      else do {
        let comp = takeWhile (\<lambda>c. c \<noteq> CHR ''/'') q;
        let rest = dropWhile (\<lambda>c. c \<noteq> CHR ''/'') q;
        let node' = node @ CHR ''/'' # comp;
        assert_that (length node' < VFS_MAX_PATH);
        (st1, found) \<leftarrow> vfs_node_lookup st m node';
        case found of
          Some n \<Rightarrow> acquire_loop env st1 m rest node' n
        | None \<Rightarrow> do {
            (st2, got) \<leftarrow> vfs_node_get env st1 m node';
            case got of
              None \<Rightarrow> do {
                st3 \<leftarrow> vfs_node_put env st2 dn;
                Some (st3, -1, None)
              }
            | Some n \<Rightarrow> do {
                dv \<leftarrow> get_node st2 dn;
                (st3, err) \<leftarrow> call_fs env st2 (v_mount dv) (\<lambda>fs. fs_lookup fs dn comp n);
                v \<leftarrow> get_node st3 n;
                if err \<noteq> 0 \<or> (rest \<noteq> [] \<and> v_type v \<noteq> VNT_DIR)
                then do {
                  st4 \<leftarrow> vfs_node_release env st3 (Some n);
                  Some (st4, err, None)
                }
                else acquire_loop env st3 m rest node' n
              }
          }
      })"
  by pat_completeness auto
termination
  by (relation "measure (\<lambda>(env, st, m, p, node, dn). length p)")
    (simp, (simp only: in_measure prod.case, erule component_shorter)+)

declare acquire_loop.simps [simp del]

definition vfs_node_acquire :: "'w vfs_env \<Rightarrow> 'w vfs_t \<Rightarrow> string \<Rightarrow> ('w vfs_t \<times> int \<times> node_ptr option) option" where
  "vfs_node_acquire env st path = do {
     r \<leftarrow> vfs_findroot st path;
     case r of
       None \<Rightarrow> Some (st, -1, None)
     | Some (m, p) \<Rightarrow> do {
         mt \<leftarrow> get_mount st m;
         case m_root mt of
           None \<Rightarrow> Some (st, -1, None)
         | Some root \<Rightarrow> do {
             st1 \<leftarrow> vfs_node_ref st root;
             acquire_loop env st1 m p [] root
           }
       }
   }"

end
