(* ===== verification/Vfs_Paths.thy ===== *)
theory Vfs_Paths
  imports Vfs_Node
begin

text \<open>
  Paths as lists of components. The node cache names the node of a list of components by \<open>node_path\<close>; the loops of
  \<^verbatim>\<open>vfs_node_acquire\<close> and \<^verbatim>\<open>vfs_node_release\<close> go down and up that list.
\<close>

definition good_comps :: "string list \<Rightarrow> bool" where
  "good_comps cs \<longleftrightarrow> (\<forall>c\<in>set cs. c \<noteq> [] \<and> CHR ''/'' \<notin> set c)"

definition comps_path :: "string list \<Rightarrow> string" where
  "comps_path cs = concat (map (\<lambda>c. CHR ''/'' # c) cs)"

definition node_path :: "string list \<Rightarrow> string" where
  "node_path cs = (if cs = [] then ''/'' else comps_path cs)"

function path_comps :: "string \<Rightarrow> string list" where
  "path_comps p =
     (let q = dropWhile (\<lambda>c. c = CHR ''/'') p in
      if q = [] then []
      else takeWhile (\<lambda>c. c \<noteq> CHR ''/'') q # path_comps (dropWhile (\<lambda>c. c \<noteq> CHR ''/'') q))"
  by pat_completeness auto
termination
  by (relation "measure length") (simp, simp only: in_measure, erule component_shorter)

declare path_comps.simps [simp del]

lemma comps_path_simps [simp]:
  "comps_path [] = []"
  "comps_path (c # cs) = CHR ''/'' # c @ comps_path cs"
  "comps_path (cs @ ds) = comps_path cs @ comps_path ds"
  by (simp_all add: comps_path_def)

lemma comps_path_eq_Nil [simp]: "comps_path cs = [] \<longleftrightarrow> cs = []"
  by (cases cs) auto

lemma good_comps_simps [simp]:
  "good_comps []"
  "good_comps (c # cs) \<longleftrightarrow> c \<noteq> [] \<and> CHR ''/'' \<notin> set c \<and> good_comps cs"
  "good_comps (cs @ ds) \<longleftrightarrow> good_comps cs \<and> good_comps ds"
  by (auto simp: good_comps_def)

lemma takeWhile_comp:
  assumes "CHR ''/'' \<notin> set c" and "s = [] \<or> hd s = CHR ''/''"
  shows "takeWhile (\<lambda>x. x \<noteq> CHR ''/'') (c @ s) = c"
  using assms by (induction c) (cases s; auto)+

lemma split_at_slash:
  assumes "CHR ''/'' \<notin> set c" "CHR ''/'' \<notin> set d"
    and "c @ s = d @ t" and "s = [] \<or> hd s = CHR ''/''" and "t = [] \<or> hd t = CHR ''/''"
  shows "c = d \<and> s = t"
proof -
  have "c = d" using takeWhile_comp [OF assms(1,4)] takeWhile_comp [OF assms(2,5)] assms(3) by simp
  with assms(3) show ?thesis by simp
qed

lemma comps_path_inj:
  assumes "good_comps cs" "good_comps ds" "comps_path cs = comps_path ds"
  shows "cs = ds"
  using assms
proof (induction cs arbitrary: ds)
  case Nil
  then show ?case by (cases ds) auto
next
  case (Cons c cs)
  then obtain d es where ds: "ds = d # es" by (cases ds) auto
  have "s = [] \<or> hd s = CHR ''/''" if "s = comps_path us" for s us
    using that by (cases us) auto
  then have "c = d \<and> comps_path cs = comps_path es"
    using Cons.prems ds by (intro split_at_slash) auto
  with Cons ds show ?case by auto
qed

lemma node_path_inj:
  assumes "good_comps cs" "good_comps ds" "node_path cs = node_path ds"
  shows "cs = ds"
proof -
  have root: False if "good_comps es" "es \<noteq> []" "comps_path es = ''/''" for es
    using that by (cases es) auto
  show ?thesis
  proof (cases "cs = [] \<or> ds = []")
    case True
    then show ?thesis
      using assms root [of cs] root [of ds] by (auto simp: node_path_def split: if_splits)
  next
    case False
    then show ?thesis
      using comps_path_inj [OF assms(1,2)] assms(3) by (simp add: node_path_def)
  qed
qed

lemma node_path_snoc [simp]: "node_path (cs @ [c]) = comps_path cs @ CHR ''/'' # c"
  by (simp add: node_path_def)

lemma last_slash_snoc [simp]:
  assumes "CHR ''/'' \<notin> set c"
  shows "last_slash (p @ CHR ''/'' # c) = Some (length p)"
proof -
  have "dropWhile (\<lambda>x. x \<noteq> CHR ''/'') (rev c @ CHR ''/'' # rev p) = CHR ''/'' # rev p"
    using assms by (subst dropWhile_append2) auto
  then show ?thesis by (simp add: last_slash_def)
qed

lemma good_path_comps: "good_comps (path_comps p)"
proof (induction p rule: path_comps.induct)
  case (1 p)
  let ?q = "dropWhile (\<lambda>c. c = CHR ''/'') p"
  show ?case
  proof (cases "?q = []")
    case True
    then show ?thesis by (subst path_comps.simps) simp
  next
    case False
    have "hd ?q \<noteq> CHR ''/''" using hd_dropWhile [OF False] by simp
    then have "takeWhile (\<lambda>c. c \<noteq> CHR ''/'') ?q \<noteq> []"
      using False by (cases ?q) auto
    moreover have "CHR ''/'' \<notin> set (takeWhile (\<lambda>c. c \<noteq> CHR ''/'') ?q)"
      by (auto dest: set_takeWhileD)
    ultimately show ?thesis using 1 [OF refl False] False by (subst path_comps.simps) (simp add: Let_def)
  qed
qed

lemma length_path_comps_slash:
  "length (comps_path (path_comps p)) \<le> (if p = [] \<or> hd p = CHR ''/'' then length p else Suc (length p))"
proof (induction p rule: path_comps.induct)
  case (1 p)
  let ?q = "dropWhile (\<lambda>c. c = CHR ''/'') p"
  let ?t = "takeWhile (\<lambda>c. c \<noteq> CHR ''/'') ?q"
  let ?r = "dropWhile (\<lambda>c. c \<noteq> CHR ''/'') ?q"
  show ?case
  proof (cases "?q = []")
    case True
    then show ?thesis by (subst path_comps.simps) simp
  next
    case False
    have "?r = [] \<or> hd ?r = CHR ''/''"
      using hd_dropWhile [of "\<lambda>c. c \<noteq> CHR ''/''" ?q] by auto
    then have "length (comps_path (path_comps ?r)) \<le> length ?r"
      using 1 [OF refl False] by simp
    moreover have "path_comps p = ?t # path_comps ?r"
      using False by (subst path_comps.simps) (simp add: Let_def)
    moreover have "length ?t + length ?r = length ?q"
      by (simp flip: length_append)
    moreover have "length ?q \<le> (if hd p = CHR ''/'' then length p - 1 else length p)"
      using length_dropWhile_le [of "\<lambda>c. c = CHR ''/''" "tl p"] False by (cases p) auto
    ultimately show ?thesis using False by (cases p) auto
  qed
qed

lemma length_path_comps: "length (comps_path (path_comps p)) \<le> Suc (length p)"
  using length_path_comps_slash [of p] by (simp split: if_splits)

end
