(* ===== verification/Filesystem_Interface.thy ===== *)
theory Filesystem_Interface
  imports Vfs_Types
begin

text \<open>
  The contract between the virtual file system and a file system. The virtual file system keeps the identity of nodes
  and mounts (which mount a node is on, its path, its reference count, the root of a mount and so on); a file system
  never changes it, creates no nodes or mounts and frees none. What the file system needs of its devices is the
  parameter \<open>wok\<close>: with a usable device behind every mount no operation faults, and every device stays usable.
\<close>

definition node_ids :: "'w vfs_mem \<Rightarrow> node_ptr \<Rightarrow> (mount_ptr \<times> int \<times> string \<times> vfs_node_flag_t) option" where
  "node_ids h n = map_option (\<lambda>v. (v_mount v, v_refcnt v, v_path v, v_flags v)) (nodes h n)"

definition mount_ids :: "'w vfs_mem \<Rightarrow> mount_ptr
    \<Rightarrow> (string \<times> dev_ptr option \<times> string \<times> int \<times> node_ptr option \<times> node_ptr option) option" where
  "mount_ids h m = map_option (\<lambda>mt. (m_fs mt, m_dev mt, m_path mt, m_refcnt mt, m_root mt, m_covered mt)) (mounts h m)"

definition mem_ok :: "('w \<Rightarrow> dev_ptr option \<Rightarrow> bool) \<Rightarrow> 'w vfs_mem \<Rightarrow> bool" where
  "mem_ok wok h \<longleftrightarrow>
     (\<forall>m mt. mounts h m = Some mt \<longrightarrow> wok (world h) (m_dev mt)) \<and>
     (\<forall>n v. nodes h n = Some v \<longrightarrow> mounts h (v_mount v) \<noteq> None)"

definition op_ok :: "('w \<Rightarrow> dev_ptr option \<Rightarrow> bool) \<Rightarrow> 'w vfs_mem \<Rightarrow> ('w vfs_mem \<times> 'r) option \<Rightarrow> bool" where
  "op_ok wok h res \<longleftrightarrow>
     (\<exists>h' r. res = Some (h', r) \<and> node_ids h' = node_ids h \<and> mount_ids h' = mount_ids h \<and>
             (\<forall>dev. wok (world h) dev \<longrightarrow> wok (world h') dev))"

lemma op_okE:
  assumes "op_ok wok h res"
  obtains h' r where "res = Some (h', r)" and "node_ids h' = node_ids h" and "mount_ids h' = mount_ids h"
    and "\<And>dev. wok (world h) dev \<Longrightarrow> wok (world h') dev"
  using assms by (auto simp: op_ok_def)

lemma op_ok_same [simp]: "op_ok wok h (Some (h, r))"
  by (simp add: op_ok_def)

lemma op_ok_world: "(\<And>dev. wok (world h) dev \<Longrightarrow> wok w dev) \<Longrightarrow> op_ok wok h (Some (h\<lparr>world := w\<rparr>, r))"
  by (simp add: op_ok_def node_ids_def [abs_def] mount_ids_def [abs_def])

locale filesystem_env =
  fixes env :: "'w vfs_env" and wok :: "'w \<Rightarrow> dev_ptr option \<Rightarrow> bool"
  assumes fs_vget_ok:
      "\<lbrakk>filesystems env s = Some fs; mem_ok wok h; m \<in> dom (mounts h); n \<in> dom (nodes h)\<rbrakk>
        \<Longrightarrow> op_ok wok h (fs_vget fs m n h)"
    and fs_vput_ok:
      "\<lbrakk>filesystems env s = Some fs; mem_ok wok h; m \<in> dom (mounts h); n \<in> dom (nodes h)\<rbrakk>
        \<Longrightarrow> op_ok wok h (fs_vput fs m n h)"
    and fs_lookup_ok:
      "\<lbrakk>filesystems env s = Some fs; mem_ok wok h; dn \<in> dom (nodes h); n \<in> dom (nodes h)\<rbrakk>
        \<Longrightarrow> op_ok wok h (fs_lookup fs dn name n h)"
    and fs_sync_ok:
      "\<lbrakk>filesystems env s = Some fs; mem_ok wok h; n \<in> dom (nodes h)\<rbrakk> \<Longrightarrow> op_ok wok h (fs_sync fs n h)"
    and fs_read_ok:
      "\<lbrakk>filesystems env s = Some fs; mem_ok wok h; n \<in> dom (nodes h); 0 \<le> sint off\<rbrakk>
        \<Longrightarrow> op_ok wok h (fs_read fs n off len h)"
    and fs_write_ok:
      "\<lbrakk>filesystems env s = Some fs; mem_ok wok h; n \<in> dom (nodes h); 0 \<le> sint off\<rbrakk>
        \<Longrightarrow> op_ok wok h (fs_write fs n off bytes len h)"
    and fs_truncate_ok:
      "\<lbrakk>filesystems env s = Some fs; mem_ok wok h; n \<in> dom (nodes h)\<rbrakk> \<Longrightarrow> op_ok wok h (fs_truncate fs n off h)"
    and fs_readdir_ok:
      "\<lbrakk>filesystems env s = Some fs; mem_ok wok h; n \<in> dom (nodes h)\<rbrakk> \<Longrightarrow> op_ok wok h (fs_readdir fs n off h)"
    and fs_create_ok:
      "\<lbrakk>filesystems env s = Some fs; mem_ok wok h; dn \<in> dom (nodes h)\<rbrakk> \<Longrightarrow> op_ok wok h (fs_create fs dn name mode h)"
    and fs_mkdir_ok:
      "\<lbrakk>filesystems env s = Some fs; mem_ok wok h; dn \<in> dom (nodes h)\<rbrakk> \<Longrightarrow> op_ok wok h (fs_mkdir fs dn name mode h)"
    and fs_remove_ok:
      "\<lbrakk>filesystems env s = Some fs; mem_ok wok h; dn \<in> dom (nodes h); n \<in> dom (nodes h)\<rbrakk>
        \<Longrightarrow> op_ok wok h (fs_remove fs dn n name h)"
    and fs_rmdir_ok:
      "\<lbrakk>filesystems env s = Some fs; mem_ok wok h; dn \<in> dom (nodes h); n \<in> dom (nodes h)\<rbrakk>
        \<Longrightarrow> op_ok wok h (fs_rmdir fs dn n name h)"
    and fs_rename_ok:
      "\<lbrakk>filesystems env s = Some fs; mem_ok wok h; sn \<in> dom (nodes h); n \<in> dom (nodes h); dn \<in> dom (nodes h)\<rbrakk>
        \<Longrightarrow> op_ok wok h (fs_rename fs sn sname n dn dname h)"
    and fs_chmod_ok:
      "\<lbrakk>filesystems env s = Some fs; mem_ok wok h; n \<in> dom (nodes h)\<rbrakk> \<Longrightarrow> op_ok wok h (fs_chmod fs n mode h)"
    and fs_unmount_ok:
      "\<lbrakk>filesystems env s = Some fs; mem_ok wok h; m \<in> dom (mounts h)\<rbrakk> \<Longrightarrow> op_ok wok h (fs_unmount fs m h)"
    and fs_msync_ok:
      "\<lbrakk>filesystems env s = Some fs; mem_ok wok h; m \<in> dom (mounts h)\<rbrakk> \<Longrightarrow> op_ok wok h (fs_msync fs m h)"
    and fs_mount_ok:
      "\<lbrakk>filesystems env s = Some fs; mem_ok wok h; mounts h m = Some mt; m_root mt = Some r; r \<in> dom (nodes h);
        dev = None \<or> m_dev mt \<noteq> None\<rbrakk>
        \<Longrightarrow> op_ok wok h (fs_mount fs m dev h)"

end
