(* ===== verification/Vfs_Cache.thy ===== *)
theory Vfs_Cache
  imports Vfs_Paths Filesystem_Interface "HOL-Library.Sublist"
begin

text \<open>
  The reference counts of the node cache. The ghost map \<open>\<rho>\<close> gives the number of references to the node of a
  mount and a list of components; \<open>cache_inv\<close> says that the cache holds exactly the nodes with a reference, each in
  its bucket, once, with its count. The operations of \<^verbatim>\<open>src/fs/vfs.c\<close> are then updates of \<open>\<rho>\<close>.
\<close>

section \<open>The identity of nodes and mounts\<close>

type_synonym ref_map = "mount_ptr \<times> string list \<Rightarrow> nat"

definition nmount :: "'w vfs_mem \<Rightarrow> node_ptr \<Rightarrow> mount_ptr" where
  "nmount h n = v_mount (the (nodes h n))"

definition npath :: "'w vfs_mem \<Rightarrow> node_ptr \<Rightarrow> string" where
  "npath h n = v_path (the (nodes h n))"

definition nref :: "'w vfs_mem \<Rightarrow> node_ptr \<Rightarrow> int" where
  "nref h n = v_refcnt (the (nodes h n))"

definition mref :: "'w vfs_mem \<Rightarrow> mount_ptr \<Rightarrow> int" where
  "mref h m = m_refcnt (the (mounts h m))"

definition mdev :: "'w vfs_mem \<Rightarrow> mount_ptr \<Rightarrow> dev_ptr option" where
  "mdev h m = m_dev (the (mounts h m))"

text \<open>What of a mount the node operations never change.\<close>

definition mount_key :: "'w vfs_mem \<Rightarrow> mount_ptr \<Rightarrow> (string \<times> dev_ptr option \<times> string \<times> node_ptr option \<times> node_ptr option) option" where
  "mount_key h m = map_option (\<lambda>mt. (m_fs mt, m_dev mt, m_path mt, m_root mt, m_covered mt)) (mounts h m)"

lemmas view_defs = nmount_def npath_def nref_def mref_def mdev_def

lemma node_ids_cases:
  assumes "node_ids h' = node_ids h"
  obtains (none) "nodes h n = None" "nodes h' n = None"
  | (some) v v' where "nodes h n = Some v" "nodes h' n = Some v'" "v_mount v' = v_mount v" "v_refcnt v' = v_refcnt v"
      "v_path v' = v_path v" "v_flags v' = v_flags v"
  using fun_cong [OF assms, of n]
  by (cases "nodes h n"; cases "nodes h' n") (auto simp: node_ids_def)

lemma mount_ids_cases:
  assumes "mount_ids h' = mount_ids h"
  obtains (none) "mounts h m = None" "mounts h' m = None"
  | (some) mt mt' where "mounts h m = Some mt" "mounts h' m = Some mt'" "m_fs mt' = m_fs mt" "m_dev mt' = m_dev mt"
      "m_path mt' = m_path mt" "m_refcnt mt' = m_refcnt mt" "m_root mt' = m_root mt" "m_covered mt' = m_covered mt"
  using fun_cong [OF assms, of m]
  by (cases "mounts h m"; cases "mounts h' m") (auto simp: mount_ids_def)

lemma node_ids_view:
  assumes ids: "node_ids h' = node_ids h"
  shows "dom (nodes h') = dom (nodes h)" "nmount h' = nmount h" "npath h' = npath h" "nref h' = nref h"
proof -
  have "n \<in> dom (nodes h') \<longleftrightarrow> n \<in> dom (nodes h)" for n
    by (rule node_ids_cases [OF ids, of n]) auto
  then show "dom (nodes h') = dom (nodes h)" by blast
  have "nmount h' n = nmount h n \<and> npath h' n = npath h n \<and> nref h' n = nref h n" for n
    by (rule node_ids_cases [OF ids, of n]) (auto simp: view_defs)
  then show "nmount h' = nmount h" "npath h' = npath h" "nref h' = nref h" by auto
qed

lemma mount_ids_view:
  assumes ids: "mount_ids h' = mount_ids h"
  shows "dom (mounts h') = dom (mounts h)" "mref h' = mref h" "mdev h' = mdev h" "mount_key h' = mount_key h"
proof -
  have "m \<in> dom (mounts h') \<longleftrightarrow> m \<in> dom (mounts h)" for m
    by (rule mount_ids_cases [OF ids, of m]) auto
  then show "dom (mounts h') = dom (mounts h)" by blast
  have "mref h' m = mref h m \<and> mdev h' m = mdev h m \<and> mount_key h' m = mount_key h m" for m
    by (rule mount_ids_cases [OF ids, of m]) (auto simp: view_defs mount_key_def)
  then show "mref h' = mref h" "mdev h' = mdev h" "mount_key h' = mount_key h" by auto
qed

section \<open>The invariant\<close>

definition bucket_wf :: "'w vfs_t \<Rightarrow> bool" where
  "bucket_wf st \<longleftrightarrow>
     length (node_list st) = VFS_NODE_HASH_SIZE \<and>
     (\<forall>i<VFS_NODE_HASH_SIZE. distinct (node_list st ! i) \<and>
        set (node_list st ! i)
          = {n \<in> dom (nodes (mem st)). vfs_node_hash (nmount (mem st) n) (npath (mem st) n) = i})"

definition node_at :: "'w vfs_mem \<Rightarrow> node_ptr \<Rightarrow> mount_ptr \<Rightarrow> string list \<Rightarrow> bool" where
  "node_at h n m cs \<longleftrightarrow>
     n \<in> dom (nodes h) \<and> nmount h n = m \<and> npath h n = node_path cs \<and> good_comps cs \<and> length (node_path cs) < VFS_MAX_PATH"

definition node_wf :: "'w vfs_t \<Rightarrow> bool" where
  "node_wf st \<longleftrightarrow>
     finite (dom (nodes (mem st))) \<and>
     (\<forall>n\<in>dom (nodes (mem st)). n < next_ptr st \<and> nmount (mem st) n \<in> dom (mounts (mem st)) \<and>
        (\<exists>cs. node_at (mem st) n (nmount (mem st) n) cs)) \<and>
     inj_on (\<lambda>n. (nmount (mem st) n, npath (mem st) n)) (dom (nodes (mem st)))"

definition ref_wf :: "'w vfs_t \<Rightarrow> ref_map \<Rightarrow> bool" where
  "ref_wf st \<rho> \<longleftrightarrow>
     (\<forall>n m cs. node_at (mem st) n m cs \<longrightarrow> nref (mem st) n = int (\<rho> (m, cs)) \<and> 0 < \<rho> (m, cs)) \<and>
     (\<forall>m cs. 0 < \<rho> (m, cs) \<longrightarrow> (\<exists>n. node_at (mem st) n m cs))"

definition mount_wf :: "'w vfs_t \<Rightarrow> bool" where
  "mount_wf st \<longleftrightarrow>
     (\<forall>m\<in>dom (mounts (mem st)). m < next_ptr st \<and>
        mref (mem st) m = int (card {n \<in> dom (nodes (mem st)). nmount (mem st) n = m}))"

definition fs_ready :: "'w vfs_env \<Rightarrow> ('w \<Rightarrow> dev_ptr option \<Rightarrow> bool) \<Rightarrow> 'w vfs_mem \<Rightarrow> bool" where
  "fs_ready env wok h \<longleftrightarrow>
     mem_ok wok h \<and> (\<forall>m mt. mounts h m = Some mt \<longrightarrow> filesystems env (m_fs mt) \<noteq> None)"

definition cache_inv :: "'w vfs_env \<Rightarrow> ('w \<Rightarrow> dev_ptr option \<Rightarrow> bool) \<Rightarrow> 'w vfs_t \<Rightarrow> ref_map \<Rightarrow> bool" where
  "cache_inv env wok st \<rho> \<longleftrightarrow>
     bucket_wf st \<and> node_wf st \<and> ref_wf st \<rho> \<and> mount_wf st \<and> fs_ready env wok (mem st)"

lemma node_at_unique:
  assumes "node_wf st" "node_at (mem st) n m cs" "node_at (mem st) n' m cs"
  shows "n = n'"
  using assms by (auto simp: node_wf_def node_at_def inj_on_def)

lemma node_at_comps:
  assumes "node_at h n m cs" "node_at h n m' ds"
  shows "m = m' \<and> cs = ds"
  using assms node_path_inj by (auto simp: node_at_def)

lemma node_at_view:
  assumes "node_ids h' = node_ids h"
  shows "node_at h' = node_at h"
  using node_ids_view [OF assms] by (intro ext) (simp add: node_at_def)

lemma fs_ready_frame:
  assumes "node_ids h' = node_ids h" "mount_ids h' = mount_ids h"
    and "\<And>dev. wok (world h) dev \<Longrightarrow> wok (world h') dev" and "fs_ready env wok h"
  shows "fs_ready env wok h'"
proof -
  have m: "wok (world h') (m_dev mt') \<and> filesystems env (m_fs mt') \<noteq> None" if "mounts h' m = Some mt'" for m mt'
    by (rule mount_ids_cases [OF assms(2), of m]) (use that assms(3,4) in \<open>auto simp: fs_ready_def mem_ok_def\<close>)
  have n: "mounts h' (v_mount v') \<noteq> None" if "nodes h' n = Some v'" for n v'
    using assms(1)
  proof (cases rule: node_ids_cases [where n = n])
    case none
    with that show ?thesis by simp
  next
    case (some v w)
    then have "mounts h (v_mount v) \<noteq> None"
      using assms(4) by (auto simp: fs_ready_def mem_ok_def)
    then show ?thesis
      using some that by (cases rule: mount_ids_cases [OF assms(2), of "v_mount v"]) auto
  qed
  show ?thesis using m n by (auto simp: fs_ready_def mem_ok_def)
qed

lemma cache_inv_frame:
  assumes "node_ids h' = node_ids (mem st)" "mount_ids h' = mount_ids (mem st)"
    and "\<And>dev. wok (world (mem st)) dev \<Longrightarrow> wok (world h') dev" and "cache_inv env wok st \<rho>"
  shows "cache_inv env wok (st\<lparr>mem := h'\<rparr>) \<rho>"
proof -
  have "fs_ready env wok (mem st)" using assms(4) by (simp add: cache_inv_def)
  with assms(1,2,3) have "fs_ready env wok h'" by (rule fs_ready_frame)
  with assms(4) show ?thesis
  by (simp add: cache_inv_def bucket_wf_def node_wf_def ref_wf_def mount_wf_def
      node_ids_view [OF assms(1)] mount_ids_view [OF assms(2)] node_at_view [OF assms(1)])
qed

section \<open>Changing a count\<close>

lemma put_node_fields [simp]:
  "mounts (mem (put_node st n v)) = mounts (mem st)" "world (mem (put_node st n v)) = world (mem st)"
  "nodes (mem (put_node st n v)) = (nodes (mem st))(n \<mapsto> v)"
  "node_list (put_node st n v) = node_list st" "next_ptr (put_node st n v) = next_ptr st"
  "mnt_list (put_node st n v) = mnt_list st" "fd_file (put_node st n v) = fd_file st"
  "can_alloc (put_node st n v) = can_alloc st"
  by (simp_all add: put_node_def)

lemma put_node_view:
  assumes "n \<in> dom (nodes (mem st))" "v_mount v = nmount (mem st) n" "v_path v = npath (mem st) n"
  shows "dom (nodes (mem (put_node st n v))) = dom (nodes (mem st))"
    and "nmount (mem (put_node st n v)) = nmount (mem st)"
    and "npath (mem (put_node st n v)) = npath (mem st)"
    and "nref (mem (put_node st n v)) = (nref (mem st))(n := v_refcnt v)"
    and "node_at (mem (put_node st n v)) = node_at (mem st)"
    and "mref (mem (put_node st n v)) = mref (mem st)"
    and "mount_key (mem (put_node st n v)) = mount_key (mem st)"
proof -
  show d: "dom (nodes (mem (put_node st n v))) = dom (nodes (mem st))"
    using assms(1) by auto
  show m: "nmount (mem (put_node st n v)) = nmount (mem st)"
    using assms(2) by (auto simp: nmount_def)
  show p: "npath (mem (put_node st n v)) = npath (mem st)"
    using assms(3) by (auto simp: npath_def)
  show "nref (mem (put_node st n v)) = (nref (mem st))(n := v_refcnt v)"
    by (auto simp: nref_def)
  show "node_at (mem (put_node st n v)) = node_at (mem st)"
    by (intro ext) (simp only: node_at_def d m p)
  show "mref (mem (put_node st n v)) = mref (mem st)" "mount_key (mem (put_node st n v)) = mount_key (mem st)"
    by (auto simp: mref_def mount_key_def)
qed

lemma fs_ready_put_node:
  assumes "fs_ready env wok (mem st)" "mounts (mem st) (v_mount v) \<noteq> None"
  shows "fs_ready env wok (mem (put_node st n v))"
  using assms by (auto simp: fs_ready_def mem_ok_def split: if_splits)

lemma cache_inv_set_ref:
  assumes inv: "cache_inv env wok st \<rho>" and at: "node_at (mem st) n m cs" and k: "0 < k"
    and v: "v_mount v = m" "v_path v = node_path cs" "v_refcnt v = int k"
  shows "cache_inv env wok (put_node st n v) (\<rho>((m, cs) := k))"
proof -
  have n: "n \<in> dom (nodes (mem st))" "v_mount v = nmount (mem st) n" "v_path v = npath (mem st) n"
    using at v by (auto simp: node_at_def)
  note view = put_node_view [OF n]
  have node: "node_wf st" and ref: "ref_wf st \<rho>" using inv by (simp_all add: cache_inv_def)
  have "ref_wf (put_node st n v) (\<rho>((m, cs) := k))"
    unfolding ref_wf_def view(5)
  proof (intro conjI allI impI)
    fix n' m' cs'
    assume at': "node_at (mem st) n' m' cs'"
    show "nref (mem (put_node st n v)) n' = int ((\<rho>((m, cs) := k)) (m', cs'))"
    proof (cases "n' = n")
      case True
      then show ?thesis using node_at_comps [OF at'] at v(3) view(4) by auto
    next
      case False
      then have "(m', cs') \<noteq> (m, cs)" using node_at_unique [OF node at] at' by auto
      then show ?thesis using False at' ref view(4) by (auto simp: ref_wf_def)
    qed
    show "0 < (\<rho>((m, cs) := k)) (m', cs')"
      using at' ref k by (auto simp: ref_wf_def)
  next
    fix m' cs'
    assume "0 < (\<rho>((m, cs) := k)) (m', cs')"
    then show "\<exists>n. node_at (mem st) n m' cs'"
      using ref at by (auto simp: ref_wf_def split: if_splits)
  qed
  moreover have "fs_ready env wok (mem (put_node st n v))"
    using inv n v node by (intro fs_ready_put_node) (auto simp: cache_inv_def node_wf_def)
  ultimately show ?thesis
    using inv by (simp add: cache_inv_def bucket_wf_def node_wf_def mount_wf_def view del: put_node_fields(3) fun_upd_apply)
qed

section \<open>What the node operations leave alone\<close>

definition node_step :: "'w vfs_t \<Rightarrow> 'w vfs_t \<Rightarrow> ref_map \<Rightarrow> bool" where
  "node_step st st' \<rho>' \<longleftrightarrow>
     mnt_list st' = mnt_list st \<and> fd_file st' = fd_file st \<and> can_alloc st' = can_alloc st \<and>
     mount_key (mem st') = mount_key (mem st) \<and>
     (\<forall>n m cs. node_at (mem st) n m cs \<longrightarrow> 0 < \<rho>' (m, cs) \<longrightarrow> node_at (mem st') n m cs)"

lemma node_step_refl [simp]: "node_step st st \<rho>"
  by (simp add: node_step_def)

lemma node_step_trans:
  assumes "node_step st st' \<rho>'" "node_step st' st'' \<rho>''" "\<And>k. 0 < \<rho>'' k \<Longrightarrow> 0 < \<rho>' k"
  shows "node_step st st'' \<rho>''"
  using assms unfolding node_step_def by simp

lemma dom_mount_key: "dom (mount_key h) = dom (mounts h)"
  by (auto simp: mount_key_def dom_def)

lemma mount_key_dom: "mount_key h' = mount_key h \<Longrightarrow> dom (mounts h') = dom (mounts h)"
  using dom_mount_key [of h] dom_mount_key [of h'] by simp

lemma mount_keyE:
  assumes "mount_key h' = mount_key h" "mounts h m = Some mt"
  obtains mt' where "mounts h' m = Some mt'" "m_fs mt' = m_fs mt" "m_dev mt' = m_dev mt" "m_path mt' = m_path mt"
    "m_root mt' = m_root mt" "m_covered mt' = m_covered mt"
  using fun_cong [OF assms(1), of m] assms(2) by (auto simp: mount_key_def)

lemma node_step_put_node:
  assumes "n \<in> dom (nodes (mem st))" "v_mount v = nmount (mem st) n" "v_path v = npath (mem st) n"
  shows "node_step st (put_node st n v) \<rho>'"
  using put_node_view [OF assms] by (simp add: node_step_def del: put_node_fields(3))

section \<open>Taking a reference\<close>

lemma node_at_get:
  assumes "node_at (mem st) n m cs" "ref_wf st \<rho>"
  obtains v where "get_node st n = Some v" "nodes (mem st) n = Some v" "v_mount v = m" "v_path v = node_path cs"
    "v_refcnt v = int (\<rho> (m, cs))" "0 < \<rho> (m, cs)"
proof -
  obtain v where v: "nodes (mem st) n = Some v" using assms(1) by (auto simp: node_at_def)
  have "nref (mem st) n = int (\<rho> (m, cs)) \<and> 0 < \<rho> (m, cs)" using assms by (auto simp: ref_wf_def)
  with v show thesis
    using assms(1) by (intro that [of v]) (auto simp: node_at_def view_defs get_node_def)
qed

lemma vfs_node_ref_spec:
  assumes inv: "cache_inv env wok st \<rho>" and at: "node_at (mem st) n m cs"
  obtains st' where "vfs_node_ref st n = Some st'" "cache_inv env wok st' (\<rho>((m, cs) := \<rho> (m, cs) + 1))"
    "node_step st st' \<rho>'" "next_ptr st' = next_ptr st" "node_at (mem st') = node_at (mem st)"
proof -
  have "ref_wf st \<rho>" using inv by (simp add: cache_inv_def)
  with at obtain v where v: "get_node st n = Some v" "nodes (mem st) n = Some v" "v_mount v = m"
    "v_path v = node_path cs" "v_refcnt v = int (\<rho> (m, cs))" "0 < \<rho> (m, cs)"
    by (rule node_at_get)
  let ?v = "v\<lparr>v_refcnt := v_refcnt v + 1\<rparr>"
  have n: "n \<in> dom (nodes (mem st))" "v_mount ?v = nmount (mem st) n" "v_path ?v = npath (mem st) n"
    using at v by (auto simp: node_at_def)
  have inv': "cache_inv env wok (put_node st n ?v) (\<rho>((m, cs) := \<rho> (m, cs) + 1))"
    using v by (intro cache_inv_set_ref [OF inv at]) auto
  have "vfs_node_ref st n = Some (put_node st n ?v)"
    using v by (simp add: vfs_node_ref_def)
  then show thesis
    by (rule that [OF _ inv']) (use node_step_put_node [OF n] put_node_view(5) [OF n] in simp_all)
qed

lemma lookup_loop_find:
  assumes "set ns \<subseteq> dom (nodes (mem st))"
  shows "lookup_loop st m path ns
    = Some (find (\<lambda>n. nmount (mem st) n = m \<and> same_path (npath (mem st) n) path) ns)"
  using assms by (induction ns) (auto simp: get_node_def nmount_def npath_def)

lemma same_path_short: "length a < VFS_MAX_PATH \<Longrightarrow> length b < VFS_MAX_PATH \<Longrightarrow> same_path a b \<longleftrightarrow> a = b"
  by (simp add: same_path_def)

lemma vfs_node_hash_less: "vfs_node_hash m path < VFS_NODE_HASH_SIZE"
proof -
  have "(hash_loop 0 path XOR of_nat m) AND 255 \<le> 255" by (rule word_and_le1)
  then have "unat ((hash_loop 0 path XOR of_nat m) AND 255) \<le> 255" by (simp add: word_le_nat_alt)
  then show ?thesis by (simp add: vfs_node_hash_def)
qed

lemma vfs_node_lookup_spec:
  assumes inv: "cache_inv env wok st \<rho>" and cs: "good_comps cs" "length (node_path cs) < VFS_MAX_PATH"
  obtains (absent) "\<rho> (m, cs) = 0" "vfs_node_lookup st m (node_path cs) = Some (st, None)"
  | (present) st' n where "0 < \<rho> (m, cs)" "node_at (mem st) n m cs"
      "vfs_node_lookup st m (node_path cs) = Some (st', Some n)"
      "cache_inv env wok st' (\<rho>((m, cs) := \<rho> (m, cs) + 1))"
      "node_step st st' \<rho>'" "next_ptr st' = next_ptr st" "node_at (mem st') = node_at (mem st)"
proof -
  let ?i = "vfs_node_hash m (node_path cs)"
  let ?ns = "node_list st ! ?i"
  let ?P = "\<lambda>n. nmount (mem st) n = m \<and> same_path (npath (mem st) n) (node_path cs)"
  have bucket: "set ?ns = {n \<in> dom (nodes (mem st)). vfs_node_hash (nmount (mem st) n) (npath (mem st) n) = ?i}"
    and node: "node_wf st" and ref: "ref_wf st \<rho>"
    using inv vfs_node_hash_less by (auto simp: cache_inv_def bucket_wf_def)
  have loop: "lookup_loop st m (node_path cs) ?ns = Some (find ?P ?ns)"
    using bucket by (intro lookup_loop_find) auto
  have hit: "node_at (mem st) n m cs" if "n \<in> set ?ns" "?P n" for n
  proof -
    have n: "n \<in> dom (nodes (mem st))" using that(1) bucket by auto
    then obtain ds where "node_at (mem st) n (nmount (mem st) n) ds" using node by (auto simp: node_wf_def)
    then show ?thesis using that(2) cs by (auto simp: node_at_def same_path_short)
  qed
  show thesis
  proof (cases "find ?P ?ns")
    case None
    have "\<not> node_at (mem st) n m cs" for n
      using None bucket by (auto simp: find_None_iff node_at_def same_path_def)
    then have "\<rho> (m, cs) = 0" using ref unfolding ref_wf_def by (metis gr0I)
    then show thesis using loop None by (intro absent) (auto simp: vfs_node_lookup_def)
  next
    case (Some n)
    then have at: "node_at (mem st) n m cs" by (intro hit) (auto simp: find_Some_iff)
    moreover have "0 < \<rho> (m, cs)" using at ref by (auto simp: ref_wf_def)
    moreover obtain st' where ref': "vfs_node_ref st n = Some st'"
      "cache_inv env wok st' (\<rho>((m, cs) := \<rho> (m, cs) + 1))" "node_step st st' \<rho>'"
      "next_ptr st' = next_ptr st" "node_at (mem st') = node_at (mem st)"
      using at by (rule vfs_node_ref_spec [OF inv])
    moreover have "vfs_node_lookup st m (node_path cs) = Some (st', Some n)"
      using loop Some ref'(1) by (simp add: vfs_node_lookup_def)
    ultimately show thesis by (intro present)
  qed
qed

section \<open>Adding and removing a node\<close>

lemma node_at_dom: "node_at h n m cs \<Longrightarrow> n \<in> dom (nodes h)"
  by (simp add: node_at_def)

lemma ref_wf_count: "ref_wf st \<rho> \<Longrightarrow> node_at (mem st) n m cs \<Longrightarrow> nref (mem st) n = int (\<rho> (m, cs)) \<and> 0 < \<rho> (m, cs)"
  by (simp add: ref_wf_def)

lemma ref_wf_node: "ref_wf st \<rho> \<Longrightarrow> 0 < \<rho> (m, cs) \<Longrightarrow> \<exists>n. node_at (mem st) n m cs"
  by (simp add: ref_wf_def)

lemma cache_inv_remove:
  assumes inv: "cache_inv env wok st \<rho>" and at: "node_at (mem st) n m cs"
    and buckets: "node_list st' = (node_list st)[vfs_node_hash m (node_path cs) := remove1 n (node_list st ! vfs_node_hash m (node_path cs))]"
    and nxt: "next_ptr st' = next_ptr st"
    and dom: "dom (nodes (mem st')) = dom (nodes (mem st)) - {n}"
    and same: "\<And>x. x \<noteq> n \<Longrightarrow> nmount (mem st') x = nmount (mem st) x \<and> npath (mem st') x = npath (mem st) x \<and> nref (mem st') x = nref (mem st) x"
    and mounts: "dom (mounts (mem st')) = dom (mounts (mem st))" "mref (mem st') = (mref (mem st))(m := mref (mem st) m - 1)"
    and ready: "fs_ready env wok (mem st')"
  shows "cache_inv env wok st' (\<rho>((m, cs) := 0))"
proof -
  have bw: "bucket_wf st" and nw: "node_wf st" and rw: "ref_wf st \<rho>" and mw: "mount_wf st"
    using inv by (simp_all add: cache_inv_def)
  have hl: "vfs_node_hash m (node_path cs) < length (node_list st)"
    using bw vfs_node_hash_less by (simp add: bucket_wf_def)
  have at': "node_at (mem st') x a ds \<longleftrightarrow> x \<noteq> n \<and> node_at (mem st) x a ds" for x a ds
    using dom same [of x] by (auto simp: node_at_def)
  have nn: "n \<in> dom (nodes (mem st))" "nmount (mem st) n = m" "npath (mem st) n = node_path cs"
    using at by (simp_all add: node_at_def)
  have "bucket_wf st'"
    unfolding bucket_wf_def
  proof (intro conjI allI impI)
    show "length (node_list st') = VFS_NODE_HASH_SIZE" using bw buckets by (simp add: bucket_wf_def)
  next
    fix i :: nat
    assume i: "i < VFS_NODE_HASH_SIZE"
    then have old: "distinct (node_list st ! i)" "set (node_list st ! i)
        = {n \<in> dom (nodes (mem st)). vfs_node_hash (nmount (mem st) n) (npath (mem st) n) = i}"
      and len: "i < length (node_list st)"
      using bw by (simp_all add: bucket_wf_def)
    have nth: "node_list st' ! i = (if i = vfs_node_hash m (node_path cs) then remove1 n (node_list st ! i) else node_list st ! i)"
      using hl buckets by (simp add: nth_list_update)
    then show "distinct (node_list st' ! i)" using old(1) by auto
    have "set (node_list st' ! i) = set (node_list st ! i) - {n}"
      using nth old nn by auto
    also have "\<dots> = {n \<in> dom (nodes (mem st')). vfs_node_hash (nmount (mem st') n) (npath (mem st') n) = i}"
      unfolding old(2) dom using same by auto
    finally show "set (node_list st' ! i) = {n \<in> dom (nodes (mem st')). vfs_node_hash (nmount (mem st') n) (npath (mem st') n) = i}" .
  qed
  moreover have "node_wf st'"
    using nw dom same nxt mounts at' by (auto simp: node_wf_def inj_on_def)
  moreover have "ref_wf st' (\<rho>((m, cs) := 0))"
    unfolding ref_wf_def
  proof (intro conjI allI impI)
    fix x a ds
    assume "node_at (mem st') x a ds"
    then have x: "x \<noteq> n" "node_at (mem st) x a ds" by (simp_all add: at')
    then have "(a, ds) \<noteq> (m, cs)" using node_at_unique [OF nw at] by auto
    then show "nref (mem st') x = int ((\<rho>((m, cs) := 0)) (a, ds))" "0 < (\<rho>((m, cs) := 0)) (a, ds)"
      using x rw same [of x] by (auto simp: ref_wf_def)
  next
    fix a ds
    assume "0 < (\<rho>((m, cs) := 0)) (a, ds)"
    then have ne: "(a, ds) \<noteq> (m, cs)" and "0 < \<rho> (a, ds)" by (auto split: if_splits)
    then obtain x where x: "node_at (mem st) x a ds" using ref_wf_node [OF rw] by blast
    with ne have "x \<noteq> n" using node_at_comps [OF at, of a ds] by auto
    with x show "\<exists>x. node_at (mem st') x a ds" using at' by blast
  qed
  moreover have "mount_wf st'"
    unfolding mount_wf_def
  proof
    fix a
    assume a: "a \<in> dom (mounts (mem st'))"
    then have a': "a \<in> dom (mounts (mem st))" using mounts by simp
    have fin: "finite {x \<in> dom (nodes (mem st)). nmount (mem st) x = a}"
      using nw by (auto simp: node_wf_def)
    have set: "{x \<in> dom (nodes (mem st')). nmount (mem st') x = a} = {x \<in> dom (nodes (mem st)). nmount (mem st) x = a} - {n}"
      unfolding dom using same by auto
    have "int (card ({x \<in> dom (nodes (mem st)). nmount (mem st) x = a} - {n}))
        = mref (mem st) a - (if a = m then 1 else 0)"
    proof (cases "a = m")
      case True
      then have "n \<in> {x \<in> dom (nodes (mem st)). nmount (mem st) x = a}" using nn by simp
      then have "int (card ({x \<in> dom (nodes (mem st)). nmount (mem st) x = a} - {n}))
          = int (card {x \<in> dom (nodes (mem st)). nmount (mem st) x = a}) - 1"
        using card_Suc_Diff1 [OF fin, of n] by linarith
      then show ?thesis using True mw a' by (simp add: mount_wf_def)
    next
      case False
      then have "{x \<in> dom (nodes (mem st)). nmount (mem st) x = a} - {n} = {x \<in> dom (nodes (mem st)). nmount (mem st) x = a}"
        using nn by auto
      then show ?thesis using False mw a' by (simp add: mount_wf_def)
    qed
    then show "a < next_ptr st' \<and> mref (mem st') a = int (card {n \<in> dom (nodes (mem st')). nmount (mem st') n = a})"
      using mw a' nxt mounts by (simp only: set) (auto simp: mount_wf_def)
  qed
  ultimately show ?thesis using ready by (simp add: cache_inv_def)
qed

lemma cache_inv_insert:
  assumes inv: "cache_inv env wok st \<rho>" and zero: "\<rho> (m, cs) = 0"
    and cs: "good_comps cs" "length (node_path cs) < VFS_MAX_PATH" and m: "m \<in> dom (mounts (mem st))"
    and buckets: "node_list st' = (node_list st)[vfs_node_hash m (node_path cs) := n # node_list st ! vfs_node_hash m (node_path cs)]"
    and nxt: "next_ptr st \<le> n" "n < next_ptr st'" "next_ptr st \<le> next_ptr st'"
    and dom: "dom (nodes (mem st')) = insert n (dom (nodes (mem st)))"
    and new: "nmount (mem st') n = m" "npath (mem st') n = node_path cs" "nref (mem st') n = 1"
    and same: "\<And>x. x \<noteq> n \<Longrightarrow> nmount (mem st') x = nmount (mem st) x \<and> npath (mem st') x = npath (mem st) x \<and> nref (mem st') x = nref (mem st) x"
    and mounts: "dom (mounts (mem st')) = dom (mounts (mem st))" "mref (mem st') = (mref (mem st))(m := mref (mem st) m + 1)"
    and ready: "fs_ready env wok (mem st')"
  shows "cache_inv env wok st' (\<rho>((m, cs) := 1))" and "node_at (mem st') n m cs"
proof -
  have bw: "bucket_wf st" and nw: "node_wf st" and rw: "ref_wf st \<rho>" and mw: "mount_wf st"
    using inv by (simp_all add: cache_inv_def)
  have hl: "vfs_node_hash m (node_path cs) < length (node_list st)"
    using bw vfs_node_hash_less by (simp add: bucket_wf_def)
  have fresh: "n \<notin> dom (nodes (mem st))" using nw nxt(1) unfolding node_wf_def by (meson not_less)
  show at: "node_at (mem st') n m cs" using dom new cs by (simp add: node_at_def)
  have at': "node_at (mem st') x a ds \<longleftrightarrow> node_at (mem st) x a ds" if "x \<noteq> n" for x a ds
    using dom same that by (auto simp: node_at_def)
  have absent: "\<not> node_at (mem st) x m cs" for x
    using rw zero unfolding ref_wf_def by (metis less_irrefl)
  have "bucket_wf st'"
    unfolding bucket_wf_def
  proof (intro conjI allI impI)
    show "length (node_list st') = VFS_NODE_HASH_SIZE" using bw buckets by (simp add: bucket_wf_def)
  next
    fix i :: nat
    assume i: "i < VFS_NODE_HASH_SIZE"
    then have old: "distinct (node_list st ! i)" "set (node_list st ! i)
        = {n \<in> dom (nodes (mem st)). vfs_node_hash (nmount (mem st) n) (npath (mem st) n) = i}"
      and len: "i < length (node_list st)"
      using bw by (simp_all add: bucket_wf_def)
    show "distinct (node_list st' ! i)"
      using old fresh hl buckets by (auto simp: nth_list_update)
    have other: "(x \<in> dom (nodes (mem st')) \<and> vfs_node_hash (nmount (mem st') x) (npath (mem st') x) = i)
        \<longleftrightarrow> x \<in> set (node_list st ! i)" if "x \<noteq> n" for x
      using old(2) dom same that by auto
    have new_in: "(n \<in> dom (nodes (mem st')) \<and> vfs_node_hash (nmount (mem st') n) (npath (mem st') n) = i)
        \<longleftrightarrow> i = vfs_node_hash m (node_path cs)"
      using dom new by auto
    have elem: "x \<in> set (node_list st' ! i) \<longleftrightarrow> (if x = n then i = vfs_node_hash m (node_path cs) else x \<in> set (node_list st ! i))" for x
      using hl buckets fresh old(2) by (auto simp: nth_list_update)
    show "set (node_list st' ! i) = {n \<in> dom (nodes (mem st')). vfs_node_hash (nmount (mem st') n) (npath (mem st') n) = i}"
    proof (rule set_eqI)
      fix x
      show "x \<in> set (node_list st' ! i)
          \<longleftrightarrow> x \<in> {n \<in> dom (nodes (mem st')). vfs_node_hash (nmount (mem st') n) (npath (mem st') n) = i}"
        unfolding elem mem_Collect_eq using other [of x] new_in by (cases "x = n") simp_all
    qed
  qed
  moreover have "node_wf st'"
    unfolding node_wf_def
  proof (intro conjI ballI)
    show "finite (dom (nodes (mem st')))" using nw dom by (simp add: node_wf_def)
  next
    fix x
    assume x: "x \<in> dom (nodes (mem st'))"
    have "x < next_ptr st' \<and> nmount (mem st') x \<in> dom (mounts (mem st')) \<and> (\<exists>cs. node_at (mem st') x (nmount (mem st') x) cs)"
    proof (cases "x = n")
      case True
      then show ?thesis using new nxt mounts(1) m at by auto
    next
      case False
      then have "x \<in> dom (nodes (mem st))" using x dom by auto
      then have "x < next_ptr st \<and> nmount (mem st) x \<in> dom (mounts (mem st)) \<and> (\<exists>cs. node_at (mem st) x (nmount (mem st) x) cs)"
        using nw by (simp add: node_wf_def)
      then show ?thesis unfolding at' [OF False] using nxt(3) mounts(1) same [OF False] by auto
    qed
    then show "x < next_ptr st'" "nmount (mem st') x \<in> dom (mounts (mem st'))"
      and "\<exists>cs. node_at (mem st') x (nmount (mem st') x) cs" by auto
  next
    have "(nmount (mem st) x, npath (mem st) x) \<noteq> (m, node_path cs)" if "x \<in> dom (nodes (mem st))" for x
      using absent [of x] that cs by (auto simp: node_at_def)
    then show "inj_on (\<lambda>n. (nmount (mem st') n, npath (mem st') n)) (dom (nodes (mem st')))"
      using nw dom new same unfolding node_wf_def inj_on_def by (metis insert_iff)
  qed
  moreover have "ref_wf st' (\<rho>((m, cs) := 1))"
    unfolding ref_wf_def
  proof (intro conjI allI impI)
    fix x a ds
    assume x: "node_at (mem st') x a ds"
    have "nref (mem st') x = int ((\<rho>((m, cs) := 1)) (a, ds)) \<and> 0 < (\<rho>((m, cs) := 1)) (a, ds)"
    proof (cases "x = n")
      case True
      then show ?thesis using node_at_comps [OF x] at new by simp
    next
      case False
      then have old: "node_at (mem st) x a ds" using x at' by simp
      then have "(a, ds) \<noteq> (m, cs)" using absent by auto
      then show ?thesis using old rw same [OF False] by (auto simp: ref_wf_def)
    qed
    then show "nref (mem st') x = int ((\<rho>((m, cs) := 1)) (a, ds))" and "0 < (\<rho>((m, cs) := 1)) (a, ds)" by auto
  next
    fix a ds
    assume "0 < (\<rho>((m, cs) := 1)) (a, ds)"
    then have "(a, ds) = (m, cs) \<or> (\<exists>x. node_at (mem st) x a ds)"
      using rw by (auto simp: ref_wf_def split: if_splits)
    then show "\<exists>x. node_at (mem st') x a ds"
      using at at' fresh node_at_dom by (metis Pair_inject)
  qed
  moreover have "mount_wf st'"
    unfolding mount_wf_def
  proof
    fix a
    assume "a \<in> dom (mounts (mem st'))"
    then have a': "a \<in> dom (mounts (mem st))" using mounts by simp
    have fin: "finite {x \<in> dom (nodes (mem st)). nmount (mem st) x = a}"
      using nw by (auto simp: node_wf_def)
    have set: "{x \<in> dom (nodes (mem st')). nmount (mem st') x = a}
        = (if a = m then insert n {x \<in> dom (nodes (mem st)). nmount (mem st) x = a}
           else {x \<in> dom (nodes (mem st)). nmount (mem st) x = a})"
    proof (rule set_eqI)
      fix x
      show "x \<in> {x \<in> dom (nodes (mem st')). nmount (mem st') x = a}
          \<longleftrightarrow> x \<in> (if a = m then insert n {x \<in> dom (nodes (mem st)). nmount (mem st) x = a}
                  else {x \<in> dom (nodes (mem st)). nmount (mem st) x = a})"
        unfolding dom using same [of x] new(1) fresh by (cases "x = n") auto
    qed
    have old: "a < next_ptr st" "mref (mem st) a = int (card {n \<in> dom (nodes (mem st)). nmount (mem st) n = a})"
      using mw a' by (simp_all add: mount_wf_def)
    have "n \<notin> {x \<in> dom (nodes (mem st)). nmount (mem st) x = a}" using fresh by simp
    then show "a < next_ptr st' \<and> mref (mem st') a = int (card {n \<in> dom (nodes (mem st')). nmount (mem st') n = a})"
      unfolding set mounts(2) using old nxt(3) card_insert_disjoint [OF fin, of n] by (cases "a = m") simp_all
  qed
  ultimately show "cache_inv env wok st' (\<rho>((m, cs) := 1))" using ready by (simp add: cache_inv_def)
qed

section \<open>Calling the file system\<close>

lemma call_fs_ok:
  assumes ready: "fs_ready env wok (mem st)" and m: "m \<in> dom (mounts (mem st))"
    and law: "\<And>s fs. filesystems env s = Some fs \<Longrightarrow> op_ok wok (mem st) (op fs (mem st))"
  obtains h' r where "call_fs env st m op = Some (st\<lparr>mem := h'\<rparr>, r)" "node_ids h' = node_ids (mem st)"
    "mount_ids h' = mount_ids (mem st)" "fs_ready env wok h'"
proof -
  obtain mt where mt: "mounts (mem st) m = Some mt" using m by auto
  then obtain fs where fs: "filesystems env (m_fs mt) = Some fs" using ready by (auto simp: fs_ready_def)
  from law [OF fs] obtain h' r where res: "op fs (mem st) = Some (h', r)" "node_ids h' = node_ids (mem st)"
    "mount_ids h' = mount_ids (mem st)" "\<forall>dev. wok (world (mem st)) dev \<longrightarrow> wok (world h') dev"
    by (auto simp: op_ok_def)
  have "fs_ready env wok h'" using res ready by (intro fs_ready_frame [OF res(2,3) _ ready]) simp
  moreover have "call_fs env st m op = Some (st\<lparr>mem := h'\<rparr>, r)"
    using mt fs res(1) by (simp add: call_fs_def get_mount_def)
  ultimately show thesis using res(2,3) by (intro that)
qed

lemma cache_inv_frame_ready:
  assumes "node_ids h' = node_ids (mem st)" "mount_ids h' = mount_ids (mem st)" "fs_ready env wok h'"
    and "cache_inv env wok st \<rho>"
  shows "cache_inv env wok (st\<lparr>mem := h'\<rparr>) \<rho>"
  using assms(3,4)
  by (simp add: cache_inv_def bucket_wf_def node_wf_def ref_wf_def mount_wf_def
      node_ids_view [OF assms(1)] mount_ids_view [OF assms(2)] node_at_view [OF assms(1)])

lemma fs_ready_mem_ok: "fs_ready env wok h \<Longrightarrow> mem_ok wok h"
  by (simp add: fs_ready_def)

lemma fs_ready_count:
  "fs_ready env wok h \<Longrightarrow> mounts h m = Some mt \<Longrightarrow> fs_ready env wok (h\<lparr>mounts := (mounts h)(m \<mapsto> mt\<lparr>m_refcnt := r\<rparr>)\<rparr>)"
  by (auto simp: fs_ready_def mem_ok_def)

lemma fs_ready_del: "fs_ready env wok h \<Longrightarrow> fs_ready env wok (h\<lparr>nodes := (nodes h)(n := None)\<rparr>)"
  by (auto simp: fs_ready_def mem_ok_def)

lemma mount_count_ok:
  assumes "m \<in> dom (mounts (mem st))" and "fs_ready env wok (mem st)"
  obtains st' where "mount_count st m d = Some st'" "nodes (mem st') = nodes (mem st)"
    "dom (mounts (mem st')) = dom (mounts (mem st))" "mref (mem st') = (mref (mem st))(m := mref (mem st) m + d)"
    "mount_key (mem st') = mount_key (mem st)" "fs_ready env wok (mem st')"
    "node_list st' = node_list st" "next_ptr st' = next_ptr st" "mnt_list st' = mnt_list st"
    "fd_file st' = fd_file st" "can_alloc st' = can_alloc st"
proof -
  obtain mt where mt: "mounts (mem st) m = Some mt" using assms by auto
  let ?st' = "put_mount st m (mt\<lparr>m_refcnt := m_refcnt mt + d\<rparr>)"
  have "mount_count st m d = Some ?st'" using mt by (simp add: mount_count_def get_mount_def)
  then show thesis
  proof (rule that)
    show "dom (mounts (mem ?st')) = dom (mounts (mem st))" using mt by (auto simp: put_mount_def)
    show "mref (mem ?st') = (mref (mem st))(m := mref (mem st) m + d)" "mount_key (mem ?st') = mount_key (mem st)"
      using mt by (auto simp: put_mount_def mref_def mount_key_def)
    show "fs_ready env wok (mem ?st')"
      using fs_ready_count [OF assms(2) mt] by (simp add: put_mount_def)
  qed (simp_all add: put_mount_def)
qed

lemma del_node_fields [simp]:
  "nodes (mem (del_node st n)) = (nodes (mem st))(n := None)" "mounts (mem (del_node st n)) = mounts (mem st)"
  "world (mem (del_node st n)) = world (mem st)" "node_list (del_node st n) = node_list st"
  "next_ptr (del_node st n) = next_ptr st" "mnt_list (del_node st n) = mnt_list st"
  "fd_file (del_node st n) = fd_file st" "can_alloc (del_node st n) = can_alloc st"
  by (simp_all add: del_node_def)

lemma del_node_view:
  "mref (mem (del_node st n)) = mref (mem st)" "mount_key (mem (del_node st n)) = mount_key (mem st)"
  "x \<noteq> n \<Longrightarrow> nmount (mem (del_node st n)) x = nmount (mem st) x"
  "x \<noteq> n \<Longrightarrow> npath (mem (del_node st n)) x = npath (mem st) x"
  "x \<noteq> n \<Longrightarrow> nref (mem (del_node st n)) x = nref (mem st) x"
  by (auto simp: view_defs mount_key_def)

lemma node_at_same:
  assumes "dom (nodes h') = dom (nodes h) - {n}" "\<And>x. x \<noteq> n \<Longrightarrow> nmount h' x = nmount h x \<and> npath h' x = npath h x"
  shows "x \<noteq> n \<Longrightarrow> node_at h' x m cs \<longleftrightarrow> node_at h x m cs"
  using assms by (auto simp: node_at_def)

section \<open>Dropping a reference\<close>

context filesystem_env
begin

lemma vfs_node_put_last:
  assumes inv: "cache_inv env wok st \<rho>" and at: "node_at (mem st) n m cs" and one: "\<rho> (m, cs) = 1"
  obtains st' where "vfs_node_put env st n = Some st'" "cache_inv env wok st' (\<rho>((m, cs) := 0))"
    "node_step st st' (\<rho>((m, cs) := 0))" "next_ptr st' = next_ptr st"
proof -
  have ref: "ref_wf st \<rho>" and node: "node_wf st" and ready: "fs_ready env wok (mem st)"
    using inv by (simp_all add: cache_inv_def)
  from at ref obtain v where v: "get_node st n = Some v" "nodes (mem st) n = Some v" "v_mount v = m"
    "v_path v = node_path cs" "v_refcnt v = int (\<rho> (m, cs))" "0 < \<rho> (m, cs)"
    by (rule node_at_get)
  have m: "m \<in> dom (mounts (mem st))" using at node by (auto simp: node_wf_def node_at_def)
  let ?v = "v\<lparr>v_refcnt := v_refcnt v - 1\<rparr>"
  define st1 where "st1 = put_node st n ?v"
  have n: "n \<in> dom (nodes (mem st))" "v_mount ?v = nmount (mem st) n" "v_path ?v = npath (mem st) n"
    using at v by (auto simp: node_at_def)
  note view1 = put_node_view [OF n, folded st1_def]
  define st2 where "st2 = unlink_node st1 (vfs_node_hash m (node_path cs)) n"
  have mem2: "mem st2 = mem st1" by (simp add: st2_def unlink_node_def)
  have ready2: "fs_ready env wok (mem st2)"
    unfolding mem2 st1_def using ready m v(3) by (intro fs_ready_put_node) auto
  have dom2: "m \<in> dom (mounts (mem st2))" "n \<in> dom (nodes (mem st2))"
    using m n(1) view1(1) by (simp_all add: mem2 st1_def)
  obtain h3 r where call: "call_fs env st2 m (\<lambda>fs. fs_vput fs m n) = Some (st2\<lparr>mem := h3\<rparr>, r)"
    and ids3: "node_ids h3 = node_ids (mem st2)" "mount_ids h3 = mount_ids (mem st2)"
    and ready3: "fs_ready env wok h3"
    by (rule call_fs_ok [OF ready2 dom2(1), where op = "\<lambda>fs. fs_vput fs m n"])
      (erule fs_vput_ok [OF _ fs_ready_mem_ok [OF ready2] dom2])
  note view3 = node_ids_view [OF ids3(1)] mount_ids_view [OF ids3(2)]
  define st3 where "st3 = st2\<lparr>mem := h3\<rparr>"
  have "m \<in> dom (mounts (mem st3))" "fs_ready env wok (mem st3)"
    using dom2(1) view3(5) ready3 by (simp_all add: st3_def)
  then obtain st4 where count: "mount_count st3 m (-1) = Some st4" and st4: "nodes (mem st4) = nodes (mem st3)"
    "dom (mounts (mem st4)) = dom (mounts (mem st3))" "mref (mem st4) = (mref (mem st3))(m := mref (mem st3) m + (-1))"
    "mount_key (mem st4) = mount_key (mem st3)" "fs_ready env wok (mem st4)"
    "node_list st4 = node_list st3" "next_ptr st4 = next_ptr st3" "mnt_list st4 = mnt_list st3"
    "fd_file st4 = fd_file st3" "can_alloc st4 = can_alloc st3"
    by (rule mount_count_ok)
  note st4 = st4 [unfolded st3_def, simplified]
  have put: "vfs_node_put env st n = Some (del_node st4 n)"
    using v one call count
    by (simp add: vfs_node_put_def st1_def st2_def st3_def)
  have dom: "dom (nodes (mem (del_node st4 n))) = dom (nodes (mem st)) - {n}"
    using st4(1) view3(1) view1(1) by (simp add: mem2)
  have same: "nmount (mem (del_node st4 n)) x = nmount (mem st) x \<and> npath (mem (del_node st4 n)) x = npath (mem st) x
      \<and> nref (mem (del_node st4 n)) x = nref (mem st) x" if "x \<noteq> n" for x
  proof -
    have "nmount (mem st4) = nmount h3" "npath (mem st4) = npath h3" "nref (mem st4) = nref h3"
      using st4(1) by (auto simp: view_defs)
    then show ?thesis using that view3(2-4) view1(2-4) by (simp add: del_node_view mem2)
  qed
  have key: "mount_key (mem (del_node st4 n)) = mount_key (mem st)"
    using st4(4) view3(8) view1(7) by (simp add: del_node_view mem2)
  have "cache_inv env wok (del_node st4 n) (\<rho>((m, cs) := 0))"
  proof (rule cache_inv_remove [OF inv at _ _ dom same])
    show "node_list (del_node st4 n) = (node_list st)[vfs_node_hash m (node_path cs) := remove1 n (node_list st ! vfs_node_hash m (node_path cs))]"
      using st4(6) by (simp add: st2_def unlink_node_def st1_def)
    show "next_ptr (del_node st4 n) = next_ptr st"
      using st4(7) by (simp add: st2_def unlink_node_def st1_def)
    show "dom (mounts (mem (del_node st4 n))) = dom (mounts (mem st))"
      by (rule mount_key_dom [OF key])
    show "mref (mem (del_node st4 n)) = (mref (mem st))(m := mref (mem st) m - 1)"
      using st4(3) view3(6) view1(6) by (simp add: del_node_view mem2)
    show "fs_ready env wok (mem (del_node st4 n))"
      using fs_ready_del [OF st4(5), of n] by (simp add: del_node_def)
  qed
  moreover have "node_step st (del_node st4 n) (\<rho>((m, cs) := 0))"
    unfolding node_step_def
  proof (intro conjI allI impI)
    fix x a ds
    assume x: "node_at (mem st) x a ds" and pos: "0 < (\<rho>((m, cs) := 0)) (a, ds)"
    then have "x \<noteq> n" using node_at_comps [OF at, of a ds] by (auto split: if_splits)
    then show "node_at (mem (del_node st4 n)) x a ds"
      using x node_at_same [of "mem (del_node st4 n)" "mem st" n x] dom same by blast
  qed (use key st4 in \<open>simp_all add: st2_def unlink_node_def st1_def\<close>)
  moreover have "next_ptr (del_node st4 n) = next_ptr st"
    using st4(7) by (simp add: st2_def unlink_node_def st1_def)
  ultimately show thesis by (rule that [OF put])
qed

lemma vfs_node_put_spec:
  assumes inv: "cache_inv env wok st \<rho>" and at: "node_at (mem st) n m cs"
  obtains st' where "vfs_node_put env st n = Some st'" "cache_inv env wok st' (\<rho>((m, cs) := \<rho> (m, cs) - 1))"
    "node_step st st' (\<rho>((m, cs) := \<rho> (m, cs) - 1))" "next_ptr st' = next_ptr st"
proof (cases "\<rho> (m, cs) = 1")
  case True
  then show thesis using vfs_node_put_last [OF inv at] that by auto
next
  case False
  have ref: "ref_wf st \<rho>" using inv by (simp_all add: cache_inv_def)
  from at ref obtain v where v: "get_node st n = Some v" "nodes (mem st) n = Some v" "v_mount v = m"
    "v_path v = node_path cs" "v_refcnt v = int (\<rho> (m, cs))" "0 < \<rho> (m, cs)"
    by (rule node_at_get)
  let ?v = "v\<lparr>v_refcnt := v_refcnt v - 1\<rparr>"
  have n: "n \<in> dom (nodes (mem st))" "v_mount ?v = nmount (mem st) n" "v_path ?v = npath (mem st) n"
    using at v by (auto simp: node_at_def)
  have "vfs_node_put env st n = Some (put_node st n ?v)"
    using v False by (simp add: vfs_node_put_def Let_def)
  moreover have "cache_inv env wok (put_node st n ?v) (\<rho>((m, cs) := \<rho> (m, cs) - 1))"
    using v False by (intro cache_inv_set_ref [OF inv at]) auto
  ultimately show thesis
    by (rule that) (use node_step_put_node [OF n] in simp_all)
qed

end

section \<open>Creating a node\<close>

lemma nodes_views:
  assumes "nodes h' = nodes h"
  shows "nmount h' = nmount h" "npath h' = npath h" "nref h' = nref h" "node_at h' = node_at h"
  using assms by (auto simp: view_defs node_at_def intro!: ext)

lemma cache_inv_views:
  assumes inv: "cache_inv env wok st \<rho>"
    and fields: "node_list st' = node_list st" "next_ptr st \<le> next_ptr st'"
    and nodes: "dom (nodes (mem st')) = dom (nodes (mem st))" "nmount (mem st') = nmount (mem st)"
      "npath (mem st') = npath (mem st)" "nref (mem st') = nref (mem st)"
    and mounts: "dom (mounts (mem st')) = dom (mounts (mem st))" "mref (mem st') = mref (mem st)"
    and ready: "fs_ready env wok (mem st')"
  shows "cache_inv env wok st' \<rho>"
proof -
  have "node_at (mem st') = node_at (mem st)"
    using nodes by (intro ext) (simp add: node_at_def)
  note same = fields(1) nodes mounts this
  have "bucket_wf st'" "ref_wf st' \<rho>"
    using inv by (simp_all add: cache_inv_def bucket_wf_def ref_wf_def same)
  moreover have "node_wf st'"
    using inv fields(2) unfolding cache_inv_def node_wf_def same by (meson less_le_trans)
  moreover have "mount_wf st'"
    using inv fields(2) unfolding cache_inv_def mount_wf_def same by (meson less_le_trans)
  ultimately show ?thesis using ready by (simp add: cache_inv_def)
qed

lemma cache_inv_next_ptr: "cache_inv env wok st \<rho> \<Longrightarrow> next_ptr st \<le> k \<Longrightarrow> cache_inv env wok (st\<lparr>next_ptr := k\<rparr>) \<rho>"
  by (rule cache_inv_views) (auto simp: cache_inv_def)

lemma node_step_next_ptr: "node_step st (st\<lparr>next_ptr := k\<rparr>) \<rho>"
  by (simp add: node_step_def)

definition vget_total :: "'w vfs_env \<Rightarrow> bool" where
  "vget_total env \<longleftrightarrow>
     (\<forall>s fs m n h h' r. filesystems env s = Some fs \<longrightarrow> fs_vget fs m n h = Some (h', r) \<longrightarrow> r = 0)"

lemma link_node_fields [simp]:
  "mem (link_node st i n) = mem st" "next_ptr (link_node st i n) = next_ptr st"
  "mnt_list (link_node st i n) = mnt_list st" "fd_file (link_node st i n) = fd_file st"
  "can_alloc (link_node st i n) = can_alloc st"
  "node_list (link_node st i n) = (node_list st)[i := n # node_list st ! i]"
  by (simp_all add: link_node_def)

context filesystem_env
begin

text \<open>The state after the new node is filled in and \<^verbatim>\<open>vget\<close> has been called.\<close>

lemma new_node_vget:
  assumes inv: "cache_inv env wok st \<rho>" and m: "m \<in> dom (mounts (mem st))"
    and st2: "st2 = put_node (st\<lparr>next_ptr := Suc (next_ptr st)\<rparr>) (next_ptr st) (new_node m path)"
  obtains h3 err where "call_fs env st2 m (\<lambda>fs. fs_vget fs m (next_ptr st)) = Some (st2\<lparr>mem := h3\<rparr>, err)"
    "dom (nodes h3) = insert (next_ptr st) (dom (nodes (mem st)))" "next_ptr st \<notin> dom (nodes (mem st))"
    "nmount h3 (next_ptr st) = m" "npath h3 (next_ptr st) = path" "nref h3 (next_ptr st) = 1"
    "\<forall>x. x \<noteq> next_ptr st \<longrightarrow> nmount h3 x = nmount (mem st) x \<and> npath h3 x = npath (mem st) x \<and> nref h3 x = nref (mem st) x"
    "mref h3 = mref (mem st)" "mount_key h3 = mount_key (mem st)" "fs_ready env wok h3"
    "vget_total env \<longrightarrow> err = 0"
proof -
  have ready: "fs_ready env wok (mem st)" and node: "node_wf st" using inv by (simp_all add: cache_inv_def)
  have fresh: "next_ptr st \<notin> dom (nodes (mem st))" using node unfolding node_wf_def by (meson less_irrefl)
  have ready2: "fs_ready env wok (mem st2)"
    unfolding st2 using ready m by (intro fs_ready_put_node) (auto simp: new_node_def)
  have dom2: "m \<in> dom (mounts (mem st2))" "next_ptr st \<in> dom (nodes (mem st2))"
    using m by (simp_all add: st2)
  obtain mt where mt: "mounts (mem st2) m = Some mt" using dom2(1) by auto
  then obtain fs where fs: "filesystems env (m_fs mt) = Some fs" using ready2 by (auto simp: fs_ready_def)
  have "op_ok wok (mem st2) (fs_vget fs m (next_ptr st) (mem st2))"
    using fs fs_ready_mem_ok [OF ready2] dom2 by (rule fs_vget_ok)
  then obtain h3 err where res: "fs_vget fs m (next_ptr st) (mem st2) = Some (h3, err)" "node_ids h3 = node_ids (mem st2)"
    "mount_ids h3 = mount_ids (mem st2)" "\<forall>dev. wok (world (mem st2)) dev \<longrightarrow> wok (world h3) dev"
    by (auto simp: op_ok_def)
  note view = node_ids_view [OF res(2)] mount_ids_view [OF res(3)]
  have call: "call_fs env st2 m (\<lambda>fs. fs_vget fs m (next_ptr st)) = Some (st2\<lparr>mem := h3\<rparr>, err)"
    using mt fs res(1) by (simp add: call_fs_def get_mount_def)
  show thesis
  proof (rule that [OF call])
    show "dom (nodes h3) = insert (next_ptr st) (dom (nodes (mem st)))" using view(1) by (simp add: st2)
    show "nmount h3 (next_ptr st) = m" "npath h3 (next_ptr st) = path" "nref h3 (next_ptr st) = 1"
      using view(2-4) by (simp_all add: st2 view_defs new_node_def)
    show "\<forall>x. x \<noteq> next_ptr st \<longrightarrow> nmount h3 x = nmount (mem st) x \<and> npath h3 x = npath (mem st) x \<and> nref h3 x = nref (mem st) x"
      using view(2-4) by (simp add: st2 view_defs)
    show "mref h3 = mref (mem st)" "mount_key h3 = mount_key (mem st)"
      using view(6,8) by (auto simp: st2 mref_def mount_key_def)
    show "fs_ready env wok h3" using res(4) by (intro fs_ready_frame [OF res(2,3) _ ready2]) simp
    show "vget_total env \<longrightarrow> err = 0"
      using fs res(1) unfolding vget_total_def by blast
  qed (rule fresh)
qed

lemma vfs_node_get_spec:
  assumes inv: "cache_inv env wok st \<rho>" and zero: "\<rho> (m, cs) = 0"
    and cs: "good_comps cs" "length (node_path cs) < VFS_MAX_PATH" and m: "m \<in> dom (mounts (mem st))"
  obtains (failed) st' where "vfs_node_get env st m (node_path cs) = Some (st', None)" "cache_inv env wok st' \<rho>"
      "node_step st st' (\<lambda>_. 1)" "\<not> (can_alloc st (next_ptr st) \<and> vget_total env)"
  | (made) st' n where "vfs_node_get env st m (node_path cs) = Some (st', Some n)" "node_at (mem st') n m cs"
      "cache_inv env wok st' (\<rho>((m, cs) := 1))" "node_step st st' (\<lambda>_. 1)"
proof -
  let ?n = "next_ptr st"
  let ?st1 = "st\<lparr>next_ptr := Suc (next_ptr st)\<rparr>"
  have inv1: "cache_inv env wok ?st1 \<rho>" using inv by (rule cache_inv_next_ptr) simp
  define st2 where "st2 = put_node ?st1 ?n (new_node m (node_path cs))"
  from inv m st2_def obtain h3 err where call: "call_fs env st2 m (\<lambda>fs. fs_vget fs m ?n) = Some (st2\<lparr>mem := h3\<rparr>, err)"
    and h3: "dom (nodes h3) = insert ?n (dom (nodes (mem st)))" "?n \<notin> dom (nodes (mem st))"
    "nmount h3 ?n = m" "npath h3 ?n = node_path cs" "nref h3 ?n = 1"
    and old: "\<forall>x. x \<noteq> ?n \<longrightarrow> nmount h3 x = nmount (mem st) x \<and> npath h3 x = npath (mem st) x \<and> nref h3 x = nref (mem st) x"
    and h3': "mref h3 = mref (mem st)" "mount_key h3 = mount_key (mem st)" "fs_ready env wok h3"
    and total: "vget_total env \<longrightarrow> err = 0"
    by (rule new_node_vget)
  have keep: "node_at (mem st) x a ds \<Longrightarrow> node_at h3 x a ds" for x a ds
    using h3(1,2) old by (cases "x = ?n") (auto simp: node_at_def)
  show thesis
  proof (cases "can_alloc st ?n")
    case False
    have "vfs_node_get env st m (node_path cs) = Some (?st1, None)"
      using False by (simp add: vfs_node_get_def vfs_calloc_def)
    then show thesis using inv1 node_step_next_ptr False by (intro failed) auto
  next
    case alloc: True
    show thesis
    proof (cases "err = 0")
      case False
      have "vfs_node_get env st m (node_path cs) = Some (del_node (st2\<lparr>mem := h3\<rparr>) ?n, None)"
        using alloc call False cs(2) by (simp add: vfs_node_get_def vfs_calloc_def st2_def Let_def)
      moreover have "cache_inv env wok (del_node (st2\<lparr>mem := h3\<rparr>) ?n) \<rho>"
      proof (rule cache_inv_views [OF inv])
        show "nmount (mem (del_node (st2\<lparr>mem := h3\<rparr>) ?n)) = nmount (mem st)"
          "npath (mem (del_node (st2\<lparr>mem := h3\<rparr>) ?n)) = npath (mem st)"
          "nref (mem (del_node (st2\<lparr>mem := h3\<rparr>) ?n)) = nref (mem st)"
          using old h3(2) by (auto simp: view_defs domIff)
        show "mref (mem (del_node (st2\<lparr>mem := h3\<rparr>) ?n)) = mref (mem st)"
          using h3'(1) by (simp add: del_node_view)
        show "fs_ready env wok (mem (del_node (st2\<lparr>mem := h3\<rparr>) ?n))"
          using fs_ready_del [OF h3'(3), of ?n] by (simp add: del_node_def)
      qed (use h3 mount_key_dom [OF h3'(2)] in \<open>simp_all add: st2_def\<close>)
      moreover have "node_step st (del_node (st2\<lparr>mem := h3\<rparr>) ?n) (\<lambda>_. 1)"
        unfolding node_step_def
      proof (intro conjI allI impI)
        fix x a ds
        assume x: "node_at (mem st) x a ds"
        then have "x \<noteq> ?n" using h3(2) by (auto simp: node_at_def)
        with keep [OF x] show "node_at (mem (del_node (st2\<lparr>mem := h3\<rparr>) ?n)) x a ds"
          by (auto simp: node_at_def view_defs)
      qed (use h3'(2) in \<open>simp_all add: st2_def del_node_view\<close>)
      ultimately show thesis using False total by (intro failed) auto
    next
      case True
      have "m \<in> dom (mounts (mem (st2\<lparr>mem := h3\<rparr>)))" "fs_ready env wok (mem (st2\<lparr>mem := h3\<rparr>))"
        using m mount_key_dom [OF h3'(2)] h3'(3) by simp_all
      then obtain st4 where count: "mount_count (st2\<lparr>mem := h3\<rparr>) m 1 = Some st4" and st4: "nodes (mem st4) = nodes (mem (st2\<lparr>mem := h3\<rparr>))"
        "dom (mounts (mem st4)) = dom (mounts (mem (st2\<lparr>mem := h3\<rparr>)))" "mref (mem st4) = (mref (mem (st2\<lparr>mem := h3\<rparr>)))(m := mref (mem (st2\<lparr>mem := h3\<rparr>)) m + 1)"
        "mount_key (mem st4) = mount_key (mem (st2\<lparr>mem := h3\<rparr>))" "fs_ready env wok (mem st4)"
        "node_list st4 = node_list (st2\<lparr>mem := h3\<rparr>)" "next_ptr st4 = next_ptr (st2\<lparr>mem := h3\<rparr>)" "mnt_list st4 = mnt_list (st2\<lparr>mem := h3\<rparr>)"
        "fd_file st4 = fd_file (st2\<lparr>mem := h3\<rparr>)" "can_alloc st4 = can_alloc (st2\<lparr>mem := h3\<rparr>)"
        by (rule mount_count_ok)
      note st4 = st4 [simplified]
      have views: "nmount (mem st4) = nmount h3" "npath (mem st4) = npath h3" "nref (mem st4) = nref h3" "node_at (mem st4) = node_at h3"
        using nodes_views [OF st4(1)] by simp_all
      define st5 where "st5 = link_node st4 (vfs_node_hash m (node_path cs)) ?n"
      have get: "vfs_node_get env st m (node_path cs) = Some (st5, Some ?n)"
        using alloc call True cs(2) count by (simp add: vfs_node_get_def vfs_calloc_def st2_def st5_def Let_def)
      have new: "cache_inv env wok st5 (\<rho>((m, cs) := 1))" "node_at (mem st5) ?n m cs"
        using cache_inv_insert [OF inv zero cs m, of st5 ?n] h3 h3' old st4 views mount_key_dom [OF h3'(2)]
        by (simp_all add: st5_def st2_def)
      moreover have "node_step st st5 (\<lambda>_. 1)"
        using keep views(4) st4 h3'(2) by (simp add: node_step_def st5_def st2_def)
      ultimately show thesis using get by (intro made)
    qed
  qed
qed

end

end
