(* ===== verification/Vfs_Resolve.thy ===== *)
theory Vfs_Resolve
  imports Vfs_Cache
begin

text \<open>
  Path resolution. \<^verbatim>\<open>vfs_node_acquire\<close> takes one reference to the root and to every node on the way to its
  result; \<^verbatim>\<open>vfs_node_release\<close> gives exactly these back.
\<close>

section \<open>The references of a path\<close>

definition add_path :: "ref_map \<Rightarrow> mount_ptr \<Rightarrow> string list \<Rightarrow> ref_map" where
  "add_path \<rho> m cs = (\<lambda>(m', ds). \<rho> (m', ds) + (if m' = m \<and> prefix ds cs then 1 else 0))"

lemma add_path_nil: "add_path \<rho> m [] = \<rho>((m, []) := \<rho> (m, []) + 1)"
  by (auto simp: add_path_def)

lemma add_path_snoc:
  "add_path \<rho> m (cs @ [c]) = (add_path \<rho> m cs)((m, cs @ [c]) := add_path \<rho> m cs (m, cs @ [c]) + 1)"
  by (auto simp: add_path_def fun_eq_iff dest: prefix_length_le)

lemma add_path_same [simp]: "add_path \<rho> m cs (m, cs) = \<rho> (m, cs) + 1"
  by (simp add: add_path_def)

lemma add_path_below [simp]: "add_path \<rho> m cs (m, cs @ [c]) = \<rho> (m, cs @ [c])"
  by (auto simp: add_path_def dest: prefix_length_le)

lemma add_path_mono: "0 < \<rho> k \<Longrightarrow> 0 < add_path \<rho> m cs k"
  by (auto simp: add_path_def split: prod.split)

lemma add_path_prefix: "prefix ds cs \<Longrightarrow> 0 < add_path \<rho> m cs (m, ds)"
  by (simp add: add_path_def)

text \<open>Dropping the last component gives back one reference.\<close>

lemma sub_path_snoc:
  "(add_path \<rho> m (cs @ [c]))((m, cs @ [c]) := add_path \<rho> m (cs @ [c]) (m, cs @ [c]) - 1) = add_path \<rho> m cs"
  by (rule ext) (auto simp: add_path_snoc)

lemma sub_path_nil: "(add_path \<rho> m [])((m, []) := add_path \<rho> m [] (m, []) - 1) = \<rho>"
  by (simp add: add_path_nil)

lemma ref_up_down: "\<rho> = (\<rho>(k := \<rho> k + 1))(k := (\<rho>(k := \<rho> k + 1)) k - (1 :: nat))"
  by simp

section \<open>Release\<close>

lemma vfs_node_lookup_hit:
  assumes inv: "cache_inv env wok st \<rho>" and cs: "good_comps cs" "length (node_path cs) < VFS_MAX_PATH" and pos: "0 < \<rho> (m, cs)"
  obtains st' n where "node_at (mem st) n m cs" "vfs_node_lookup st m (node_path cs) = Some (st', Some n)"
      "cache_inv env wok st' (\<rho>((m, cs) := \<rho> (m, cs) + 1))"
      "\<forall>\<rho>'. node_step st st' \<rho>'" "next_ptr st' = next_ptr st" "node_at (mem st') = node_at (mem st)"
proof (rule vfs_node_lookup_spec [OF inv cs, where m = m and \<rho>' = \<rho>], goal_cases)
  case 1
  with pos show thesis by simp
next
  case (2 st' n)
  from 2(6,8) have "\<forall>\<rho>'. node_step st st' \<rho>'" by (simp add: node_step_def)
  then show thesis using 2 by (intro that)
qed

lemma release_loop_up:
  assumes "CHR ''/'' \<notin> set c" "p \<noteq> []" "vfs_node_lookup st m p = Some (st1, Some n)"
    and "vfs_node_put env st1 n = Some st2" "vfs_node_put env st2 n = Some st3"
  shows "release_loop env st m (p @ CHR ''/'' # c) = release_loop env st3 m p"
  using assms by (subst release_loop.simps) simp

context filesystem_env
begin

lemma vfs_node_put_to:
  assumes "cache_inv env wok st \<rho>" "node_at (mem st) n m cs" "\<rho>' = \<rho>((m, cs) := \<rho> (m, cs) - 1)"
  obtains st' where "vfs_node_put env st n = Some st'" "cache_inv env wok st' \<rho>'" "node_step st st' \<rho>'"
    "next_ptr st' = next_ptr st"
  using assms(3) vfs_node_put_spec [OF assms(1,2)] by metis

lemma release_loop_spec:
  assumes "cache_inv env wok st (add_path \<rho> m cs)" "good_comps (cs @ [c])" "length (node_path (cs @ [c])) < VFS_MAX_PATH"
  shows "\<exists>st'. release_loop env st m (node_path (cs @ [c])) = Some st' \<and> cache_inv env wok st' (add_path \<rho> m []) \<and>
    node_step st st' (add_path \<rho> m []) \<and> next_ptr st' = next_ptr st"
  using assms
proof (induction cs arbitrary: st c rule: rev_induct)
  case Nil
  then show ?case by (subst release_loop.simps) (simp add: node_path_def last_slash_snoc [of c "[]", simplified])
next
  case (snoc d ds)
  let ?cs = "ds @ [d]"
  have path: "node_path ?cs = comps_path ?cs" by (simp add: node_path_def)
  have cs: "good_comps ?cs" "length (node_path ?cs) < VFS_MAX_PATH" using snoc.prems(2,3) by (simp_all add: node_path_def)
  have "0 < add_path \<rho> m ?cs (m, ?cs)" by simp
  with snoc.prems(1) cs obtain st1 n where at: "node_at (mem st) n m ?cs"
    and look: "vfs_node_lookup st m (node_path ?cs) = Some (st1, Some n)"
    and inv1: "cache_inv env wok st1 ((add_path \<rho> m ?cs)((m, ?cs) := add_path \<rho> m ?cs (m, ?cs) + 1))"
    and step1: "\<forall>\<rho>'. node_step st st1 \<rho>'" "next_ptr st1 = next_ptr st" "node_at (mem st1) = node_at (mem st)"
    by (rule vfs_node_lookup_hit)
  have at1: "node_at (mem st1) n m ?cs" using at step1(3) by simp
  from inv1 at1 ref_up_down obtain st2 where put2: "vfs_node_put env st1 n = Some st2"
    and inv2: "cache_inv env wok st2 (add_path \<rho> m ?cs)"
    and step2: "node_step st1 st2 (add_path \<rho> m ?cs)" "next_ptr st2 = next_ptr st1"
    by (rule vfs_node_put_to)
  have at2: "node_at (mem st2) n m ?cs" using step2(1) at1 by (simp add: node_step_def)
  from inv2 at2 sub_path_snoc [symmetric] obtain st3 where put3: "vfs_node_put env st2 n = Some st3"
    and inv3: "cache_inv env wok st3 (add_path \<rho> m ds)"
    and step3: "node_step st2 st3 (add_path \<rho> m ds)" "next_ptr st3 = next_ptr st2"
    by (rule vfs_node_put_to)
  have "release_loop env st m (node_path (?cs @ [c])) = release_loop env st3 m (node_path ?cs)"
  proof -
    have "node_path (?cs @ [c]) = node_path ?cs @ CHR ''/'' # c" "node_path ?cs \<noteq> []" by (simp_all add: node_path_def)
    then show ?thesis using snoc.prems(2) release_loop_up [OF _ _ look put2 put3, of c] by simp
  qed
  moreover obtain st4 where "release_loop env st3 m (node_path ?cs) = Some st4" "cache_inv env wok st4 (add_path \<rho> m [])"
    "node_step st3 st4 (add_path \<rho> m [])" "next_ptr st4 = next_ptr st3"
    using snoc.IH [OF inv3 cs] by auto
  moreover have "node_step st st4 (add_path \<rho> m [])"
  proof (rule node_step_trans [OF spec [OF step1(1)]])
    show "node_step st1 st4 (add_path \<rho> m [])"
      by (rule node_step_trans [OF step2(1) node_step_trans [OF step3(1) calculation(4)]])
        (auto simp: add_path_def split: if_splits)
  qed assumption
  ultimately show ?case using step1 step2 step3 by auto
qed

end

definition mounted :: "'w vfs_mem \<Rightarrow> mount_ptr \<Rightarrow> node_ptr \<Rightarrow> bool" where
  "mounted h m r \<longleftrightarrow> (\<exists>mt. mounts h m = Some mt \<and> m_root mt = Some r) \<and> node_at h r m []"

lemma mounted_step:
  assumes "mounted (mem st) m r" "node_step st st' \<rho>'" "0 < \<rho>' (m, [])"
  shows "mounted (mem st') m r"
proof -
  obtain mt where mt: "mounts (mem st) m = Some mt" "m_root mt = Some r" and at: "node_at (mem st) r m []"
    using assms(1) by (auto simp: mounted_def)
  have key: "mount_key (mem st') = mount_key (mem st)" and "node_at (mem st') r m []"
    using assms(2,3) at by (auto simp: node_step_def)
  moreover obtain mt' where "mounts (mem st') m = Some mt'" "m_root mt' = m_root mt"
    using key mt(1) by (rule mount_keyE)
  ultimately show ?thesis using mt(2) by (auto simp: mounted_def)
qed

lemma mountedE:
  assumes "mounted h m r"
  obtains mt where "mounts h m = Some mt" "m_root mt = Some r" "node_at h r m []" "m \<in> dom (mounts h)"
  using assms by (auto simp: mounted_def)

context filesystem_env
begin

lemma vfs_node_release_spec:
  assumes inv: "cache_inv env wok st (add_path \<rho> m cs)" and at: "node_at (mem st) n m cs" and root: "mounted (mem st) m r"
  obtains st' where "vfs_node_release env st (Some n) = Some st'" "cache_inv env wok st' \<rho>" "node_step st st' \<rho>"
    "next_ptr st' = next_ptr st"
proof -
  have nw: "node_wf st" and rw: "ref_wf st (add_path \<rho> m cs)" using inv by (simp_all add: cache_inv_def)
  from at rw obtain v where v: "get_node st n = Some v" "nodes (mem st) n = Some v" "v_mount v = m"
    "v_path v = node_path cs" "v_refcnt v = int (add_path \<rho> m cs (m, cs))" "0 < add_path \<rho> m cs (m, cs)"
    by (rule node_at_get)
  from root obtain mt where mt: "mounts (mem st) m = Some mt" "m_root mt = Some r" "node_at (mem st) r m []" "m \<in> dom (mounts (mem st))"
    by (rule mountedE)
  show thesis
  proof (cases cs rule: rev_cases)
    case Nil
    then have "n = r" using node_at_unique [OF nw at] mt(3) by simp
    then have release: "vfs_node_release env st (Some n) = vfs_node_put env st n"
      using v mt by (simp add: vfs_node_release_def get_mount_def)
    from inv [unfolded Nil] at [unfolded Nil] sub_path_nil [symmetric] obtain st'
      where put: "vfs_node_put env st n = Some st'" "cache_inv env wok st' \<rho>" "node_step st st' \<rho>" "next_ptr st' = next_ptr st"
      by (rule vfs_node_put_to)
    with release have "vfs_node_release env st (Some n) = Some st'" by simp
    then show thesis using put(2-4) by (rule that)
  next
    case (snoc ds c)
    have "n \<noteq> r" using node_at_comps [OF at] mt(3) snoc by auto
    have good: "good_comps (ds @ [c])" "length (node_path (ds @ [c])) < VFS_MAX_PATH"
      using at snoc by (auto simp: node_at_def)
    from inv [unfolded snoc] at [unfolded snoc] sub_path_snoc [symmetric] obtain st1
      where put1: "vfs_node_put env st n = Some st1" and inv1: "cache_inv env wok st1 (add_path \<rho> m ds)"
        and step1: "node_step st st1 (add_path \<rho> m ds)" "next_ptr st1 = next_ptr st"
      by (rule vfs_node_put_to)
    obtain st2 where loop: "release_loop env st1 m (node_path (ds @ [c])) = Some st2"
      and inv2: "cache_inv env wok st2 (add_path \<rho> m [])" and step2: "node_step st1 st2 (add_path \<rho> m [])" "next_ptr st2 = next_ptr st1"
      using release_loop_spec [OF inv1 good] by blast
    have root2: "mounted (mem st2) m r"
      by (rule mounted_step [OF mounted_step [OF root step1(1)] step2(1)]) (simp_all add: add_path_def)
    then obtain mt2 where mt2: "mounts (mem st2) m = Some mt2" "m_root mt2 = Some r" "node_at (mem st2) r m []" "m \<in> dom (mounts (mem st2))"
      by (rule mountedE)
    from inv2 mt2(3) sub_path_nil [symmetric] obtain st3
      where put3: "vfs_node_put env st2 r = Some st3" and inv3: "cache_inv env wok st3 \<rho>"
        and step3: "node_step st2 st3 \<rho>" "next_ptr st3 = next_ptr st2"
      by (rule vfs_node_put_to)
    have "vfs_node_release env st (Some n) = Some st3"
      using v mt mt2 put1 loop put3 \<open>n \<noteq> r\<close> snoc good
      by (simp add: vfs_node_release_def get_mount_def)
    moreover have "node_step st st3 \<rho>"
      by (rule node_step_trans [OF step1(1) node_step_trans [OF step2(1) step3(1)]]) (rule add_path_mono, assumption)+
    moreover have "next_ptr st3 = next_ptr st" using step1(2) step2(2) step3(2) by simp
    ultimately show thesis using inv3 by (intro that)
  qed
qed

end

section \<open>Acquire\<close>

lemma acquire_loop_nil:
  assumes "path_comps p = []"
  shows "acquire_loop env st m p node dn = Some (st, 0, Some dn)"
proof -
  have "dropWhile (\<lambda>c. c = CHR ''/'') p = []"
    using assms by (subst (asm) path_comps.simps) (auto simp: Let_def split: if_splits)
  then show ?thesis by (subst acquire_loop.simps) simp
qed

lemma acquire_loop_cons:
  assumes "path_comps p = x # xs"
  obtains rest where "path_comps rest = xs"
    "\<And>st node dn. acquire_loop env st m p node dn = do {
        assert_that (length (node @ CHR ''/'' # x) < VFS_MAX_PATH);
        (st1, found) \<leftarrow> vfs_node_lookup st m (node @ CHR ''/'' # x);
        case found of
          Some n \<Rightarrow> acquire_loop env st1 m rest (node @ CHR ''/'' # x) n
        | None \<Rightarrow> do {
            (st2, got) \<leftarrow> vfs_node_get env st1 m (node @ CHR ''/'' # x);
            case got of
              None \<Rightarrow> do {
                st3 \<leftarrow> vfs_node_put env st2 dn;
                Some (st3, -1, None)
              }
            | Some n \<Rightarrow> do {
                dv \<leftarrow> get_node st2 dn;
                (st3, err) \<leftarrow> call_fs env st2 (v_mount dv) (\<lambda>fs. fs_lookup fs dn x n);
                v \<leftarrow> get_node st3 n;
                if err \<noteq> 0 \<or> (rest \<noteq> [] \<and> v_type v \<noteq> VNT_DIR)
                then do {
                  st4 \<leftarrow> vfs_node_release env st3 (Some n);
                  Some (st4, err, None)
                }
                else acquire_loop env st3 m rest (node @ CHR ''/'' # x) n
              }
          }
      }"
proof -
  let ?q = "dropWhile (\<lambda>c. c = CHR ''/'') p"
  have q: "?q \<noteq> []" "x = takeWhile (\<lambda>c. c \<noteq> CHR ''/'') ?q" "xs = path_comps (dropWhile (\<lambda>c. c \<noteq> CHR ''/'') ?q)"
    using assms path_comps.simps [of p] by (auto simp: Let_def split: if_splits)
  show thesis
  proof (rule that [of "dropWhile (\<lambda>c. c \<noteq> CHR ''/'') ?q"])
    show "path_comps (dropWhile (\<lambda>c. c \<noteq> CHR ''/'') ?q) = xs" using q by simp
  qed (subst acquire_loop.simps, simp only: Let_def q(1) if_False q(2))
qed

text \<open>The references that a failed allocation leaves behind: those of the ancestors of the last node reached.\<close>

definition leak_path :: "ref_map \<Rightarrow> mount_ptr \<Rightarrow> string list \<Rightarrow> ref_map" where
  "leak_path \<rho> m es = (add_path \<rho> m es)((m, es) := \<rho> (m, es))"

definition acquire_result :: "'w vfs_env \<Rightarrow> ('w \<Rightarrow> dev_ptr option \<Rightarrow> bool) \<Rightarrow> ref_map \<Rightarrow> mount_ptr \<Rightarrow> string list
    \<Rightarrow> 'w vfs_t \<Rightarrow> 'w vfs_t \<Rightarrow> int \<Rightarrow> node_ptr option \<Rightarrow> bool" where
  "acquire_result env wok \<rho> m cs st st' err np \<longleftrightarrow>
     (\<exists>n. np = Some n \<and> err = 0 \<and> node_at (mem st') n m cs \<and>
        cache_inv env wok st' (add_path \<rho> m cs) \<and> node_step st st' (\<lambda>_. 1)) \<or>
     (np = None \<and> cache_inv env wok st' \<rho> \<and> node_step st st' \<rho>) \<or>
     (np = None \<and> err = -1 \<and> \<not> ((\<forall>k. can_alloc st k) \<and> vget_total env) \<and>
        (\<exists>es. strict_prefix es cs \<and> cache_inv env wok st' (leak_path \<rho> m es) \<and> node_step st st' (leak_path \<rho> m es)))"

lemma acquire_result_back:
  assumes "node_step st0 st (\<lambda>_. 1)" "acquire_result env wok \<rho> m cs st st' err np"
  shows "acquire_result env wok \<rho> m cs st0 st' err np"
proof -
  have "node_step st0 st' \<rho>'" if "node_step st st' \<rho>'" for \<rho>'
    using assms(1) that by (rule node_step_trans) simp
  moreover have "can_alloc st = can_alloc st0" using assms(1) by (simp add: node_step_def)
  ultimately show ?thesis using assms(2) unfolding acquire_result_def by metis
qed

lemma node_step_frame:
  assumes "node_ids h' = node_ids (mem st)" "mount_ids h' = mount_ids (mem st)"
  shows "node_step st (st\<lparr>mem := h'\<rparr>) \<rho>'"
  by (simp add: node_step_def node_at_view [OF assms(1)] mount_ids_view [OF assms(2)])

context filesystem_env
begin

lemma acquire_loop_step:
  assumes inv: "cache_inv env wok st (add_path \<rho> m ds)" and at: "node_at (mem st) dn m ds" and root: "mounted (mem st) m r"
    and p: "path_comps p = x # xs" and len: "length (comps_path (ds @ x # xs)) < VFS_MAX_PATH" and good: "good_comps (ds @ [x])"
  obtains (stop) st' err np where "acquire_loop env st m p (comps_path ds) dn = Some (st', err, np)"
      "acquire_result env wok \<rho> m (ds @ x # xs) st st' err np"
  | (go) st1 n rest where "path_comps rest = xs" "node_step st st1 (\<lambda>_. 1)"
      "acquire_loop env st m p (comps_path ds) dn = acquire_loop env st1 m rest (comps_path (ds @ [x])) n"
      "cache_inv env wok st1 (add_path \<rho> m (ds @ [x]))" "node_at (mem st1) n m (ds @ [x])" "mounted (mem st1) m r"
proof -
  let ?cs = "ds @ [x]"
  let ?path = "comps_path ds @ CHR ''/'' # x"
  have path: "node_path ?cs = ?path" by simp
  have len': "length (node_path ?cs) < VFS_MAX_PATH" using len by simp
  have m: "m \<in> dom (mounts (mem st))" using root by (rule mountedE)
  obtain rest where rest: "path_comps rest = xs" and unf: "\<And>st node dn. acquire_loop env st m p node dn = do {
        assert_that (length (node @ CHR ''/'' # x) < VFS_MAX_PATH);
        (st1, found) \<leftarrow> vfs_node_lookup st m (node @ CHR ''/'' # x);
        case found of
          Some n \<Rightarrow> acquire_loop env st1 m rest (node @ CHR ''/'' # x) n
        | None \<Rightarrow> do {
            (st2, got) \<leftarrow> vfs_node_get env st1 m (node @ CHR ''/'' # x);
            case got of
              None \<Rightarrow> do {
                st3 \<leftarrow> vfs_node_put env st2 dn;
                Some (st3, -1, None)
              }
            | Some n \<Rightarrow> do {
                dv \<leftarrow> get_node st2 dn;
                (st3, err) \<leftarrow> call_fs env st2 (v_mount dv) (\<lambda>fs. fs_lookup fs dn x n);
                v \<leftarrow> get_node st3 n;
                if err \<noteq> 0 \<or> (rest \<noteq> [] \<and> v_type v \<noteq> VNT_DIR)
                then do {
                  st4 \<leftarrow> vfs_node_release env st3 (Some n);
                  Some (st4, err, None)
                }
                else acquire_loop env st3 m rest (node @ CHR ''/'' # x) n
              }
          }
      }"
    using acquire_loop_cons [OF p] by blast
  show thesis
  proof (rule vfs_node_lookup_spec [OF inv good len', where m = m and \<rho>' = "\<lambda>_. 1"])
    fix st1 n
    assume look: "vfs_node_lookup st m (node_path ?cs) = Some (st1, Some n)" and atn: "node_at (mem st) n m ?cs"
      and inv1: "cache_inv env wok st1 ((add_path \<rho> m ds)((m, ?cs) := add_path \<rho> m ds (m, ?cs) + 1))"
      and step1: "node_step st st1 (\<lambda>_. 1)" and same: "node_at (mem st1) = node_at (mem st)"
    have inv1': "cache_inv env wok st1 (add_path \<rho> m ?cs)" using inv1 by (simp add: add_path_snoc)
    have eq: "acquire_loop env st m p (comps_path ds) dn = acquire_loop env st1 m rest (comps_path ?cs) n"
      using look len' by (subst unf) simp
    show thesis
      by (rule go [OF rest step1 eq inv1']) (use atn same mounted_step [OF root step1] in simp_all)
  next
    assume zero: "add_path \<rho> m ds (m, ?cs) = 0" and look: "vfs_node_lookup st m (node_path ?cs) = Some (st, None)"
    show thesis
    proof (rule vfs_node_get_spec [OF inv zero good len' m])
      fix st2
      assume get: "vfs_node_get env st m (node_path ?cs) = Some (st2, None)" and inv2: "cache_inv env wok st2 (add_path \<rho> m ds)"
        and step2: "node_step st st2 (\<lambda>_. 1)" and why: "\<not> (can_alloc st (next_ptr st) \<and> vget_total env)"
      have at2: "node_at (mem st2) dn m ds" using at step2 by (simp add: node_step_def)
      have "leak_path \<rho> m ds = (add_path \<rho> m ds)((m, ds) := add_path \<rho> m ds (m, ds) - 1)" by (simp add: leak_path_def)
      with inv2 at2 obtain st3 where put: "vfs_node_put env st2 dn = Some st3"
        and inv3: "cache_inv env wok st3 (leak_path \<rho> m ds)" and step3: "node_step st2 st3 (leak_path \<rho> m ds)"
        and "next_ptr st3 = next_ptr st2"
        by (rule vfs_node_put_to)
      have "node_step st st3 (leak_path \<rho> m ds)" using step2 step3 by (rule node_step_trans) simp
      then have "acquire_result env wok \<rho> m (ds @ x # xs) st st3 (-1) None"
        using inv3 why unfolding acquire_result_def by (intro disjI2 conjI exI [of _ ds]) (auto simp: strict_prefix_def)
      moreover have "acquire_loop env st m p (comps_path ds) dn = Some (st3, -1, None)"
        using look get put len' by (subst unf) simp
      ultimately show thesis by (intro stop)
    next
      fix st2 n
      assume get: "vfs_node_get env st m (node_path ?cs) = Some (st2, Some n)" and atn: "node_at (mem st2) n m ?cs"
        and inv2': "cache_inv env wok st2 ((add_path \<rho> m ds)((m, ?cs) := 1))" and step2: "node_step st st2 (\<lambda>_. 1)"
      have inv2: "cache_inv env wok st2 (add_path \<rho> m ?cs)" using inv2' zero by (simp add: add_path_snoc)
      have at2: "node_at (mem st2) dn m ds" using at step2 by (simp add: node_step_def)
      have ready2: "fs_ready env wok (mem st2)" using inv2 by (simp add: cache_inv_def)
      have m2: "m \<in> dom (mounts (mem st2))" using mounted_step [OF root step2] by (simp add: mounted_def domIff) blast
      obtain dv where dv: "get_node st2 dn = Some dv" "v_mount dv = m"
        using at2 by (auto simp: node_at_def get_node_def nmount_def)
      obtain h3 err where call: "call_fs env st2 m (\<lambda>fs. fs_lookup fs dn x n) = Some (st2\<lparr>mem := h3\<rparr>, err)"
        and ids: "node_ids h3 = node_ids (mem st2)" "mount_ids h3 = mount_ids (mem st2)" and ready3: "fs_ready env wok h3"
        by (rule call_fs_ok [OF ready2 m2, where op = "\<lambda>fs. fs_lookup fs dn x n"])
          (erule fs_lookup_ok [OF _ fs_ready_mem_ok [OF ready2] node_at_dom [OF at2] node_at_dom [OF atn]])
      define st3 where "st3 = st2\<lparr>mem := h3\<rparr>"
      have inv3: "cache_inv env wok st3 (add_path \<rho> m ?cs)"
        unfolding st3_def using ids ready3 inv2 by (rule cache_inv_frame_ready)
      have step23: "node_step st2 st3 (\<lambda>_. 1)" unfolding st3_def using ids by (rule node_step_frame)
      have step3: "node_step st st3 (\<lambda>_. 1)" using step2 step23 by (rule node_step_trans) simp
      have at3: "node_at (mem st3) n m ?cs" using atn step23 by (simp add: node_step_def)
      have root3: "mounted (mem st3) m r" using mounted_step [OF root step3] by simp
      obtain v where v: "get_node st3 n = Some v" using at3 by (auto simp: node_at_def get_node_def)
      show thesis
      proof (cases "err \<noteq> 0 \<or> (rest \<noteq> [] \<and> v_type v \<noteq> VNT_DIR)")
        case True
        from inv3 at3 root3 obtain st4 where rel: "vfs_node_release env st3 (Some n) = Some st4" "cache_inv env wok st4 \<rho>"
          "node_step st3 st4 \<rho>" "next_ptr st4 = next_ptr st3"
          by (rule vfs_node_release_spec)
        have "node_step st st4 \<rho>" using step3 rel(3) by (rule node_step_trans) simp
        then have "acquire_result env wok \<rho> m (ds @ x # xs) st st4 err None"
          using rel(2) by (simp add: acquire_result_def)
        moreover have "acquire_loop env st m p (comps_path ds) dn = Some (st4, err, None)"
          using look get dv call v rel(1) True len' by (subst unf) (simp add: st3_def)
        ultimately show thesis by (intro stop)
      next
        case False
        have "acquire_loop env st m p (comps_path ds) dn = acquire_loop env st3 m rest (comps_path ?cs) n"
          using look get dv call v False len' by (subst unf) (auto simp: st3_def)
        then show thesis using rest step3 inv3 at3 root3 by (intro go)
      qed
    qed
  qed
qed

lemma acquire_loop_spec:
  assumes "cache_inv env wok st (add_path \<rho> m ds)" "node_at (mem st) dn m ds" "mounted (mem st) m r"
    and "length (comps_path (ds @ path_comps p)) < VFS_MAX_PATH"
  shows "\<exists>st' err np. acquire_loop env st m p (comps_path ds) dn = Some (st', err, np) \<and>
    acquire_result env wok \<rho> m (ds @ path_comps p) st st' err np"
  using assms
proof (induction "path_comps p" arbitrary: p st ds dn)
  case Nil
  then show ?case
    using acquire_loop_nil [of p env st m "comps_path ds" dn] by (auto simp: acquire_result_def)
next
  case (Cons x xs)
  have p: "path_comps p = x # xs" using Cons.hyps(2) by simp
  have good: "good_comps (ds @ [x])"
    using Cons.prems(2) good_path_comps [of p] by (simp add: p node_at_def)
  show ?case
  proof (rule acquire_loop_step [OF Cons.prems(1-3) p Cons.prems(4) [unfolded p] good], goal_cases)
    case (1 st' err np)
    then show ?case unfolding p by blast
  next
    case (2 st1 n rest)
    have "\<exists>st' err np. acquire_loop env st1 m rest (comps_path (ds @ [x])) n = Some (st', err, np) \<and>
        acquire_result env wok \<rho> m ((ds @ [x]) @ path_comps rest) st1 st' err np"
    proof (rule Cons.hyps(1))
      show "xs = path_comps rest" using 2(1) by simp
      show "length (comps_path ((ds @ [x]) @ path_comps rest)) < VFS_MAX_PATH"
        using Cons.prems(4) unfolding p 2(1) by simp
    qed (fact 2(4-6))+
    then obtain st' err np where res: "acquire_loop env st1 m rest (comps_path (ds @ [x])) n = Some (st', err, np)"
      "acquire_result env wok \<rho> m (ds @ x # xs) st1 st' err np"
      using 2(1) by auto
    then show ?case unfolding p 2(3) using acquire_result_back [OF 2(2) res(2)] by blast
  qed
qed

end

section \<open>The mount of a path\<close>

text \<open>A mount point covers a path if it is the path, or a directory above it; the root covers everything.\<close>

definition covers :: "string \<Rightarrow> string \<Rightarrow> bool" where
  "covers root path \<longleftrightarrow>
     prefix root path \<and> (root = ''/'' \<or> length root = length path \<or> path ! length root = CHR ''/'')"

lemma match_loop_spec:
  "match_loop path root len =
     (let k = length (longest_common_prefix path root) in (len + k, drop k path, drop k root))"
  by (induction path root len rule: match_loop.induct) (auto simp: Let_def)

lemma count_match_covers: "count_match path root = (if root \<noteq> [] \<and> covers root path then length root else 0)"
proof (cases "prefix root path")
  case True
  then obtain rest where path: "path = root @ rest" by (auto simp: prefix_def)
  have "longest_common_prefix path root = root"
    unfolding path by (induction root) auto
  then have loop: "match_loop path root 0 = (length root, rest, [])"
    by (simp add: match_loop_spec path)
  show ?thesis
  proof (cases "length root = 1")
    case True
    then obtain c where "root = [c]" by (cases root) auto
    then show ?thesis using loop by (cases rest) (auto simp: count_match_def covers_def path)
  next
    case False
    then show ?thesis using loop
      by (cases rest) (auto simp: count_match_def covers_def path nth_append)
  qed
next
  case False
  let ?k = "length (longest_common_prefix path root)"
  have "?k < length root"
  proof (rule ccontr)
    assume "\<not> ?k < length root"
    moreover have "prefix (longest_common_prefix path root) root" by (rule longest_common_prefix_prefix2)
    moreover have "q = root" if "prefix q root" "\<not> length q < length root" for q
      using that by (auto simp: prefix_def)
    ultimately have "longest_common_prefix path root = root" by blast
    with False longest_common_prefix_prefix1 [of path root] show False by simp
  qed
  then show ?thesis using False by (simp add: count_match_def match_loop_spec covers_def Let_def)
qed


text \<open>The scan keeps the first of the longest matches.\<close>

lemma findroot_loop_spec:
  assumes "set ms \<subseteq> dom (mounts (mem st))"
  obtains m' len' where "findroot_loop st path ms m len = Some (m', len')" "len \<le> len'"
    "\<forall>x\<in>set ms. count_match path (m_path (the (mounts (mem st) x))) \<le> len'"
    "(m', len') = (m, len) \<or> (\<exists>x\<in>set ms. m' = Some x \<and> len' = count_match path (m_path (the (mounts (mem st) x))) \<and> len < len')"
  using assms
proof (induction ms arbitrary: m len thesis)
  case Nil
  then show ?case by simp
next
  case (Cons x ms)
  obtain mt where mt: "mounts (mem st) x = Some mt" using Cons.prems(2) by auto
  let ?k = "count_match path (m_path mt)"
  have ms: "set ms \<subseteq> dom (mounts (mem st))" using Cons.prems(2) by simp
  show ?case
  proof (cases "len < ?k")
    case True
    obtain m' len' where "findroot_loop st path ms (Some x) ?k = Some (m', len')" "?k \<le> len'"
      "\<forall>x\<in>set ms. count_match path (m_path (the (mounts (mem st) x))) \<le> len'"
      "(m', len') = (Some x, ?k) \<or> (\<exists>x\<in>set ms. m' = Some x \<and> len' = count_match path (m_path (the (mounts (mem st) x))) \<and> ?k < len')"
      using ms by (rule Cons.IH [rotated])
    then show ?thesis using True mt by (intro Cons.prems(1) [of m' len']) (auto simp: get_mount_def)
  next
    case False
    obtain m' len' where "findroot_loop st path ms m len = Some (m', len')" "len \<le> len'"
      "\<forall>x\<in>set ms. count_match path (m_path (the (mounts (mem st) x))) \<le> len'"
      "(m', len') = (m, len) \<or> (\<exists>x\<in>set ms. m' = Some x \<and> len' = count_match path (m_path (the (mounts (mem st) x))) \<and> len < len')"
      using ms by (rule Cons.IH [rotated])
    then show ?thesis using False mt by (intro Cons.prems(1) [of m' len']) (auto simp: get_mount_def)
  qed
qed

definition mpath :: "'w vfs_mem \<Rightarrow> mount_ptr \<Rightarrow> string" where
  "mpath h m = m_path (the (mounts h m))"

lemma vfs_findroot_spec:
  assumes "set (mnt_list st) \<subseteq> dom (mounts (mem st))"
  obtains (none) "vfs_findroot st path = Some None" "\<And>x. x \<in> set (mnt_list st) \<Longrightarrow> mpath (mem st) x = [] \<or> \<not> covers (mpath (mem st) x) path"
  | (found) m where "m \<in> set (mnt_list st)" "covers (mpath (mem st) m) path"
      "vfs_findroot st path = Some (Some (m, dropWhile (\<lambda>c. c = CHR ''/'') (drop (length (mpath (mem st) m)) path)))"
      "\<And>x. x \<in> set (mnt_list st) \<Longrightarrow> covers (mpath (mem st) x) path \<Longrightarrow> length (mpath (mem st) x) \<le> length (mpath (mem st) m)"
proof -
  obtain m len where loop: "findroot_loop st path (mnt_list st) None 0 = Some (m, len)"
    and max: "\<forall>x\<in>set (mnt_list st). count_match path (mpath (mem st) x) \<le> len"
    and which: "(m, len) = (None, 0) \<or> (\<exists>x\<in>set (mnt_list st). m = Some x \<and> len = count_match path (mpath (mem st) x) \<and> 0 < len)"
    using assms by (rule findroot_loop_spec) (auto simp: mpath_def)
  show thesis
  proof (cases m)
    case None
    then show thesis using loop max which by (intro none) (auto simp: vfs_findroot_def count_match_covers split: if_splits)
  next
    case (Some x)
    then have x: "x \<in> set (mnt_list st)" "len = count_match path (mpath (mem st) x)" "0 < len" using which by auto
    then have cov: "covers (mpath (mem st) x) path" "len = length (mpath (mem st) x)"
      by (auto simp: count_match_covers split: if_splits)
    show thesis
    proof (rule found [OF x(1) cov(1)])
      show "vfs_findroot st path = Some (Some (x, dropWhile (\<lambda>c. c = CHR ''/'') (drop (length (mpath (mem st) x)) path)))"
        using loop Some cov(2) by (simp add: vfs_findroot_def)
      show "length (mpath (mem st) y) \<le> length (mpath (mem st) x)" if "y \<in> set (mnt_list st)" "covers (mpath (mem st) y) path" for y
        using max that cov(2) by (cases "mpath (mem st) y = []") (auto simp: count_match_covers)
    qed
  qed
qed

section \<open>Resolution\<close>

definition vfs_mounted :: "'w vfs_t \<Rightarrow> bool" where
  "vfs_mounted st \<longleftrightarrow> (\<forall>m\<in>set (mnt_list st). \<exists>r. mounted (mem st) m r)"

lemma vfs_mounted_dom: "vfs_mounted st \<Longrightarrow> set (mnt_list st) \<subseteq> dom (mounts (mem st))"
  by (auto simp: vfs_mounted_def mounted_def)

context filesystem_env
begin

lemma vfs_node_acquire_spec:
  assumes inv: "cache_inv env wok st \<rho>" and mtd: "vfs_mounted st" and len: "Suc (length path) < VFS_MAX_PATH"
  obtains (nomount) "vfs_findroot st path = Some None" "vfs_node_acquire env st path = Some (st, -1, None)"
  | (walk) m p st' err np where "vfs_findroot st path = Some (Some (m, p))" "m \<in> set (mnt_list st)"
      "vfs_node_acquire env st path = Some (st', err, np)" "acquire_result env wok \<rho> m (path_comps p) st st' err np"
proof (rule vfs_findroot_spec [OF vfs_mounted_dom [OF mtd], of path], goal_cases)
  case 1
  then show thesis by (intro nomount) (simp_all add: vfs_node_acquire_def)
next
  case (2 m)
  define p where "p = dropWhile (\<lambda>c. c = CHR ''/'') (drop (length (mpath (mem st) m)) path)"
  have find: "vfs_findroot st path = Some (Some (m, p))" using 2(5) by (simp add: p_def)
  from mtd 2(3) obtain r where root: "mounted (mem st) m r" by (auto simp: vfs_mounted_def)
  then obtain mt where mt: "mounts (mem st) m = Some mt" "m_root mt = Some r" "node_at (mem st) r m []" "m \<in> dom (mounts (mem st))"
    by (rule mountedE)
  from inv mt(3) obtain st1 where ref: "vfs_node_ref st r = Some st1" and inv1: "cache_inv env wok st1 (\<rho>((m, []) := \<rho> (m, []) + 1))"
    and step1: "node_step st st1 (\<lambda>_. 1)" and "next_ptr st1 = next_ptr st" and at1: "node_at (mem st1) = node_at (mem st)"
    by (rule vfs_node_ref_spec)
  have acq: "vfs_node_acquire env st path = acquire_loop env st1 m p (comps_path []) r"
    using find mt ref by (simp add: vfs_node_acquire_def get_mount_def)
  have "length p \<le> length path"
    using length_dropWhile_le [of "\<lambda>c. c = CHR ''/''" "drop (length (mpath (mem st) m)) path"] by (simp add: p_def)
  then have short: "length (comps_path ([] @ path_comps p)) < VFS_MAX_PATH"
    using length_path_comps [of p] len by simp
  obtain st' err np where "acquire_loop env st1 m p (comps_path []) r = Some (st', err, np)"
    "acquire_result env wok \<rho> m (path_comps p) st1 st' err np"
    using acquire_loop_spec [OF inv1 [folded add_path_nil] _ _ short, of r r] at1 mt(3) mounted_step [OF root step1] by auto
  then show thesis
    using acquire_result_back [OF step1] by (intro walk [OF find 2(3)]) (simp_all add: acq)
qed

end

end
