(* ===== verification/Vfs_Mount.thy ===== *)
theory Vfs_Mount
  imports Vfs_Node
begin

text \<open>
  Mounting and unmounting in \<^verbatim>\<open>src/fs/vfs.c\<close>, and the initial state of the virtual file system.
\<close>

section \<open>Forced unmounting\<close>

text \<open>The scan of \<^verbatim>\<open>mnt_list\<close> for a mount whose covered directory is on \<open>m\<close>.\<close>

fun find_covering :: "'w vfs_t \<Rightarrow> mount_ptr \<Rightarrow> mount_ptr list \<Rightarrow> mount_ptr option option" where
  "find_covering st m [] = Some None"
| "find_covering st m (tm # tms) = do {
     mt \<leftarrow> get_mount st tm;
     case m_covered mt of
       None \<Rightarrow> find_covering st m tms
     | Some c \<Rightarrow> do {
         v \<leftarrow> get_node st c;
         if v_mount v = m then Some (Some tm) else find_covering st m tms
       }
   }"

text \<open>The loop that closes every file of the mount.\<close>

fun close_files :: "'w vfs_t \<Rightarrow> mount_ptr \<Rightarrow> vfs_file_t list \<Rightarrow> vfs_file_t list option" where
  "close_files st m [] = Some []"
| "close_files st m (f # fs) = do {
     f' \<leftarrow> (case f_node f of
              None \<Rightarrow> Some f
            | Some n \<Rightarrow> do {
                v \<leftarrow> get_node st n;
                Some (if v_mount v = m then closed_file else f)
              });
     fs' \<leftarrow> close_files st m fs;
     Some (f' # fs')
   }"

fun find_on_mount :: "'w vfs_t \<Rightarrow> mount_ptr \<Rightarrow> node_ptr list \<Rightarrow> node_ptr option option" where
  "find_on_mount st m [] = Some None"
| "find_on_mount st m (n # ns) = do {
     v \<leftarrow> get_node st n;
     if v_mount v = m then Some (Some n) else find_on_mount st m ns
   }"

lemma find_on_mount_in: "find_on_mount st m ns = Some (Some n) \<Longrightarrow> n \<in> set ns"
  by (induction ns) (auto elim!: option_elims split: if_splits)

lemma call_fs_node_list: "call_fs env st m op = Some (st', r) \<Longrightarrow> node_list st' = node_list st"
  by (auto simp: call_fs_def elim!: option_elims)

text \<open>The loop that drops every node of the mount from bucket \<open>i\<close>; it rescans the bucket after each node.\<close>

function drop_bucket :: "'w vfs_env \<Rightarrow> 'w vfs_t \<Rightarrow> mount_ptr \<Rightarrow> nat \<Rightarrow> 'w vfs_t option" where
  "drop_bucket env st m i =
     (if i \<ge> length (node_list st) then None
      else do {
        found \<leftarrow> find_on_mount st m (node_list st ! i);
        case found of
          None \<Rightarrow> Some st
        | Some n \<Rightarrow> do {
            (st1, _) \<leftarrow> call_fs env (unlink_node st i n) m (\<lambda>fs. fs_vput fs m n);
            drop_bucket env (del_node st1 n) m i
          }
      })"
  by pat_completeness auto
termination
proof (relation "measure (\<lambda>(env, st, m, i). length (node_list st ! i))", goal_cases)
  case 1
  show ?case by simp
next
  case (2 env st m i found n r st1 x)
  have "n \<in> set (node_list st ! i)"
    using 2(2,3) by (auto intro: find_on_mount_in)
  moreover have "node_list st1 = (node_list st)[i := remove1 n (node_list st ! i)]"
    using 2(4,5) by (auto dest!: call_fs_node_list simp: unlink_node_def)
  ultimately show ?case
    using 2(1) length_pos_if_in_set [of n "node_list st ! i"] by (simp add: del_node_def length_remove1)
qed

declare drop_bucket.simps [simp del]

fun drop_buckets :: "'w vfs_env \<Rightarrow> 'w vfs_t \<Rightarrow> mount_ptr \<Rightarrow> nat list \<Rightarrow> 'w vfs_t option" where
  "drop_buckets env st m [] = Some st"
| "drop_buckets env st m (i # is) = do {
     st1 \<leftarrow> drop_bucket env st m i;
     drop_buckets env st1 m is
   }"

text \<open>The outer loop and the recursive call unmount everything that covers a directory of \<open>m\<close>; the loop goes
  round by calling the function again for \<open>m\<close>.\<close>

partial_function (option) vfs_force_unmount :: "'w vfs_env \<Rightarrow> 'w vfs_t \<Rightarrow> mount_ptr \<Rightarrow> 'w vfs_t option" where
  "vfs_force_unmount env st m = do {
     found \<leftarrow> find_covering st m (mnt_list st);
     case found of
       Some tm \<Rightarrow> do {
         st1 \<leftarrow> vfs_force_unmount env st tm;
         vfs_force_unmount env st1 m
       }
     | None \<Rightarrow> do {
         let st1 = st\<lparr>mnt_list := remove1 m (mnt_list st)\<rparr>;
         files \<leftarrow> close_files st1 m (fd_file st1);
         st2 \<leftarrow> drop_buckets env (st1\<lparr>fd_file := files\<rparr>) m [0..<VFS_NODE_HASH_SIZE];
         (st3, _) \<leftarrow> call_fs env st2 m (\<lambda>fs. fs_unmount fs m);
         mt \<leftarrow> get_mount st3 m;
         st4 \<leftarrow> vfs_node_release env st3 (m_covered mt);
         Some (del_mount st4 m)
       }
   }"

section \<open>Mounting\<close>

definition new_mount :: "string \<Rightarrow> string \<Rightarrow> u32 \<Rightarrow> dev_ptr option \<Rightarrow> vfs_mount_t" where
  "new_mount fsname dir flags bdev =
     \<lparr>m_fs = fsname, m_dev = bdev, m_path = dir, m_flags = flags AND MOUNT_MASK, m_refcnt = 0,
      m_root = None, m_covered = None, m_data = 0\<rparr>"

definition set_node :: "'w vfs_t \<Rightarrow> node_ptr \<Rightarrow> (vfs_node_t \<Rightarrow> vfs_node_t) \<Rightarrow> 'w vfs_t option" where
  "set_node st n f = do {
     v \<leftarrow> get_node st n;
     Some (put_node st n (f v))
   }"

definition set_mount :: "'w vfs_t \<Rightarrow> mount_ptr \<Rightarrow> (vfs_mount_t \<Rightarrow> vfs_mount_t) \<Rightarrow> 'w vfs_t option" where
  "set_mount st m f = do {
     mt \<leftarrow> get_mount st m;
     Some (put_mount st m (f mt))
   }"

text \<open>The common end of the failing paths: the covered node is released and the mount freed.\<close>

definition mount_undo :: "'w vfs_env \<Rightarrow> 'w vfs_t \<Rightarrow> mount_ptr \<Rightarrow> int \<Rightarrow> ('w vfs_t \<times> int) option" where
  "mount_undo env st m ret = do {
     mt \<leftarrow> get_mount st m;
     st1 \<leftarrow> vfs_node_release env st (m_covered mt);
     Some (del_mount st1 m, ret)
   }"

fun mounted_already :: "'w vfs_t \<Rightarrow> string \<Rightarrow> bool \<Rightarrow> dev_ptr option \<Rightarrow> mount_ptr list \<Rightarrow> bool option" where
  "mounted_already st dir has_dev bdev [] = Some False"
| "mounted_already st dir has_dev bdev (tm # tms) = do {
     mt \<leftarrow> get_mount st tm;
     if m_path mt = dir \<or> (has_dev \<and> m_dev mt = bdev) then Some True
     else mounted_already st dir has_dev bdev tms
   }"

text \<open>The covered directory: none for the root mount, else the directory at \<open>dir\<close>. The result is \<open>Inl\<close> when the
  mount fails.\<close>

definition mount_covered :: "'w vfs_env \<Rightarrow> 'w vfs_t \<Rightarrow> string \<Rightarrow> ('w vfs_t \<times> (int + node_ptr option)) option" where
  "mount_covered env st dir =
     (if dir = ''/'' then Some (st, Inr None)
      else do {
        (st1, err, np) \<leftarrow> vfs_node_acquire env st dir;
        if err \<noteq> 0 then Some (st1, Inl (-1))
        else do {
          n \<leftarrow> np;
          v \<leftarrow> get_node st1 n;
          if v_type v \<noteq> VNT_DIR
          then do {
            st2 \<leftarrow> vfs_node_release env st1 (Some n);
            Some (st2, Inl (-1))
          }
          else Some (st1, Inr (Some n))
        }
      })"

text \<open>The second half of \<^verbatim>\<open>vfs_mount\<close>, from the creation of the root node on.\<close>

definition mount_root :: "'w vfs_env \<Rightarrow> 'w vfs_t \<Rightarrow> mount_ptr \<Rightarrow> string \<Rightarrow> string option \<Rightarrow> dev_ptr option
    \<Rightarrow> ('w vfs_t \<times> int) option" where
  "mount_root env st m dir dev bdev = do {
     (st1, got) \<leftarrow> vfs_node_get env st m ''/'';
     case got of
       None \<Rightarrow> mount_undo env st1 m (-1)
     | Some n \<Rightarrow> do {
         st2 \<leftarrow> set_node st1 n (\<lambda>v. v\<lparr>v_type := VNT_DIR, v_flags := VNF_ROOT,
                   v_mode := S_IFDIR OR S_IRWXU OR S_IRWXG OR S_IRWXO\<rparr>);
         st3 \<leftarrow> set_mount st2 m (\<lambda>mt. mt\<lparr>m_root := Some n\<rparr>);
         (st4, err) \<leftarrow> call_fs env st3 m (\<lambda>fs. fs_mount fs m dev);
         mt \<leftarrow> get_mount st4 m;
         if err \<noteq> 0
         then do {
           st5 \<leftarrow> vfs_node_release env st4 (m_root mt);
           mount_undo env st5 m err
         }
         else do {
           st5 \<leftarrow> (if m_flags mt AND MOUNT_RO \<noteq> 0
                    then do {
                      root \<leftarrow> m_root mt;
                      set_node st4 root (\<lambda>v. v\<lparr>v_mode := v_mode v AND NOT S_IWANY\<rparr>)
                    }
                    else Some st4);
           dup \<leftarrow> mounted_already st5 dir (dev \<noteq> None) bdev (mnt_list st5);
           if dup
           then do {
             (st6, _) \<leftarrow> call_fs env st5 m (\<lambda>fs. fs_unmount fs m);
             mt' \<leftarrow> get_mount st6 m;
             st7 \<leftarrow> vfs_node_release env st6 (m_root mt');
             mount_undo env st7 m (-1)
           }
           else Some (st5\<lparr>mnt_list := m # mnt_list st5\<rparr>, 0)
         }
       }
   }"

definition vfs_mount :: "'w vfs_env \<Rightarrow> 'w vfs_t \<Rightarrow> string option \<Rightarrow> string option \<Rightarrow> string option \<Rightarrow> u32
    \<Rightarrow> ('w vfs_t \<times> int) option" where
  "vfs_mount env st dev dir fsname flags =
     (let bdev = (case dev of None \<Rightarrow> None | Some s \<Rightarrow> block_devices env s) in
      if dir = None \<or> dir = Some [] then Some (st, -1)
      else if search_filesystem env fsname = None then Some (st, -1)
      else if dev \<noteq> None \<and> bdev = None then Some (st, -1)
      else (case vfs_calloc st of
        (st1, None) \<Rightarrow> Some (st1, -1)
      | (st1, Some m) \<Rightarrow> do {
          d \<leftarrow> dir;
          name \<leftarrow> fsname;
          let st2 = put_mount st1 m (new_mount name d flags bdev);
          if length d \<ge> VFS_MAX_PATH then Some (del_mount st2 m, -1)
          else do {
            (st3, covered) \<leftarrow> mount_covered env st2 d;
            case covered of
              Inl ret \<Rightarrow> Some (del_mount st3 m, ret)
            | Inr n_covered \<Rightarrow> do {
                st4 \<leftarrow> set_mount st3 m (\<lambda>mt. mt\<lparr>m_covered := n_covered\<rparr>);
                mount_root env st4 m d dev bdev
              }
          }
        }))"

fun find_mount_at :: "'w vfs_t \<Rightarrow> string \<Rightarrow> mount_ptr list \<Rightarrow> mount_ptr option option" where
  "find_mount_at st path [] = Some None"
| "find_mount_at st path (m # ms) = do {
     mt \<leftarrow> get_mount st m;
     if path = m_path mt then Some (Some m) else find_mount_at st path ms
   }"

definition vfs_unmount :: "'w vfs_env \<Rightarrow> 'w vfs_t \<Rightarrow> string \<Rightarrow> ('w vfs_t \<times> int) option" where
  "vfs_unmount env st path = do {
     found \<leftarrow> find_mount_at st path (mnt_list st);
     case found of
       None \<Rightarrow> Some (st, -1)
     | Some m \<Rightarrow> do {
         mt \<leftarrow> get_mount st m;
         if m_refcnt mt > 1 then Some (st, -1)
         else do {
           let st1 = st\<lparr>mnt_list := remove1 m (mnt_list st)\<rparr>;
           (st2, err) \<leftarrow> call_fs env st1 m (\<lambda>fs. fs_msync fs m);
           (st3, _) \<leftarrow> call_fs env st2 m (\<lambda>fs. fs_unmount fs m);
           mt3 \<leftarrow> get_mount st3 m;
           st4 \<leftarrow> vfs_node_release env st3 (m_root mt3);
           mt4 \<leftarrow> get_mount st4 m;
           st5 \<leftarrow> vfs_node_release env st4 (m_covered mt4);
           mt5 \<leftarrow> get_mount st5 m;
           let st6 = (case m_dev mt5 of
                        None \<Rightarrow> st5
                      | Some d \<Rightarrow> st5\<lparr>mem := (mem st5)\<lparr>world := env_block_sync env d (world (mem st5))\<rparr>\<rparr>);
           Some (del_mount st6 m, err)
         }
       }
   }"

fun sync_loop :: "'w vfs_env \<Rightarrow> 'w vfs_t \<Rightarrow> mount_ptr list \<Rightarrow> 'w vfs_t option" where
  "sync_loop env st [] = Some st"
| "sync_loop env st (m # ms) = do {
     (st1, _) \<leftarrow> call_fs env st m (\<lambda>fs. fs_msync fs m);
     sync_loop env st1 ms
   }"

definition vfs_sync :: "'w vfs_env \<Rightarrow> 'w vfs_t \<Rightarrow> ('w vfs_t \<times> int) option" where
  "vfs_sync env st = do {
     st1 \<leftarrow> sync_loop env st (mnt_list st);
     Some (st1, 0)
   }"

definition vfs_mount_get :: "'w vfs_t \<Rightarrow> int \<Rightarrow> mount_ptr option" where
  "vfs_mount_get st index =
     (if index < 0 then None
      else case drop (nat index) (mnt_list st) of [] \<Rightarrow> None | m # _ \<Rightarrow> Some m)"

definition vfs_mount_count :: "'w vfs_t \<Rightarrow> nat" where
  "vfs_mount_count st = length (mnt_list st)"

section \<open>Initial state\<close>

definition do_vfs_init :: "'w vfs_t \<Rightarrow> 'w vfs_t" where
  "do_vfs_init st =
     st\<lparr>mnt_list := [],
        fd_file := replicate VFS_MAX_FD closed_file,
        node_list := replicate VFS_NODE_HASH_SIZE []\<rparr>"

end
