(* ===== verification/Vfs_File.thy ===== *)
theory Vfs_File
  imports Vfs_Mount
begin

text \<open>
  The operations on files and directories of \<^verbatim>\<open>src/fs/vfs.c\<close>, from \<^verbatim>\<open>vfs_open\<close> to
  \<^verbatim>\<open>vfs_stat\<close>. A pointer argument that the code compares with \<^verbatim>\<open>NULL\<close> is an option or, for
  buffers, an address; the data an operation stores through such a pointer is part of its result.
\<close>

section \<open>Shared steps\<close>

text \<open>\<^verbatim>\<open>n->v_mount->m_fs->op(n, ...)\<close>.\<close>

definition call_node_fs :: "'w vfs_env \<Rightarrow> 'w vfs_t \<Rightarrow> node_ptr \<Rightarrow> ('w filesystem_t \<Rightarrow> ('w, 'r) fs_op) \<Rightarrow> ('w vfs_t \<times> 'r) option" where
  "call_node_fs env st n op = do {
     v \<leftarrow> get_node st n;
     call_fs env st (v_mount v) op
   }"

text \<open>The slot and the node of an open file descriptor.\<close>

definition open_node :: "'w vfs_t \<Rightarrow> int \<Rightarrow> (nat \<times> node_ptr) option" where
  "open_node st fd =
     (case vfs_fd_to_file fd of
        None \<Rightarrow> None
      | Some i \<Rightarrow> (case f_node (fd_file st ! i) of None \<Rightarrow> None | Some n \<Rightarrow> Some (i, n)))"

definition set_file :: "'w vfs_t \<Rightarrow> nat \<Rightarrow> (vfs_file_t \<Rightarrow> vfs_file_t) \<Rightarrow> 'w vfs_t" where
  "set_file st i g = st\<lparr>fd_file := (fd_file st)[i := g (fd_file st ! i)]\<rparr>"

text \<open>The end of many operations: the node is released and the error code returned.\<close>

definition release_ret :: "'w vfs_env \<Rightarrow> 'w vfs_t \<Rightarrow> node_ptr \<Rightarrow> int \<Rightarrow> ('w vfs_t \<times> int) option" where
  "release_ret env st n ret = do {
     st' \<leftarrow> vfs_node_release env st (Some n);
     Some (st', ret)
   }"

text \<open>The signed addition \<^verbatim>\<open>a + b\<close> of two \<^verbatim>\<open>s64_t\<close>.\<close>

definition s64_add :: "s64 \<Rightarrow> s64 \<Rightarrow> s64 option" where
  "s64_add a b =
     (if - (2 ^ 63) \<le> sint a + sint b \<and> sint a + sint b < 2 ^ 63 then Some (a + b) else None)"

section \<open>Opening and closing\<close>

definition vfs_lookup_dir :: "'w vfs_env \<Rightarrow> 'w vfs_t \<Rightarrow> string \<Rightarrow> ('w vfs_t \<times> int \<times> (node_ptr \<times> string) option) option" where
  "vfs_lookup_dir env st path =
     (if length path \<ge> VFS_MAX_PATH then Some (st, -1, None)
      else case last_slash path of
        None \<Rightarrow> Some (st, -1, None)
      | Some i \<Rightarrow> do {
          (st1, err, np) \<leftarrow> vfs_node_acquire env st (if i = 0 then ''/'' else take i path);
          if err \<noteq> 0 then Some (st1, err, None)
          else do {
            n \<leftarrow> np;
            v \<leftarrow> get_node st1 n;
            if v_type v \<noteq> VNT_DIR
            then do {
              st2 \<leftarrow> vfs_node_release env st1 (Some n);
              Some (st2, -1, None)
            }
            else Some (st1, 0, Some (n, drop (Suc i) path))
          }
        })"

text \<open>The path of \<^verbatim>\<open>vfs_open\<close> with \<^verbatim>\<open>O_CREAT\<close>, when the file is not there: the file is
  created in its directory and looked up again.\<close>

definition open_create :: "'w vfs_env \<Rightarrow> 'w vfs_t \<Rightarrow> string \<Rightarrow> u32 \<Rightarrow> ('w vfs_t \<times> int \<times> node_ptr option) option" where
  "open_create env st path mode = do {
     (st1, err, r) \<leftarrow> vfs_lookup_dir env st path;
     if err \<noteq> 0 then Some (st1, err, None)
     else do {
       (dn, filename) \<leftarrow> r;
       err \<leftarrow> vfs_node_access st1 dn W_OK;
       if err \<noteq> 0
       then do {
         (st2, ret) \<leftarrow> release_ret env st1 dn err;
         Some (st2, ret, None)
       }
       else do {
         let mode' = (mode AND NOT S_IFMT) OR S_IFREG;
         (st2, err) \<leftarrow> call_node_fs env st1 dn (\<lambda>fs. fs_create fs dn filename mode');
         (st3, err) \<leftarrow> (if err = 0 then call_node_fs env st2 dn (\<lambda>fs. fs_sync fs dn) else Some (st2, err));
         st4 \<leftarrow> vfs_node_release env st3 (Some dn);
         if err \<noteq> 0 then Some (st4, err, None)
         else vfs_node_acquire env st4 path
       }
     }
   }"

text \<open>The first part of \<^verbatim>\<open>vfs_open\<close>: the node and the flags the file is opened with, or an error code.\<close>

definition open_node_flags :: "'w vfs_env \<Rightarrow> 'w vfs_t \<Rightarrow> string \<Rightarrow> u32 \<Rightarrow> u32 \<Rightarrow> ('w vfs_t \<times> (int + node_ptr \<times> u32)) option" where
  "open_node_flags env st path flags mode = do {
     (st1, err, np) \<leftarrow> vfs_node_acquire env st path;
     if flags AND O_CREAT \<noteq> 0
     then
       if err \<noteq> 0
       then do {
         (st2, err, np) \<leftarrow> open_create env st1 path mode;
         if err \<noteq> 0 then Some (st2, Inl err)
         else do {
           n \<leftarrow> np;
           Some (st2, Inr (n, flags AND NOT O_TRUNC))
         }
       }
       else do {
         n \<leftarrow> np;
         if flags AND O_EXCL \<noteq> 0
         then do {
           (st2, ret) \<leftarrow> release_ret env st1 n (-1);
           Some (st2, Inl ret)
         }
         else Some (st1, Inr (n, flags AND NOT O_CREAT))
       }
     else
       if err \<noteq> 0 then Some (st1, Inl err)
       else do {
         n \<leftarrow> np;
         v \<leftarrow> get_node st1 n;
         if flags AND O_WRONLY \<noteq> 0 \<or> flags AND O_TRUNC \<noteq> 0
         then do {
           err \<leftarrow> vfs_node_access st1 n W_OK;
           if err \<noteq> 0
           then do {
             (st2, ret) \<leftarrow> release_ret env st1 n err;
             Some (st2, Inl ret)
           }
           else if v_type v = VNT_DIR
           then do {
             (st2, ret) \<leftarrow> release_ret env st1 n (-1);
             Some (st2, Inl ret)
           }
           else Some (st1, Inr (n, flags))
         }
         else Some (st1, Inr (n, flags))
       }
   }"

text \<open>The end of \<^verbatim>\<open>vfs_open\<close>: the file gets a descriptor.\<close>

definition open_fd :: "'w vfs_env \<Rightarrow> 'w vfs_t \<Rightarrow> node_ptr \<Rightarrow> u32 \<Rightarrow> ('w vfs_t \<times> int) option" where
  "open_fd env st n flags =
     (let fd = vfs_fd_alloc st in
      if fd < 0 then release_ret env st n (-1)
      else Some (set_file st (nat fd) (\<lambda>f. f\<lparr>f_node := Some n, f_offset := 0, f_flags := flags\<rparr>), fd))"

definition vfs_open :: "'w vfs_env \<Rightarrow> 'w vfs_t \<Rightarrow> string option \<Rightarrow> u32 \<Rightarrow> u32 \<Rightarrow> ('w vfs_t \<times> int) option" where
  "vfs_open env st path flags mode =
     (case path of
        None \<Rightarrow> Some (st, -1)
      | Some p \<Rightarrow>
          if flags AND O_ACCMODE = 0 then Some (st, -1)
          else do {
            (st1, r) \<leftarrow> open_node_flags env st p flags mode;
            case r of
              Inl err \<Rightarrow> Some (st1, err)
            | Inr (n, flags') \<Rightarrow>
                if flags' AND O_TRUNC \<noteq> 0
                then do {
                  v \<leftarrow> get_node st1 n;
                  if flags' AND O_WRONLY = 0 \<or> v_type v = VNT_DIR then release_ret env st1 n (-1)
                  else do {
                    (st2, err) \<leftarrow> call_node_fs env st1 n (\<lambda>fs. fs_truncate fs n 0);
                    if err \<noteq> 0 then release_ret env st2 n err
                    else open_fd env st2 n flags'
                  }
                }
                else open_fd env st1 n flags'
          })"

definition vfs_close :: "'w vfs_env \<Rightarrow> 'w vfs_t \<Rightarrow> int \<Rightarrow> ('w vfs_t \<times> int) option" where
  "vfs_close env st fd =
     (case open_node st fd of
        None \<Rightarrow> Some (st, -1)
      | Some (i, n) \<Rightarrow> do {
          (st1, err) \<leftarrow> call_node_fs env st n (\<lambda>fs. fs_sync fs n);
          if err \<noteq> 0 then Some (st1, err)
          else do {
            st2 \<leftarrow> vfs_node_release env st1 (Some n);
            Some (vfs_fd_free st2 fd, 0)
          }
        })"

section \<open>Reading, writing and seeking\<close>

definition vfs_read :: "'w vfs_env \<Rightarrow> 'w vfs_t \<Rightarrow> int \<Rightarrow> u64 \<Rightarrow> u64 \<Rightarrow> ('w vfs_t \<times> u8 list \<times> u64) option" where
  "vfs_read env st fd buf len =
     (if buf = 0 \<or> len = 0 then Some (st, [], 0)
      else case open_node st fd of
        None \<Rightarrow> Some (st, [], 0)
      | Some (i, n) \<Rightarrow> do {
          v \<leftarrow> get_node st n;
          let f = fd_file st ! i;
          if v_type v \<noteq> VNT_REG then Some (st, [], 0)
          else if f_flags f AND O_RDONLY = 0 then Some (st, [], 0)
          else do {
            (st1, bytes, ret) \<leftarrow> call_node_fs env st n (\<lambda>fs. fs_read fs n (f_offset f) len);
            Some (set_file st1 i (\<lambda>f. f\<lparr>f_offset := f_offset f + ret\<rparr>), bytes, ret)
          }
        })"

definition vfs_write :: "'w vfs_env \<Rightarrow> 'w vfs_t \<Rightarrow> int \<Rightarrow> u64 \<Rightarrow> u8 list \<Rightarrow> u64 \<Rightarrow> ('w vfs_t \<times> u64) option" where
  "vfs_write env st fd buf bytes len =
     (if buf = 0 \<or> len = 0 then Some (st, 0)
      else case open_node st fd of
        None \<Rightarrow> Some (st, 0)
      | Some (i, n) \<Rightarrow> do {
          v \<leftarrow> get_node st n;
          let f = fd_file st ! i;
          if v_type v \<noteq> VNT_REG then Some (st, 0)
          else if f_flags f AND O_WRONLY = 0 then Some (st, 0)
          else do {
            (st1, ret) \<leftarrow> call_node_fs env st n (\<lambda>fs. fs_write fs n (f_offset f) bytes len);
            Some (set_file st1 i (\<lambda>f. f\<lparr>f_offset := f_offset f + ret\<rparr>), ret)
          }
        })"

datatype seek_result = Seek_To s64 | Seek_Bad_Whence

text \<open>The \<^verbatim>\<open>switch\<close> of \<^verbatim>\<open>vfs_lseek\<close>: 0, 1 and 2 are \<^verbatim>\<open>VFS_SEEK_SET\<close>,
  \<^verbatim>\<open>VFS_SEEK_CUR\<close> and \<^verbatim>\<open>VFS_SEEK_END\<close>.\<close>

definition seek_target :: "s64 \<Rightarrow> s64 \<Rightarrow> s64 \<Rightarrow> int \<Rightarrow> seek_result option" where
  "seek_target vsize pos off whence =
     (if whence = 0 then
        Some (Seek_To (if sint off < 0 then 0 else if sint off > sint vsize then vsize else off))
      else if whence = 1 then do {
        s \<leftarrow> s64_add pos off;
        Some (Seek_To (if sint s > sint vsize then vsize else if sint s < 0 then 0 else s))
      }
      else if whence = 2 then
        (if sint off > 0 then Some (Seek_To vsize)
         else do {
           s \<leftarrow> s64_add vsize off;
           Some (Seek_To (if sint s < 0 then 0 else s))
         })
      else Some Seek_Bad_Whence)"

definition vfs_lseek :: "'w vfs_t \<Rightarrow> int \<Rightarrow> s64 \<Rightarrow> int \<Rightarrow> ('w vfs_t \<times> s64) option" where
  "vfs_lseek st fd off whence =
     (case open_node st fd of
        None \<Rightarrow> Some (st, 0)
      | Some (i, n) \<Rightarrow> do {
          v \<leftarrow> get_node st n;
          let f = fd_file st ! i;
          r \<leftarrow> seek_target (v_size v) (f_offset f) off whence;
          case r of
            Seek_Bad_Whence \<Rightarrow> Some (st, f_offset f)
          | Seek_To off' \<Rightarrow>
              if sint off' \<le> sint (v_size v)
              then Some (set_file st i (\<lambda>f. f\<lparr>f_offset := off'\<rparr>), off')
              else Some (st, f_offset f)
        })"

definition vfs_fsync :: "'w vfs_env \<Rightarrow> 'w vfs_t \<Rightarrow> int \<Rightarrow> ('w vfs_t \<times> int) option" where
  "vfs_fsync env st fd =
     (case open_node st fd of
        None \<Rightarrow> Some (st, -1)
      | Some (i, n) \<Rightarrow>
          if f_flags (fd_file st ! i) AND O_WRONLY = 0 then Some (st, -1)
          else call_node_fs env st n (\<lambda>fs. fs_sync fs n))"

definition vfs_fchmod :: "'w vfs_env \<Rightarrow> 'w vfs_t \<Rightarrow> int \<Rightarrow> u32 \<Rightarrow> ('w vfs_t \<times> int) option" where
  "vfs_fchmod env st fd mode =
     (case open_node st fd of
        None \<Rightarrow> Some (st, -1)
      | Some (i, n) \<Rightarrow>
          call_node_fs env st n (\<lambda>fs. fs_chmod fs n (mode AND (S_IRWXU OR S_IRWXG OR S_IRWXO))))"

definition vfs_fstat :: "'w vfs_t \<Rightarrow> int \<Rightarrow> u64 \<Rightarrow> (vfs_stat_t option \<times> int) option" where
  "vfs_fstat st fd buf =
     (if buf = 0 then Some (None, -1)
      else case open_node st fd of
        None \<Rightarrow> Some (None, -1)
      | Some (i, n) \<Rightarrow> do {
          (s, err) \<leftarrow> vfs_node_stat st n;
          Some (Some s, err)
        })"

section \<open>Directories\<close>

definition vfs_opendir :: "'w vfs_env \<Rightarrow> 'w vfs_t \<Rightarrow> string option \<Rightarrow> ('w vfs_t \<times> int) option" where
  "vfs_opendir env st name =
     (if name = None then Some (st, -1)
      else do {
        (st1, fd) \<leftarrow> vfs_open env st name O_RDONLY 0;
        if fd < 0 then Some (st1, fd)
        else case open_node st1 fd of
          None \<Rightarrow> Some (st1, -1)
        | Some (i, n) \<Rightarrow> do {
            v \<leftarrow> get_node st1 n;
            if v_type v \<noteq> VNT_DIR
            then do {
              (st2, _) \<leftarrow> vfs_close env st1 fd;
              Some (st2, -1)
            }
            else Some (st1, fd)
          }
      })"

definition vfs_closedir :: "'w vfs_env \<Rightarrow> 'w vfs_t \<Rightarrow> int \<Rightarrow> ('w vfs_t \<times> int) option" where
  "vfs_closedir env st fd =
     (case open_node st fd of
        None \<Rightarrow> Some (st, -1)
      | Some (i, n) \<Rightarrow> do {
          v \<leftarrow> get_node st n;
          if v_type v \<noteq> VNT_DIR then Some (st, -1) else vfs_close env st fd
        })"

definition vfs_readdir :: "'w vfs_env \<Rightarrow> 'w vfs_t \<Rightarrow> int \<Rightarrow> ('w vfs_t \<times> vfs_dirent_t option \<times> int) option" where
  "vfs_readdir env st fd =
     (case open_node st fd of
        None \<Rightarrow> Some (st, None, -1)
      | Some (i, n) \<Rightarrow> do {
          v \<leftarrow> get_node st n;
          if v_type v \<noteq> VNT_DIR then Some (st, None, -1)
          else do {
            (st1, dir, err) \<leftarrow> call_node_fs env st n (\<lambda>fs. fs_readdir fs n (f_offset (fd_file st ! i)));
            if err = 0
            then Some (set_file st1 i (\<lambda>f. f\<lparr>f_offset := f_offset f + ucast (d_reclen dir)\<rparr>), Some dir, err)
            else Some (st1, Some dir, err)
          }
        })"

definition vfs_rewinddir :: "'w vfs_t \<Rightarrow> int \<Rightarrow> ('w vfs_t \<times> int) option" where
  "vfs_rewinddir st fd =
     (case open_node st fd of
        None \<Rightarrow> Some (st, -1)
      | Some (i, n) \<Rightarrow> do {
          v \<leftarrow> get_node st n;
          if v_type v \<noteq> VNT_DIR then Some (st, -1)
          else Some (set_file st i (\<lambda>f. f\<lparr>f_offset := 0\<rparr>), 0)
        })"

definition vfs_mkdir :: "'w vfs_env \<Rightarrow> 'w vfs_t \<Rightarrow> string option \<Rightarrow> u32 \<Rightarrow> ('w vfs_t \<times> int) option" where
  "vfs_mkdir env st path mode =
     (case path of
        None \<Rightarrow> Some (st, -1)
      | Some p \<Rightarrow> do {
          (st1, err, np) \<leftarrow> vfs_node_acquire env st p;
          if err = 0
          then do {
            n \<leftarrow> np;
            release_ret env st1 n (-1)
          }
          else do {
            (st2, err, r) \<leftarrow> vfs_lookup_dir env st1 p;
            if err \<noteq> 0 then Some (st2, err)
            else do {
              (dn, name) \<leftarrow> r;
              err \<leftarrow> vfs_node_access st2 dn W_OK;
              if err \<noteq> 0 then release_ret env st2 dn err
              else do {
                let mode' = (mode AND NOT S_IFMT) OR S_IFDIR;
                (st3, err) \<leftarrow> call_node_fs env st2 dn (\<lambda>fs. fs_mkdir fs dn name mode');
                (st4, err) \<leftarrow> (if err \<noteq> 0 then Some (st3, err)
                               else call_node_fs env st3 dn (\<lambda>fs. fs_sync fs dn));
                release_ret env st4 dn err
              }
            }
          }
        })"

text \<open>The loop of \<^verbatim>\<open>vfs_check_dir_empty\<close> ends when the file system reports an error, as it does at the
  end of a directory, or at the first entry other than \<^verbatim>\<open>.\<close> and \<^verbatim>\<open>..\<close>.\<close>

partial_function (option) dir_empty_loop :: "'w vfs_env \<Rightarrow> 'w vfs_t \<Rightarrow> int \<Rightarrow> ('w vfs_t \<times> nat) option" where
  "dir_empty_loop env st fd = do {
     (st1, dir, err) \<leftarrow> vfs_readdir env st fd;
     if err \<noteq> 0 then Some (st1, 0)
     else do {
       d \<leftarrow> dir;
       if d_name d \<noteq> ''.'' \<and> d_name d \<noteq> ''..'' then Some (st1, 1)
       else dir_empty_loop env st1 fd
     }
   }"

definition vfs_check_dir_empty :: "'w vfs_env \<Rightarrow> 'w vfs_t \<Rightarrow> string \<Rightarrow> ('w vfs_t \<times> int) option" where
  "vfs_check_dir_empty env st path = do {
     (st1, fd) \<leftarrow> vfs_opendir env st (Some path);
     if fd < 0 then Some (st1, fd)
     else do {
       (st2, count) \<leftarrow> dir_empty_loop env st1 fd;
       (st3, _) \<leftarrow> vfs_closedir env st2 fd;
       Some (st3, if count \<noteq> 0 then -1 else 0)
     }
   }"

definition vfs_rmdir :: "'w vfs_env \<Rightarrow> 'w vfs_t \<Rightarrow> string option \<Rightarrow> ('w vfs_t \<times> int) option" where
  "vfs_rmdir env st path =
     (case path of
        None \<Rightarrow> Some (st, -1)
      | Some p \<Rightarrow> do {
          (st1, err) \<leftarrow> vfs_check_dir_empty env st p;
          if err \<noteq> 0 then Some (st1, err)
          else do {
            (st2, err, np) \<leftarrow> vfs_node_acquire env st1 p;
            if err \<noteq> 0 then Some (st2, err)
            else do {
              n \<leftarrow> np;
              v \<leftarrow> get_node st2 n;
              access \<leftarrow> vfs_node_access st2 n W_OK;
              if v_flags v = VNF_ROOT \<or> v_refcnt v \<ge> 2 then release_ret env st2 n (-1)
              else if access \<noteq> 0 then release_ret env st2 n access
              else do {
                (st3, err, r) \<leftarrow> vfs_lookup_dir env st2 p;
                if err \<noteq> 0 then release_ret env st3 n err
                else do {
                  (dn, name) \<leftarrow> r;
                  (st4, err) \<leftarrow> call_node_fs env st3 dn (\<lambda>fs. fs_rmdir fs dn n name);
                  (st5, err) \<leftarrow> (if err \<noteq> 0 then Some (st4, err) else call_node_fs env st4 n (\<lambda>fs. fs_sync fs n));
                  (st6, err) \<leftarrow> (if err \<noteq> 0 then Some (st5, err) else call_node_fs env st5 dn (\<lambda>fs. fs_sync fs dn));
                  st7 \<leftarrow> vfs_node_release env st6 (Some n);
                  release_ret env st7 dn err
                }
              }
            }
          }
        })"

section \<open>Renaming, removing and attributes\<close>

text \<open>\<^verbatim>\<open>vfs_rename\<close> between the labels \<^verbatim>\<open>fail4\<close> and \<^verbatim>\<open>fail3\<close>.\<close>

definition rename_nodes :: "'w vfs_env \<Rightarrow> 'w vfs_t \<Rightarrow> node_ptr \<Rightarrow> string \<Rightarrow> node_ptr \<Rightarrow> node_ptr \<Rightarrow> string \<Rightarrow> ('w vfs_t \<times> int) option" where
  "rename_nodes env st sn sname n1 dn dname = do {
     (st1, err) \<leftarrow> call_node_fs env st sn (\<lambda>fs. fs_rename fs sn sname n1 dn dname);
     if err \<noteq> 0 then Some (st1, err)
     else do {
       (st2, err) \<leftarrow> call_node_fs env st1 sn (\<lambda>fs. fs_sync fs sn);
       if err \<noteq> 0 \<or> dn = sn then Some (st2, err)
       else call_node_fs env st2 dn (\<lambda>fs. fs_sync fs dn)
     }
   }"

text \<open>From the acquisition of the destination on, with the source directory held.\<close>

definition rename_to :: "'w vfs_env \<Rightarrow> 'w vfs_t \<Rightarrow> string \<Rightarrow> node_ptr \<Rightarrow> string \<Rightarrow> node_ptr \<Rightarrow> ('w vfs_t \<times> int) option" where
  "rename_to env st dst sn sname n1 = do {
     (st1, err, np2) \<leftarrow> vfs_node_acquire env st dst;
     if err = 0
     then do {
       n2 \<leftarrow> np2;
       release_ret env st1 n2 (-1)
     }
     else do {
       (st2, err, r) \<leftarrow> vfs_lookup_dir env st1 dst;
       if err \<noteq> 0 then Some (st2, err)
       else do {
         (dn, dname) \<leftarrow> r;
         sv \<leftarrow> get_node st2 sn;
         dv \<leftarrow> get_node st2 dn;
         if v_mount sv \<noteq> v_mount dv then release_ret env st2 dn (-1)
         else do {
           (st3, err) \<leftarrow> rename_nodes env st2 sn sname n1 dn dname;
           release_ret env st3 dn err
         }
       }
     }
   }"

definition vfs_rename :: "'w vfs_env \<Rightarrow> 'w vfs_t \<Rightarrow> string \<Rightarrow> string \<Rightarrow> ('w vfs_t \<times> int) option" where
  "vfs_rename env st src dst =
     (let len = length src in
      if same_path src dst then Some (st, -1)
      else if src = ''/'' then Some (st, -1)
      else if len < length dst \<and> take len src = take len dst \<and> dst ! len = CHR ''/'' then Some (st, -1)
      else do {
        (st1, err, np) \<leftarrow> vfs_node_acquire env st src;
        if err \<noteq> 0 then Some (st1, err)
        else do {
          n1 \<leftarrow> np;
          err \<leftarrow> vfs_node_access st1 n1 W_OK;
          v1 \<leftarrow> get_node st1 n1;
          if err \<noteq> 0 then release_ret env st1 n1 err
          else if v_refcnt v1 \<ge> 2 then release_ret env st1 n1 (-1)
          else do {
            (st2, err, r) \<leftarrow> vfs_lookup_dir env st1 src;
            if err \<noteq> 0 then release_ret env st2 n1 err
            else do {
              (sn, sname) \<leftarrow> r;
              (st3, err) \<leftarrow> rename_to env st2 dst sn sname n1;
              st4 \<leftarrow> vfs_node_release env st3 (Some sn);
              release_ret env st4 n1 err
            }
          }
        }
      })"

text \<open>\<^verbatim>\<open>vfs_unlink\<close> up to the label \<^verbatim>\<open>fail1\<close>.\<close>

definition unlink_nodes :: "'w vfs_env \<Rightarrow> 'w vfs_t \<Rightarrow> node_ptr \<Rightarrow> node_ptr \<Rightarrow> string \<Rightarrow> ('w vfs_t \<times> int) option" where
  "unlink_nodes env st dn n name = do {
     (st1, err) \<leftarrow> call_node_fs env st n (\<lambda>fs. fs_truncate fs n 0);
     (st2, err) \<leftarrow> (if err \<noteq> 0 then Some (st1, err) else call_node_fs env st1 n (\<lambda>fs. fs_sync fs n));
     (st3, err) \<leftarrow> (if err \<noteq> 0 then Some (st2, err) else call_node_fs env st2 dn (\<lambda>fs. fs_remove fs dn n name));
     if err \<noteq> 0 then Some (st3, err) else call_node_fs env st3 dn (\<lambda>fs. fs_sync fs dn)
   }"

definition vfs_unlink :: "'w vfs_env \<Rightarrow> 'w vfs_t \<Rightarrow> string option \<Rightarrow> ('w vfs_t \<times> int) option" where
  "vfs_unlink env st path =
     (case path of
        None \<Rightarrow> Some (st, -1)
      | Some p \<Rightarrow> do {
          (st1, err, np) \<leftarrow> vfs_node_acquire env st p;
          if err \<noteq> 0 then Some (st1, err)
          else do {
            n \<leftarrow> np;
            v \<leftarrow> get_node st1 n;
            access \<leftarrow> vfs_node_access st1 n W_OK;
            if v_type v = VNT_DIR then release_ret env st1 n (-1)
            else if v_flags v = VNF_ROOT \<or> v_refcnt v \<ge> 2 then release_ret env st1 n (-1)
            else if access \<noteq> 0 then release_ret env st1 n access
            else do {
              (st2, err, r) \<leftarrow> vfs_lookup_dir env st1 p;
              if err \<noteq> 0 then release_ret env st2 n err
              else do {
                (dn, name) \<leftarrow> r;
                (st3, err) \<leftarrow> unlink_nodes env st2 dn n name;
                st4 \<leftarrow> vfs_node_release env st3 (Some dn);
                release_ret env st4 n err
              }
            }
          }
        })"

definition vfs_access :: "'w vfs_env \<Rightarrow> 'w vfs_t \<Rightarrow> string option \<Rightarrow> u32 \<Rightarrow> ('w vfs_t \<times> int) option" where
  "vfs_access env st path mode =
     (case path of
        None \<Rightarrow> Some (st, -1)
      | Some p \<Rightarrow> do {
          (st1, err, np) \<leftarrow> vfs_node_acquire env st p;
          if err \<noteq> 0 then Some (st1, err)
          else do {
            n \<leftarrow> np;
            err \<leftarrow> vfs_node_access st1 n mode;
            release_ret env st1 n err
          }
        })"

definition vfs_chmod :: "'w vfs_env \<Rightarrow> 'w vfs_t \<Rightarrow> string option \<Rightarrow> u32 \<Rightarrow> ('w vfs_t \<times> int) option" where
  "vfs_chmod env st path mode =
     (case path of
        None \<Rightarrow> Some (st, -1)
      | Some p \<Rightarrow> do {
          (st1, err, np) \<leftarrow> vfs_node_acquire env st p;
          if err \<noteq> 0 then Some (st1, err)
          else do {
            n \<leftarrow> np;
            (st2, err) \<leftarrow> call_node_fs env st1 n (\<lambda>fs. fs_chmod fs n (mode AND (S_IRWXU OR S_IRWXG OR S_IRWXO)));
            (st3, err) \<leftarrow> (if err \<noteq> 0 then Some (st2, err) else call_node_fs env st2 n (\<lambda>fs. fs_sync fs n));
            release_ret env st3 n err
          }
        })"

definition vfs_stat :: "'w vfs_env \<Rightarrow> 'w vfs_t \<Rightarrow> string option \<Rightarrow> u64 \<Rightarrow> ('w vfs_t \<times> vfs_stat_t option \<times> int) option" where
  "vfs_stat env st path buf =
     (case path of
        None \<Rightarrow> Some (st, None, -1)
      | Some p \<Rightarrow>
          if buf = 0 then Some (st, None, -1)
          else do {
            (st1, err, np) \<leftarrow> vfs_node_acquire env st p;
            if err \<noteq> 0 then Some (st1, None, err)
            else do {
              n \<leftarrow> np;
              (s, err) \<leftarrow> vfs_node_stat st1 n;
              (st2, ret) \<leftarrow> release_ret env st1 n err;
              Some (st2, Some s, ret)
            }
          })"

end
