(* ===== verification/Vfs_Open.thy ===== *)
theory Vfs_Open
  imports Vfs_Resolve Vfs_File
begin

text \<open>
  Opening and closing files: descriptors, and the references an open file holds.
\<close>

section \<open>Descriptors\<close>

lemma find_Some_first:
  assumes "find P [a..<b] = Some i"
  shows "a \<le> i" "i < b" "P i" "\<And>j. a \<le> j \<Longrightarrow> j < i \<Longrightarrow> \<not> P j"
proof -
  obtain k where k: "k < length [a..<b]" "P ([a..<b] ! k)" "i = [a..<b] ! k" "\<forall>j<k. \<not> P ([a..<b] ! j)"
    using assms by (auto simp: find_Some_iff)
  then show "a \<le> i" "i < b" "P i" by auto
  show "\<not> P j" if "a \<le> j" "j < i" for j
    using k(1,3,4) that by (auto dest!: spec [of _ "j - a"])
qed

lemma find_None_none: "find P [a..<b] = None \<Longrightarrow> a \<le> j \<Longrightarrow> j < b \<Longrightarrow> \<not> P j"
  by (auto simp: find_None_iff)

text \<open>The lowest free descriptor from 3 on.\<close>

lemma vfs_fd_alloc_spec:
  obtains (full) "vfs_fd_alloc st = -1" "\<forall>i\<in>{3..<VFS_MAX_FD}. f_node (fd_file st ! i) \<noteq> None"
  | (free) i where "vfs_fd_alloc st = int i" "3 \<le> i" "i < VFS_MAX_FD" "f_node (fd_file st ! i) = None"
      "\<forall>j\<in>{3..<i}. f_node (fd_file st ! j) \<noteq> None"
proof (cases "find (\<lambda>i. f_node (fd_file st ! i) = None) [3..<VFS_MAX_FD]")
  case None
  have "vfs_fd_alloc st = -1" unfolding vfs_fd_alloc_def None by simp
  moreover have "\<forall>i\<in>{3..<VFS_MAX_FD}. f_node (fd_file st ! i) \<noteq> None"
    using find_None_none [OF None] by auto
  ultimately show thesis by (rule full)
next
  case (Some i)
  have "vfs_fd_alloc st = int i" unfolding vfs_fd_alloc_def Some by simp
  moreover note find_Some_first [OF Some]
  ultimately show thesis by (intro free [of i]) auto
qed

lemma cache_inv_files [simp]: "cache_inv env wok (st\<lparr>fd_file := fs\<rparr>) \<rho> = cache_inv env wok st \<rho>"
  by (simp add: cache_inv_def bucket_wf_def node_wf_def ref_wf_def mount_wf_def)

lemma vfs_mounted_files [simp]: "vfs_mounted (st\<lparr>fd_file := fs\<rparr>) = vfs_mounted st"
  by (simp add: vfs_mounted_def)

lemma vfs_mounted_up:
  assumes "vfs_mounted st" "node_step st st' (\<lambda>_. 1)"
  shows "vfs_mounted st'"
proof -
  have "\<exists>r. mounted (mem st') m r" if "m \<in> set (mnt_list st)" for m
    using assms(1) mounted_step [OF _ assms(2)] that unfolding vfs_mounted_def by (metis zero_less_one)
  then show ?thesis using assms(2) by (simp add: vfs_mounted_def node_step_def)
qed

text \<open>A node that is held: the references of its path are counted.\<close>

definition holds_node :: "'w vfs_env \<Rightarrow> ('w \<Rightarrow> dev_ptr option \<Rightarrow> bool) \<Rightarrow> 'w vfs_t \<Rightarrow> ref_map \<Rightarrow> node_ptr \<Rightarrow> bool" where
  "holds_node env wok st \<rho> n \<longleftrightarrow>
     vfs_mounted st \<and> (\<exists>m cs. m \<in> set (mnt_list st) \<and> node_at (mem st) n m cs \<and> cache_inv env wok st (add_path \<rho> m cs))"

lemma holds_node_files [simp]: "holds_node env wok (st\<lparr>fd_file := fs\<rparr>) \<rho> n = holds_node env wok st \<rho> n"
  by (simp add: holds_node_def)

lemma holds_node_get:
  assumes "holds_node env wok st \<rho> n"
  obtains v mt where "get_node st n = Some v" "get_mount st (v_mount v) = Some mt" "n \<in> dom (nodes (mem st))"
    "v_mount v \<in> dom (mounts (mem st))" "fs_ready env wok (mem st)" "mem_ok wok (mem st)"
proof -
  from assms obtain m cs where at: "node_at (mem st) n m cs" and inv: "cache_inv env wok st (add_path \<rho> m cs)"
    by (auto simp: holds_node_def)
  then obtain v where v: "nodes (mem st) n = Some v" by (auto simp: node_at_def)
  have ready: "fs_ready env wok (mem st)" using inv by (simp add: cache_inv_def)
  then have "mem_ok wok (mem st)" by (rule fs_ready_mem_ok)
  moreover from this v obtain mt where "mounts (mem st) (v_mount v) = Some mt" unfolding mem_ok_def by blast
  ultimately show thesis using v ready by (intro that [of v mt]) (auto simp: get_node_def get_mount_def)
qed

context filesystem_env
begin

lemma acquire_holds:
  assumes "cache_inv env wok st \<rho>" "vfs_mounted st" "Suc (length path) < VFS_MAX_PATH"
    and "vfs_node_acquire env st path = Some (st', err, Some n)"
  shows "err = 0" "holds_node env wok st' \<rho> n" "node_step st st' (\<lambda>_. 1)"
proof -
  from assms(1-3) have "err = 0 \<and> holds_node env wok st' \<rho> n \<and> node_step st st' (\<lambda>_. 1)"
  proof (rule vfs_node_acquire_spec)
    assume "vfs_node_acquire env st path = Some (st, -1, None)"
    with assms(4) show ?thesis by simp
  next
    fix m p st1 err1 np
    assume m: "m \<in> set (mnt_list st)" and "vfs_node_acquire env st path = Some (st1, err1, np)"
      and "acquire_result env wok \<rho> m (path_comps p) st st1 err1 np"
    then have r: "acquire_result env wok \<rho> m (path_comps p) st st' err (Some n)" using assms(4) by simp
    then have step: "node_step st st' (\<lambda>_. 1)" by (simp add: acquire_result_def)
    moreover have "mnt_list st' = mnt_list st" using step by (simp add: node_step_def)
    ultimately show ?thesis
      using r m vfs_mounted_up [OF assms(2)] by (auto simp: acquire_result_def holds_node_def)
  qed
  then show "err = 0" "holds_node env wok st' \<rho> n" "node_step st st' (\<lambda>_. 1)" by simp_all
qed

lemma release_holds:
  assumes "holds_node env wok st \<rho> n"
  obtains st' where "vfs_node_release env st (Some n) = Some st'" "cache_inv env wok st' \<rho>" "node_step st st' \<rho>"
proof -
  from assms obtain m cs where m: "m \<in> set (mnt_list st)" and at: "node_at (mem st) n m cs"
    and inv: "cache_inv env wok st (add_path \<rho> m cs)" and mtd: "vfs_mounted st"
    by (auto simp: holds_node_def)
  then obtain r where "mounted (mem st) m r" by (auto simp: vfs_mounted_def)
  with inv at show thesis by (rule vfs_node_release_spec) (rule that)
qed

lemma call_holds:
  assumes "holds_node env wok st \<rho> n"
    and law: "\<And>s fs. \<lbrakk>filesystems env s = Some fs; mem_ok wok (mem st); n \<in> dom (nodes (mem st))\<rbrakk> \<Longrightarrow> op_ok wok (mem st) (op fs (mem st))"
  obtains h' r where "call_node_fs env st n op = Some (st\<lparr>mem := h'\<rparr>, r)" "holds_node env wok (st\<lparr>mem := h'\<rparr>) \<rho> n"
proof -
  obtain v mt where v: "get_node st n = Some v" "get_mount st (v_mount v) = Some mt" "n \<in> dom (nodes (mem st))"
    "v_mount v \<in> dom (mounts (mem st))" "fs_ready env wok (mem st)" "mem_ok wok (mem st)"
    using assms(1) by (rule holds_node_get)
  obtain h' r where c: "call_fs env st (v_mount v) op = Some (st\<lparr>mem := h'\<rparr>, r)"
    and ids: "node_ids h' = node_ids (mem st)" "mount_ids h' = mount_ids (mem st)" and ready: "fs_ready env wok h'"
    using v(5,4) law [OF _ v(6,3)] by (rule call_fs_ok)
  have step: "node_step st (st\<lparr>mem := h'\<rparr>) (\<lambda>_. 1)" using ids by (rule node_step_frame)
  have "holds_node env wok (st\<lparr>mem := h'\<rparr>) \<rho> n"
    using assms(1) vfs_mounted_up [OF _ step] cache_inv_frame_ready [OF ids ready] node_at_view [OF ids(1)]
    by (auto simp: holds_node_def)
  moreover have "call_node_fs env st n op = Some (st\<lparr>mem := h'\<rparr>, r)" using c v(1) by (simp add: call_node_fs_def)
  ultimately show thesis by (intro that)
qed

end

lemma access_result: "vfs_node_access st n mode = Some e \<Longrightarrow> e = 0 \<or> e = -1"
  by (auto simp: vfs_node_access_def Let_def elim!: option_elims split: if_splits)

lemma open_node_eq: "open_node st (int i) = Some (i, n) \<longleftrightarrow> i < VFS_MAX_FD \<and> f_node (fd_file st ! i) = Some n"
  by (auto simp: open_node_def vfs_fd_to_file_def split: option.splits)

lemma open_nodeE:
  assumes "open_node st fd = Some (i, n)"
  obtains "fd = int i" "i < VFS_MAX_FD" "f_node (fd_file st ! i) = Some n"
  using assms by (auto simp: open_node_def vfs_fd_to_file_def split: option.splits if_splits)

context filesystem_env
begin

lemma access_holds:
  assumes "holds_node env wok st \<rho> n"
  obtains e where "vfs_node_access st n mode = Some e" "e = 0 \<or> e = -1"
proof -
  obtain v mt where "get_node st n = Some v" "get_mount st (v_mount v) = Some mt" using assms by (rule holds_node_get)
  then have "\<exists>e. vfs_node_access st n mode = Some e" by (simp add: vfs_node_access_def Let_def)
  then show thesis using that access_result by blast
qed

lemma release_ret_holds:
  assumes "holds_node env wok st \<rho> n"
  obtains st' where "release_ret env st n e = Some (st', e)" "cache_inv env wok st' \<rho>" "fd_file st' = fd_file st"
proof -
  obtain st' where "vfs_node_release env st (Some n) = Some st'" "cache_inv env wok st' \<rho>" "node_step st st' \<rho>"
    using assms by (rule release_holds)
  then show thesis by (intro that [of st']) (simp_all add: release_ret_def node_step_def)
qed

lemma open_fd_spec:
  assumes hold: "holds_node env wok st \<rho> n" and files: "length (fd_file st) = VFS_MAX_FD"
  obtains (full) st1 where "open_fd env st n flags = Some (st1, -1)" "cache_inv env wok st1 \<rho>" "fd_file st1 = fd_file st"
      "\<forall>i\<in>{3..<VFS_MAX_FD}. f_node (fd_file st ! i) \<noteq> None"
  | (opened) i st1 where "open_fd env st n flags = Some (st1, int i)" "3 \<le> i" "i < VFS_MAX_FD" "f_node (fd_file st ! i) = None"
      "\<forall>j\<in>{3..<i}. f_node (fd_file st ! j) \<noteq> None" "holds_node env wok st1 \<rho> n"
      "fd_file st1 = (fd_file st)[i := \<lparr>f_node = Some n, f_offset = 0, f_flags = flags\<rparr>]" "mem st1 = mem st"
proof (rule vfs_fd_alloc_spec [of st])
  assume "vfs_fd_alloc st = -1" and all: "\<forall>i\<in>{3..<VFS_MAX_FD}. f_node (fd_file st ! i) \<noteq> None"
  then have "open_fd env st n flags = release_ret env st n (-1)" by (simp add: open_fd_def)
  moreover obtain st1 where "release_ret env st n (-1) = Some (st1, -1)" "cache_inv env wok st1 \<rho>" "fd_file st1 = fd_file st"
    using hold by (rule release_ret_holds)
  ultimately show thesis using all by (intro full [of st1]) simp_all
next
  fix i
  assume i: "vfs_fd_alloc st = int i" "3 \<le> i" "i < VFS_MAX_FD" "f_node (fd_file st ! i) = None"
    "\<forall>j\<in>{3..<i}. f_node (fd_file st ! j) \<noteq> None"
  define f where "f = \<lparr>f_node = Some n, f_offset = 0, f_flags = flags\<rparr>"
  have "(fd_file st ! i)\<lparr>f_node := Some n, f_offset := 0, f_flags := flags\<rparr> = f"
    by (simp add: f_def)
  then have "open_fd env st n flags = Some (st\<lparr>fd_file := (fd_file st)[i := f]\<rparr>, int i)"
    using i(1) by (simp add: open_fd_def set_file_def)
  then show thesis using i(2-5) hold by (intro opened [of "st\<lparr>fd_file := (fd_file st)[i := f]\<rparr>" i]) (simp_all add: f_def)
qed

lemma vfs_open_spec:
  assumes inv: "cache_inv env wok st \<rho>" and mtd: "vfs_mounted st" and len: "Suc (length path) < VFS_MAX_PATH"
    and files: "length (fd_file st) = VFS_MAX_FD"
    and flags: "flags AND O_ACCMODE \<noteq> 0" "flags AND O_CREAT = 0" "flags AND O_TRUNC = 0"
    and acq: "vfs_node_acquire env st path = Some (st', 0, Some n)"
  obtains (refused) st1 where "vfs_open env st (Some path) flags mode = Some (st1, -1)" "cache_inv env wok st1 \<rho>" "fd_file st1 = fd_file st"
      "flags AND O_WRONLY \<noteq> 0 \<or> (\<forall>i\<in>{3..<VFS_MAX_FD}. f_node (fd_file st ! i) \<noteq> None)"
  | (opened) i st1 where "vfs_open env st (Some path) flags mode = Some (st1, int i)" "3 \<le> i" "i < VFS_MAX_FD"
      "f_node (fd_file st ! i) = None" "\<forall>j\<in>{3..<i}. f_node (fd_file st ! j) \<noteq> None" "holds_node env wok st1 \<rho> n"
      "fd_file st1 = (fd_file st)[i := \<lparr>f_node = Some n, f_offset = 0, f_flags = flags\<rparr>]" "mem st1 = mem st'"
proof -
  note hold = acquire_holds [OF inv mtd len acq]
  have files': "fd_file st' = fd_file st" using hold(3) by (simp add: node_step_def)
  obtain v where v: "get_node st' n = Some v" using hold(2) by (rule holds_node_get)
  obtain e where e: "vfs_node_access st' n W_OK = Some e" "e = 0 \<or> e = -1" using hold(2) by (rule access_holds)
  obtain st1 where rel: "release_ret env st' n (-1) = Some (st1, -1)" "cache_inv env wok st1 \<rho>" "fd_file st1 = fd_file st'"
    using hold(2) by (rule release_ret_holds)
  show thesis
  proof (cases "flags AND O_WRONLY \<noteq> 0 \<and> (e \<noteq> 0 \<or> v_type v = VNT_DIR)")
    case True
    then have "vfs_open env st (Some path) flags mode = Some (st1, -1)"
      using flags acq v e rel(1) by (auto simp: vfs_open_def open_node_flags_def)
    then show thesis using True rel(2,3) files' by (intro refused [of st1]) simp_all
  next
    case False
    then have go: "vfs_open env st (Some path) flags mode = open_fd env st' n flags"
      using flags acq v e by (auto simp: vfs_open_def open_node_flags_def)
    show thesis
    proof (rule open_fd_spec [OF hold(2), where flags = flags])
      show "length (fd_file st') = VFS_MAX_FD" using files files' by simp
    next
      fix st2 assume "open_fd env st' n flags = Some (st2, -1)" "cache_inv env wok st2 \<rho>" "fd_file st2 = fd_file st'"
        "\<forall>i\<in>{3..<VFS_MAX_FD}. f_node (fd_file st' ! i) \<noteq> None"
      then show thesis using go files' by (intro refused [of st2]) simp_all
    next
      fix i st2
      assume "open_fd env st' n flags = Some (st2, int i)" "3 \<le> i" "i < VFS_MAX_FD" "f_node (fd_file st' ! i) = None"
        "\<forall>j\<in>{3..<i}. f_node (fd_file st' ! j) \<noteq> None" "holds_node env wok st2 \<rho> n"
        "fd_file st2 = (fd_file st')[i := \<lparr>f_node = Some n, f_offset = 0, f_flags = flags\<rparr>]" "mem st2 = mem st'"
      then show thesis using go unfolding files' by (intro opened [of st2 i]) simp_all
    qed
  qed
qed

lemma vfs_close_spec:
  assumes hold: "holds_node env wok st \<rho> n" and files: "length (fd_file st) = VFS_MAX_FD"
    and fd: "3 \<le> i" "i < VFS_MAX_FD" "f_node (fd_file st ! i) = Some n"
  obtains (failed) st1 err where "err \<noteq> 0" "vfs_close env st (int i) = Some (st1, err)" "holds_node env wok st1 \<rho> n"
      "fd_file st1 = fd_file st"
  | (closed) st1 where "vfs_close env st (int i) = Some (st1, 0)" "cache_inv env wok st1 \<rho>" "fd_file st1 = (fd_file st)[i := closed_file]"
proof -
  have on: "open_node st (int i) = Some (i, n)" using fd by (simp add: open_node_eq)
  obtain h' err where c: "call_node_fs env st n (\<lambda>fs. fs_sync fs n) = Some (st\<lparr>mem := h'\<rparr>, err)"
    and hold': "holds_node env wok (st\<lparr>mem := h'\<rparr>) \<rho> n"
    using hold fs_sync_ok by (rule call_holds)
  show thesis
  proof (cases "err = 0")
    case False
    then show thesis using c on hold' by (intro failed [of err "st\<lparr>mem := h'\<rparr>"]) (simp_all add: vfs_close_def)
  next
    case True
    obtain st2 where r: "vfs_node_release env (st\<lparr>mem := h'\<rparr>) (Some n) = Some st2" "cache_inv env wok st2 \<rho>"
      "node_step (st\<lparr>mem := h'\<rparr>) st2 \<rho>"
      using hold' by (rule release_holds)
    have files2: "fd_file st2 = fd_file st" using r(3) by (simp add: node_step_def)
    have free: "vfs_fd_free st2 (int i) = st2\<lparr>fd_file := (fd_file st)[i := closed_file]\<rparr>"
      using fd files2 by (simp add: vfs_fd_free_def)
    have "vfs_close env st (int i) = Some (st2\<lparr>fd_file := (fd_file st)[i := closed_file]\<rparr>, 0)"
      using c on True r(1) free by (simp add: vfs_close_def)
    then show thesis using r(2) by (intro closed [of "st2\<lparr>fd_file := (fd_file st)[i := closed_file]\<rparr>"]) simp_all
  qed
qed

end

section \<open>Seeking\<close>

lemma s64_add_sint:
  assumes "- (2 ^ 63) \<le> sint a + sint b" "sint a + sint b < 2 ^ 63"
  shows "s64_add a b = Some (a + b)" "sint (a + b :: s64) = sint a + sint b"
proof -
  show "s64_add a b = Some (a + b)" using assms by (simp add: s64_add_def)
  have "sint (a + b) = signed_take_bit 63 (sint a + sint b)"
    by (simp add: sint_word_ariths)
  then show "sint (a + b :: s64) = sint a + sint b" using assms by (simp add: signed_take_bit_int_eq_self)
qed

definition seek_base :: "s64 \<Rightarrow> s64 \<Rightarrow> int \<Rightarrow> int" where
  "seek_base vsize pos whence = (if whence = 0 then 0 else if whence = 1 then sint pos else sint vsize)"

lemma seek_target_clamps:
  assumes "whence \<in> {0, 1, 2}" "0 \<le> sint pos" "sint pos \<le> sint vsize" "whence = 1 \<longrightarrow> sint pos + sint off < 2 ^ 63"
  obtains t where "seek_target vsize pos off whence = Some (Seek_To t)"
    "sint t = max 0 (min (sint vsize) (seek_base vsize pos whence + sint off))"
proof -
  have low: "- (2 ^ 63) \<le> sint off" using sint_ge [of off] by simp
  have vs: "sint vsize < 2 ^ 63" using sint_lt [of vsize] by simp
  consider "whence = 0" | "whence = 1" | "whence = 2" using assms(1) by blast
  then show thesis
  proof cases
    case 1
    then show thesis using assms by (intro that) (auto simp: seek_target_def seek_base_def max_def min_def)
  next
    case 2
    have s: "s64_add pos off = Some (pos + off)" "sint (pos + off) = sint pos + sint off"
      using assms low 2 by (simp_all add: s64_add_sint)
    show thesis
      using assms s 2 by (intro that [of "if sint (pos + off) > sint vsize then vsize else if sint (pos + off) < 0 then 0 else pos + off"])
        (auto simp: seek_target_def seek_base_def max_def min_def)
  next
    case 3
    show thesis
    proof (cases "sint off > 0")
      case True
      then show thesis using assms 3 by (intro that [of vsize]) (auto simp: seek_target_def seek_base_def max_def min_def)
    next
      case False
      have s: "s64_add vsize off = Some (vsize + off)" "sint (vsize + off) = sint vsize + sint off"
        using assms low vs False by (simp_all add: s64_add_sint)
      show thesis using assms s 3 False
        by (intro that [of "if sint (vsize + off) < 0 then 0 else vsize + off"]) (auto simp: seek_target_def seek_base_def max_def min_def)
    qed
  qed
qed

end
