(* ===== verification/Block_Device.thy ===== *)
theory Block_Device
  imports Kernel_Prelude
begin

text \<open>
  Byte-granular access to a block device (\<^verbatim>\<open>src/driver/block.c\<close>, \<^verbatim>\<open>src/include/block/block.h\<close>)
  and the virtio block driver (\<^verbatim>\<open>src/driver/virtio/block.c\<close>).

  A device is a record of its geometry, its driver operations and the driver's state \<open>'d\<close>. A driver operation may
  not return (\<open>None\<close>), since the virtio driver waits for the hardware. The data a read stores in the caller's buffer is
  part of its result.
\<close>

section \<open>The device\<close>

record 'd block_t =
  blksz :: u64
  blkcnt :: u64
  blk_read :: "'d \<Rightarrow> u64 \<Rightarrow> u64 \<Rightarrow> ('d \<times> u8 list \<times> u64) option"
  blk_write :: "'d \<Rightarrow> u8 list \<Rightarrow> u64 \<Rightarrow> u64 \<Rightarrow> ('d \<times> u64) option"
  blk_sync :: "('d \<Rightarrow> 'd) option"
  blk_state :: 'd

definition block_size :: "'d block_t \<Rightarrow> u64" where
  "block_size blk = blksz blk"

definition block_count :: "'d block_t \<Rightarrow> u64" where
  "block_count blk = blkcnt blk"

definition block_capacity :: "'d block_t \<Rightarrow> u64" where
  "block_capacity blk = blksz blk * blkcnt blk"

definition block_offset :: "'d block_t \<Rightarrow> u64 \<Rightarrow> u64" where
  "block_offset blk blkno = blksz blk * blkno"

definition block_available_count :: "'d block_t \<Rightarrow> u64 \<Rightarrow> u64 \<Rightarrow> u64" where
  "block_available_count blk blkno cnt =
     (if blkcnt blk > blkno
      then let count = blkcnt blk - blkno in if count > cnt then cnt else count
      else 0)"

definition block_available_length :: "'d block_t \<Rightarrow> u64 \<Rightarrow> u64 \<Rightarrow> u64" where
  "block_available_length blk blkno cnt = block_size blk * block_available_count blk blkno cnt"

section \<open>Reading\<close>

text \<open>The three parts of a transfer work on the bytes moved so far, the number of bytes still
  wanted, the next block and the count to return. \<open>Inl\<close> is the early return after a failed driver call.\<close>

definition read_head :: "'d block_t \<Rightarrow> u64 \<Rightarrow> u64 \<Rightarrow> u64
    \<Rightarrow> ('d block_t \<times> (u8 list \<times> u64 + u8 list \<times> u64 \<times> u64 \<times> u64)) option" where
  "read_head blk blkno tmp count =
     (if tmp > 0
      then do {
        let len = (if count < block_size blk - tmp then count else block_size blk - tmp);
        (d, p, r) \<leftarrow> blk_read blk (blk_state blk) blkno 1;
        let blk' = blk\<lparr>blk_state := d\<rparr>;
        if r \<noteq> 1 then Some (blk', Inl ([], 0))
        else Some (blk', Inr (take (unat len) (drop (unat tmp) p), count - len, blkno + 1, len))
      }
      else Some (blk, Inr ([], count, blkno, 0)))"

definition read_body :: "'d block_t \<Rightarrow> u8 list \<Rightarrow> u64 \<Rightarrow> u64 \<Rightarrow> u64
    \<Rightarrow> ('d block_t \<times> (u8 list \<times> u64 + u8 list \<times> u64 \<times> u64 \<times> u64)) option" where
  "read_body blk out count blkno ret =
     (let tmp = count div block_size blk in
      if tmp > 0
      then do {
        let len = tmp * block_size blk;
        (d, bs, r) \<leftarrow> blk_read blk (blk_state blk) blkno tmp;
        let blk' = blk\<lparr>blk_state := d\<rparr>;
        if r \<noteq> tmp then Some (blk', Inl (out, ret))
        else Some (blk', Inr (out @ bs, count - len, blkno + tmp, ret + len))
      }
      else Some (blk, Inr (out, count, blkno, ret)))"

definition read_tail :: "'d block_t \<Rightarrow> u8 list \<Rightarrow> u64 \<Rightarrow> u64 \<Rightarrow> u64 \<Rightarrow> ('d block_t \<times> u8 list \<times> u64) option" where
  "read_tail blk out count blkno ret =
     (if count > 0
      then do {
        (d, p, r) \<leftarrow> blk_read blk (blk_state blk) blkno 1;
        let blk' = blk\<lparr>blk_state := d\<rparr>;
        if r \<noteq> 1 then Some (blk', out, ret)
        else Some (blk', out @ take (unat count) p, ret + count)
      }
      else Some (blk, out, ret))"

definition read_parts :: "'d block_t \<Rightarrow> u64 \<Rightarrow> u64 \<Rightarrow> ('d block_t \<times> u8 list \<times> u64) option" where
  "read_parts blk offset count = do {
     (blk1, r1) \<leftarrow> read_head blk (offset div block_size blk) (offset mod block_size blk) count;
     case r1 of
       Inl res \<Rightarrow> Some (blk1, res)
     | Inr (out1, count1, blkno1, ret1) \<Rightarrow> do {
         (blk2, r2) \<leftarrow> read_body blk1 out1 count1 blkno1 ret1;
         case r2 of
           Inl res \<Rightarrow> Some (blk2, res)
         | Inr (out2, count2, blkno2, ret2) \<Rightarrow> read_tail blk2 out2 count2 blkno2 ret2
       }
   }"

text \<open>\<open>buf\<close> is the address of the caller's buffer, \<open>p_ok\<close> whether \<^verbatim>\<open>malloc(blksz)\<close> succeeds. The
  result has the bytes stored in the buffer and the returned count.\<close>

definition block_read :: "bool \<Rightarrow> 'd block_t \<Rightarrow> u64 \<Rightarrow> u64 \<Rightarrow> u64 \<Rightarrow> ('d block_t \<times> u8 list \<times> u64) option" where
  "block_read p_ok blk buf offset count =
     (if buf = 0 \<or> count = 0 then Some (blk, [], 0)
      else if block_size blk = 0 \<or> block_count blk = 0 then Some (blk, [], 0)
      else if offset \<ge> block_capacity blk then Some (blk, [], 0)
      else let tmp = block_capacity blk - offset;
               count' = (if count > tmp then tmp else count) in
        if \<not> p_ok then Some (blk, [], 0)
        else read_parts blk offset count')"

section \<open>Writing\<close>

text \<open>A partial block is read, patched and written back. \<open>data\<close> is what is left of the caller's buffer.\<close>

definition patch :: "u8 list \<Rightarrow> nat \<Rightarrow> u8 list \<Rightarrow> u8 list" where
  "patch p pos bs = take pos p @ bs @ drop (pos + length bs) p"

definition write_part :: "'d block_t \<Rightarrow> u64 \<Rightarrow> nat \<Rightarrow> u8 list \<Rightarrow> ('d block_t \<times> bool) option" where
  "write_part blk blkno pos bs = do {
     (d, p, r) \<leftarrow> blk_read blk (blk_state blk) blkno 1;
     let blk1 = blk\<lparr>blk_state := d\<rparr>;
     if r \<noteq> 1 then Some (blk1, False)
     else do {
       (d, r) \<leftarrow> blk_write blk1 (blk_state blk1) (patch p pos bs) blkno 1;
       Some (blk1\<lparr>blk_state := d\<rparr>, r = 1)
     }
   }"

definition write_head :: "'d block_t \<Rightarrow> u8 list \<Rightarrow> u64 \<Rightarrow> u64 \<Rightarrow> u64 \<Rightarrow> ('d block_t \<times> (u64 + u8 list \<times> u64 \<times> u64 \<times> u64)) option" where
  "write_head blk data blkno tmp count =
     (if tmp > 0
      then do {
        let len = (if count < block_size blk - tmp then count else block_size blk - tmp);
        (blk1, ok) \<leftarrow> write_part blk blkno (unat tmp) (take (unat len) data);
        if \<not> ok then Some (blk1, Inl 0)
        else Some (blk1, Inr (drop (unat len) data, count - len, blkno + 1, len))
      }
      else Some (blk, Inr (data, count, blkno, 0)))"

definition write_body :: "'d block_t \<Rightarrow> u8 list \<Rightarrow> u64 \<Rightarrow> u64 \<Rightarrow> u64 \<Rightarrow> ('d block_t \<times> (u64 + u8 list \<times> u64 \<times> u64 \<times> u64)) option" where
  "write_body blk data count blkno ret =
     (let tmp = count div block_size blk in
      if tmp > 0
      then do {
        let len = tmp * block_size blk;
        (d, r) \<leftarrow> blk_write blk (blk_state blk) (take (unat len) data) blkno tmp;
        let blk1 = blk\<lparr>blk_state := d\<rparr>;
        if r \<noteq> tmp then Some (blk1, Inl ret)
        else Some (blk1, Inr (drop (unat len) data, count - len, blkno + tmp, ret + len))
      }
      else Some (blk, Inr (data, count, blkno, ret)))"

definition write_tail :: "'d block_t \<Rightarrow> u8 list \<Rightarrow> u64 \<Rightarrow> u64 \<Rightarrow> u64 \<Rightarrow> ('d block_t \<times> u64) option" where
  "write_tail blk data count blkno ret =
     (if count > 0
      then do {
        (blk1, ok) \<leftarrow> write_part blk blkno 0 (take (unat count) data);
        Some (blk1, if ok then ret + count else ret)
      }
      else Some (blk, ret))"

definition write_parts :: "'d block_t \<Rightarrow> u8 list \<Rightarrow> u64 \<Rightarrow> u64 \<Rightarrow> ('d block_t \<times> u64) option" where
  "write_parts blk data offset count = do {
     (blk1, r1) \<leftarrow> write_head blk data (offset div block_size blk) (offset mod block_size blk) count;
     case r1 of
       Inl ret \<Rightarrow> Some (blk1, ret)
     | Inr (data1, count1, blkno1, ret1) \<Rightarrow> do {
         (blk2, r2) \<leftarrow> write_body blk1 data1 count1 blkno1 ret1;
         case r2 of
           Inl ret \<Rightarrow> Some (blk2, ret)
         | Inr (data2, count2, blkno2, ret2) \<Rightarrow> write_tail blk2 data2 count2 blkno2 ret2
       }
   }"

definition block_write :: "bool \<Rightarrow> 'd block_t \<Rightarrow> u64 \<Rightarrow> u8 list \<Rightarrow> u64 \<Rightarrow> u64 \<Rightarrow> ('d block_t \<times> u64) option" where
  "block_write p_ok blk buf data offset count =
     (if buf = 0 \<or> count = 0 then Some (blk, 0)
      else if block_size blk = 0 \<or> block_count blk = 0 then Some (blk, 0)
      else if offset \<ge> block_capacity blk then Some (blk, 0)
      else let tmp = block_capacity blk - offset;
               count' = (if count > tmp then tmp else count) in
        if \<not> p_ok then Some (blk, 0)
        else write_parts blk data offset count')"

definition block_sync :: "'d block_t \<Rightarrow> 'd block_t" where
  "block_sync blk =
     (case blk_sync blk of None \<Rightarrow> blk | Some f \<Rightarrow> blk\<lparr>blk_state := f (blk_state blk)\<rparr>)"

section \<open>The virtio block driver\<close>

text \<open>The request the driver puts into the ring, and the hardware, which answers with its new state, the bytes it
  stores in the data buffer and the status byte. The driver waits until the status is 0. It does not test the result of the
  \<^verbatim>\<open>calloc\<close> of the request header, which is assumed to succeed here.\<close>

record virtio_blk_outhdr =
  outhdr_type :: u32
  ioprio :: u32
  sector :: u64

abbreviation VIRTIO_BLK_T_IN :: u32 where "VIRTIO_BLK_T_IN \<equiv> 0"
abbreviation VIRTIO_BLK_T_OUT :: u32 where "VIRTIO_BLK_T_OUT \<equiv> 1"

type_synonym 'd virtio_hw = "'d \<Rightarrow> virtio_blk_outhdr \<Rightarrow> u8 list \<Rightarrow> u32 \<Rightarrow> 'd \<times> u8 list \<times> u8"

definition virtio_block_read :: "'d virtio_hw \<Rightarrow> u64 \<Rightarrow> 'd \<Rightarrow> u64 \<Rightarrow> u64 \<Rightarrow> ('d \<times> u8 list \<times> u64) option" where
  "virtio_block_read hw bsz d blkno cnt =
     (let buf0 = \<lparr>outhdr_type = VIRTIO_BLK_T_IN, ioprio = 0, sector = blkno\<rparr>;
          (d', bytes, status) = hw d buf0 [] (ucast (cnt * bsz)) in
      if status = 0 then Some (d', bytes, cnt) else None)"

definition virtio_block_write :: "'d virtio_hw \<Rightarrow> u64 \<Rightarrow> 'd \<Rightarrow> u8 list \<Rightarrow> u64 \<Rightarrow> u64 \<Rightarrow> ('d \<times> u64) option" where
  "virtio_block_write hw bsz d buf blkno cnt =
     (let buf0 = \<lparr>outhdr_type = VIRTIO_BLK_T_OUT, ioprio = 0, sector = blkno\<rparr>;
          (d', _, status) = hw d buf0 (take (unat (ucast (cnt * bsz) :: u32)) buf) (ucast (cnt * bsz)) in
      if status = 0 then Some (d', cnt) else None)"

definition virtio_block_sync :: "'d \<Rightarrow> 'd" where
  "virtio_block_sync d = d"

text \<open>The object the constructor and the probe function set up, from the geometry in the configuration space.\<close>

definition virtio_block_t :: "'d virtio_hw \<Rightarrow> u64 \<Rightarrow> u64 \<Rightarrow> 'd \<Rightarrow> 'd block_t" where
  "virtio_block_t hw blk_size capacity d =
     \<lparr>blksz = blk_size, blkcnt = capacity,
      blk_read = virtio_block_read hw blk_size,
      blk_write = virtio_block_write hw blk_size,
      blk_sync = Some virtio_block_sync,
      blk_state = d\<rparr>"

end
