(* ===== verification/Strtoul.thy ===== *)
theory Strtoul
  imports Kernel_Prelude
begin

text \<open>
  Character classes (\<^verbatim>\<open>src/lib/libc/ctype.c\<close>, \<^verbatim>\<open>src/include/ctype.h\<close>) and the conversion of
  numbers (\<^verbatim>\<open>src/lib/libc/strtoul.c\<close>). A C string is the list of its bytes without the terminating zero, and a
  pointer into it an index.
\<close>

section \<open>Character classes\<close>

abbreviation CT_U :: u8 where "CT_U \<equiv> 0x01"
abbreviation CT_L :: u8 where "CT_L \<equiv> 0x02"
abbreviation CT_D :: u8 where "CT_D \<equiv> 0x04"
abbreviation CT_C :: u8 where "CT_C \<equiv> 0x08"
abbreviation CT_P :: u8 where "CT_P \<equiv> 0x10"
abbreviation CT_S :: u8 where "CT_S \<equiv> 0x20"
abbreviation CT_X :: u8 where "CT_X \<equiv> 0x40"
abbreviation CT_SP :: u8 where "CT_SP \<equiv> 0x80"

definition ctype_table :: "u8 list" where
  "ctype_table =
     replicate 9 CT_C @ replicate 5 (CT_C OR CT_S) @ replicate 18 CT_C @
     [CT_S OR CT_SP] @ replicate 15 CT_P @ replicate 10 CT_D @ replicate 7 CT_P @
     replicate 6 (CT_U OR CT_X) @ replicate 20 CT_U @ replicate 6 CT_P @
     replicate 6 (CT_L OR CT_X) @ replicate 20 CT_L @ replicate 4 CT_P @ [CT_C] @
     replicate 32 0 @
     [CT_S OR CT_SP] @ replicate 31 CT_P @
     replicate 23 CT_U @ [CT_P] @ replicate 7 CT_U @ [CT_L] @
     replicate 23 CT_L @ [CT_P] @ replicate 8 CT_L"

definition ismask :: "int \<Rightarrow> u8" where
  "ismask x = ctype_table ! nat (x mod 256)"

definition isalpha :: "int \<Rightarrow> bool" where
  "isalpha c \<longleftrightarrow> ismask c AND (CT_U OR CT_L) \<noteq> 0"

definition isdigit :: "int \<Rightarrow> bool" where
  "isdigit c \<longleftrightarrow> ismask c AND CT_D \<noteq> 0"

definition isspace :: "int \<Rightarrow> bool" where
  "isspace c \<longleftrightarrow> ismask c AND CT_S \<noteq> 0"

definition isupper :: "int \<Rightarrow> bool" where
  "isupper c \<longleftrightarrow> ismask c AND CT_U \<noteq> 0"

definition islower :: "int \<Rightarrow> bool" where
  "islower c \<longleftrightarrow> ismask c AND CT_L \<noteq> 0"

definition isalnum :: "int \<Rightarrow> bool" where
  "isalnum c \<longleftrightarrow> ismask c AND (CT_U OR CT_L OR CT_D) \<noteq> 0"

definition iscntrl :: "int \<Rightarrow> bool" where
  "iscntrl c \<longleftrightarrow> ismask c AND CT_C \<noteq> 0"

definition isgraph :: "int \<Rightarrow> bool" where
  "isgraph c \<longleftrightarrow> ismask c AND (CT_P OR CT_U OR CT_L OR CT_D) \<noteq> 0"

definition isprint :: "int \<Rightarrow> bool" where
  "isprint c \<longleftrightarrow> ismask c AND (CT_P OR CT_U OR CT_L OR CT_D OR CT_SP) \<noteq> 0"

definition ispunct :: "int \<Rightarrow> bool" where
  "ispunct c \<longleftrightarrow> ismask c AND CT_P \<noteq> 0"

definition isxdigit :: "int \<Rightarrow> bool" where
  "isxdigit c \<longleftrightarrow> ismask c AND (CT_D OR CT_X) \<noteq> 0"

definition tolower :: "u8 \<Rightarrow> u8" where
  "tolower c = (if isupper (uint c) then c + 32 else c)"

definition toupper :: "u8 \<Rightarrow> u8" where
  "toupper c = (if islower (uint c) then c - 32 else c)"

section \<open>\<^verbatim>\<open>strtoul\<close>\<close>

definition ULONG_MAX :: u64 where
  "ULONG_MAX = - 1"

definition getc :: "u8 list \<Rightarrow> nat \<Rightarrow> int" where
  "getc str i = (if i < length str then uint (str ! i) else 0)"

lemma isspace_0 [simp]: "\<not> isspace 0"
  by (simp add: isspace_def ismask_def ctype_table_def nth_append)

lemma isdigit_0 [simp]: "\<not> isdigit 0"
  by (simp add: isdigit_def ismask_def ctype_table_def nth_append)

lemma isalpha_0 [simp]: "\<not> isalpha 0"
  by (simp add: isalpha_def ismask_def ctype_table_def nth_append)

text \<open>The \<^verbatim>\<open>do\<close> loop: the first character that is no white space, and the index after it.\<close>

function skip_space :: "u8 list \<Rightarrow> nat \<Rightarrow> int \<times> nat" where
  "skip_space str s = (if isspace (getc str s) then skip_space str (Suc s) else (getc str s, Suc s))"
  by pat_completeness auto
termination
  by (relation "measure (\<lambda>(str, s). length str - s)") (auto simp: getc_def split: if_splits)

declare skip_space.simps [simp del]

definition digit_value :: "int \<Rightarrow> int option" where
  "digit_value c =
     (if isdigit c then Some (c - 48)
      else if isalpha c then Some (c - (if isupper c then 55 else 87))
      else None)"

lemma digit_value_0 [simp]: "digit_value 0 = None"
  by (simp add: digit_value_def)

function strtoul_loop :: "u8 list \<Rightarrow> int \<Rightarrow> u64 \<Rightarrow> int \<Rightarrow> int \<Rightarrow> nat \<Rightarrow> u64 \<Rightarrow> int \<Rightarrow> u64 \<times> int \<times> nat" where
  "strtoul_loop str base cutoff cutlim c s acc any =
     (case digit_value c of
        None \<Rightarrow> (acc, any, s)
      | Some d \<Rightarrow>
          if d \<ge> base then (acc, any, s)
          else if any < 0 then strtoul_loop str base cutoff cutlim (getc str s) (Suc s) acc any
          else if acc > cutoff \<or> (acc = cutoff \<and> d > cutlim)
          then strtoul_loop str base cutoff cutlim (getc str s) (Suc s) ULONG_MAX (-1)
          else strtoul_loop str base cutoff cutlim (getc str s) (Suc s) (acc * of_int base + of_int d) 1)"
  by pat_completeness auto
termination
proof (relation "measure (\<lambda>(str, base, cutoff, cutlim, c, s, acc, any). (Suc (length str) - s) + (if c = 0 then 0 else 1))", goal_cases)
  case 1
  show ?case by simp
next
  case (2 str base cutoff cutlim c s acc any d)
  from 2(1) have "c \<noteq> 0" by (cases "c = 0") auto
  then show ?case by (auto simp: getc_def)
next
  case (3 str base cutoff cutlim c s acc any d)
  from 3(1) have "c \<noteq> 0" by (cases "c = 0") auto
  then show ?case by (auto simp: getc_def)
next
  case (4 str base cutoff cutlim c s acc any d)
  from 4(1) have "c \<noteq> 0" by (cases "c = 0") auto
  then show ?case by (auto simp: getc_def)
qed

declare strtoul_loop.simps [simp del]

text \<open>The result is the number and the index stored through \<^verbatim>\<open>endptr\<close>.\<close>

definition strtoul :: "u8 list \<Rightarrow> int \<Rightarrow> u64 \<times> nat" where
  "strtoul nptr base = (
     let (c, s) = skip_space nptr 0;
         neg = (c = 45);
         (c, s) = (if c = 45 \<or> c = 43 then (getc nptr s, Suc s) else (c, s));
         prefix = ((base = 0 \<or> base = 16) \<and> c = 48 \<and> (getc nptr s = 120 \<or> getc nptr s = 88));
         (c, s, base) = (if prefix then (getc nptr (Suc s), s + 2, 16) else (c, s, base));
         base = (if base = 0 then (if c = 48 then 8 else 10) else base);
         cutoff = ULONG_MAX div of_int base;
         cutlim = uint (ULONG_MAX mod of_int base);
         (acc, any, s) = strtoul_loop nptr base cutoff cutlim c s 0 0;
         acc = (if neg \<and> any > 0 then - acc else acc) in
     (acc, if any \<noteq> 0 then s - 1 else 0))"

section \<open>Digits\<close>

text \<open>
  What the digits of a base are and what a sequence of them is worth, independently of the character classes: the value of a digit is
  its position in the sequence of all digits.
\<close>

definition lower_digits :: "int list" where
  "lower_digits = map of_char ''0123456789abcdefghijklmnopqrstuvwxyz''"

definition upper_digits :: "int list" where
  "upper_digits = map of_char ''0123456789ABCDEFGHIJKLMNOPQRSTUVWXYZ''"

lemma digits_code [code]: "lower_digits = [48..57] @ [97..122]" "upper_digits = [48..57] @ [65..90]"
  by (simp_all add: lower_digits_def upper_digits_def)

primrec position :: "int list \<Rightarrow> int \<Rightarrow> int option" where
  "position [] c = None"
| "position (x # xs) c = (if x = c then Some 0 else map_option (\<lambda>i. i + 1) (position xs c))"

definition digit_of :: "u8 \<Rightarrow> int option" where
  "digit_of c = (case position lower_digits (uint c) of None \<Rightarrow> position upper_digits (uint c) | Some d \<Rightarrow> Some d)"

definition is_digit :: "int \<Rightarrow> u8 \<Rightarrow> bool" where
  "is_digit base c \<longleftrightarrow> (case digit_of c of None \<Rightarrow> False | Some d \<Rightarrow> d < base)"

fun num_value :: "int \<Rightarrow> int \<Rightarrow> u8 list \<Rightarrow> int" where
  "num_value base acc [] = acc"
| "num_value base acc (c # cs) = num_value base (acc * base + the (digit_of c)) cs"

definition stops :: "int \<Rightarrow> u8 list \<Rightarrow> bool" where
  "stops base rest \<longleftrightarrow> (case rest of [] \<Rightarrow> True | c # _ \<Rightarrow> \<not> is_digit base c)"

text \<open>The code computes the values of the digits, and gives every other letter of the table a value no base reaches.\<close>

lemma digit_value_table:
  "list_all (\<lambda>x. case (case position lower_digits x of None \<Rightarrow> position upper_digits x | Some d \<Rightarrow> Some d) of
      Some d \<Rightarrow> digit_value x = Some d \<and> 0 \<le> d \<and> d < 36
    | None \<Rightarrow> (case digit_value x of None \<Rightarrow> True | Some d \<Rightarrow> 36 \<le> d)) [0..255]"
  by code_simp

lemma digit_value_digit_of:
  "case digit_of c of
      Some d \<Rightarrow> digit_value (uint c) = Some d \<and> 0 \<le> d \<and> d < 36
    | None \<Rightarrow> (case digit_value (uint c) of None \<Rightarrow> True | Some d \<Rightarrow> 36 \<le> d)"
proof -
  have "uint c < 256" by (rule order_less_le_trans [OF unsigned_less]) simp
  then have "uint c \<in> set [0..255]" by simp
  then show ?thesis using bspec [OF digit_value_table [unfolded list_all_iff], of "uint c"] by (simp add: digit_of_def)
qed

lemma is_digitE:
  assumes "is_digit base c"
  obtains d where "digit_value (uint c) = Some d" "digit_of c = Some d" "0 \<le> d" "d < base"
  using assms digit_value_digit_of [of c] by (auto simp: is_digit_def split: option.splits)

lemma not_digit: "\<lbrakk>\<not> is_digit base c; base \<le> 36; digit_value (uint c) = Some d\<rbrakk> \<Longrightarrow> base \<le> d"
  using digit_value_digit_of [of c] by (auto simp: is_digit_def split: option.splits)

lemma getc_append [simp]: "getc (pre @ xs) (length pre) = getc xs 0"
  by (simp add: getc_def nth_append)

lemma getc_Cons [simp]: "getc (c # cs) 0 = uint c"
  by (simp add: getc_def)

lemma getc_Nil [simp]: "getc [] i = 0"
  by (simp add: getc_def)

lemma num_value_ge:
  assumes "0 \<le> acc" "1 \<le> base" "list_all (is_digit base) cs"
  shows "acc \<le> num_value base acc cs"
  using assms
proof (induction cs arbitrary: acc)
  case (Cons c cs)
  then obtain d where d: "digit_of c = Some d" "0 \<le> d" by (auto elim: is_digitE)
  have "acc \<le> acc * base" using Cons.prems(1,2) by (simp add: mult_le_cancel_left1)
  then have "acc \<le> acc * base + d" using d(2) by simp
  also have "\<dots> \<le> num_value base (acc * base + d) cs"
    using Cons.prems d(2) \<open>acc \<le> acc * base\<close> by (intro Cons.IH) auto
  finally show ?case by (simp add: d(1))
qed simp

section \<open>The loop\<close>

lemma strtoul_loop_stops:
  "\<lbrakk>stops base rest; base \<le> 36\<rbrakk> \<Longrightarrow> strtoul_loop (pre @ rest) base cutoff cutlim (getc rest 0) s acc any = (acc, any, s)"
  by (subst strtoul_loop.simps) (auto simp: stops_def dest: not_digit split: option.splits list.splits)

lemma strtoul_loop_saturated:
  assumes "list_all (is_digit base) cs" "stops base rest" "base \<le> 36"
  shows "strtoul_loop (pre @ cs @ rest) base cutoff cutlim (getc (cs @ rest) 0) (Suc (length pre)) acc (-1)
    = (acc, -1, Suc (length pre + length cs))"
  using assms
proof (induction cs arbitrary: pre)
  case Nil
  then show ?case by (simp add: strtoul_loop_stops)
next
  case (Cons c cs)
  from Cons.prems obtain d where d: "digit_value (uint c) = Some d" "d < base" by (auto elim: is_digitE)
  have "getc (pre @ c # cs @ rest) (Suc (length pre)) = getc (cs @ rest) 0"
    using getc_append [of "pre @ [c]" "cs @ rest"] by simp
  then show ?case
    using d Cons.IH [of "pre @ [c]"] Cons.prems by (subst strtoul_loop.simps) simp
qed

text \<open>The overflow test with \<^verbatim>\<open>cutoff\<close> and \<^verbatim>\<open>cutlim\<close> is exact.\<close>

lemma overflow_test:
  fixes acc :: u64 and base d :: int
  assumes "2 \<le> base" "base \<le> 36" "0 \<le> d" "d < base"
  shows "(acc > ULONG_MAX div of_int base \<or> (acc = ULONG_MAX div of_int base \<and> d > uint (ULONG_MAX mod of_int base)))
    \<longleftrightarrow> 2 ^ 64 \<le> uint acc * base + d"
proof -
  define Q R :: int where "Q = (2 ^ 64 - 1) div base" and "R = (2 ^ 64 - 1) mod base"
  have b: "uint (of_int base :: u64) = base"
    using assms by (simp add: uint_word_of_int)
  have m: "uint ULONG_MAX = 2 ^ 64 - 1" by (simp add: ULONG_MAX_def unsigned_minus_1_eq_mask mask_eq_exp_minus_1)
  have q: "uint (ULONG_MAX div of_int base) = Q" and r: "uint (ULONG_MAX mod of_int base) = R"
    by (simp_all add: uint_div uint_mod b m Q_def R_def)
  have qr: "Q * base + R = 2 ^ 64 - 1" "0 \<le> R" "R < base" unfolding Q_def R_def using assms by simp_all
  have up: "(Q + 1) * base \<le> uint acc * base" if "Q < uint acc" using that assms by (intro mult_right_mono) auto
  have down: "(uint acc + 1) * base \<le> Q * base" if "uint acc < Q" using that assms by (intro mult_right_mono) auto
  consider "Q < uint acc" | "uint acc = Q" | "uint acc < Q" by linarith
  then show ?thesis
  proof cases
    case 1
    then have "2 ^ 64 \<le> uint acc * base + d" using up qr assms(3) by (simp add: algebra_simps)
    then show ?thesis using 1 by (simp add: word_less_def q)
  next
    case 2
    have "2 ^ 64 \<le> uint acc * base + d \<longleftrightarrow> d > R" unfolding 2 using qr by linarith
    moreover have "acc = ULONG_MAX div of_int base" using 2 q by (simp add: word_uint_eq_iff)
    ultimately show ?thesis using r by simp
  next
    case 3
    then have "uint acc * base + d < 2 ^ 64" using down qr assms(4) by (simp add: algebra_simps)
    moreover have "\<not> acc > ULONG_MAX div of_int base" "acc \<noteq> ULONG_MAX div of_int base"
      using 3 q by (auto simp: word_less_def)
    ultimately show ?thesis by simp
  qed
qed

lemma strtoul_loop_digits:
  assumes base: "1 \<le> base" "base \<le> 36" and "list_all (is_digit base) cs" "stops base rest" "0 \<le> any"
    and cut: "\<And>acc d. \<lbrakk>0 \<le> d; d < base\<rbrakk> \<Longrightarrow> (acc > cutoff \<or> (acc = cutoff \<and> d > cutlim)) = (2 ^ 64 \<le> uint acc * base + d)"
  shows "strtoul_loop (pre @ cs @ rest) base cutoff cutlim (getc (cs @ rest) 0) (Suc (length pre)) acc any
    = (let v = num_value base (uint acc) cs in
       if v < 2 ^ 64 then (of_int v, if cs = [] then any else 1, Suc (length pre + length cs))
       else (ULONG_MAX, -1, Suc (length pre + length cs)))"
  using assms(3-5)
proof (induction cs arbitrary: pre acc any)
  case Nil
  have "uint acc < 2 ^ 64" by (rule order_less_le_trans [OF unsigned_less]) simp
  then show ?case using Nil base(2) by (simp add: strtoul_loop_stops)
next
  case (Cons c cs)
  from Cons.prems have cs: "list_all (is_digit base) cs" by simp
  from Cons.prems obtain d where d: "digit_value (uint c) = Some d" "0 \<le> d" "d < base" and dof: "digit_of c = Some d"
    by (auto elim: is_digitE)
  have step: "getc (pre @ c # cs @ rest) (Suc (length pre)) = getc (cs @ rest) 0"
    using getc_append [of "pre @ [c]" "cs @ rest"] by simp
  let ?acc = "uint acc * base + d"
  have nn: "0 \<le> ?acc" using d base by simp
  have loop: "strtoul_loop (pre @ (c # cs) @ rest) base cutoff cutlim (getc ((c # cs) @ rest) 0) (Suc (length pre)) acc any
      = (if 2 ^ 64 \<le> ?acc
         then strtoul_loop ((pre @ [c]) @ cs @ rest) base cutoff cutlim (getc (cs @ rest) 0) (Suc (length (pre @ [c]))) ULONG_MAX (-1)
         else strtoul_loop ((pre @ [c]) @ cs @ rest) base cutoff cutlim (getc (cs @ rest) 0) (Suc (length (pre @ [c])))
                (acc * of_int base + of_int d) 1)"
    unfolding cut [OF d(2,3), symmetric] using d step Cons.prems(3) by (subst strtoul_loop.simps) simp
  show ?case
  proof (cases "2 ^ 64 \<le> ?acc")
    case True
    then have "2 ^ 64 \<le> num_value base ?acc cs"
      using num_value_ge [OF nn _ cs] base by linarith
    then show ?thesis
      unfolding loop using True d dof strtoul_loop_saturated [OF cs Cons.prems(2) base(2), of "pre @ [c]"] by simp
  next
    case False
    have "uint (acc * of_int base + of_int d) = ?acc"
      using False nn base d by (simp add: uint_word_ariths uint_word_of_int)
    then show ?thesis
      unfolding loop using False d dof Cons.IH [OF cs Cons.prems(2), of "1" "pre @ [c]" "acc * of_int base + of_int d"]
      by (simp add: Let_def)
  qed
qed

section \<open>The conversion\<close>

lemma skip_space_none: "\<not> isspace (getc str s) \<Longrightarrow> skip_space str s = (getc str s, Suc s)"
  by (subst skip_space.simps) simp

text \<open>White space, signs and the letters of a hexadecimal prefix are no digits of base 16 and below.\<close>

lemma table_digits:
  "list_all (\<lambda>x. (isspace x \<or> x = 45 \<or> x = 43 \<longrightarrow> digit_value x = None)
      \<and> (x = 120 \<or> x = 88 \<longrightarrow> digit_value x = Some 33)) [0..255]"
  by code_simp

lemma digit_not_special:
  assumes "is_digit base c"
  shows "\<not> isspace (uint c)" "uint c \<noteq> 45" "uint c \<noteq> 43" "base = 16 \<Longrightarrow> uint c \<noteq> 120" "base = 16 \<Longrightarrow> uint c \<noteq> 88"
proof -
  have "uint c < 256" by (rule order_less_le_trans [OF unsigned_less]) simp
  then have "uint c \<in> set [0..255]" by simp
  then show "\<not> isspace (uint c)" "uint c \<noteq> 45" "uint c \<noteq> 43" "base = 16 \<Longrightarrow> uint c \<noteq> 120" "base = 16 \<Longrightarrow> uint c \<noteq> 88"
    using table_digits assms unfolding list_all_iff by (fastforce elim: is_digitE)+
qed

lemma strtoul_number:
  assumes "2 \<le> base" "base \<le> 36" "cs \<noteq> []" "list_all (is_digit base) cs" "stops base rest"
    and "base = 16 \<longrightarrow> take 1 rest \<notin> {[120], [88]}"
  shows "strtoul (cs @ rest) base
    = (if num_value base 0 cs < 2 ^ 64 then of_int (num_value base 0 cs) else ULONG_MAX, length cs)"
proof -
  from assms(3) obtain c cs' where cs: "cs = c # cs'" by (cases cs) auto
  then have c: "\<not> isspace (uint c)" "uint c \<noteq> 45" "uint c \<noteq> 43" using assms(4) digit_not_special by auto
  have prefix: "\<not> (base = 16 \<and> uint c = 48 \<and> (getc (cs @ rest) (Suc 0) = 120 \<or> getc (cs @ rest) (Suc 0) = 88))"
  proof (cases cs')
    case Nil
    then show ?thesis using assms(6) cs by (cases rest) (auto simp: getc_def word_uint_eq_iff)
  next
    case (Cons b cs'')
    then show ?thesis using assms(4) digit_not_special(4,5) [of base b] cs by (auto simp: getc_def)
  qed
  have "strtoul_loop (cs @ rest) base (ULONG_MAX div of_int base) (uint (ULONG_MAX mod of_int base)) (getc (cs @ rest) 0) 1 0 0
    = (let v = num_value base 0 cs in
       if v < 2 ^ 64 then (of_int v, if cs = [] then 0 else 1, Suc (length cs)) else (ULONG_MAX, -1, Suc (length cs)))"
    using strtoul_loop_digits [OF _ assms(2,4,5), of 0 "ULONG_MAX div of_int base" "uint (ULONG_MAX mod of_int base)" "[]" 0]
      overflow_test [OF assms(1,2)] assms(1) by (simp add: Let_def)
  then show ?thesis
    using c prefix assms(1) by (auto simp: strtoul_def skip_space_none cs Let_def)
qed

text \<open>C32: A non-empty sequence of digits of a base from 2 to 36 that is not followed by a further digit (nor by the
  \<^verbatim>\<open>x\<close> of a hexadecimal prefix) is converted to its value, or to \<^verbatim>\<open>ULONG_MAX\<close> exactly if the value does not
  fit 64 bits, and \<^verbatim>\<open>endptr\<close> points behind the last digit.\<close>

theorem strtoul_digits:
  assumes "2 \<le> base" "base \<le> 36" "cs \<noteq> []" "list_all (is_digit base) cs" "stops base rest"
    and "base = 16 \<longrightarrow> take 1 rest \<notin> {[120], [88]}"
  shows "strtoul (cs @ rest) base
    = (if num_value base 0 cs < 2 ^ 64 then of_int (num_value base 0 cs) else ULONG_MAX, length cs)"
  using assms by (rule strtoul_number)

theorem strtoul_digits_witness: "strtoul [49, 48, 102, 32] 16 = (0x10F, 3)"
proof -
  have "list_all (is_digit 16) [49, 48, 102]" "stops 16 [32]" "num_value 16 0 [49, 48, 102] = 0x10F" by code_simp+
  then show ?thesis using strtoul_digits [of 16 "[49, 48, 102]" "[32]"] by simp
qed

end
