(* ===== verification/Cpio.thy ===== *)
theory Cpio
  imports Vfs_Types Block_Device Strtoul
begin

text \<open>
  The read-only file system on a cpio archive (\<^verbatim>\<open>src/fs/cpio/cpio.c\<close>), in the ``newc'' format. Its data are the
  block devices. A name is converted to a string up to its terminating zero; an archive whose name overruns the buffer of
  \<^verbatim>\<open>VFS_MAX_PATH\<close> bytes, or is not terminated, stops the model.
\<close>

section \<open>Block devices\<close>

text \<open>The \<open>n\<close>-th read gets its bounce buffer from \<^verbatim>\<open>malloc\<close> if \<open>alloc_ok n\<close>.\<close>

record 'd block_world =
  blocks :: "dev_ptr \<Rightarrow> 'd block_t option"
  alloc_ok :: "nat \<Rightarrow> bool"
  alloc_no :: nat

definition dev_read :: "'d block_world \<Rightarrow> dev_ptr option \<Rightarrow> u64 \<Rightarrow> u64 \<Rightarrow> ('d block_world \<times> u8 list \<times> u64) option" where
  "dev_read w dev off count =
     (case dev of
        None \<Rightarrow> Some (w, [], 0)
      | Some d \<Rightarrow> do {
          blk \<leftarrow> blocks w d;
          (blk', bs, rd) \<leftarrow> block_read (alloc_ok w (alloc_no w)) blk 1 off count;
          Some (w\<lparr>blocks := (blocks w)(d \<mapsto> blk'), alloc_no := Suc (alloc_no w)\<rparr>, bs, rd)
        })"

section \<open>Headers\<close>

record cpio_newc_header_t =
  c_magic :: "u8 list"
  c_ino :: "u8 list"
  c_mode :: "u8 list"
  c_uid :: "u8 list"
  c_gid :: "u8 list"
  c_nlink :: "u8 list"
  c_mtime :: "u8 list"
  c_filesize :: "u8 list"
  c_devmajor :: "u8 list"
  c_devminor :: "u8 list"
  c_rdevmajor :: "u8 list"
  c_rdevminor :: "u8 list"
  c_namesize :: "u8 list"
  c_check :: "u8 list"

abbreviation HEADER_SIZE :: u64 where "HEADER_SIZE \<equiv> 110"

definition header_of_bytes :: "u8 list \<Rightarrow> cpio_newc_header_t" where
  "header_of_bytes bs =
     (let field = (\<lambda>i. take 8 (drop (6 + 8 * i) bs)) in
      \<lparr>c_magic = take 6 bs, c_ino = field 0, c_mode = field 1, c_uid = field 2, c_gid = field 3,
       c_nlink = field 4, c_mtime = field 5, c_filesize = field 6, c_devmajor = field 7, c_devminor = field 8,
       c_rdevmajor = field 9, c_rdevminor = field 10, c_namesize = field 11, c_check = field 12\<rparr>)"

definition string_of_bytes :: "u8 list \<Rightarrow> string" where
  "string_of_bytes bs = map (\<lambda>b. char_of (unat b)) (takeWhile (\<lambda>b. b \<noteq> 0) bs)"

text \<open>\<^verbatim>\<open>memcpy(buf, field, 8)\<close> and \<^verbatim>\<open>strtoul(buf, NULL, 16)\<close>, stored in a \<^verbatim>\<open>u32_t\<close>.\<close>

definition hex_field :: "u8 list \<Rightarrow> u32" where
  "hex_field f = ucast (fst (strtoul (takeWhile (\<lambda>b. b \<noteq> 0) f) 16))"

record cpio_entry =
  ent_size :: u32
  ent_name_size :: u32
  ent_mode :: u32
  ent_mtime :: u32
  ent_path :: string

text \<open>The part the loops of \<^verbatim>\<open>cpio_readdir\<close> and \<^verbatim>\<open>cpio_lookup\<close> share: the entry at offset
  \<open>toff\<close>, or nothing where they return -1.\<close>

definition read_entry :: "'d block_world \<Rightarrow> dev_ptr option \<Rightarrow> u64 \<Rightarrow> ('d block_world \<times> cpio_entry option) option" where
  "read_entry w dev toff = do {
     (w1, hbytes, rd) \<leftarrow> dev_read w dev toff HEADER_SIZE;
     let h = header_of_bytes hbytes;
     if rd \<noteq> HEADER_SIZE then Some (w1, None)
     else if c_magic h \<noteq> bytes_of_string ''070701'' then Some (w1, None)
     else do {
       let size = hex_field (c_filesize h);
       let name_size = hex_field (c_namesize h);
       let mode = hex_field (c_mode h);
       let mtime = hex_field (c_mtime h);
       (w2, name, rd) \<leftarrow> dev_read w1 dev (toff + HEADER_SIZE) (ucast name_size);
       if rd = 0 then Some (w2, None)
       else do {
         assert_that (length name \<le> VFS_MAX_PATH \<and> 0 \<in> set name);
         let path = string_of_bytes name;
         if size = 0 \<and> mode = 0 \<and> name_size = 11 \<and> take 10 path = ''TRAILER!!!'' then Some (w2, None)
         else Some (w2, Some \<lparr>ent_size = size, ent_name_size = name_size, ent_mode = mode,
                              ent_mtime = mtime, ent_path = path\<rparr>)
       }
     }
   }"

text \<open>Where the contents of an entry start, and where the next entry is.\<close>

definition entry_data :: "u64 \<Rightarrow> cpio_entry \<Rightarrow> u64" where
  "entry_data off e = off + HEADER_SIZE + ucast (((ent_name_size e + 1) AND NOT 3) + 2)"

definition entry_next :: "u64 \<Rightarrow> cpio_entry \<Rightarrow> u64" where
  "entry_next off e =
     (off + HEADER_SIZE + ucast ((((ent_name_size e + 1) AND NOT 3) + 2) + ent_size e) + 3) AND NOT 3"

section \<open>Paths\<close>

definition skip_slash :: "string \<Rightarrow> string" where
  "skip_slash s = (case s of [] \<Rightarrow> [] | c # r \<Rightarrow> if c = CHR ''/'' then r else s)"

text \<open>The result buffer has \<^verbatim>\<open>VFS_MAX_NAME\<close> bytes; \<open>Some None\<close> is the result \<^verbatim>\<open>FALSE\<close>.\<close>

definition get_next_token :: "string \<Rightarrow> string \<Rightarrow> string option option" where
  "get_next_token path prefix = (
     let path1 = skip_slash path;
         prefix1 = skip_slash prefix;
         l = length prefix1 in
     if take l path1 \<noteq> prefix1 then Some None
     else
       let p0 = drop l path1;
           p = skip_slash p0;
           tok = takeWhile (\<lambda>c. c \<noteq> CHR ''/'') p;
           q = dropWhile (\<lambda>c. c \<noteq> CHR ''/'') p in
       if p0 = [] \<or> p = [] then Some None
       else if q \<noteq> [] \<and> tl q \<noteq> [] then Some None
       else if length tok < VFS_MAX_NAME then Some (Some tok)
       else None)"

definition check_path :: "string \<Rightarrow> string \<Rightarrow> string \<Rightarrow> bool" where
  "check_path path prefix name = (
     let path1 = skip_slash path;
         prefix1 = skip_slash prefix;
         l = length prefix1 in
     if l \<noteq> 0 \<and> take l path1 \<noteq> prefix1 then False
     else skip_slash (drop l path1) = name)"

section \<open>Operations\<close>

type_synonym 'd cpio_mem = "'d block_world vfs_mem"

definition cpio_mount :: "mount_ptr \<Rightarrow> string option \<Rightarrow> ('d block_world, int) fs_op" where
  "cpio_mount m dev hp = do {
     mt \<leftarrow> mounts hp m;
     if dev = None then Some (hp, -1)
     else do {
       d \<leftarrow> m_dev mt;
       blk \<leftarrow> blocks (world hp) d;
       if block_capacity blk \<le> HEADER_SIZE then Some (hp, -1)
       else do {
         (w1, hbytes, rd) \<leftarrow> dev_read (world hp) (m_dev mt) 0 HEADER_SIZE;
         let hp1 = hp\<lparr>world := w1\<rparr>;
         if rd \<noteq> HEADER_SIZE then Some (hp1, -1)
         else if c_magic (header_of_bytes hbytes) \<noteq> bytes_of_string ''070701'' then Some (hp1, -1)
         else do {
           root \<leftarrow> m_root mt;
           rv \<leftarrow> nodes hp1 root;
           Some (hp1\<lparr>mounts := (mounts hp1)(m \<mapsto> mt\<lparr>m_flags := m_flags mt OR MOUNT_RO, m_data := 0\<rparr>),
                      nodes := (nodes hp1)(root \<mapsto> rv\<lparr>v_data := 0\<rparr>)\<rparr>, 0)
         }
       }
     }
   }"

definition cpio_unmount :: "mount_ptr \<Rightarrow> ('d block_world, int) fs_op" where
  "cpio_unmount m hp = do {
     mt \<leftarrow> mounts hp m;
     Some (hp\<lparr>mounts := (mounts hp)(m \<mapsto> mt\<lparr>m_data := 0\<rparr>)\<rparr>, 0)
   }"

definition cpio_msync :: "mount_ptr \<Rightarrow> ('d block_world, int) fs_op" where
  "cpio_msync m hp = Some (hp, 0)"

definition cpio_vget :: "mount_ptr \<Rightarrow> node_ptr \<Rightarrow> ('d block_world, int) fs_op" where
  "cpio_vget m n hp = Some (hp, 0)"

definition cpio_vput :: "mount_ptr \<Rightarrow> node_ptr \<Rightarrow> ('d block_world, int) fs_op" where
  "cpio_vput m n hp = Some (hp, 0)"

definition cpio_read :: "node_ptr \<Rightarrow> s64 \<Rightarrow> u64 \<Rightarrow> ('d block_world, u8 list \<times> u64) fs_op" where
  "cpio_read n off len hp = do {
     v \<leftarrow> nodes hp n;
     mt \<leftarrow> mounts hp (v_mount v);
     if v_type v \<noteq> VNT_REG then Some (hp, [], 0)
     else if sint off \<ge> sint (v_size v) then Some (hp, [], 0)
     else do {
       assert_that (sint (v_size v) - sint off < 2 ^ 63);
       let sz = (if v_size v - off < len then v_size v - off else len);
       (w1, bs, rd) \<leftarrow> dev_read (world hp) (m_dev mt) (v_data v + off) sz;
       Some (hp\<lparr>world := w1\<rparr>, bs, rd)
     }
   }"

definition cpio_write :: "node_ptr \<Rightarrow> s64 \<Rightarrow> u8 list \<Rightarrow> u64 \<Rightarrow> ('d block_world, u64) fs_op" where
  "cpio_write n off buf len hp = Some (hp, 0)"

definition cpio_truncate :: "node_ptr \<Rightarrow> s64 \<Rightarrow> ('d block_world, int) fs_op" where
  "cpio_truncate n off hp = Some (hp, -1)"

definition cpio_sync :: "node_ptr \<Rightarrow> ('d block_world, int) fs_op" where
  "cpio_sync n hp = Some (hp, 0)"

text \<open>The file type bits of a mode, as the chain of comparisons in both functions has them.\<close>

definition cpio_dirent_type :: "u32 \<Rightarrow> vfs_dirent_type_t" where
  "cpio_dirent_type mode = (
     let fmt = mode AND 0xF000 in
     if fmt = 0xC000 then VDT_SOCK
     else if fmt = 0xA000 then VDT_LNK
     else if fmt = 0x8000 then VDT_REG
     else if fmt = 0x6000 then VDT_BLK
     else if fmt = 0x4000 then VDT_DIR
     else if fmt = 0x2000 then VDT_CHR
     else if fmt = 0x1000 then VDT_FIFO
     else VDT_REG)"

partial_function (option) readdir_loop :: "'d block_world \<Rightarrow> dev_ptr option \<Rightarrow> string \<Rightarrow> s64 \<Rightarrow> u64 \<Rightarrow> int
    \<Rightarrow> ('d block_world \<times> (cpio_entry \<times> string) option) option" where
  "readdir_loop w dev prefix off toff i = do {
     (w1, ent) \<leftarrow> read_entry w dev toff;
     case ent of
       None \<Rightarrow> Some (w1, None)
     | Some e \<Rightarrow>
         if take 1 (ent_path e) = ''.'' then readdir_loop w1 dev prefix off (entry_next toff e) i
         else do {
           tok \<leftarrow> get_next_token (ent_path e) prefix;
           case tok of
             None \<Rightarrow> readdir_loop w1 dev prefix off (entry_next toff e) i
           | Some name \<Rightarrow>
               if i = sint off then Some (w1, Some (e, name))
               else readdir_loop w1 dev prefix off (entry_next toff e) (i + 1)
         }
   }"

definition empty_dirent :: vfs_dirent_t where
  "empty_dirent = \<lparr>d_off = 0, d_reclen = 0, d_type = VDT_UNK, d_name = []\<rparr>"

definition cpio_readdir :: "node_ptr \<Rightarrow> s64 \<Rightarrow> ('d block_world, vfs_dirent_t \<times> int) fs_op" where
  "cpio_readdir dn off hp = do {
     v \<leftarrow> nodes hp dn;
     mt \<leftarrow> mounts hp (v_mount v);
     (w1, r) \<leftarrow> readdir_loop (world hp) (m_dev mt) (v_path v) off 0 0;
     let hp1 = hp\<lparr>world := w1\<rparr>;
     case r of
       None \<Rightarrow> Some (hp1, empty_dirent, -1)
     | Some (e, name) \<Rightarrow>
         Some (hp1, \<lparr>d_off = off, d_reclen = 1, d_type = cpio_dirent_type (ent_mode e), d_name = name\<rparr>, 0)
   }"

partial_function (option) cpio_lookup_loop :: "'d block_world \<Rightarrow> dev_ptr option \<Rightarrow> string \<Rightarrow> string \<Rightarrow> u64
    \<Rightarrow> ('d block_world \<times> (cpio_entry \<times> u64) option) option" where
  "cpio_lookup_loop w dev prefix name off = do {
     (w1, ent) \<leftarrow> read_entry w dev off;
     case ent of
       None \<Rightarrow> Some (w1, None)
     | Some e \<Rightarrow>
         if take 1 (ent_path e) \<noteq> ''.'' \<and> check_path (ent_path e) prefix name then Some (w1, Some (e, off))
         else cpio_lookup_loop w1 dev prefix name (entry_next off e)
   }"

definition cpio_node_type :: "u32 \<Rightarrow> vfs_node_type_t \<times> u32" where
  "cpio_node_type mode = (
     let fmt = mode AND 0xF000 in
     if fmt = 0xC000 then (VNT_SOCK, S_IFSOCK)
     else if fmt = 0xA000 then (VNT_LNK, S_IFLNK)
     else if fmt = 0x8000 then (VNT_REG, S_IFREG)
     else if fmt = 0x6000 then (VNT_BLK, S_IFBLK)
     else if fmt = 0x4000 then (VNT_DIR, S_IFDIR)
     else if fmt = 0x2000 then (VNT_CHR, S_IFCHR)
     else if fmt = 0x1000 then (VNT_FIFO, S_IFIFO)
     else (VNT_REG, 0))"

definition cpio_node_mode :: "u32 \<Rightarrow> u32" where
  "cpio_node_mode mode =
     snd (cpio_node_type mode)
     OR (if mode AND 0x100 \<noteq> 0 then 0x100 else 0)
     OR (if mode AND 0x80 \<noteq> 0 then 0x80 else 0)
     OR (if mode AND 0x40 \<noteq> 0 then 0x40 else 0)
     OR (if mode AND 0x20 \<noteq> 0 then 0x20 else 0)
     OR (if mode AND 0x10 \<noteq> 0 then 0x10 else 0)
     OR (if mode AND 0x8 \<noteq> 0 then 0x8 else 0)
     OR (if mode AND 0x4 \<noteq> 0 then 0x4 else 0)
     OR (if mode AND 0x2 \<noteq> 0 then 0x2 else 0)
     OR (if mode AND 0x1 \<noteq> 0 then 0x1 else 0)"

definition cpio_lookup :: "node_ptr \<Rightarrow> string \<Rightarrow> node_ptr \<Rightarrow> ('d block_world, int) fs_op" where
  "cpio_lookup dn name n hp = do {
     dv \<leftarrow> nodes hp dn;
     mt \<leftarrow> mounts hp (v_mount dv);
     (w1, r) \<leftarrow> cpio_lookup_loop (world hp) (m_dev mt) (v_path dv) name 0;
     let hp1 = hp\<lparr>world := w1\<rparr>;
     case r of
       None \<Rightarrow> Some (hp1, -1)
     | Some (e, off) \<Rightarrow> do {
         v \<leftarrow> nodes hp1 n;
         let v' = v\<lparr>v_atime := ucast (ent_mtime e), v_mtime := ucast (ent_mtime e), v_ctime := ucast (ent_mtime e),
                    v_type := fst (cpio_node_type (ent_mode e)), v_mode := cpio_node_mode (ent_mode e),
                    v_size := ucast (ent_size e), v_data := entry_data off e\<rparr>;
         Some (hp1\<lparr>nodes := (nodes hp1)(n \<mapsto> v')\<rparr>, 0)
       }
   }"

definition cpio_create :: "node_ptr \<Rightarrow> string \<Rightarrow> u32 \<Rightarrow> ('d block_world, int) fs_op" where
  "cpio_create dn filename mode hp = Some (hp, -1)"

definition cpio_remove :: "node_ptr \<Rightarrow> node_ptr \<Rightarrow> string \<Rightarrow> ('d block_world, int) fs_op" where
  "cpio_remove dn n name hp = Some (hp, -1)"

definition cpio_rename :: "node_ptr \<Rightarrow> string \<Rightarrow> node_ptr \<Rightarrow> node_ptr \<Rightarrow> string \<Rightarrow> ('d block_world, int) fs_op" where
  "cpio_rename sn sname n dn dname hp = Some (hp, -1)"

definition cpio_mkdir :: "node_ptr \<Rightarrow> string \<Rightarrow> u32 \<Rightarrow> ('d block_world, int) fs_op" where
  "cpio_mkdir dn name mode hp = Some (hp, -1)"

definition cpio_rmdir :: "node_ptr \<Rightarrow> node_ptr \<Rightarrow> string \<Rightarrow> ('d block_world, int) fs_op" where
  "cpio_rmdir dn n name hp = Some (hp, -1)"

definition cpio_chmod :: "node_ptr \<Rightarrow> u32 \<Rightarrow> ('d block_world, int) fs_op" where
  "cpio_chmod n mode hp = Some (hp, -1)"

text \<open>The constructor of the class.\<close>

definition cpio :: "'d block_world filesystem_t" where
  "cpio =
     \<lparr>fs_mount = cpio_mount, fs_unmount = cpio_unmount, fs_msync = cpio_msync, fs_vget = cpio_vget,
      fs_vput = cpio_vput, fs_read = cpio_read, fs_write = cpio_write, fs_truncate = cpio_truncate,
      fs_sync = cpio_sync, fs_readdir = cpio_readdir, fs_lookup = cpio_lookup, fs_create = cpio_create,
      fs_remove = cpio_remove, fs_rename = cpio_rename, fs_mkdir = cpio_mkdir, fs_rmdir = cpio_rmdir,
      fs_chmod = cpio_chmod\<rparr>"

text \<open>What the virtual file system sees of the kernel when this is the only file system.\<close>

definition cpio_env :: "(string \<Rightarrow> dev_ptr option) \<Rightarrow> 'd block_world vfs_env" where
  "cpio_env devs =
     \<lparr>filesystems = (\<lambda>name. if name = ''cpio'' then Some cpio else None),
      block_devices = devs,
      env_block_sync = (\<lambda>d w. case blocks w d of
                                None \<Rightarrow> w
                              | Some blk \<Rightarrow> w\<lparr>blocks := (blocks w)(d \<mapsto> block_sync blk)\<rparr>)\<rparr>"

end
