(* ===== verification/Block_Transfer.thy ===== *)
theory Block_Transfer
  imports Block_Device
begin

text \<open>
  Byte-granular transfers refine the device's contents as a list of bytes: \<^verbatim>\<open>block_read\<close> delivers a part of
  it and \<^verbatim>\<open>block_write\<close> replaces one, for every driver that moves whole blocks correctly.
\<close>

section \<open>Chunks\<close>

definition chunk :: "'a list \<Rightarrow> nat \<Rightarrow> nat \<Rightarrow> 'a list" where
  "chunk xs pos n = take n (drop pos xs)"

lemma length_chunk [simp]: "length (chunk xs pos n) = min n (length xs - pos)"
  by (simp add: chunk_def)

lemma chunk_0 [simp]: "chunk xs pos 0 = []"
  by (simp add: chunk_def)

lemma chunk_append: "chunk xs pos n @ chunk xs (pos + n) k = chunk xs pos (n + k)"
  unfolding chunk_def take_add by (simp add: add.commute)

lemma chunk_chunk: "a + n \<le> k \<Longrightarrow> chunk (chunk xs pos k) a n = chunk xs (pos + a) n"
  by (simp add: chunk_def drop_take add.commute min_def)

section \<open>The contract of a driver\<close>

text \<open>A request of less than $2^{32}$ bytes inside the device succeeds; \<open>disk\<close> is the contents.\<close>

locale block_driver =
  fixes rd :: "'d \<Rightarrow> u64 \<Rightarrow> u64 \<Rightarrow> ('d \<times> u8 list \<times> u64) option"
    and wr :: "'d \<Rightarrow> u8 list \<Rightarrow> u64 \<Rightarrow> u64 \<Rightarrow> ('d \<times> u64) option"
    and bsz :: u64 and cnt :: u64 and disk :: "'d \<Rightarrow> u8 list" and dinv :: "'d \<Rightarrow> bool"
  assumes geometry: "0 < unat bsz" "unat bsz < 2 ^ 32" "unat bsz * unat cnt < 2 ^ 64"
    and disk_length: "dinv d \<Longrightarrow> length (disk d) = unat bsz * unat cnt"
    and rd_ok: "\<lbrakk>dinv d; unat no + unat n \<le> unat cnt; unat n * unat bsz < 2 ^ 32\<rbrakk>
        \<Longrightarrow> \<exists>d'. rd d no n = Some (d', chunk (disk d) (unat no * unat bsz) (unat n * unat bsz), n) \<and> disk d' = disk d \<and> dinv d'"
    and wr_ok: "\<lbrakk>dinv d; unat no + unat n \<le> unat cnt; unat n * unat bsz < 2 ^ 32; length bs = unat n * unat bsz\<rbrakk>
        \<Longrightarrow> \<exists>d'. wr d bs no n = Some (d', n) \<and> disk d' = patch (disk d) (unat no * unat bsz) bs \<and> dinv d'"
begin

text \<open>A device with this driver.\<close>

definition drives :: "'d block_t \<Rightarrow> bool" where
  "drives blk \<longleftrightarrow> blk_read blk = rd \<and> blk_write blk = wr \<and> blksz blk = bsz \<and> blkcnt blk = cnt \<and> dinv (blk_state blk)"

definition contents :: "'d block_t \<Rightarrow> u8 list" where
  "contents blk = disk (blk_state blk)"

lemma drives_state: "drives blk \<Longrightarrow> dinv d \<Longrightarrow> drives (blk\<lparr>blk_state := d\<rparr>)"
  by (simp add: drives_def)

lemma contents_length: "drives blk \<Longrightarrow> length (contents blk) = unat bsz * unat cnt"
  by (simp add: drives_def contents_def disk_length)

lemma unat_capacity: "drives blk \<Longrightarrow> unat (block_capacity blk) = unat bsz * unat cnt"
  using geometry by (simp add: drives_def block_capacity_def unat_word_ariths)

lemma driver_read:
  assumes "drives blk" "unat no + unat n \<le> unat cnt" "unat n * unat bsz < 2 ^ 32"
  obtains d where "blk_read blk (blk_state blk) no n
      = Some (d, chunk (contents blk) (unat no * unat bsz) (unat n * unat bsz), n)"
    "drives (blk\<lparr>blk_state := d\<rparr>)" "contents (blk\<lparr>blk_state := d\<rparr>) = contents blk"
  using rd_ok [of "blk_state blk" no n] assms by (auto simp: drives_def contents_def)

end

section \<open>Reading\<close>

text \<open>The state between the parts of a read of \<open>amount\<close> bytes at \<open>off\<close>: \<open>out\<close> is what has been delivered.\<close>

context block_driver
begin

definition read_state :: "u8 list \<Rightarrow> nat \<Rightarrow> nat \<Rightarrow> u8 list \<Rightarrow> u64 \<Rightarrow> u64 \<Rightarrow> u64 \<Rightarrow> bool" where
  "read_state D off amount out count no ret \<longleftrightarrow>
     out = chunk D off (length out) \<and> length out + unat count = amount \<and> unat ret = length out \<and>
     (unat count = 0 \<or> unat no * unat bsz = off + length out)"

lemma read_head_spec:
  assumes blk: "drives blk" and off: "unat off + unat count \<le> unat bsz * unat cnt" "0 < unat count" "unat count < 2 ^ 32"
  obtains blk' out c no ret where
    "read_head blk (off div block_size blk) (off mod block_size blk) count = Some (blk', Inr (out, c, no, ret))"
    "drives blk'" "contents blk' = contents blk" "read_state (contents blk) (unat off) (unat count) out c no ret"
proof -
  let ?B = "unat bsz"
  have bs: "block_size blk = bsz" using blk by (simp add: drives_def block_size_def)
  have B: "0 < ?B" by (rule geometry)
  have q: "unat (off div bsz) = unat off div ?B" and t: "unat (off mod bsz) = unat off mod ?B"
    by (simp_all add: unat_div unat_mod)
  have "unat off < unat bsz * unat cnt" using off by simp
  then have qN: "unat off div ?B < unat cnt" using B by (simp add: less_mult_imp_div_less mult.commute)
  show thesis
  proof (cases "off mod bsz = 0")
    case True
    then have "unat off mod ?B = 0" using t by simp
    then have "unat off div ?B * ?B = unat off" by (metis add_0_right div_mult_mod_eq)
    then show thesis
      using True blk q by (intro that [of blk "[]" count "off div bsz" 0]) (auto simp: read_head_def bs read_state_def)
  next
    case False
    then have tpos: "off mod bsz > 0" by (simp add: word_gt_0)
    let ?t = "off mod bsz"
    have tB: "unat ?t < ?B" using B t by simp
    have sub: "unat (bsz - ?t) = ?B - unat ?t" using tB by (intro unat_sub) (simp add: word_le_nat_alt)
    define len where "len = (if count < bsz - ?t then count else bsz - ?t)"
    have len: "unat len = min (unat count) (?B - unat ?t)"
      using sub by (auto simp: len_def word_less_nat_alt)
    obtain d where d: "blk_read blk (blk_state blk) (off div bsz) 1
        = Some (d, chunk (contents blk) (unat (off div bsz) * ?B) (unat (1 :: u64) * ?B), 1)"
      "drives (blk\<lparr>blk_state := d\<rparr>)" "contents (blk\<lparr>blk_state := d\<rparr>) = contents blk"
      by (rule driver_read [OF blk, of "off div bsz" 1]) (use qN q geometry in auto)
    let ?out = "chunk (contents blk) (unat off) (unat len)"
    have pos: "unat off div ?B * ?B + unat off mod ?B = unat off" by simp
    have le: "unat ?t + unat len \<le> ?B" using len tB by simp
    have out: "take (unat len) (drop (unat ?t) (chunk (contents blk) (unat (off div bsz) * ?B) (unat (1 :: u64) * ?B))) = ?out"
      using chunk_chunk [OF le, of "contents blk" "unat off div ?B * ?B"] t q pos
      by (simp add: chunk_def [of _ "unat off mod ?B", symmetric])
    have lo: "length ?out = unat len"
      using contents_length [OF blk] off len by simp
    have cl: "unat (count - len) = unat count - unat len"
      using len by (intro unat_sub) (simp add: word_le_nat_alt)
    have "unat cnt < 2 ^ 64" using unsigned_less [of cnt] by simp
    then have no1: "unat (off div bsz + 1) = unat off div ?B + 1"
      using qN q by (subst unat_add_lem [THEN iffD1]) simp_all
    have "read_head blk (off div block_size blk) (off mod block_size blk) count
        = Some (blk\<lparr>blk_state := d\<rparr>, Inr (?out, count - len, off div bsz + 1, len))"
      using tpos d(1) out by (cases "count < bsz - ?t") (simp_all add: read_head_def bs Let_def len_def)
    moreover have "read_state (contents blk) (unat off) (unat count) ?out (count - len) (off div bsz + 1) len"
      unfolding read_state_def lo no1 cl
    proof (intro conjI)
      have "unat count - unat len = 0 \<or> unat len = ?B - unat ?t" using len by (auto simp: min_def split: if_splits)
      moreover have "(unat off div ?B + 1) * ?B = unat off + (?B - unat off mod ?B)"
        using tB div_mult_mod_eq [of "unat off" ?B] mod_less_divisor [of ?B "unat off"] by (simp only: distrib_right t)
      ultimately show "unat count - unat len = 0 \<or> (unat off div ?B + 1) * ?B = unat off + unat len"
        using t by auto
    qed (use len in auto)
    ultimately show thesis using d by (intro that)
  qed
qed

lemma read_body_spec:
  assumes blk: "drives blk" and st: "read_state (contents blk) off amount out count no ret"
    and room: "off + amount \<le> unat bsz * unat cnt" "amount < 2 ^ 32"
  obtains blk' out' c' no' ret' where "read_body blk out count no ret = Some (blk', Inr (out', c', no', ret'))"
    "drives blk'" "contents blk' = contents blk" "read_state (contents blk) off amount out' c' no' ret'" "unat c' < unat bsz"
proof -
  let ?B = "unat bsz"
  have bs: "block_size blk = bsz" using blk by (simp add: drives_def block_size_def)
  have B: "0 < ?B" by (rule geometry)
  have k: "unat (count div bsz) = unat count div ?B" by (simp add: unat_div)
  show thesis
  proof (cases "count div bsz = 0")
    case True
    then have "unat count < ?B" using k B by (simp add: div_eq_0_iff)
    then show thesis using True blk st by (intro that [of blk out count no ret]) (auto simp: read_body_def bs)
  next
    case False
    let ?n = "count div bsz"
    have pos: "?n > 0" using False by (simp add: word_gt_0)
    have cpos: "unat count \<noteq> 0" using False k by (auto simp: unat_eq_0)
    have at: "unat no * ?B = off + length out" and am: "length out + unat count = amount" and out: "out = chunk (contents blk) off (length out)"
      and ret: "unat ret = length out"
      using st cpos by (auto simp: read_state_def)
    have nB: "unat ?n * ?B \<le> unat count" using k by simp
    have "(unat no + unat ?n) * ?B \<le> unat cnt * ?B"
      using at am nB room(1) by (simp add: algebra_simps)
    then have fit: "unat no + unat ?n \<le> unat cnt" using B by simp
    have small: "unat ?n * ?B < 2 ^ 32" using nB am room(2) by linarith
    obtain d where d: "blk_read blk (blk_state blk) no ?n = Some (d, chunk (contents blk) (unat no * ?B) (unat ?n * ?B), ?n)"
      "drives (blk\<lparr>blk_state := d\<rparr>)" "contents (blk\<lparr>blk_state := d\<rparr>) = contents blk"
      using blk fit small by (rule driver_read)
    have len: "unat (?n * bsz) = unat ?n * ?B"
      using small by (simp add: unat_word_ariths)
    have cl: "unat (count - ?n * bsz) = unat count - unat ?n * ?B"
      using len nB by (subst unat_sub) (simp_all add: word_le_nat_alt)
    let ?out = "out @ chunk (contents blk) (unat no * ?B) (unat ?n * ?B)"
    have lo: "length (chunk (contents blk) (unat no * ?B) (unat ?n * ?B)) = unat ?n * ?B"
      using contents_length [OF blk] at am nB room(1) by simp
    have app: "?out = chunk (contents blk) off (length out + unat ?n * ?B)"
      using out chunk_append [of "contents blk" off "length out" "unat ?n * ?B"] at by simp
    have r': "unat (ret + ?n * bsz) = length out + unat ?n * ?B"
      using ret len am nB room(2) by (subst unat_add_lem [THEN iffD1]) simp_all
    have "read_body blk out count no ret = Some (blk\<lparr>blk_state := d\<rparr>, Inr (?out, count - ?n * bsz, no + ?n, ret + ?n * bsz))"
      using pos d(1) by (simp add: read_body_def bs Let_def)
    moreover have "read_state (contents blk) off amount ?out (count - ?n * bsz) (no + ?n) (ret + ?n * bsz)"
    proof -
      have lt: "unat cnt < 2 ^ 64" using unsigned_less [of cnt] by simp
      have no': "unat (no + ?n) = unat no + unat ?n" using fit lt by (subst unat_add_lem [THEN iffD1]) simp_all
      show ?thesis
        unfolding read_state_def length_append lo cl no' r' app
        using at am nB contents_length [OF blk] room(1) by (simp add: algebra_simps)
    qed
    moreover have "unat (count - ?n * bsz) < ?B"
      unfolding cl k using B by (simp add: minus_div_mult_eq_mod)
    ultimately show thesis using d(2,3) by (intro that)
  qed
qed

lemma read_tail_spec:
  assumes blk: "drives blk" and st: "read_state (contents blk) off amount out count no ret"
    and room: "off + amount \<le> unat bsz * unat cnt" "amount < 2 ^ 32" and rest: "unat count < unat bsz"
  obtains blk' where "read_tail blk out count no ret = Some (blk', chunk (contents blk) off amount, of_nat amount)"
    "drives blk'" "contents blk' = contents blk"
proof -
  let ?B = "unat bsz"
  have am: "length out + unat count = amount" and out: "out = chunk (contents blk) off (length out)" and ret: "unat ret = length out"
    using st by (auto simp: read_state_def)
  have ret': "ret = of_nat (length out)" by (simp flip: ret)
  show thesis
  proof (cases "count = 0")
    case True
    then show thesis using am out ret' blk by (intro that [of blk]) (auto simp: read_tail_def)
  next
    case False
    then have pos: "count > 0" "0 < unat count" by (simp_all add: word_gt_0 unat_gt_0)
    have at: "unat no * ?B = off + length out" using st pos(2) by (auto simp: read_state_def)
    have "unat no * ?B < unat cnt * ?B" using at am pos(2) room(1) by (simp add: algebra_simps)
    then have fit: "unat no + unat (1 :: u64) \<le> unat cnt" by simp
    have one: "unat (1 :: u64) * ?B < 2 ^ 32" using geometry by simp
    obtain d where d: "blk_read blk (blk_state blk) no 1 = Some (d, chunk (contents blk) (unat no * ?B) (unat (1 :: u64) * ?B), 1)"
      "drives (blk\<lparr>blk_state := d\<rparr>)" "contents (blk\<lparr>blk_state := d\<rparr>) = contents blk"
      using blk fit one by (rule driver_read)
    have part: "take (unat count) (chunk (contents blk) (unat no * ?B) ?B) = chunk (contents blk) (unat no * ?B) (unat count)"
      using rest by (simp add: chunk_def)
    have "out @ chunk (contents blk) (unat no * ?B) (unat count) = chunk (contents blk) off amount"
      using out chunk_append [of "contents blk" off "length out" "unat count"] at am by simp
    moreover have "ret + count = of_nat amount"
      using ret' by (simp flip: am)
    ultimately show thesis
      using pos d part by (intro that [of "blk\<lparr>blk_state := d\<rparr>"]) (simp_all add: read_tail_def)
  qed
qed

lemma block_read_spec:
  assumes blk: "drives blk" and buf: "buf \<noteq> 0" and small: "min (unat count) (unat bsz * unat cnt - unat off) < 2 ^ 32"
  obtains blk' where "block_read True blk buf off count
      = Some (blk', chunk (contents blk) (unat off) (unat count), of_nat (min (unat count) (unat bsz * unat cnt - unat off)))"
    "drives blk'" "contents blk' = contents blk"
proof -
  let ?C = "unat bsz * unat cnt"
  let ?cap = "block_capacity blk"
  have cap: "unat ?cap = ?C" using blk by (rule unat_capacity)
  have len: "length (contents blk) = ?C" using blk by (rule contents_length)
  have geo: "block_size blk = bsz" "block_count blk = cnt" "bsz \<noteq> 0"
    using blk geometry by (auto simp: drives_def block_size_def block_count_def)
  show thesis
  proof (cases "count = 0 \<or> cnt = 0 \<or> off \<ge> ?cap")
    case True
    then have "count = 0 \<or> ?C \<le> unat off"
      using cap by (auto simp: word_le_nat_alt)
    then have "chunk (contents blk) (unat off) (unat count) = []" "min (unat count) (?C - unat off) = 0"
      using len by (auto simp: chunk_def)
    then show thesis using True blk buf geo by (intro that [of blk]) (auto simp: block_read_def)
  next
    case False
    then have inside: "unat off < ?C" and pos: "count \<noteq> 0" "cnt \<noteq> 0" "\<not> off \<ge> ?cap"
      using cap by (auto simp: word_le_nat_alt)
    define c where "c = (if count > ?cap - off then ?cap - off else count)"
    have "unat (?cap - off) = ?C - unat off"
      using inside cap by (subst unat_sub) (simp_all add: word_le_nat_alt)
    then have c: "unat c = min (unat count) (?C - unat off)" by (auto simp: c_def word_less_nat_alt)
    have cpos: "0 < unat c" using c inside pos(1) by (simp add: unat_gt_0)
    have room: "unat off + unat c \<le> ?C" "unat c < 2 ^ 32" using c inside small by auto
    have eq: "chunk (contents blk) (unat off) (unat c) = chunk (contents blk) (unat off) (unat count)"
      using c len by (auto simp: chunk_def min_def)
    from blk room(1) cpos room(2) obtain blk1 out1 c1 no1 ret1
      where 1: "read_head blk (off div block_size blk) (off mod block_size blk) c = Some (blk1, Inr (out1, c1, no1, ret1))"
        "drives blk1" "contents blk1 = contents blk" "read_state (contents blk) (unat off) (unat c) out1 c1 no1 ret1"
      by (rule read_head_spec)
    from 1(2) 1(4) [folded 1(3)] room obtain blk2 out2 c2 no2 ret2
      where 2: "read_body blk1 out1 c1 no1 ret1 = Some (blk2, Inr (out2, c2, no2, ret2))"
        "drives blk2" "contents blk2 = contents blk1" "read_state (contents blk1) (unat off) (unat c) out2 c2 no2 ret2" "unat c2 < unat bsz"
      by (rule read_body_spec)
    from 2(2) 2(4) [folded 2(3)] room 2(5) obtain blk3
      where 3: "read_tail blk2 out2 c2 no2 ret2 = Some (blk3, chunk (contents blk2) (unat off) (unat c), of_nat (unat c))"
        "drives blk3" "contents blk3 = contents blk2"
      by (rule read_tail_spec)
    have "block_read True blk buf off count = read_parts blk off c"
      using pos buf geo by (simp add: block_read_def c_def)
    also have "\<dots> = Some (blk3, chunk (contents blk) (unat off) (unat count), of_nat (min (unat count) (?C - unat off)))"
      using 1(1) 2(1) 3(1) by (simp add: read_parts_def 2(3) 1(3) eq flip: c)
    finally show thesis by (rule that [OF _ 3(2)]) (simp add: 1(3) 2(3) 3(3))
  qed
qed

end

lemma patch_Nil [simp]: "patch xs pos [] = xs"
  by (simp add: patch_def)

lemma length_patch: "pos + length bs \<le> length xs \<Longrightarrow> length (patch xs pos bs) = length xs"
  by (simp add: patch_def)

lemma patch_append: "pos + length a \<le> length xs \<Longrightarrow> patch (patch xs pos a) (pos + length a) b = patch xs pos (a @ b)"
  by (simp add: patch_def ac_simps)

lemma chunk_patch: "pos \<le> length xs \<Longrightarrow> chunk (patch xs pos bs) pos (length bs) = bs"
  by (simp add: chunk_def patch_def)

lemma patch_chunk:
  assumes "at + n \<le> length xs" "pos + length bs \<le> n"
  shows "patch xs at (patch (chunk xs at n) pos bs) = patch xs (at + pos) bs"
proof -
  define A where "A = take at xs"
  define P where "P = take pos (drop at xs)"
  define M where "M = take (length bs) (drop (at + pos) xs)"
  define S where "S = take (n - pos - length bs) (drop (at + pos + length bs) xs)"
  define R where "R = drop (at + n) xs"
  have len: "length A = at" "length P = pos" "length M = length bs" "length S = n - pos - length bs"
    using assms by (auto simp: A_def P_def M_def S_def)
  have "take (at + n) xs = A @ P @ M @ S"
    using assms take_add [of at pos xs] take_add [of "at + pos" "length bs" xs]
      take_add [of "at + pos + length bs" "n - pos - length bs" xs]
    by (simp add: A_def P_def M_def S_def)
  then have "xs = A @ P @ M @ S @ R"
    using append_take_drop_id [of "at + n" xs] by (simp add: R_def)
  then show ?thesis using len assms by (simp add: patch_def chunk_def)
qed

context block_driver
begin

lemma driver_write:
  assumes "drives blk" "unat no + unat n \<le> unat cnt" "unat n * unat bsz < 2 ^ 32" "length bs = unat n * unat bsz"
  obtains d where "blk_write blk (blk_state blk) bs no n = Some (d, n)"
    "drives (blk\<lparr>blk_state := d\<rparr>)" "contents (blk\<lparr>blk_state := d\<rparr>) = patch (contents blk) (unat no * unat bsz) bs"
  using wr_ok [of "blk_state blk" no n bs] assms by (auto simp: drives_def contents_def)

text \<open>Reading, patching and writing back one block.\<close>

lemma write_part_spec:
  assumes blk: "drives blk" and no: "unat no < unat cnt" and pos: "pos + length bs \<le> unat bsz"
  obtains blk' where "write_part blk no pos bs = Some (blk', True)" "drives blk'"
    "contents blk' = patch (contents blk) (unat no * unat bsz + pos) bs"
proof -
  let ?B = "unat bsz"
  have fit: "unat no + unat (1 :: u64) \<le> unat cnt" using no by simp
  have one: "unat (1 :: u64) * ?B < 2 ^ 32" using geometry by simp
  have "(unat no + 1) * ?B \<le> unat cnt * ?B" using no by (intro mult_right_mono) auto
  then have room: "unat no * ?B + ?B \<le> length (contents blk)"
    using contents_length [OF blk] by (simp add: algebra_simps)
  obtain d where d: "blk_read blk (blk_state blk) no 1 = Some (d, chunk (contents blk) (unat no * ?B) (unat (1 :: u64) * ?B), 1)"
    "drives (blk\<lparr>blk_state := d\<rparr>)" "contents (blk\<lparr>blk_state := d\<rparr>) = contents blk"
    using blk fit one by (rule driver_read)
  let ?p = "patch (chunk (contents blk) (unat no * ?B) ?B) pos bs"
  have len: "length ?p = unat (1 :: u64) * ?B" using room pos by (simp add: length_patch)
  obtain d' where d': "blk_write (blk\<lparr>blk_state := d\<rparr>) d ?p no 1 = Some (d', 1)"
    "drives (blk\<lparr>blk_state := d'\<rparr>)" "contents (blk\<lparr>blk_state := d'\<rparr>) = patch (contents blk) (unat no * ?B) ?p"
    using driver_write [OF d(2) fit one len] d(3) by auto
  show thesis
    using d(1) d' patch_chunk [OF room pos]
    by (intro that [of "blk\<lparr>blk_state := d'\<rparr>"]) (simp_all add: write_part_def)
qed

text \<open>\<open>ret\<close> bytes of \<open>bytes\<close> are on the disk that held \<open>old\<close>; the rest starts a block.\<close>

definition write_state :: "u8 list \<Rightarrow> nat \<Rightarrow> u8 list \<Rightarrow> nat \<Rightarrow> 'd block_t \<Rightarrow> u8 list \<Rightarrow> u64 \<Rightarrow> u64 \<Rightarrow> bool" where
  "write_state old off bytes amount blk data count ret \<longleftrightarrow>
     drives blk \<and> contents blk = patch old off (take (unat ret) bytes) \<and> data = drop (unat ret) bytes
     \<and> unat ret + unat count = amount"

definition rest_at :: "nat \<Rightarrow> u64 \<Rightarrow> u64 \<Rightarrow> u64 \<Rightarrow> bool" where
  "rest_at off count no ret \<longleftrightarrow> unat count = 0 \<or> unat no * unat bsz = off + unat ret"

text \<open>One more part of the transfer, when the driver has put it on the disk.\<close>

lemma write_state_step:
  assumes st: "write_state old off bytes amount blk data count ret"
    and room: "off + amount \<le> length old" "amount \<le> length bytes" "amount < 2 ^ 32"
    and len: "unat len \<le> unat count"
    and disk: "drives blk'" "contents blk' = patch (contents blk) (off + unat ret) (take (unat len) data)"
  shows "write_state old off bytes amount blk' (drop (unat len) data) (count - len) (ret + len)"
    and "unat (ret + len) = unat ret + unat len" and "unat (count - len) = unat count - unat len"
proof -
  have am: "unat ret + unat count = amount" and c: "contents blk = patch old off (take (unat ret) bytes)"
    and data: "data = drop (unat ret) bytes"
    using st by (simp_all add: write_state_def)
  have "unat ret + unat len < 2 ^ 64" using am len room(3) by simp
  then show r: "unat (ret + len) = unat ret + unat len" by (subst unat_add_lem [THEN iffD1]) simp_all
  show cl: "unat (count - len) = unat count - unat len" using len by (intro unat_sub) (simp add: word_le_nat_alt)
  have "length (take (unat ret) bytes) = unat ret" using am room(2) by simp
  then have "contents blk' = patch old off (take (unat ret) bytes @ take (unat len) data)"
    using disk(2) c am room(1) patch_append [of off "take (unat ret) bytes" old "take (unat len) data"] by simp
  then show "write_state old off bytes amount blk' (drop (unat len) data) (count - len) (ret + len)"
    unfolding write_state_def r cl data using disk(1) am len by (simp add: take_add add.commute [of "unat len"])
qed

lemma write_head_spec:
  assumes blk: "drives blk" and room: "unat off + unat count \<le> unat bsz * unat cnt" "0 < unat count" "unat count < 2 ^ 32"
    and data: "unat count \<le> length data"
  obtains blk' data' c' no' ret' where
    "write_head blk data (off div block_size blk) (off mod block_size blk) count = Some (blk', Inr (data', c', no', ret'))"
    "write_state (contents blk) (unat off) data (unat count) blk' data' c' ret'" "rest_at (unat off) c' no' ret'"
proof -
  let ?B = "unat bsz" and ?t = "off mod bsz" and ?q = "off div bsz"
  have bs: "block_size blk = bsz" using blk by (simp add: drives_def block_size_def)
  have q: "unat ?q = unat off div ?B" and t: "unat ?t = unat off mod ?B" by (simp_all add: unat_div unat_mod)
  have tB: "unat ?t < ?B" using geometry t by simp
  have split: "unat ?q * ?B + unat ?t = unat off" unfolding q t by (rule div_mult_mod_eq)
  have start: "write_state (contents blk) (unat off) data (unat count) blk data count 0"
    using blk by (simp add: write_state_def)
  have "unat ?q * ?B < unat cnt * ?B" using split room(1,2) unfolding mult.commute [of "unat cnt"] by linarith
  then have no: "unat ?q < unat cnt" by simp
  show thesis
  proof (cases "?t = 0")
    case True
    moreover from this have "rest_at (unat off) count ?q 0" using split by (simp add: rest_at_def)
    ultimately show thesis using start by (intro that [of blk data count ?q 0]) (simp_all add: write_head_def bs)
  next
    case False
    then have tpos: "?t > 0" by (simp add: word_gt_0)
    define len where "len = (if count < bsz - ?t then count else bsz - ?t)"
    have "unat (bsz - ?t) = ?B - unat ?t" using tB by (intro unat_sub) (simp add: word_le_nat_alt)
    then have len: "unat len = min (unat count) (?B - unat ?t)" by (auto simp: len_def word_less_nat_alt)
    then have le: "unat len \<le> unat count" by simp
    have fit: "unat ?t + length (take (unat len) data) \<le> ?B" using len tB by simp
    obtain blk' where w: "write_part blk ?q (unat ?t) (take (unat len) data) = Some (blk', True)" "drives blk'"
      "contents blk' = patch (contents blk) (unat ?q * ?B + unat ?t) (take (unat len) data)"
      using blk no fit by (rule write_part_spec)
    have at: "contents blk' = patch (contents blk) (unat off + unat (0 :: u64)) (take (unat len) data)"
      using w(3) split by simp
    have "unat off + unat count \<le> length (contents blk)" using room(1) contents_length [OF blk] by simp
    note step = write_state_step [OF start this data room(3) le w(2) at]
    have "unat cnt < 2 ^ 64" using unsigned_less [of cnt] by simp
    then have "unat (?q + 1) = unat ?q + 1" using no by (subst unat_add_lem [THEN iffD1]) simp_all
    then have rest: "rest_at (unat off) (count - len) (?q + 1) len"
      using split tB step(3) len by (auto simp: rest_at_def min_def split: if_splits)
    have "write_head blk data ?q ?t count = Some (blk', Inr (drop (unat len) data, count - len, ?q + 1, len))"
      using tpos w(1) by (cases "count < bsz - ?t") (simp_all add: write_head_def bs Let_def len_def)
    then show thesis using step(1) rest bs by (intro that) simp_all
  qed
qed

end

context block_driver
begin

lemma write_body_spec:
  assumes st: "write_state old off bytes amount blk data count ret" "rest_at off count no ret"
    and room: "off + amount \<le> length old" "amount \<le> length bytes" "amount < 2 ^ 32" "length old = unat bsz * unat cnt"
  obtains blk' data' c' no' ret' where "write_body blk data count no ret = Some (blk', Inr (data', c', no', ret'))"
    "write_state old off bytes amount blk' data' c' ret'" "rest_at off c' no' ret'" "unat c' < unat bsz"
proof -
  let ?B = "unat bsz" and ?n = "count div bsz"
  have blk: "drives blk" and am: "unat ret + unat count = amount" and data: "data = drop (unat ret) bytes"
    using st by (simp_all add: write_state_def)
  have bs: "block_size blk = bsz" using blk by (simp add: drives_def block_size_def)
  have k: "unat ?n = unat count div ?B" by (simp add: unat_div)
  show thesis
  proof (cases "?n = 0")
    case True
    then have "unat count < ?B" using k geometry by (simp add: div_eq_0_iff)
    then show thesis using True st by (intro that [of blk data count no ret]) (simp_all add: write_body_def bs)
  next
    case False
    then have pos: "?n > 0" by (simp add: word_gt_0)
    have "unat count \<noteq> 0" using False k by (auto simp: unat_eq_0)
    then have at: "unat no * ?B = off + unat ret" using st(2) by (simp add: rest_at_def)
    have nB: "unat ?n * ?B \<le> unat count" using k by simp
    have "(unat no + unat ?n) * ?B \<le> unat cnt * ?B"
      using at am nB room(1,4) by (simp add: algebra_simps)
    then have fit: "unat no + unat ?n \<le> unat cnt" using geometry(1) by simp
    have small: "unat ?n * ?B < 2 ^ 32" using nB am room(3) by linarith
    have len: "unat (?n * bsz) = unat ?n * ?B" using small by (simp add: unat_word_ariths)
    have full: "length (take (unat (?n * bsz)) data) = unat ?n * ?B" using len nB am room(2) data by simp
    obtain d where d: "blk_write blk (blk_state blk) (take (unat (?n * bsz)) data) no ?n = Some (d, ?n)"
      "drives (blk\<lparr>blk_state := d\<rparr>)"
      "contents (blk\<lparr>blk_state := d\<rparr>) = patch (contents blk) (unat no * ?B) (take (unat (?n * bsz)) data)"
      using blk fit small full by (rule driver_write)
    have le: "unat (?n * bsz) \<le> unat count" using len nB by simp
    note step = write_state_step [OF st(1) room(1-3) le d(2) d(3) [unfolded at]]
    have "unat cnt < 2 ^ 64" using unsigned_less [of cnt] by simp
    then have "unat (no + ?n) = unat no + unat ?n" using fit by (subst unat_add_lem [THEN iffD1]) simp_all
    then have rest: "rest_at off (count - ?n * bsz) (no + ?n) (ret + ?n * bsz)"
      using at by (simp add: rest_at_def step(2) len distrib_right)
    have less: "unat (count - ?n * bsz) < ?B"
      unfolding step(3) len k using geometry(1) by (simp add: minus_div_mult_eq_mod)
    have "write_body blk data count no ret
        = Some (blk\<lparr>blk_state := d\<rparr>, Inr (drop (unat (?n * bsz)) data, count - ?n * bsz, no + ?n, ret + ?n * bsz))"
      using pos d(1) by (simp add: write_body_def bs Let_def)
    then show thesis using step(1) rest less by (rule that)
  qed
qed

lemma write_tail_spec:
  assumes st: "write_state old off bytes amount blk data count ret" "rest_at off count no ret"
    and room: "off + amount \<le> length old" "amount \<le> length bytes" "amount < 2 ^ 32" "length old = unat bsz * unat cnt"
    and less: "unat count < unat bsz"
  obtains blk' where "write_tail blk data count no ret = Some (blk', of_nat amount)"
    "drives blk'" "contents blk' = patch old off (take amount bytes)"
proof -
  have am: "unat ret + unat count = amount" and blk: "drives blk" using st by (simp_all add: write_state_def)
  show thesis
  proof (cases "count = 0")
    case True
    then show thesis using st am by (intro that [of blk]) (auto simp: write_tail_def write_state_def)
  next
    case False
    then have pos: "count > 0" "0 < unat count" by (simp_all add: word_gt_0 unat_gt_0)
    then have at: "unat no * unat bsz = off + unat ret" using st(2) by (simp add: rest_at_def)
    have "unat no * unat bsz < unat cnt * unat bsz"
      using at am pos(2) room(1,4) unfolding mult.commute [of "unat cnt"] by linarith
    then have no: "unat no < unat cnt" by simp
    have fit: "0 + length (take (unat count) data) \<le> unat bsz" using less by simp
    obtain blk' where w: "write_part blk no 0 (take (unat count) data) = Some (blk', True)" "drives blk'"
      "contents blk' = patch (contents blk) (unat no * unat bsz + 0) (take (unat count) data)"
      using blk no fit by (rule write_part_spec)
    have le: "unat count \<le> unat count" by simp
    note step = write_state_step [OF st(1) room(1-3) le w(2) w(3) [unfolded add_0_right at]]
    have "unat (ret + count) = amount" using step(2) am by simp
    then have "ret + count = of_nat amount" and "contents blk' = patch old off (take amount bytes)"
      using step(1) by (auto simp: write_state_def simp flip: am)
    then show thesis using pos w by (intro that [of blk']) (simp_all add: write_tail_def)
  qed
qed

lemma block_write_spec:
  assumes blk: "drives blk" and buf: "buf \<noteq> 0" and small: "min (unat count) (unat bsz * unat cnt - unat off) < 2 ^ 32" and data: "unat count \<le> length data"
  obtains blk' where "block_write True blk buf data off count
      = Some (blk', of_nat (min (unat count) (unat bsz * unat cnt - unat off)))"
    "drives blk'"
    "contents blk' = patch (contents blk) (unat off) (take (min (unat count) (unat bsz * unat cnt - unat off)) data)"
proof -
  let ?C = "unat bsz * unat cnt"
  let ?cap = "block_capacity blk"
  have cap: "unat ?cap = ?C" using blk by (rule unat_capacity)
  have len: "length (contents blk) = ?C" using blk by (rule contents_length)
  have geo: "block_size blk = bsz" "block_count blk = cnt" "bsz \<noteq> 0"
    using blk geometry by (auto simp: drives_def block_size_def block_count_def)
  show thesis
  proof (cases "count = 0 \<or> cnt = 0 \<or> off \<ge> ?cap")
    case True
    then have "min (unat count) (?C - unat off) = 0"
      using cap by (auto simp: word_le_nat_alt)
    then show thesis using True blk buf geo by (intro that [of blk]) (auto simp: block_write_def)
  next
    case False
    then have inside: "unat off < ?C" and pos: "count \<noteq> 0" "cnt \<noteq> 0" "\<not> off \<ge> ?cap"
      using cap by (auto simp: word_le_nat_alt)
    define c where "c = (if count > ?cap - off then ?cap - off else count)"
    have "unat (?cap - off) = ?C - unat off"
      using inside cap by (subst unat_sub) (simp_all add: word_le_nat_alt)
    then have c: "unat c = min (unat count) (?C - unat off)" by (auto simp: c_def word_less_nat_alt)
    have cpos: "0 < unat c" using c inside pos(1) by (simp add: unat_gt_0)
    have room: "unat off + unat c \<le> ?C" "unat c \<le> length data" "unat c < 2 ^ 32" using c inside small data by auto
    have room': "unat off + unat c \<le> length (contents blk)" using room(1) len by simp
    from blk room(1) cpos room(3,2) obtain blk1 data1 c1 no1 ret1
      where 1: "write_head blk data (off div block_size blk) (off mod block_size blk) c = Some (blk1, Inr (data1, c1, no1, ret1))"
        "write_state (contents blk) (unat off) data (unat c) blk1 data1 c1 ret1" "rest_at (unat off) c1 no1 ret1"
      by (rule write_head_spec)
    from 1(2,3) room' room(2,3) len obtain blk2 data2 c2 no2 ret2
      where 2: "write_body blk1 data1 c1 no1 ret1 = Some (blk2, Inr (data2, c2, no2, ret2))"
        "write_state (contents blk) (unat off) data (unat c) blk2 data2 c2 ret2" "rest_at (unat off) c2 no2 ret2"
        "unat c2 < unat bsz"
      by (rule write_body_spec)
    from 2(2,3) room' room(2,3) len 2(4) obtain blk3
      where 3: "write_tail blk2 data2 c2 no2 ret2 = Some (blk3, of_nat (unat c))"
        "drives blk3" "contents blk3 = patch (contents blk) (unat off) (take (unat c) data)"
      by (rule write_tail_spec)
    have "block_write True blk buf data off count = write_parts blk data off c"
      using pos buf geo by (simp add: block_write_def c_def)
    also have "\<dots> = Some (blk3, of_nat (min (unat count) (?C - unat off)))"
      using 1(1) 2(1) 3(1) by (simp add: write_parts_def flip: c)
    finally show thesis using 3(2,3) by (intro that) (simp_all add: c)
  qed
qed

end

context block_driver
begin

text \<open>What was written is read back.\<close>

lemma block_write_read:
  assumes blk: "drives blk" and buf: "buf \<noteq> 0" and data: "length data < 2 ^ 32"
    and room: "unat off + length data \<le> unat bsz * unat cnt"
  shows "\<exists>blk' blk''. block_write True blk buf data off (of_nat (length data)) = Some (blk', of_nat (length data))
    \<and> block_read True blk' buf off (of_nat (length data)) = Some (blk'', data, of_nat (length data))"
proof -
  have n: "unat (of_nat (length data) :: u64) = length data" using data by (simp add: unat_of_nat)
  have small: "min (unat (of_nat (length data) :: u64)) (unat bsz * unat cnt - unat off) < 2 ^ 32" and all: "unat (of_nat (length data) :: u64) \<le> length data"
    using n data by simp_all
  have fit: "min (length data) (unat bsz * unat cnt - unat off) = length data" using room by simp
  obtain blk' where w: "block_write True blk buf data off (of_nat (length data)) = Some (blk', of_nat (length data))"
    "drives blk'" "contents blk' = patch (contents blk) (unat off) data"
    using block_write_spec [OF blk buf small all] unfolding n fit by auto
  obtain blk'' where "block_read True blk' buf off (of_nat (length data))
      = Some (blk'', chunk (contents blk') (unat off) (length data), of_nat (length data))"
    using block_read_spec [OF w(2) buf small] unfolding n fit by auto
  moreover have "chunk (contents blk') (unat off) (length data) = data"
    using room contents_length [OF blk] by (simp add: w(3) chunk_patch)
  ultimately show ?thesis using w(1) by auto
qed

end

section \<open>The virtio driver\<close>

text \<open>
  What the virtio specification says of a disk with \<open>cnt\<close> sectors of 512 bytes: an in-request fills the
  buffer from the sectors that start at \<^verbatim>\<open>sector\<close>, an out-request stores the buffer there, and both answer with
  status 0.
\<close>

locale virtio_disk =
  fixes hw :: "'d virtio_hw" and disk :: "'d \<Rightarrow> u8 list" and dinv :: "'d \<Rightarrow> bool" and cnt :: u64
  assumes sectors: "512 * unat cnt < 2 ^ 64"
    and disk_length: "dinv d \<Longrightarrow> length (disk d) = 512 * unat cnt"
    and hw_in: "\<lbrakk>dinv d; unat s * 512 + unat len \<le> length (disk d)\<rbrakk>
        \<Longrightarrow> \<exists>d'. hw d \<lparr>outhdr_type = VIRTIO_BLK_T_IN, ioprio = 0, sector = s\<rparr> [] len = (d', chunk (disk d) (unat s * 512) (unat len), 0)
                \<and> disk d' = disk d \<and> dinv d'"
    and hw_out: "\<lbrakk>dinv d; unat s * 512 + unat len \<le> length (disk d); length bs = unat len\<rbrakk>
        \<Longrightarrow> \<exists>d' res. hw d \<lparr>outhdr_type = VIRTIO_BLK_T_OUT, ioprio = 0, sector = s\<rparr> bs len = (d', res, 0)
                \<and> disk d' = patch (disk d) (unat s * 512) bs \<and> dinv d'"
begin

lemma request_length:
  assumes "unat (n :: u64) * 512 < 2 ^ 32"
  shows "unat (ucast (n * 512) :: u32) = unat n * 512"
proof -
  have "unat (n * 512) = unat n * 512" using assms by (simp add: unat_word_ariths)
  then show ?thesis using assms by (simp add: unsigned_ucast_eq unsigned_take_bit_eq take_bit_eq_mod)
qed

end

sublocale virtio_disk \<subseteq> sector_driver: block_driver "virtio_block_read hw 512" "virtio_block_write hw 512" 512 cnt disk dinv
proof
  show "0 < unat (512 :: u64)" "unat (512 :: u64) < 2 ^ 32" "unat (512 :: u64) * unat cnt < 2 ^ 64"
    using sectors by simp_all
next
  fix d assume "dinv d"
  then show "length (disk d) = unat (512 :: u64) * unat cnt" by (simp add: disk_length)
next
  fix d and no n :: u64
  assume d: "dinv d" and fit: "unat no + unat n \<le> unat cnt" and small: "unat n * unat (512 :: u64) < 2 ^ 32"
  have len: "unat (ucast (n * 512) :: u32) = unat n * 512" using small by (intro request_length) simp
  have "unat no * 512 + unat (ucast (n * 512) :: u32) \<le> length (disk d)" using fit d by (simp add: len disk_length)
  from hw_in [OF d this] show "\<exists>d'. virtio_block_read hw 512 d no n
      = Some (d', chunk (disk d) (unat no * unat (512 :: u64)) (unat n * unat (512 :: u64)), n) \<and> disk d' = disk d \<and> dinv d'"
    by (auto simp: virtio_block_read_def len)
next
  fix d and no n :: u64 and bs :: "u8 list"
  assume d: "dinv d" and fit: "unat no + unat n \<le> unat cnt" and small: "unat n * unat (512 :: u64) < 2 ^ 32"
    and bs: "length bs = unat n * unat (512 :: u64)"
  have len: "unat (ucast (n * 512) :: u32) = unat n * 512" using small by (intro request_length) simp
  have room: "unat no * 512 + unat (ucast (n * 512) :: u32) \<le> length (disk d)" using fit d by (simp add: len disk_length)
  have "length bs = unat (ucast (n * 512) :: u32)" using bs by (simp add: len)
  from hw_out [OF d room this] bs show "\<exists>d'. virtio_block_write hw 512 d bs no n = Some (d', n)
      \<and> disk d' = patch (disk d) (unat no * unat (512 :: u64)) bs \<and> dinv d'"
    by (auto simp: virtio_block_write_def len)
qed

text \<open>A disk that keeps its sectors in memory.\<close>

definition ram_disk :: "u8 list virtio_hw" where
  "ram_disk d hdr bs len =
     (if outhdr_type hdr = VIRTIO_BLK_T_IN then (d, chunk d (unat (sector hdr) * 512) (unat len), 0)
      else if outhdr_type hdr = VIRTIO_BLK_T_OUT then (patch d (unat (sector hdr) * 512) bs, [], 0)
      else (d, [], 2))"

interpretation ram: virtio_disk ram_disk id "\<lambda>d. length d = 1024" 2
  by unfold_locales (simp_all add: ram_disk_def length_patch)

context virtio_disk
begin

lemma virtio_drives: "dinv d \<Longrightarrow> sector_driver.drives (virtio_block_t hw 512 cnt d)"
  by (simp add: sector_driver.drives_def virtio_block_t_def)

lemma virtio_contents: "sector_driver.contents (virtio_block_t hw 512 cnt d) = disk d"
  by (simp add: sector_driver.contents_def virtio_block_t_def)

lemma virtio_room: "dinv d \<Longrightarrow> unat (512 :: u64) * unat cnt = length (disk d)"
  by (simp add: disk_length)

lemma virtio_read:
  assumes "dinv d" "buf \<noteq> 0" "unat count < 2 ^ 32"
  shows "\<exists>blk'. block_read True (virtio_block_t hw 512 cnt d) buf off count
      = Some (blk', chunk (disk d) (unat off) (unat count), of_nat (min (unat count) (length (disk d) - unat off)))
    \<and> disk (blk_state blk') = disk d \<and> dinv (blk_state blk')"
proof -
  have small: "min (unat count) (length (disk d) - unat off) < 2 ^ 32" using assms(3) by simp
  obtain blk' where "block_read True (virtio_block_t hw 512 cnt d) buf off count
      = Some (blk', chunk (disk d) (unat off) (unat count), of_nat (min (unat count) (length (disk d) - unat off)))"
    "sector_driver.drives blk'" "sector_driver.contents blk' = disk d"
    by (rule sector_driver.block_read_spec [OF virtio_drives [OF assms(1)] assms(2),
          of count off, unfolded virtio_contents virtio_room [OF assms(1)], OF small])
  then show ?thesis by (auto simp: sector_driver.contents_def sector_driver.drives_def)
qed

lemma virtio_write:
  assumes "dinv d" "buf \<noteq> 0" "unat count < 2 ^ 32" "unat count \<le> length data"
  shows "\<exists>blk'. block_write True (virtio_block_t hw 512 cnt d) buf data off count
      = Some (blk', of_nat (min (unat count) (length (disk d) - unat off)))
    \<and> disk (blk_state blk') = patch (disk d) (unat off) (take (min (unat count) (length (disk d) - unat off)) data)
    \<and> dinv (blk_state blk')"
proof -
  have small: "min (unat count) (length (disk d) - unat off) < 2 ^ 32" using assms(3) by simp
  obtain blk' where "block_write True (virtio_block_t hw 512 cnt d) buf data off count
      = Some (blk', of_nat (min (unat count) (length (disk d) - unat off)))"
    "sector_driver.drives blk'"
    "sector_driver.contents blk' = patch (disk d) (unat off) (take (min (unat count) (length (disk d) - unat off)) data)"
    by (rule sector_driver.block_write_spec [OF virtio_drives [OF assms(1)] assms(2) _ assms(4),
          of off, unfolded virtio_contents virtio_room [OF assms(1)], OF small])
  then show ?thesis by (auto simp: sector_driver.contents_def sector_driver.drives_def)
qed

lemma virtio_write_read:
  assumes "dinv d" "buf \<noteq> 0" "length data < 2 ^ 32" "unat off + length data \<le> length (disk d)"
  shows "\<exists>blk' blk''. block_write True (virtio_block_t hw 512 cnt d) buf data off (of_nat (length data)) = Some (blk', of_nat (length data))
    \<and> block_read True blk' buf off (of_nat (length data)) = Some (blk'', data, of_nat (length data))"
  using assms by (intro sector_driver.block_write_read virtio_drives) (simp_all add: disk_length)

end

section \<open>Properties\<close>

text \<open>C7: On a virtio disk with 512-byte sectors, \<^verbatim>\<open>block_read\<close> of less than $2^{32}$ bytes, with its bounce buffer allocated, from any byte
  offset, aligned or not, stores exactly the bytes of the disk from that offset on, cut at the end of the disk, returns
  their number and leaves the disk unchanged.\<close>

theorem block_read_disk:
  assumes "virtio_disk hw disk dinv cnt" "dinv d" "buf \<noteq> 0" "unat count < 2 ^ 32"
  shows "\<exists>blk'. block_read True (virtio_block_t hw 512 cnt d) buf off count
      = Some (blk', chunk (disk d) (unat off) (unat count), of_nat (min (unat count) (length (disk d) - unat off)))
    \<and> disk (blk_state blk') = disk d \<and> dinv (blk_state blk')"
  using assms by (rule virtio_disk.virtio_read)

theorem block_read_disk_witness:
  "\<exists>blk'. block_read True (virtio_block_t ram_disk 512 2 (replicate 1024 7)) 1 500 600
      = Some (blk', replicate 524 7, 524) \<and> id (blk_state blk') = replicate 1024 7 \<and> length (blk_state blk') = 1024"
  using block_read_disk [OF ram.virtio_disk_axioms, of "replicate 1024 7" 1 600 500] by (simp add: chunk_def)

text \<open>C8: On a virtio disk with 512-byte sectors, \<^verbatim>\<open>block_write\<close> of less than $2^{32}$ bytes, with its bounce buffer allocated, at any
  byte offset, aligned or not, replaces the bytes of the disk from that offset on with those of the buffer, as far as
  the disk reaches, keeps every other byte and returns the number of bytes stored.\<close>

theorem block_write_disk:
  assumes "virtio_disk hw disk dinv cnt" "dinv d" "buf \<noteq> 0" "unat count < 2 ^ 32" "unat count \<le> length data"
  shows "\<exists>blk'. block_write True (virtio_block_t hw 512 cnt d) buf data off count
      = Some (blk', of_nat (min (unat count) (length (disk d) - unat off)))
    \<and> disk (blk_state blk') = patch (disk d) (unat off) (take (min (unat count) (length (disk d) - unat off)) data)
    \<and> dinv (blk_state blk')"
  using assms by (rule virtio_disk.virtio_write)

theorem block_write_disk_witness:
  "\<exists>blk'. block_write True (virtio_block_t ram_disk 512 2 (replicate 1024 7)) 1 [1, 2, 3] 510 3 = Some (blk', 3)
    \<and> id (blk_state blk') = replicate 510 7 @ [1, 2, 3] @ replicate 511 7 \<and> length (blk_state blk') = 1024"
  using block_write_disk [OF ram.virtio_disk_axioms, of "replicate 1024 7" 1 3 "[1, 2, 3]" 510] by (simp add: patch_def)

text \<open>C31: What \<^verbatim>\<open>block_write\<close> of less than $2^{32}$ bytes stores inside a virtio disk with 512-byte sectors, \<^verbatim>\<open>block_read\<close> of the
  same range returns; the bounce buffers of both are allocated.\<close>

theorem block_write_read_disk:
  assumes "virtio_disk hw disk dinv cnt" "dinv d" "buf \<noteq> 0" "length data < 2 ^ 32" "unat off + length data \<le> length (disk d)"
  shows "\<exists>blk' blk''. block_write True (virtio_block_t hw 512 cnt d) buf data off (of_nat (length data)) = Some (blk', of_nat (length data))
    \<and> block_read True blk' buf off (of_nat (length data)) = Some (blk'', data, of_nat (length data))"
  using assms by (rule virtio_disk.virtio_write_read)

theorem block_write_read_disk_witness:
  "\<exists>blk' blk''. block_write True (virtio_block_t ram_disk 512 2 (replicate 1024 7)) 1 [1, 2, 3] 510 3 = Some (blk', 3)
    \<and> block_read True blk' 1 510 3 = Some (blk'', [1, 2, 3], 3)"
  using block_write_read_disk [OF ram.virtio_disk_axioms, of "replicate 1024 7" 1 "[1, 2, 3]" 510] by simp

end
