(* ===== verification/Cpio_Archive.thy ===== *)
theory Cpio_Archive
  imports Cpio Block_Transfer Filesystem_Interface
begin

text \<open>
  The cpio file system on well-formed devices: reading an entry through the block device is parsing the bytes of
  the disk, the loops end on every disk, and on an archive in the ``newc'' format they find its files.
\<close>

section \<open>Devices\<close>

text \<open>A device that keeps its contract and holds \<open>bytes\<close>, less than 4 GiB of them.\<close>

definition holds :: "'d block_t \<Rightarrow> u8 list \<Rightarrow> bool" where
  "holds blk bytes \<longleftrightarrow>
     (\<exists>disk dinv. block_driver (blk_read blk) (blk_write blk) (blksz blk) (blkcnt blk) disk dinv
        \<and> dinv (blk_state blk) \<and> disk (blk_state blk) = bytes) \<and> length bytes < 2 ^ 32"

definition dev_holds :: "'d block_world \<Rightarrow> dev_ptr option \<Rightarrow> u8 list \<Rightarrow> bool" where
  "dev_holds w dev bytes \<longleftrightarrow>
     (case dev of None \<Rightarrow> bytes = [] | Some d \<Rightarrow> (\<exists>blk. blocks w d = Some blk \<and> holds blk bytes))"

lemma block_read_holds:
  assumes "holds blk bytes"
  shows "\<exists>blk'. block_read True blk 1 off count
      = Some (blk', chunk bytes (unat off) (unat count), of_nat (min (unat count) (length bytes - unat off))) \<and> holds blk' bytes"
proof -
  from assms obtain disk dinv where drv: "block_driver (blk_read blk) (blk_write blk) (blksz blk) (blkcnt blk) disk dinv"
    and d: "dinv (blk_state blk)" "disk (blk_state blk) = bytes" and small: "length bytes < 2 ^ 32"
    by (auto simp: holds_def)
  let ?drives = "block_driver.drives (blk_read blk) (blk_write blk) (blksz blk) (blkcnt blk) dinv"
  let ?contents = "block_driver.contents disk"
  have drives: "?drives blk" by (simp add: block_driver.drives_def [OF drv] d)
  have c: "?contents blk = bytes" by (simp add: block_driver.contents_def [OF drv] d)
  have len: "unat (blksz blk) * unat (blkcnt blk) = length bytes"
    using block_driver.contents_length [OF drv drives] c by simp
  have room: "min (unat count) (unat (blksz blk) * unat (blkcnt blk) - unat off) < 2 ^ 32" using small len by simp
  obtain blk' where r: "block_read True blk 1 off count
      = Some (blk', chunk bytes (unat off) (unat count), of_nat (min (unat count) (length bytes - unat off)))"
    "?drives blk'" "?contents blk' = bytes"
    by (rule block_driver.block_read_spec [OF drv drives _ room, of 1, unfolded c len]) simp_all
  then have "holds blk' bytes"
    using drv small by (auto simp: holds_def block_driver.drives_def [OF drv] block_driver.contents_def [OF drv])
  with r show ?thesis by blast
qed

lemma block_read_no_buffer: "block_read False blk buf off count = Some (blk, [], 0)"
  by (simp add: block_read_def Let_def)

text \<open>A step that changes no disk.\<close>

definition same_disks :: "'d block_world \<Rightarrow> 'd block_world \<Rightarrow> bool" where
  "same_disks w w' \<longleftrightarrow> alloc_ok w' = alloc_ok w \<and> (\<forall>d bytes. dev_holds w d bytes \<longrightarrow> dev_holds w' d bytes)"

lemma same_disks_refl [simp]: "same_disks w w"
  by (simp add: same_disks_def)

lemma same_disks_trans [trans]: "same_disks w w' \<Longrightarrow> same_disks w' w'' \<Longrightarrow> same_disks w w''"
  by (simp add: same_disks_def)

lemma same_disks_holds: "same_disks w w' \<Longrightarrow> dev_holds w d bytes \<Longrightarrow> dev_holds w' d bytes"
  by (simp add: same_disks_def)

definition transfer :: "bool \<Rightarrow> u8 list \<Rightarrow> u64 \<Rightarrow> u64 \<Rightarrow> u8 list \<times> u64" where
  "transfer ok bytes off count =
     (if ok then (chunk bytes (unat off) (unat count), of_nat (min (unat count) (length bytes - unat off))) else ([], 0))"

lemma dev_read_holds:
  assumes "dev_holds w dev bytes"
  obtains w' where "dev_read w dev off count = Some (w', transfer (alloc_ok w (alloc_no w)) bytes off count)" "same_disks w w'"
proof (cases dev)
  case None
  then show thesis using assms by (intro that [of w]) (auto simp: dev_read_def dev_holds_def transfer_def chunk_def)
next
  case (Some d)
  then obtain blk where blk: "blocks w d = Some blk" "holds blk bytes" using assms by (auto simp: dev_holds_def)
  obtain blk' where r: "block_read (alloc_ok w (alloc_no w)) blk 1 off count
      = Some (blk', transfer (alloc_ok w (alloc_no w)) bytes off count)" "\<And>b. holds blk b \<Longrightarrow> holds blk' b"
  proof (cases "alloc_ok w (alloc_no w)")
    case True
    obtain blk' where r: "block_read True blk 1 off count = Some (blk', transfer True bytes off count)"
      using block_read_holds [OF blk(2), of off count] by (auto simp: transfer_def)
    have "holds blk' b" if "holds blk b" for b using block_read_holds [OF that, of off count] r by auto
    then show thesis using True r by (intro that [of blk']) simp_all
  next
    case False
    then show thesis by (intro that [of blk]) (simp_all add: block_read_no_buffer transfer_def)
  qed
  let ?w = "w\<lparr>blocks := (blocks w)(d \<mapsto> blk'), alloc_no := Suc (alloc_no w)\<rparr>"
  have "dev_holds ?w d' b" if "dev_holds w d' b" for d' b
    using that blk r(2) by (cases d') (auto simp: dev_holds_def)
  then have "same_disks w ?w" by (simp add: same_disks_def)
  moreover have "dev_read w dev off count = Some (?w, transfer (alloc_ok w (alloc_no w)) bytes off count)"
    using Some blk r by (cases "transfer (alloc_ok w (alloc_no w)) bytes off count") (simp add: dev_read_def)
  ultimately show thesis by (intro that)
qed

section \<open>Parsing the disk\<close>

text \<open>The entry at an offset, from the bytes of the disk; \<open>None\<close> where the code overruns its buffer.\<close>

definition parse_entry :: "u8 list \<Rightarrow> u64 \<Rightarrow> cpio_entry option option" where
  "parse_entry bytes toff =
     (let h = header_of_bytes (chunk bytes (unat toff) 110);
          name_size = hex_field (c_namesize h);
          name = chunk bytes (unat (toff + HEADER_SIZE)) (unat name_size);
          e = \<lparr>ent_size = hex_field (c_filesize h), ent_name_size = name_size, ent_mode = hex_field (c_mode h),
               ent_mtime = hex_field (c_mtime h), ent_path = string_of_bytes name\<rparr> in
      if length bytes < unat toff + 110 \<or> c_magic h \<noteq> bytes_of_string ''070701'' \<or> name = [] then Some None
      else do {
        assert_that (length name \<le> VFS_MAX_PATH \<and> 0 \<in> set name);
        if ent_size e = 0 \<and> ent_mode e = 0 \<and> name_size = 11 \<and> take 10 (ent_path e) = ''TRAILER!!!'' then Some None
        else Some (Some e)
      })"

lemma of_nat_eq_iff_64: "a < 2 ^ 64 \<Longrightarrow> b < 2 ^ 64 \<Longrightarrow> (of_nat a :: u64) = of_nat b \<longleftrightarrow> a = b"
  by (metis unat_of_nat_64)

lemma header_complete: "of_nat (min 110 n) = (110 :: u64) \<longleftrightarrow> 110 \<le> n"
  using of_nat_eq_iff_64 [of "min 110 n" 110] by (auto simp: min_def split: if_splits)

lemma name_missing: "n < 2 ^ 32 \<Longrightarrow> of_nat n = (0 :: u64) \<longleftrightarrow> n = 0"
  using of_nat_eq_iff_64 [of n 0] by simp

text \<open>Reading is parsing, unless the buffer for a transfer is refused; then the code takes it for the end.\<close>

definition parses :: "'d block_world \<Rightarrow> ('d block_world \<times> 'a option) option \<Rightarrow> 'a option option \<Rightarrow> bool" where
  "parses w res p \<longleftrightarrow>
     (\<exists>w'. same_disks w w' \<and> (res = map_option (Pair w') p \<or> (\<not> (\<forall>n. alloc_ok w n) \<and> res = Some (w', None))))"

lemma parsesI: "same_disks w w' \<Longrightarrow> res = map_option (Pair w') p \<Longrightarrow> parses w res p"
  by (auto simp: parses_def)

lemma parses_refused: "\<not> alloc_ok w n \<Longrightarrow> same_disks w w' \<Longrightarrow> res = Some (w', None) \<Longrightarrow> parses w res p"
  by (auto simp: parses_def)

lemma parses_weaken: "same_disks w w' \<Longrightarrow> parses w' res p \<Longrightarrow> parses w res p"
  by (auto simp: parses_def same_disks_def)

lemma read_entry_parse:
  assumes dev: "dev_holds w dev bytes"
  shows "parses w (read_entry w dev toff) (parse_entry bytes toff)"
proof -
  obtain w1 where r1: "dev_read w dev toff HEADER_SIZE = Some (w1, transfer (alloc_ok w (alloc_no w)) bytes toff HEADER_SIZE)"
    "same_disks w w1"
    using dev by (rule dev_read_holds)
  let ?h = "header_of_bytes (chunk bytes (unat toff) 110)"
  let ?ns = "hex_field (c_namesize ?h)"
  let ?name = "chunk bytes (unat (toff + HEADER_SIZE)) (unat ?ns)"
  let ?m = "min (unat ?ns) (length bytes - unat (toff + HEADER_SIZE))"
  obtain w2 where r2: "dev_read w1 dev (toff + HEADER_SIZE) (ucast ?ns)
      = Some (w2, transfer (alloc_ok w1 (alloc_no w1)) bytes (toff + HEADER_SIZE) (ucast ?ns))" "same_disks w1 w2"
    using same_disks_holds [OF r1(2) dev] by (rule dev_read_holds)
  have "?m < 2 ^ 32" using unat_less_2p [of ?ns] by (simp add: min_less_iff_disj)
  then have gone: "of_nat ?m = (0 :: u64) \<longleftrightarrow> ?name = []"
    by (subst name_missing) (auto simp flip: length_0_conv)
  have w12: "same_disks w w2" using r1(2) r2(2) by (rule same_disks_trans)
  consider "\<not> alloc_ok w (alloc_no w)"
    | "alloc_ok w (alloc_no w)" "length bytes < unat toff + 110 \<or> c_magic ?h \<noteq> bytes_of_string ''070701''"
    | "alloc_ok w (alloc_no w)" "\<not> alloc_ok w1 (alloc_no w1)" "\<not> (length bytes < unat toff + 110 \<or> c_magic ?h \<noteq> bytes_of_string ''070701'')"
    | "alloc_ok w (alloc_no w)" "alloc_ok w1 (alloc_no w1)" "\<not> (length bytes < unat toff + 110 \<or> c_magic ?h \<noteq> bytes_of_string ''070701'')"
    by blast
  then show ?thesis
  proof cases
    case 1
    then have "read_entry w dev toff = Some (w1, None)" using r1(1) by (simp add: read_entry_def transfer_def)
    with 1 r1(2) show ?thesis by (rule parses_refused)
  next
    case 2
    then have "read_entry w dev toff = map_option (Pair w1) (parse_entry bytes toff)"
      using r1(1) header_complete [of "length bytes - unat toff"]
      by (auto simp: read_entry_def parse_entry_def transfer_def Let_def)
    with r1(2) show ?thesis by (rule parsesI)
  next
    case 3
    then have "read_entry w dev toff = Some (w2, None)"
      using r1(1) r2(1) header_complete [of "length bytes - unat toff"]
      by (auto simp: read_entry_def transfer_def Let_def)
    moreover have "\<not> alloc_ok w (alloc_no w1)" using 3(2) r1(2) by (simp add: same_disks_def)
    ultimately show ?thesis using w12 by (intro parses_refused)
  next
    case 4
    then have "read_entry w dev toff = map_option (Pair w2) (parse_entry bytes toff)"
      using r1(1) r2(1) header_complete [of "length bytes - unat toff"] gone
      by (auto simp: read_entry_def parse_entry_def transfer_def Let_def assert_that_def)
    with w12 show ?thesis by (rule parsesI)
  qed
qed

section \<open>Walking the archive\<close>

lemma unat_and_not_3: "unat (x AND NOT 3 :: 'a::len word) = unat x div 4 * 4"
  using unat_and_not_mask [of x 2] by (simp add: mask_eq_exp_minus_1)

lemma entry_next_bounds:
  assumes "unat off < 2 ^ 33"
  shows "unat off < unat (entry_next off e)"
proof -
  let ?x = "(((ent_name_size e + 1) AND NOT 3) + 2) + ent_size e"
  have x: "unat (ucast ?x :: u64) = unat ?x" "unat ?x < 2 ^ 32" using unat_less_2p [of ?x] by simp_all
  have "unat (off + HEADER_SIZE + ucast ?x + 3) = unat off + 110 + unat ?x + 3"
    using assms x by (simp add: unat_add_64)
  then have "unat (entry_next off e) = (unat off + 110 + unat ?x + 3) div 4 * 4"
    unfolding entry_next_def unat_and_not_3 by simp
  then show ?thesis by linarith
qed

lemma parse_entry_inside: "parse_entry bytes toff = Some (Some e) \<Longrightarrow> unat toff + 110 \<le> length bytes"
  by (auto simp: parse_entry_def Let_def split: if_splits)

text \<open>The entries from an offset on. The offset grows with every step, so that the walk ends on any disk.\<close>

function archive_entries :: "u8 list \<Rightarrow> u64 \<Rightarrow> (cpio_entry \<times> u64) list option" where
  "archive_entries bytes off =
     (if length bytes < 2 ^ 32
      then (case parse_entry bytes off of
              None \<Rightarrow> None
            | Some None \<Rightarrow> Some []
            | Some (Some e) \<Rightarrow> map_option (Cons (e, off)) (archive_entries bytes (entry_next off e)))
      else None)"
  by pat_completeness auto
termination
proof (relation "measure (\<lambda>(bytes, off). 2 ^ 64 - unat off)", goal_cases)
  case (2 bytes off x e)
  then have "unat off < 2 ^ 33" using parse_entry_inside [of bytes off e] by auto
  then show ?case using entry_next_bounds [of off e] unat_less_2p [of "entry_next off e"] by auto
qed simp

declare archive_entries.simps [simp del]

lemma archive_entries_cases:
  assumes "archive_entries bytes off = Some es"
  obtains (last) "parse_entry bytes off = Some None" "es = []"
  | (entry) e es' where "parse_entry bytes off = Some (Some e)" "es = (e, off) # es'" "archive_entries bytes (entry_next off e) = Some es'"
  using assms by (subst (asm) archive_entries.simps) (auto split: if_splits option.splits)

text \<open>The first matching entry.\<close>

definition matches :: "string \<Rightarrow> string \<Rightarrow> cpio_entry \<Rightarrow> bool" where
  "matches prefix name e \<longleftrightarrow> take 1 (ent_path e) \<noteq> ''.'' \<and> check_path (ent_path e) prefix name"

lemma cpio_lookup_loop_entries:
  assumes "dev_holds w dev bytes" "archive_entries bytes off = Some es"
  shows "parses w (cpio_lookup_loop w dev prefix name off) (Some (find (\<lambda>(e, _). matches prefix name e) es))"
  using assms
proof (induction es arbitrary: w off)
  case Nil
  then have "parse_entry bytes off = Some None" by (auto elim: archive_entries_cases)
  with read_entry_parse [OF Nil.prems(1), of off] show ?case
    by (subst cpio_lookup_loop.simps) (auto simp: parses_def)
next
  case (Cons p es)
  then obtain e where e: "parse_entry bytes off = Some (Some e)" "p = (e, off)" "archive_entries bytes (entry_next off e) = Some es"
    by (auto elim: archive_entries_cases)
  obtain w' where w': "same_disks w w'"
    "read_entry w dev off = Some (w', Some e) \<or> \<not> (\<forall>n. alloc_ok w n) \<and> read_entry w dev off = Some (w', None)"
    using read_entry_parse [OF Cons.prems(1), of off] e(1) by (auto simp: parses_def)
  have IH: "parses w' (cpio_lookup_loop w' dev prefix name (entry_next off e)) (Some (find (\<lambda>(e, _). matches prefix name e) es))"
    using same_disks_holds [OF w'(1) Cons.prems(1)] e(3) by (rule Cons.IH)
  from w'(2) show ?case
  proof
    assume r: "read_entry w dev off = Some (w', Some e)"
    show ?thesis
    proof (cases "matches prefix name e")
      case True
      then show ?thesis
        using r by (intro parsesI [OF w'(1)]) (subst cpio_lookup_loop.simps, simp add: e(2) matches_def)
    next
      case False
      then have "cpio_lookup_loop w dev prefix name off = cpio_lookup_loop w' dev prefix name (entry_next off e)"
        using r by (subst cpio_lookup_loop.simps) (auto simp: matches_def)
      then show ?thesis using parses_weaken [OF w'(1) IH] False by (simp add: e(2))
    qed
  next
    assume "\<not> (\<forall>n. alloc_ok w n) \<and> read_entry w dev off = Some (w', None)"
    then show ?thesis using w'(1) by (subst cpio_lookup_loop.simps) (auto simp: parses_def)
  qed
qed

text \<open>The entries of a directory, in their order.\<close>

definition no_long_name :: "string \<Rightarrow> bool" where
  "no_long_name path \<longleftrightarrow> (\<forall>i \<le> length path. length (takeWhile (\<lambda>c. c \<noteq> CHR ''/'') (drop i path)) < VFS_MAX_NAME)"

fun dir_entries :: "string \<Rightarrow> (cpio_entry \<times> u64) list \<Rightarrow> (cpio_entry \<times> string) list" where
  "dir_entries prefix [] = []"
| "dir_entries prefix ((e, off) # es) =
     (if take 1 (ent_path e) = ''.'' then dir_entries prefix es
      else case get_next_token (ent_path e) prefix of
             Some (Some name) \<Rightarrow> (e, name) # dir_entries prefix es
           | _ \<Rightarrow> dir_entries prefix es)"

lemma skip_slash_drop: "\<exists>i. skip_slash s = drop i s"
proof (cases s)
  case Nil
  then show ?thesis by (auto simp: skip_slash_def)
next
  case (Cons c r)
  then have "skip_slash s = drop (if c = CHR ''/'' then 1 else 0) s" by (simp add: skip_slash_def)
  then show ?thesis by blast
qed

lemma get_next_token_short:
  assumes "no_long_name path"
  shows "get_next_token path prefix \<noteq> None"
proof -
  obtain i where "skip_slash path = drop i path" using skip_slash_drop by blast
  moreover obtain j where "skip_slash (drop (length (skip_slash prefix)) (skip_slash path))
      = drop j (drop (length (skip_slash prefix)) (skip_slash path))" using skip_slash_drop by blast
  ultimately obtain k where k: "skip_slash (drop (length (skip_slash prefix)) (skip_slash path)) = drop k path"
    by auto
  have "length (takeWhile (\<lambda>c. c \<noteq> CHR ''/'') (drop k path)) < VFS_MAX_NAME"
    using assms by (cases "k \<le> length path") (auto simp: no_long_name_def)
  then show ?thesis by (simp add: get_next_token_def Let_def k)
qed

definition nth_from :: "'a list \<Rightarrow> int \<Rightarrow> 'a option" where
  "nth_from xs k = (if 0 \<le> k \<and> k < int (length xs) then Some (xs ! nat k) else None)"

lemma nth_from_Nil [simp]: "nth_from [] k = None"
  by (simp add: nth_from_def)

lemma nth_from_Cons: "nth_from (x # xs) k = (if k = 0 then Some x else nth_from xs (k - 1))"
  by (auto simp: nth_from_def nth_Cons' nat_diff_distrib')

lemma readdir_loop_entries:
  assumes "dev_holds w dev bytes" "archive_entries bytes toff = Some es" "\<forall>(e, _) \<in> set es. no_long_name (ent_path e)"
  shows "parses w (readdir_loop w dev prefix off toff i) (Some (nth_from (dir_entries prefix es) (sint off - i)))"
  using assms
proof (induction es arbitrary: w toff i)
  case Nil
  then have "parse_entry bytes toff = Some None" by (auto elim: archive_entries_cases)
  with read_entry_parse [OF Nil.prems(1), of toff] show ?case
    by (subst readdir_loop.simps) (auto simp: parses_def)
next
  case (Cons p es)
  then obtain e where e: "parse_entry bytes toff = Some (Some e)" "p = (e, toff)" "archive_entries bytes (entry_next toff e) = Some es"
    by (auto elim: archive_entries_cases)
  obtain w' where w': "same_disks w w'"
    "read_entry w dev toff = Some (w', Some e) \<or> \<not> (\<forall>n. alloc_ok w n) \<and> read_entry w dev toff = Some (w', None)"
    using read_entry_parse [OF Cons.prems(1), of toff] e(1) by (auto simp: parses_def)
  have IH: "parses w' (readdir_loop w' dev prefix off (entry_next toff e) k) (Some (nth_from (dir_entries prefix es) (sint off - k)))" for k
    using same_disks_holds [OF w'(1) Cons.prems(1)] e(3) Cons.prems(3) by (intro Cons.IH) auto
  note skip = parses_weaken [OF w'(1) IH]
  obtain tok where tok: "get_next_token (ent_path e) prefix = Some tok"
    using get_next_token_short [of "ent_path e" prefix] Cons.prems(3) e(2) by auto
  from w'(2) show ?case
  proof
    assume r: "read_entry w dev toff = Some (w', Some e)"
    consider "take 1 (ent_path e) = ''.'' \<or> tok = None" | name where "take 1 (ent_path e) \<noteq> ''.''" "tok = Some name"
      by (cases tok) auto
    then show ?thesis
    proof cases
      case 1
      then have "readdir_loop w dev prefix off toff i = readdir_loop w' dev prefix off (entry_next toff e) i"
        and "dir_entries prefix (p # es) = dir_entries prefix es"
        using r tok by (subst readdir_loop.simps, auto simp: e(2))
      then show ?thesis using skip by simp
    next
      case 2
      then have d: "dir_entries prefix (p # es) = (e, name) # dir_entries prefix es" using tok by (simp add: e(2))
      have l: "readdir_loop w dev prefix off toff i
          = (if i = sint off then Some (w', Some (e, name)) else readdir_loop w' dev prefix off (entry_next toff e) (i + 1))"
        using r tok 2 by (subst readdir_loop.simps) simp
      show ?thesis
        using skip [of "i + 1"] parsesI [OF w'(1), of "Some (w', Some (e, name))" "Some (Some (e, name))"]
        unfolding l d nth_from_Cons by (auto simp: algebra_simps)
    qed
  next
    assume "\<not> (\<forall>n. alloc_ok w n) \<and> read_entry w dev toff = Some (w', None)"
    then show ?thesis using w'(1) by (subst readdir_loop.simps) (auto simp: parses_def)
  qed
qed

section \<open>The contract with the virtual file system\<close>

text \<open>A usable device: it keeps its contract, and no name on it overruns a buffer of the code.\<close>

definition cpio_usable :: "'d block_world \<Rightarrow> dev_ptr option \<Rightarrow> bool" where
  "cpio_usable w dev \<longleftrightarrow>
     (\<exists>bytes es. dev_holds w dev bytes \<and> archive_entries bytes 0 = Some es \<and> (\<forall>(e, _) \<in> set es. no_long_name (ent_path e)))"

lemma same_disks_usable: "same_disks w w' \<Longrightarrow> cpio_usable w dev \<Longrightarrow> cpio_usable w' dev"
  by (auto simp: cpio_usable_def same_disks_def)

lemma parses_total:
  assumes "parses w res (Some r)"
  obtains w' r' where "res = Some (w', r')" "same_disks w w'"
  using assms by (auto simp: parses_def)

text \<open>A node or a mount may change in what the virtual file system does not rely on.\<close>

lemma op_ok_node:
  assumes "nodes h n = Some v" "v_mount v' = v_mount v" "v_refcnt v' = v_refcnt v" "v_path v' = v_path v" "v_flags v' = v_flags v"
    and "\<And>dev. wok (world h) dev \<Longrightarrow> wok w dev"
  shows "op_ok wok h (Some (h\<lparr>world := w, nodes := (nodes h)(n \<mapsto> v')\<rparr>, r))"
  using assms by (auto simp: op_ok_def node_ids_def [abs_def] mount_ids_def [abs_def])

lemma op_ok_mount:
  assumes "mounts h m = Some mt" "m_fs mt' = m_fs mt" "m_dev mt' = m_dev mt" "m_path mt' = m_path mt"
    "m_refcnt mt' = m_refcnt mt" "m_root mt' = m_root mt" "m_covered mt' = m_covered mt"
  shows "op_ok wok h (Some (h\<lparr>mounts := (mounts h)(m \<mapsto> mt')\<rparr>, r))"
  using assms by (auto simp: op_ok_def node_ids_def [abs_def] mount_ids_def [abs_def])

lemma mem_ok_device:
  assumes "mem_ok wok h" "n \<in> dom (nodes h)"
  obtains v mt where "nodes h n = Some v" "mounts h (v_mount v) = Some mt" "wok (world h) (m_dev mt)"
  using assms by (fastforce simp: mem_ok_def)

lemma usable_read:
  assumes "cpio_usable w dev"
  obtains w' bs rd where "dev_read w dev off count = Some (w', bs, rd)" "same_disks w w'"
  using assms dev_read_holds by (metis (no_types, lifting) cpio_usable_def surj_pair)

lemma cpio_lookup_ok:
  assumes "mem_ok cpio_usable h" "dn \<in> dom (nodes h)" "n \<in> dom (nodes h)"
  shows "op_ok cpio_usable h (cpio_lookup dn name n h)"
proof -
  from assms(1,2) obtain v mt where v: "nodes h dn = Some v" "mounts h (v_mount v) = Some mt" "cpio_usable (world h) (m_dev mt)"
    by (rule mem_ok_device)
  from v(3) obtain bytes es where "dev_holds (world h) (m_dev mt) bytes" "archive_entries bytes 0 = Some es"
    by (auto simp: cpio_usable_def)
  from cpio_lookup_loop_entries [OF this] obtain w' r where
    r: "cpio_lookup_loop (world h) (m_dev mt) (v_path v) name 0 = Some (w', r)" "same_disks (world h) w'"
    by (rule parses_total)
  show ?thesis
  proof (cases r)
    case None
    then show ?thesis using v r by (simp add: cpio_lookup_def op_ok_world same_disks_usable)
  next
    case (Some p)
    then show ?thesis
      using v r assms(3) by (cases p) (auto simp: cpio_lookup_def intro!: op_ok_node same_disks_usable)
  qed
qed

lemma cpio_readdir_ok:
  assumes "mem_ok cpio_usable h" "n \<in> dom (nodes h)"
  shows "op_ok cpio_usable h (cpio_readdir n off h)"
proof -
  from assms obtain v mt where v: "nodes h n = Some v" "mounts h (v_mount v) = Some mt" "cpio_usable (world h) (m_dev mt)"
    by (rule mem_ok_device)
  from v(3) obtain bytes es where "dev_holds (world h) (m_dev mt) bytes" "archive_entries bytes 0 = Some es"
    "\<forall>(e, _) \<in> set es. no_long_name (ent_path e)"
    by (auto simp: cpio_usable_def)
  from readdir_loop_entries [OF this] obtain w' r where
    r: "readdir_loop (world h) (m_dev mt) (v_path v) off 0 0 = Some (w', r)" "same_disks (world h) w'"
    by (rule parses_total)
  then show ?thesis
    using v by (cases r) (auto simp: cpio_readdir_def op_ok_world same_disks_usable)
qed

lemma cpio_read_ok:
  assumes "mem_ok cpio_usable h" "n \<in> dom (nodes h)" "0 \<le> sint off"
  shows "op_ok cpio_usable h (cpio_read n off len h)"
proof -
  from assms(1,2) obtain v mt where v: "nodes h n = Some v" "mounts h (v_mount v) = Some mt" "cpio_usable (world h) (m_dev mt)"
    by (rule mem_ok_device)
  obtain w' bs rd where r: "dev_read (world h) (m_dev mt) (v_data v + off) (if v_size v - off < len then v_size v - off else len) = Some (w', bs, rd)"
    "same_disks (world h) w'"
    using v(3) by (rule usable_read)
  have "sint (v_size v) < 2 ^ 63" by (rule sint_lt [THEN order_less_le_trans]) simp
  then have "sint (v_size v) - sint off < 2 ^ 63" using assms(3) by linarith
  then show ?thesis using v r by (simp add: cpio_read_def Let_def op_ok_world same_disks_usable)
qed

lemma cpio_mount_ok:
  assumes "mem_ok cpio_usable h" "mounts h m = Some mt" "m_root mt = Some root" "root \<in> dom (nodes h)" "dev = None \<or> m_dev mt \<noteq> None"
  shows "op_ok cpio_usable h (cpio_mount m dev h)"
proof (cases dev)
  case None
  then show ?thesis using assms by (simp add: cpio_mount_def)
next
  case (Some s)
  then obtain d where d: "m_dev mt = Some d" using assms(5) by auto
  have u: "cpio_usable (world h) (m_dev mt)" using assms(1,2) by (auto simp: mem_ok_def)
  then obtain blk where blk: "blocks (world h) d = Some blk" by (auto simp: cpio_usable_def dev_holds_def d)
  obtain w' bs rd where r: "dev_read (world h) (m_dev mt) 0 HEADER_SIZE = Some (w', bs, rd)" "same_disks (world h) w'"
    using u by (rule usable_read)
  from assms(4) obtain rv where rv: "nodes h root = Some rv" by auto
  have "op_ok cpio_usable h (Some (h\<lparr>world := w', mounts := (mounts h)(m \<mapsto> mt\<lparr>m_flags := m_flags mt OR MOUNT_RO, m_data := 0\<rparr>),
      nodes := (nodes h)(root \<mapsto> rv\<lparr>v_data := 0\<rparr>)\<rparr>, 0 :: int))"
    using assms(2) rv r(2) by (auto simp: op_ok_def node_ids_def [abs_def] mount_ids_def [abs_def] same_disks_usable)
  then show ?thesis
    using Some d blk r assms(2,3) rv by (simp add: cpio_mount_def Let_def op_ok_world same_disks_usable)
qed

lemma cpio_unmount_ok: "m \<in> dom (mounts h) \<Longrightarrow> op_ok cpio_usable h (cpio_unmount m h)"
  by (auto simp: cpio_unmount_def intro!: op_ok_mount)

lemmas cpio_constant = cpio_vget_def cpio_vput_def cpio_sync_def cpio_msync_def cpio_write_def cpio_truncate_def
  cpio_create_def cpio_mkdir_def cpio_remove_def cpio_rmdir_def cpio_rename_def cpio_chmod_def

lemma cpio_env_only: "filesystems (cpio_env devs) s = Some fs \<Longrightarrow> fs = cpio"
  by (simp add: cpio_env_def split: if_splits)

interpretation cpio_fs: filesystem_env "cpio_env devs" cpio_usable for devs
  by unfold_locales
    (drule cpio_env_only, simp add: cpio_def cpio_constant cpio_lookup_ok cpio_readdir_ok cpio_read_ok cpio_mount_ok cpio_unmount_ok)+

end
