(* ===== verification/Cpio_Files.thy ===== *)
theory Cpio_Files
  imports Cpio_Archive
begin

text \<open>
  Archives in the ``newc'' format and the files the cpio file system finds in them.
\<close>

section \<open>Hexadecimal fields\<close>

definition hex_digit :: "nat \<Rightarrow> u8" where
  "hex_digit d = of_nat (if d < 10 then 48 + d else 55 + d)"

fun hex_digits :: "nat \<Rightarrow> nat \<Rightarrow> u8 list" where
  "hex_digits 0 n = []"
| "hex_digits (Suc k) n = hex_digits k (n div 16) @ [hex_digit (n mod 16)]"

lemma length_hex_digits [simp]: "length (hex_digits k n) = k"
  by (induction k arbitrary: n) auto

lemma hex_digit_table: "list_all (\<lambda>d. digit_of (hex_digit d) = Some (int d) \<and> hex_digit d \<noteq> 0) [0..<16]"
  by code_simp

lemma hex_digit_value: "d < 16 \<Longrightarrow> digit_of (hex_digit d) = Some (int d)" "d < 16 \<Longrightarrow> hex_digit d \<noteq> 0"
  using hex_digit_table by (auto simp: list_all_iff)

lemma hex_digits_are_digits: "list_all (is_digit 16) (hex_digits k n)" "0 \<notin> set (hex_digits k n)"
  by (induction k arbitrary: n) (auto simp: is_digit_def hex_digit_value)

lemma num_value_append: "num_value base acc (xs @ ys) = num_value base (num_value base acc xs) ys"
  by (induction xs arbitrary: acc) auto

lemma num_value_hex_digits: "num_value 16 0 (hex_digits k n) = int (n mod 16 ^ k)"
proof (induction k arbitrary: n)
  case (Suc k)
  have "n mod 16 ^ Suc k = 16 * (n div 16 mod 16 ^ k) + n mod 16"
    by (simp add: mod_mult2_eq)
  then show ?case using Suc.IH [of "n div 16"] by (simp add: num_value_append hex_digit_value)
qed simp

lemma hex_field_digits:
  assumes "n < 2 ^ 32"
  shows "hex_field (hex_digits 8 n) = of_nat n"
proof -
  have all: "takeWhile (\<lambda>b. b \<noteq> 0) (hex_digits 8 n) = hex_digits 8 n"
    using hex_digits_are_digits(2) [of 8 n] by (metis (mono_tags, lifting) takeWhile_eq_all_conv)
  have "hex_digits 8 n \<noteq> []" using length_hex_digits [of 8 n] by fastforce
  moreover have "num_value 16 0 (hex_digits 8 n) = int n" using assms num_value_hex_digits [of 8 n] by simp
  ultimately have "strtoul (hex_digits 8 n) 16 = (of_nat n, 8)"
    using strtoul_number [of 16 "hex_digits 8 n" "[]"] hex_digits_are_digits(1) [of 8 n] assms by (simp add: stops_def)
  then show ?thesis unfolding hex_field_def all using assms by (simp add: unsigned_of_nat take_bit_nat_eq_self)
qed

section \<open>Archives\<close>

record archive_file =
  af_name :: string
  af_ino :: u32
  af_mode :: u32
  af_uid :: u32
  af_gid :: u32
  af_nlink :: u32
  af_mtime :: u32
  af_data :: "u8 list"

definition hex8 :: "u32 \<Rightarrow> u8 list" where
  "hex8 x = hex_digits 8 (unat x)"

definition name_bytes :: "archive_file \<Rightarrow> u8 list" where
  "name_bytes f = bytes_of_string (af_name f) @ [0]"

definition file_header :: "archive_file \<Rightarrow> u8 list" where
  "file_header f =
     bytes_of_string ''070701''
     @ concat (map hex8 [af_ino f, af_mode f, af_uid f, af_gid f, af_nlink f, af_mtime f, of_nat (length (af_data f)),
                         0, 0, 0, 0, of_nat (length (name_bytes f)), 0])"

definition pad4 :: "nat \<Rightarrow> u8 list" where
  "pad4 n = replicate ((4 - n mod 4) mod 4) 0"

definition file_bytes :: "archive_file \<Rightarrow> u8 list" where
  "file_bytes f =
     file_header f @ name_bytes f @ pad4 (110 + length (name_bytes f)) @ af_data f @ pad4 (length (af_data f))"

definition trailer :: archive_file where
  "trailer = \<lparr>af_name = ''TRAILER!!!'', af_ino = 0, af_mode = 0, af_uid = 0, af_gid = 0, af_nlink = 1, af_mtime = 0, af_data = []\<rparr>"

definition archive :: "archive_file list \<Rightarrow> u8 list" where
  "archive fs = concat (map file_bytes fs) @ file_bytes trailer"

text \<open>What a file of an archive must satisfy: its name is a C string that fits the buffer, and it is not taken for
  the trailer.\<close>

definition named_ok :: "archive_file \<Rightarrow> bool" where
  "named_ok f \<longleftrightarrow> CHR 0x00 \<notin> set (af_name f) \<and> length (name_bytes f) \<le> VFS_MAX_PATH \<and> length (af_data f) < 2 ^ 32"

definition ends_archive :: "archive_file \<Rightarrow> bool" where
  "ends_archive f \<longleftrightarrow> af_data f = [] \<and> af_mode f = 0 \<and> af_name f = ''TRAILER!!!''"

definition file_ok :: "archive_file \<Rightarrow> bool" where
  "file_ok f \<longleftrightarrow> named_ok f \<and> \<not> ends_archive f"

definition file_entry :: "archive_file \<Rightarrow> cpio_entry" where
  "file_entry f =
     \<lparr>ent_size = of_nat (length (af_data f)), ent_name_size = of_nat (length (name_bytes f)), ent_mode = af_mode f,
      ent_mtime = af_mtime f, ent_path = af_name f\<rparr>"

lemma length_hex8 [simp]: "length (hex8 x) = 8"
  by (simp add: hex8_def)

lemma hex_field_hex8 [simp]: "hex_field (hex8 x) = x"
  using hex_field_digits [of "unat x"] unat_less_2p [of x] by (simp add: hex8_def)

lemma length_file_header [simp]: "length (file_header f) = 110"
  by (simp add: file_header_def bytes_of_string_def)

lemma header_fields:
  "c_magic (header_of_bytes (file_header f)) = bytes_of_string ''070701''"
  "c_mode (header_of_bytes (file_header f)) = hex8 (af_mode f)"
  "c_mtime (header_of_bytes (file_header f)) = hex8 (af_mtime f)"
  "c_filesize (header_of_bytes (file_header f)) = hex8 (of_nat (length (af_data f)))"
  "c_namesize (header_of_bytes (file_header f)) = hex8 (of_nat (length (name_bytes f)))"
  by (simp_all add: header_of_bytes_def file_header_def bytes_of_string_def Let_def)

lemma string_of_name:
  assumes "CHR 0x00 \<notin> set s"
  shows "string_of_bytes (bytes_of_string s @ [0]) = s"
proof -
  have "\<forall>b \<in> set (bytes_of_string s). b \<noteq> 0" using assms by (auto simp: bytes_of_string_def)
  then have "takeWhile (\<lambda>b. b \<noteq> 0) (bytes_of_string s @ [0]) = bytes_of_string s" by simp
  then show ?thesis by (simp add: string_of_bytes_def bytes_of_string_def comp_def)
qed

lemma chunk_prefix: "chunk (pre @ xs) (length pre) n = take n xs"
  by (simp add: chunk_def)

lemma parse_entry_header:
  assumes f: "named_ok f" and h: "chunk bytes (unat off) 110 = file_header f"
    and name: "chunk bytes (unat (off + HEADER_SIZE)) (length (name_bytes f)) = name_bytes f"
  shows "parse_entry bytes off = Some (if ends_archive f then None else Some (file_entry f))"
proof -
  have n: "length (name_bytes f) < 2 ^ 32" "length (af_data f) < 2 ^ 32" using f by (simp_all add: named_ok_def)
  have path: "string_of_bytes (name_bytes f) = af_name f" using f by (simp add: named_ok_def name_bytes_def string_of_name)
  have ns: "unat (of_nat (length (name_bytes f)) :: u32) = length (name_bytes f)" using n by simp
  have trail: "of_nat (length (af_data f)) = (0 :: u32) \<and> af_mode f = 0 \<and> of_nat (length (name_bytes f)) = (11 :: u32)
      \<and> take 10 (af_name f) = ''TRAILER!!!'' \<longleftrightarrow> ends_archive f"
  proof -
    have "of_nat (length (name_bytes f)) = (11 :: u32) \<longleftrightarrow> length (name_bytes f) = 11"
      and "of_nat (length (af_data f)) = (0 :: u32) \<longleftrightarrow> af_data f = []"
      using n by (simp_all add: word_unat_eq_iff)
    then show ?thesis by (auto simp: ends_archive_def name_bytes_def bytes_of_string_def)
  qed
  have "length (chunk bytes (unat off) 110) = 110" unfolding h by simp
  then have "\<not> length bytes < unat off + 110" by (simp add: min_def split: if_splits)
  moreover have "name_bytes f \<noteq> []" "0 \<in> set (name_bytes f)" "length (name_bytes f) \<le> VFS_MAX_PATH"
    using f by (simp_all add: name_bytes_def named_ok_def)
  ultimately show ?thesis
    unfolding parse_entry_def Let_def h header_fields hex_field_hex8 ns name path cpio_entry.select_convs trail
    by (simp add: file_entry_def)
qed

lemma parse_file:
  assumes f: "named_ok f" and len: "length (pre @ file_bytes f @ post) < 2 ^ 32"
  shows "parse_entry (pre @ file_bytes f @ post) (of_nat (length pre)) = Some (if ends_archive f then None else Some (file_entry f))"
proof (rule parse_entry_header [OF f])
  have off: "unat (of_nat (length pre) :: u64) = length pre" using len by simp
  then show "chunk (pre @ file_bytes f @ post) (unat (of_nat (length pre) :: u64)) 110 = file_header f"
    by (simp add: chunk_prefix file_bytes_def)
  have "unat (of_nat (length pre) + HEADER_SIZE :: u64) = length (pre @ file_header f)"
    using len by (simp add: unat_add_64 off file_bytes_def)
  moreover have "pre @ file_bytes f @ post = (pre @ file_header f) @ name_bytes f @ drop (110 + length (name_bytes f)) (file_bytes f) @ post"
    by (simp add: file_bytes_def)
  ultimately show "chunk (pre @ file_bytes f @ post) (unat (of_nat (length pre) + HEADER_SIZE)) (length (name_bytes f)) = name_bytes f"
    by (simp only: chunk_prefix) simp
qed

lemma roundup4: "4 * ((n + 3) div 4) = n + (4 - n mod 4) mod (4 :: nat)"
proof -
  have "n mod 4 = 0 \<or> n mod 4 = 1 \<or> n mod 4 = 2 \<or> n mod 4 = 3" by linarith
  then show ?thesis by (elim disjE) (simp_all, presburger+)
qed

lemma length_pad4: "n + length (pad4 n) = 4 * ((n + 3) div 4)"
  by (simp add: pad4_def roundup4)

text \<open>The padding the code computes with masks is that of the format.\<close>

definition data_start :: "archive_file \<Rightarrow> nat" where
  "data_start f = 4 * ((110 + length (name_bytes f) + 3) div 4)"

lemma length_file_bytes: "length (file_bytes f) = data_start f + 4 * ((length (af_data f) + 3) div 4)"
proof -
  have "length (file_bytes f) = (110 + length (name_bytes f) + length (pad4 (110 + length (name_bytes f))))
      + (length (af_data f) + length (pad4 (length (af_data f))))"
    by (simp add: file_bytes_def)
  then show ?thesis unfolding length_pad4 data_start_def .
qed

lemma name_padding:
  fixes ns :: u32
  assumes "unat ns \<le> VFS_MAX_PATH"
  shows "unat (((ns + 1) AND NOT 3) + 2) = 4 * ((110 + unat ns + 3) div 4) - 110"
proof -
  have "unat (ns + 1) = unat ns + 1" using assms by (simp add: unat_word_ariths)
  then have a: "unat ((ns + 1) AND NOT 3) = (unat ns + 1) div 4 * 4" by (simp only: unat_and_not_3)
  have "unat (((ns + 1) AND NOT 3) + 2) = (unat ns + 1) div 4 * 4 + 2"
    using a assms by (simp add: unat_word_ariths)
  then show ?thesis by presburger
qed

lemma file_offsets:
  assumes f: "file_ok f" and off: "4 dvd off" "off + length (file_bytes f) < 2 ^ 32"
  shows "entry_data (of_nat off) (file_entry f) = of_nat (off + data_start f)"
    and "entry_next (of_nat off) (file_entry f) = of_nat (off + length (file_bytes f))"
proof -
  let ?ns = "ent_name_size (file_entry f)" and ?sz = "ent_size (file_entry f)"
  let ?x = "((?ns + 1) AND NOT 3) + 2"
  have ns: "unat ?ns = length (name_bytes f)" and sz: "unat ?sz = length (af_data f)"
    using f by (simp_all add: file_ok_def named_ok_def file_entry_def)
  have x: "unat ?x = data_start f - 110"
    using name_padding [of ?ns] f ns by (simp add: data_start_def file_ok_def named_ok_def)
  have D: "110 \<le> data_start f" "4 dvd data_start f" unfolding data_start_def by presburger+
  have o: "unat (of_nat off :: u64) = off" using off(2) by simp
  have total: "off + data_start f + length (af_data f) + 3 < 2 ^ 33" "data_start f + length (af_data f) < 2 ^ 32"
  proof -
    have "length (af_data f) \<le> 4 * ((length (af_data f) + 3) div 4)" by presburger
    then show "off + data_start f + length (af_data f) + 3 < 2 ^ 33" "data_start f + length (af_data f) < 2 ^ 32"
      using off(2) unfolding length_file_bytes by simp_all
  qed
  have sum: "unat (?x + ?sz) = data_start f - 110 + length (af_data f)"
    using total(2) D(1) x sz by (simp add: unat_word_ariths)
  have "unat (entry_data (of_nat off) (file_entry f)) = off + data_start f"
    using total D(1) x o by (simp add: entry_data_def unat_add_64)
  then show "entry_data (of_nat off) (file_entry f) = of_nat (off + data_start f)"
    by (metis of_nat_unat ucast_id)
  have "unat (of_nat off + HEADER_SIZE + ucast (?x + ?sz) + 3 :: u64) = off + data_start f + length (af_data f) + 3"
    using total D(1) sum o by (simp add: unat_add_64)
  then have "unat (entry_next (of_nat off) (file_entry f)) = (off + data_start f + length (af_data f) + 3) div 4 * 4"
    unfolding entry_next_def unat_and_not_3 by simp
  also have "\<dots> = off + length (file_bytes f)"
    unfolding length_file_bytes using off(1) D(2) by presburger
  finally show "entry_next (of_nat off) (file_entry f) = of_nat (off + length (file_bytes f))"
    by (metis of_nat_unat ucast_id)
qed

text \<open>The files with the offsets of their headers.\<close>

fun locate :: "nat \<Rightarrow> archive_file list \<Rightarrow> (cpio_entry \<times> u64) list" where
  "locate off [] = []"
| "locate off (f # fs) = (file_entry f, of_nat off) # locate (off + length (file_bytes f)) fs"

lemma trailer_ends: "named_ok trailer" "ends_archive trailer"
  by (simp_all add: named_ok_def ends_archive_def trailer_def name_bytes_def bytes_of_string_def)

lemma archive_entries_locate:
  assumes "list_all file_ok fs" "4 dvd length pre" "length (pre @ archive fs @ post) < 2 ^ 32"
  shows "archive_entries (pre @ archive fs @ post) (of_nat (length pre)) = Some (locate (length pre) fs)"
  using assms
proof (induction fs arbitrary: pre)
  case Nil
  then show ?case using parse_file [OF trailer_ends(1), of pre post] trailer_ends(2) by (subst archive_entries.simps) (simp add: archive_def)
next
  case (Cons f fs)
  let ?bytes = "pre @ archive (f # fs) @ post"
  have split: "?bytes = pre @ file_bytes f @ (archive fs @ post)" "?bytes = (pre @ file_bytes f) @ archive fs @ post"
    by (simp_all add: archive_def)
  have f: "file_ok f" and len: "length ?bytes < 2 ^ 32" using Cons.prems by simp_all
  have "parse_entry ?bytes (of_nat (length pre)) = Some (Some (file_entry f))"
    using parse_file [of f pre "archive fs @ post"] f len unfolding split(1) by (simp add: file_ok_def)
  moreover have "entry_next (of_nat (length pre)) (file_entry f) = of_nat (length (pre @ file_bytes f))"
    using file_offsets(2) [OF f Cons.prems(2)] len unfolding split(1) by simp
  moreover have "archive_entries ?bytes (of_nat (length (pre @ file_bytes f))) = Some (locate (length (pre @ file_bytes f)) fs)"
    unfolding split(2)
  proof (rule Cons.IH)
    have "4 dvd length (file_bytes f)" unfolding length_file_bytes data_start_def by presburger
    then show "4 dvd length (pre @ file_bytes f)" using Cons.prems(2) by simp
    show "length ((pre @ file_bytes f) @ archive fs @ post) < 2 ^ 32" using len unfolding split(2) .
  qed (use Cons.prems in simp)
  ultimately show ?case using len by (subst archive_entries.simps) simp
qed

section \<open>Finding and reading a file\<close>

text \<open>The first file with a property and the offset of its header.\<close>

fun find_file :: "(archive_file \<Rightarrow> bool) \<Rightarrow> nat \<Rightarrow> archive_file list \<Rightarrow> (archive_file \<times> nat) option" where
  "find_file P off [] = None"
| "find_file P off (f # fs) = (if P f then Some (f, off) else find_file P (off + length (file_bytes f)) fs)"

lemma find_locate:
  "find (\<lambda>(e, _). Q e) (locate off fs)
    = map_option (\<lambda>(f, o'). (file_entry f, of_nat o')) (find_file (\<lambda>f. Q (file_entry f)) off fs)"
  by (induction fs arbitrary: off) auto

lemma find_file_find: "map_option fst (find_file P off fs) = find P fs"
  by (induction fs arbitrary: off) auto

lemma find_file_position:
  assumes "find_file P off fs = Some (f, o')"
  obtains xs ys where "concat (map file_bytes fs) = xs @ file_bytes f @ ys" "o' = off + length xs" "f \<in> set fs" "4 dvd length xs"
proof -
  have "\<exists>xs ys. concat (map file_bytes fs) = xs @ file_bytes f @ ys \<and> o' = off + length xs \<and> f \<in> set fs \<and> 4 dvd length xs"
    using assms
  proof (induction fs arbitrary: off)
    case (Cons g fs)
    show ?case
    proof (cases "P g")
      case True
      then show ?thesis using Cons.prems by (intro exI [of _ "[]"] exI [of _ "concat (map file_bytes fs)"]) auto
    next
      case False
      then obtain xs ys where "concat (map file_bytes fs) = xs @ file_bytes f @ ys" "o' = off + length (file_bytes g) + length xs"
        "f \<in> set fs" "4 dvd length xs"
        using Cons.IH [of "off + length (file_bytes g)"] Cons.prems by auto
      moreover have "4 dvd length (file_bytes g)" unfolding length_file_bytes data_start_def by presburger
      ultimately show ?thesis by (intro exI [of _ "file_bytes g @ xs"] exI [of _ ys]) auto
    qed
  qed simp
  then show thesis using that by blast
qed

lemma chunk_middle: "a + n \<le> length ys \<Longrightarrow> chunk (xs @ ys @ zs) (length xs + a) n = chunk ys a n"
  by (simp add: chunk_def)

lemma chunk_file_data:
  assumes "bytes = xs @ file_bytes f @ ys" "a + n \<le> length (af_data f)"
  shows "chunk bytes (length xs + data_start f + a) n = chunk (af_data f) a n"
proof -
  let ?hd = "file_header f @ name_bytes f @ pad4 (110 + length (name_bytes f))"
  have "length ?hd = data_start f" using length_pad4 [of "110 + length (name_bytes f)"] by (simp add: data_start_def)
  moreover have "bytes = (xs @ ?hd) @ af_data f @ pad4 (length (af_data f)) @ ys" using assms(1) by (simp add: file_bytes_def)
  ultimately show ?thesis using chunk_middle [OF assms(2), of "xs @ ?hd"] by (simp add: add.assoc)
qed

text \<open>What a lookup stores in the node.\<close>

definition found_node :: "archive_file \<Rightarrow> nat \<Rightarrow> vfs_node_t \<Rightarrow> vfs_node_t" where
  "found_node f off v =
     v\<lparr>v_atime := ucast (af_mtime f), v_mtime := ucast (af_mtime f), v_ctime := ucast (af_mtime f),
       v_type := fst (cpio_node_type (af_mode f)), v_mode := cpio_node_mode (af_mode f),
       v_size := of_nat (length (af_data f)), v_data := of_nat (off + data_start f)\<rparr>"

text \<open>The archive of \<open>fs\<close>, with anything behind it, is on the device of mount \<open>m\<close>.\<close>

definition archive_mounted :: "'d block_world vfs_mem \<Rightarrow> mount_ptr \<Rightarrow> archive_file list \<Rightarrow> bool" where
  "archive_mounted h m fs \<longleftrightarrow>
     (\<exists>mt post. mounts h m = Some mt \<and> dev_holds (world h) (m_dev mt) (archive fs @ post) \<and> length (archive fs @ post) < 2 ^ 32)
     \<and> list_all file_ok fs \<and> (\<forall>n. alloc_ok (world h) n)"

lemma parses_alloc:
  assumes "parses w res (Some r)" "\<forall>n. alloc_ok w n"
  obtains w' where "res = Some (w', r)" "same_disks w w'"
  using assms by (auto simp: parses_def)

lemma file_entry_sel [simp]: "ent_mode (file_entry f) = af_mode f" "ent_mtime (file_entry f) = af_mtime f" "ent_path (file_entry f) = af_name f"
  by (simp_all add: file_entry_def)

lemma lookup_archive:
  assumes arch: "archive_mounted h (v_mount dv) fs" and dn: "nodes h dn = Some dv" and n: "nodes h n = Some v"
  obtains w' where "same_disks (world h) w'"
    "cpio_lookup dn name n h =
       (case find_file (\<lambda>f. matches (v_path dv) name (file_entry f)) 0 fs of
          None \<Rightarrow> Some (h\<lparr>world := w'\<rparr>, -1)
        | Some (f, off) \<Rightarrow> Some (h\<lparr>world := w', nodes := (nodes h)(n \<mapsto> found_node f off v)\<rparr>, 0))"
proof -
  from arch obtain mt post where mt: "mounts h (v_mount dv) = Some mt" and dev: "dev_holds (world h) (m_dev mt) (archive fs @ post)"
    and len: "length (archive fs @ post) < 2 ^ 32" and files: "list_all file_ok fs" and ok: "\<forall>n. alloc_ok (world h) n"
    by (auto simp: archive_mounted_def)
  have es: "archive_entries (archive fs @ post) 0 = Some (locate 0 fs)"
    using archive_entries_locate [OF files, of "[]" post] len by simp
  let ?P = "\<lambda>f. matches (v_path dv) name (file_entry f)"
  obtain w' where w': "cpio_lookup_loop (world h) (m_dev mt) (v_path dv) name 0
      = Some (w', map_option (\<lambda>(f, off). (file_entry f, of_nat off)) (find_file ?P 0 fs))" "same_disks (world h) w'"
    using cpio_lookup_loop_entries [OF dev es, of "v_path dv" name] ok unfolding find_locate by (rule parses_alloc)
  show thesis
  proof (rule that [OF w'(2)], cases "find_file ?P 0 fs")
    case None
    then show "cpio_lookup dn name n h = (case find_file ?P 0 fs of None \<Rightarrow> Some (h\<lparr>world := w'\<rparr>, -1)
        | Some (f, off) \<Rightarrow> Some (h\<lparr>world := w', nodes := (nodes h)(n \<mapsto> found_node f off v)\<rparr>, 0))"
      using dn mt w'(1) by (simp add: cpio_lookup_def)
  next
    case (Some p)
    obtain f off where p: "p = (f, off)" by (cases p)
    obtain xs ys where pos: "concat (map file_bytes fs) = xs @ file_bytes f @ ys" "off = 0 + length xs" "f \<in> set fs" "4 dvd length xs"
      using Some unfolding p by (rule find_file_position)
    have f: "file_ok f" using files pos(3) by (simp add: list_all_iff)
    have "off + length (file_bytes f) < 2 ^ 32" using len pos(1,2) by (simp add: archive_def)
    then have "entry_data (of_nat off) (file_entry f) = of_nat (off + data_start f)"
      using file_offsets(1) [OF f] pos(2,4) by simp
    moreover have "(ucast (ent_size (file_entry f)) :: s64) = of_nat (length (af_data f))"
      using f by (simp add: file_entry_def file_ok_def named_ok_def unsigned_of_nat take_bit_nat_eq_self)
    ultimately show "cpio_lookup dn name n h = (case find_file ?P 0 fs of None \<Rightarrow> Some (h\<lparr>world := w'\<rparr>, -1)
        | Some (f, off) \<Rightarrow> Some (h\<lparr>world := w', nodes := (nodes h)(n \<mapsto> found_node f off v)\<rparr>, 0))"
      using dn mt w'(1) n by (simp add: cpio_lookup_def Some p found_node_def)
  qed
qed

lemma archive_mounted_world:
  assumes "archive_mounted h m fs" "same_disks (world h) w'"
  shows "archive_mounted (h\<lparr>world := w', nodes := ns\<rparr>) m fs"
  using assms by (auto simp: archive_mounted_def same_disks_def)

lemma read_archive:
  assumes arch: "archive_mounted h (v_mount v) fs" and pos: "find_file P 0 fs = Some (f, off)"
    and n: "nodes h n = Some v" and reg: "v_type v = VNT_REG" and sz: "v_size v = of_nat (length (af_data f))"
    and data: "v_data v = of_nat (off + data_start f)" and nn: "0 \<le> sint q"
  obtains w' where "same_disks (world h) w'"
    "cpio_read n q len h = Some (h\<lparr>world := w'\<rparr>, chunk (af_data f) (unat q) (unat len),
        of_nat (min (unat len) (length (af_data f) - unat q)))"
proof -
  from arch obtain mt post where mt: "mounts h (v_mount v) = Some mt" and dev: "dev_holds (world h) (m_dev mt) (archive fs @ post)"
    and len: "length (archive fs @ post) < 2 ^ 32" and ok: "\<forall>n. alloc_ok (world h) n" and files: "list_all file_ok fs"
    by (auto simp: archive_mounted_def)
  obtain xs ys where at: "concat (map file_bytes fs) = xs @ file_bytes f @ ys" "off = 0 + length xs" "f \<in> set fs"
    using pos by (rule find_file_position)
  let ?bytes = "archive fs @ post" and ?L = "length (af_data f)"
  have bytes: "?bytes = xs @ file_bytes f @ (ys @ file_bytes trailer @ post)" using at(1) by (simp add: archive_def)
  have L: "?L < 2 ^ 32" using files at(3) by (auto simp: list_all_iff file_ok_def named_ok_def)
  have so: "sint q = int (unat q)" using nn by (rule sint_nonneg_eq)
  have ssz: "sint (v_size v) = int ?L" "unat (v_size v) = ?L" using L sz by simp_all
  show thesis
  proof (cases "sint q \<ge> sint (v_size v)")
    case True
    then have "cpio_read n q len h = Some (h, [], 0)" using n mt reg by (simp add: cpio_read_def)
    moreover have "chunk (af_data f) (unat q) (unat len) = []" "?L - unat q = 0"
    proof -
      have "?L \<le> unat q" using True so ssz(1) by linarith
      then show "chunk (af_data f) (unat q) (unat len) = []" "?L - unat q = 0" by (simp_all add: chunk_def)
    qed
    ultimately show thesis by (intro that [of "world h"]) simp_all
  next
    case False
    then have lt: "unat q < ?L" using so ssz(1) by linarith
    define sz' where "sz' = (if v_size v - q < len then v_size v - q else len)"
    have "unat (v_size v - q) = ?L - unat q" using lt ssz(2) by (subst unat_sub) (simp_all add: word_le_nat_alt)
    then have sz': "unat sz' = min (unat len) (?L - unat q)" by (auto simp: sz'_def word_less_nat_alt)
    have "off + data_start f + ?L \<le> length ?bytes"
    proof -
      have "?L \<le> 4 * ((?L + 3) div 4)" by presburger
      then show ?thesis using at(2) length_file_bytes [of f] unfolding bytes by simp
    qed
    then have small: "off + data_start f + ?L < 2 ^ 32" using len by linarith
    have pos': "unat (v_data v + q) = length xs + data_start f + unat q"
      using small lt data at(2) by (simp add: unat_add_64)
    obtain w' where w': "dev_read (world h) (m_dev mt) (v_data v + q) sz' = Some (w', transfer True ?bytes (v_data v + q) sz')"
      "same_disks (world h) w'"
      using dev_read_holds [OF dev, of "v_data v + q" sz'] ok by auto
    have "transfer True ?bytes (v_data v + q) sz' = (chunk (af_data f) (unat q) (unat len), of_nat (min (unat len) (?L - unat q)))"
    proof -
      have "chunk ?bytes (unat (v_data v + q)) (unat sz') = chunk (af_data f) (unat q) (unat sz')"
        unfolding pos' using bytes sz' lt by (intro chunk_file_data) auto
      moreover have "chunk (af_data f) (unat q) (unat sz') = chunk (af_data f) (unat q) (unat len)"
        unfolding sz' by (auto simp: chunk_def min_def)
      moreover have "min (unat sz') (length ?bytes - unat (v_data v + q)) = min (unat len) (?L - unat q)"
        using sz' pos' small at(2) \<open>off + data_start f + ?L \<le> length ?bytes\<close> by linarith
      ultimately show ?thesis by (simp add: transfer_def)
    qed
    moreover have "sint (v_size v) - sint q < 2 ^ 63" using ssz(1) nn L by simp
    ultimately have "cpio_read n q len h = Some (h\<lparr>world := w'\<rparr>, chunk (af_data f) (unat q) (unat len), of_nat (min (unat len) (?L - unat q)))"
      using n mt reg False w'(1) by (simp add: cpio_read_def Let_def sz'_def)
    then show thesis using w'(2) by (intro that)
  qed
qed

text \<open>A disk with one file.\<close>

definition hello :: archive_file where
  "hello = \<lparr>af_name = ''a'', af_ino = 1, af_mode = 0x81A4, af_uid = 0, af_gid = 0, af_nlink = 1, af_mtime = 7, af_data = [104, 105]\<rparr>"

definition hello_disk :: "u8 list" where
  "hello_disk = archive [hello] @ replicate 784 0"

definition hello_mem :: "u8 list block_world vfs_mem" where
  "hello_mem =
     (let v = \<lparr>v_mount = 0, v_refcnt = 1, v_path = ''/'', v_flags = VNF_ROOT, v_type = VNT_DIR, v_ctime = 0, v_atime = 0,
               v_mtime = 0, v_mode = 0, v_size = 0, v_data = 0\<rparr> in
      \<lparr>nodes = [0 \<mapsto> v, 1 \<mapsto> v\<lparr>v_path := ''/a'', v_flags := VNF_NONE, v_type := VNT_REG\<rparr>],
       mounts = [0 \<mapsto> \<lparr>m_fs = ''cpio'', m_dev = Some 0, m_path = ''/'', m_flags = MOUNT_RO, m_refcnt = 2, m_root = Some 0,
                        m_covered = None, m_data = 0\<rparr>],
       world = \<lparr>blocks = [0 \<mapsto> virtio_block_t ram_disk 512 2 hello_disk], alloc_ok = (\<lambda>_. True), alloc_no = 0\<rparr>\<rparr>)"

lemma length_hello_disk: "length hello_disk = 1024"
  by (simp add: hello_disk_def archive_def length_file_bytes data_start_def name_bytes_def bytes_of_string_def hello_def trailer_def)

lemma hello_holds: "holds (virtio_block_t ram_disk 512 2 hello_disk) hello_disk"
  unfolding holds_def using ram.sector_driver.block_driver_axioms length_hello_disk
  by (intro conjI exI [of _ id] exI [of _ "\<lambda>d. length d = 1024"]) (simp_all add: virtio_block_t_def)

lemma hello_mounted: "archive_mounted hello_mem 0 [hello]"
proof -
  note hello_holds
  moreover have "file_ok hello"
    by (simp add: file_ok_def named_ok_def ends_archive_def hello_def name_bytes_def bytes_of_string_def)
  moreover have "length (archive [hello] @ replicate 784 0) = 1024" using length_hello_disk by (simp only: hello_disk_def)
  ultimately show ?thesis
    unfolding archive_mounted_def by (auto simp: hello_mem_def dev_holds_def hello_disk_def Let_def intro!: exI [of _ "replicate 784 0"])
qed

lemma hello_nodes:
  obtains dv v where "nodes hello_mem 0 = Some dv" "v_mount dv = 0" "v_path dv = ''/''" "nodes hello_mem 1 = Some v" "v_mount v = 0"
  by (simp add: hello_mem_def Let_def)

lemma hello_matches: "matches ''/'' ''a'' (file_entry hello)" "\<not> matches ''/'' ''b'' (file_entry hello)"
  by (simp_all add: matches_def check_path_def skip_slash_def hello_def)

section \<open>Properties\<close>

text \<open>C11: On a device with an archive, \<^verbatim>\<open>cpio_lookup\<close> finds the first file of the archive that matches the
  directory and the name, in any position and behind any padding, and stores its attributes and the place of its contents
  in the node; without such a file it returns -1 and leaves the node alone.\<close>

theorem cpio_lookup_archive:
  assumes "archive_mounted h (v_mount dv) fs" "nodes h dn = Some dv" "nodes h n = Some v"
  shows "\<exists>w'. same_disks (world h) w' \<and> cpio_lookup dn name n h =
       (case find_file (\<lambda>f. matches (v_path dv) name (file_entry f)) 0 fs of
          None \<Rightarrow> Some (h\<lparr>world := w'\<rparr>, -1)
        | Some (f, off) \<Rightarrow> Some (h\<lparr>world := w', nodes := (nodes h)(n \<mapsto> found_node f off v)\<rparr>, 0))"
proof -
  obtain w' where "same_disks (world h) w'" "cpio_lookup dn name n h =
       (case find_file (\<lambda>f. matches (v_path dv) name (file_entry f)) 0 fs of
          None \<Rightarrow> Some (h\<lparr>world := w'\<rparr>, -1)
        | Some (f, off) \<Rightarrow> Some (h\<lparr>world := w', nodes := (nodes h)(n \<mapsto> found_node f off v)\<rparr>, 0))"
    using assms by (rule lookup_archive)
  then show ?thesis by blast
qed

theorem cpio_lookup_archive_witness:
  "\<exists>w'. same_disks (world hello_mem) w' \<and> cpio_lookup 0 ''b'' 1 hello_mem = Some (hello_mem\<lparr>world := w'\<rparr>, -1)"
proof -
  obtain dv v where "nodes hello_mem 0 = Some dv" "v_mount dv = 0" "v_path dv = ''/''" "nodes hello_mem 1 = Some v"
    by (rule hello_nodes)
  then show ?thesis
    using cpio_lookup_archive [of hello_mem dv "[hello]" 0 1 v "''b''"] hello_mounted hello_matches(2) by simp
qed

text \<open>Looking a regular file up and reading it through the node gives the bytes of that file in the archive,
  from any offset, cut at the end of the file.\<close>

lemma cpio_lookup_read:
  assumes "archive_mounted h (v_mount dv) fs" "nodes h dn = Some dv" "nodes h n = Some v" "v_mount v = v_mount dv"
    and "find (\<lambda>f. matches (v_path dv) name (file_entry f)) fs = Some f" "fst (cpio_node_type (af_mode f)) = VNT_REG"
    and "0 \<le> sint pos"
  shows "\<exists>h' h''. cpio_lookup dn name n h = Some (h', 0)
    \<and> cpio_read n pos len h' = Some (h'', chunk (af_data f) (unat pos) (unat len),
        of_nat (min (unat len) (length (af_data f) - unat pos)))"
proof -
  let ?P = "\<lambda>f. matches (v_path dv) name (file_entry f)"
  obtain off where off: "find_file ?P 0 fs = Some (f, off)"
    using find_file_find [of ?P 0 fs] assms(5) by auto
  obtain w' where w': "same_disks (world h) w'"
    "cpio_lookup dn name n h = Some (h\<lparr>world := w', nodes := (nodes h)(n \<mapsto> found_node f off v)\<rparr>, 0)"
    using lookup_archive [OF assms(1-3), of name] unfolding off by auto
  let ?h = "h\<lparr>world := w', nodes := (nodes h)(n \<mapsto> found_node f off v)\<rparr>"
  have nd: "nodes ?h n = Some (found_node f off v)" by simp
  have "archive_mounted ?h (v_mount (found_node f off v)) fs"
    using archive_mounted_world [OF assms(1) w'(1)] assms(4) by (simp add: found_node_def)
  then obtain w'' where "cpio_read n pos len ?h = Some (?h\<lparr>world := w''\<rparr>, chunk (af_data f) (unat pos) (unat len),
        of_nat (min (unat len) (length (af_data f) - unat pos)))"
    by (rule read_archive [OF _ off nd _ _ _ assms(7)]) (use assms(6) in \<open>simp_all add: found_node_def\<close>)
  with w'(2) show ?thesis by blast
qed

lemma cpio_lookup_read_witness:
  "\<exists>h' h''. cpio_lookup 0 ''a'' 1 hello_mem = Some (h', 0) \<and> cpio_read 1 1 10 h' = Some (h'', [105], 1)"
proof -
  obtain dv v where dv: "nodes hello_mem 0 = Some dv" "v_mount dv = 0" "v_path dv = ''/''" and v: "nodes hello_mem 1 = Some v" "v_mount v = 0"
    by (rule hello_nodes)
  have "fst (cpio_node_type (af_mode hello)) = VNT_REG" by (simp add: cpio_node_type_def hello_def)
  moreover have "chunk (af_data hello) (unat (1 :: u64)) (unat (10 :: u64)) = [105]" "length (af_data hello) = 2"
    by (simp_all add: chunk_def hello_def)
  ultimately show ?thesis
    using cpio_lookup_read [of hello_mem dv "[hello]" 0 1 v "''a''" hello 1 10] hello_mounted hello_matches(1) dv v by simp
qed

section \<open>Listing a directory\<close>

text \<open>
  What a directory contains, in terms of the text of the paths and not of the code. A leading slash does not count. An entry \<open>x\<close> of
  the directory is a path that is the directory, at most one slash, \<open>x\<close> and at most one slash; \<open>x\<close> itself has none. Since the first
  slash is optional, a file \<^verbatim>\<open>foobar\<close> is the entry \<^verbatim>\<open>bar\<close> of \<^verbatim>\<open>/foo\<close>, and the directory followed by two slashes is an entry with
  an empty name.
\<close>

definition relative :: "string \<Rightarrow> string" where
  "relative p = (if take 1 p = ''/'' then drop 1 p else p)"

definition entry_of :: "string \<Rightarrow> string \<Rightarrow> string \<Rightarrow> bool" where
  "entry_of dir path x \<longleftrightarrow>
     (if x = [] then relative path = relative dir @ ''//''
      else CHR ''/'' \<notin> set x \<and> (\<exists>sep \<in> {[], ''/''}. \<exists>tail \<in> {[], ''/''}. relative path = relative dir @ sep @ x @ tail))"

primrec tails :: "string \<Rightarrow> string list" where
  "tails [] = [[]]"
| "tails (c # s) = (c # s) # tails s"

text \<open>Paths that begin with a dot are hidden.\<close>

definition entry_name :: "string \<Rightarrow> string \<Rightarrow> string option" where
  "entry_name dir path = (if take 1 path = ''.'' then None else find (entry_of dir path) (tails path @ tails (butlast path)))"

definition dir_files :: "string \<Rightarrow> archive_file list \<Rightarrow> (archive_file \<times> string) list" where
  "dir_files dir fs = concat (map (\<lambda>f. case entry_name dir (af_name f) of None \<Rightarrow> [] | Some x \<Rightarrow> [(f, x)]) fs)"

text \<open>The type of an entry is given by the upper four bits of the 16 bits of the mode; other values are regular files.\<close>

definition type_of_mode :: "u32 \<Rightarrow> vfs_dirent_type_t" where
  "type_of_mode mode =
     (case map_of [(1, VDT_FIFO), (2, VDT_CHR), (4, VDT_DIR), (6, VDT_BLK), (8, VDT_REG), (10, VDT_LNK), (12, VDT_SOCK)]
             (drop_bit 12 mode AND 0xF) of
        None \<Rightarrow> VDT_REG
      | Some t \<Rightarrow> t)"

lemma cpio_dirent_type_mode: "cpio_dirent_type mode = type_of_mode mode"
proof -
  define m :: u32 where "m = mask 4"
  define k where "k = drop_bit 12 mode AND m"
  have m: "0xF000 = push_bit 12 m" "0xF = (m :: u32)" by (simp_all add: m_def mask_eq_exp_minus_1)
  have k: "k = drop_bit 12 (mode AND push_bit 12 m)" "mode AND push_bit 12 m = push_bit 12 k"
    unfolding k_def m_def by (auto intro!: bit_word_eqI simp: bit_simps)
  have eq: "mode AND push_bit 12 m = push_bit 12 j \<longleftrightarrow> k = j" if "drop_bit 12 (push_bit 12 j) = j" for j using k that by metis
  show ?thesis
    using eq [of 1] eq [of 2] eq [of 4] eq [of 6] eq [of 8] eq [of 10] eq [of 12]
    unfolding cpio_dirent_type_def type_of_mode_def Let_def m(1) m(2) k_def [symmetric] by simp
qed

lemma skip_slash_relative: "skip_slash = relative"
  by (auto simp: skip_slash_def relative_def fun_eq_iff split: list.splits)

lemma in_tails: "x \<in> set (tails s) \<longleftrightarrow> (\<exists>y. s = y @ x)"
  by (induction s) (auto simp: Cons_eq_append_conv)

text \<open>The part behind the directory, without its first slash, determines the entry.\<close>

lemma relative_sep:
  assumes "x \<noteq> []" "CHR ''/'' \<notin> set x"
  shows "relative rest = x @ tail \<and> relative rest \<noteq> [] \<longleftrightarrow> (\<exists>sep \<in> {[], ''/''}. rest = sep @ x @ tail)"
  using assms by (cases rest; cases x) (auto simp: relative_def)

lemma relative_slash: "relative rest = ''/'' \<longleftrightarrow> rest = ''//''"
  by (cases rest) (auto simp: relative_def split: if_splits)

lemma entry_of_iff:
  "entry_of dir path x \<longleftrightarrow> CHR ''/'' \<notin> set x
     \<and> (\<exists>rest tail. relative path = relative dir @ rest \<and> tail \<in> {[], ''/''} \<and> relative rest = x @ tail \<and> relative rest \<noteq> [])"
proof (cases "x = []")
  case True
  then show ?thesis by (auto simp: entry_of_def relative_slash relative_def [of "''//''"])
next
  case False
  show ?thesis
  proof (cases "CHR ''/'' \<in> set x")
    case False
    note rel = relative_sep [OF \<open>x \<noteq> []\<close> False]
    show ?thesis
    proof
      assume "entry_of dir path x"
      then obtain sep tail where "sep \<in> {[], ''/''}" "tail \<in> {[], ''/''}" "relative path = relative dir @ sep @ x @ tail"
        unfolding entry_of_def if_not_P [OF \<open>x \<noteq> []\<close>] by (elim conjE bexE)
      then show "CHR ''/'' \<notin> set x \<and> (\<exists>rest tail. relative path = relative dir @ rest \<and> tail \<in> {[], ''/''}
          \<and> relative rest = x @ tail \<and> relative rest \<noteq> [])"
        using False rel [of "sep @ x @ tail" tail] by blast
    next
      assume "CHR ''/'' \<notin> set x \<and> (\<exists>rest tail. relative path = relative dir @ rest \<and> tail \<in> {[], ''/''}
          \<and> relative rest = x @ tail \<and> relative rest \<noteq> [])"
      then obtain rest tail where "relative path = relative dir @ rest" "tail \<in> {[], ''/''}" "relative rest = x @ tail \<and> relative rest \<noteq> []"
        by blast
      then have "\<exists>sep \<in> {[], ''/''}. \<exists>tail \<in> {[], ''/''}. relative path = relative dir @ sep @ x @ tail" using rel by metis
      then show "entry_of dir path x" using False unfolding entry_of_def if_not_P [OF \<open>x \<noteq> []\<close>] by (intro conjI)
    qed
  qed (use False in \<open>simp add: entry_of_def\<close>)
qed

lemma split_slash:
  assumes "CHR ''/'' \<notin> set x" "tail \<in> {[], ''/''}"
  shows "takeWhile (\<lambda>c. c \<noteq> CHR ''/'') (x @ tail) = x" "dropWhile (\<lambda>c. c \<noteq> CHR ''/'') (x @ tail) = tail"
  using assms by (induction x) auto

lemma entry_of_token:
  assumes "relative path = relative dir @ rest"
  shows "entry_of dir path x \<longleftrightarrow> x = takeWhile (\<lambda>c. c \<noteq> CHR ''/'') (relative rest)
    \<and> dropWhile (\<lambda>c. c \<noteq> CHR ''/'') (relative rest) \<in> {[], ''/''} \<and> relative rest \<noteq> []"
    (is "_ \<longleftrightarrow> x = ?tok \<and> ?q \<in> _ \<and> _")
proof
  assume "entry_of dir path x"
  then obtain tail where "relative rest = x @ tail" "tail \<in> {[], ''/''}" "CHR ''/'' \<notin> set x" "relative rest \<noteq> []"
    using assms unfolding entry_of_iff by auto
  then show "x = ?tok \<and> ?q \<in> {[], ''/''} \<and> relative rest \<noteq> []" using split_slash [of x tail] by simp
next
  assume x: "x = ?tok \<and> ?q \<in> {[], ''/''} \<and> relative rest \<noteq> []"
  then have "relative rest = x @ ?q" by simp
  moreover have "CHR ''/'' \<notin> set x" using x by (auto dest: set_takeWhileD)
  ultimately show "entry_of dir path x" using assms x unfolding entry_of_iff by blast
qed

lemma get_next_token_entry:
  "get_next_token path dir = Some (Some x) \<longleftrightarrow> entry_of dir path x \<and> length x < VFS_MAX_NAME"
proof (cases "take (length (relative dir)) (relative path) = relative dir")
  case True
  then obtain rest where rest: "relative path = relative dir @ rest" by (metis append_take_drop_id)
  define p where "p = relative rest"
  define q where "q = dropWhile (\<lambda>c. c \<noteq> CHR ''/'') p"
  have q: "q \<noteq> [] \<and> tl q \<noteq> [] \<longleftrightarrow> q \<notin> {[], ''/''}"
  proof (cases q)
    case (Cons c r)
    then have "c = CHR ''/''" using hd_dropWhile [of "\<lambda>c. c \<noteq> CHR ''/''" p] unfolding q_def by (metis list.distinct(1) list.sel(1))
    then show ?thesis using Cons by simp
  qed simp
  have tok: "get_next_token path dir = (if p = [] \<or> q \<notin> {[], ''/''} then Some None
      else if length (takeWhile (\<lambda>c. c \<noteq> CHR ''/'') p) < VFS_MAX_NAME then Some (Some (takeWhile (\<lambda>c. c \<noteq> CHR ''/'') p)) else None)"
    unfolding q [symmetric] by (auto simp: get_next_token_def skip_slash_relative Let_def rest p_def q_def relative_def [of "[]"])
  show ?thesis unfolding tok entry_of_token [OF rest, folded p_def, folded q_def] by auto
next
  case False
  then show ?thesis by (auto simp: get_next_token_def entry_of_iff skip_slash_relative Let_def)
qed

lemma find_unique:
  assumes "P x" "x \<in> set xs" "\<And>y. P y \<Longrightarrow> y = x"
  shows "find P xs = Some x"
  using assms(2)
proof (induction xs)
  case (Cons a xs)
  then show ?case using assms(1) assms(3) [of a] by (cases "P a") auto
qed simp

lemma entry_of_part:
  assumes "entry_of dir path x"
  obtains y tail where "path = y @ x @ tail" "tail \<in> {[], ''/''}"
proof -
  obtain rest tail where tail: "relative path = relative dir @ rest" "relative rest = x @ tail" "tail \<in> {[], ''/''}"
    using assms unfolding entry_of_iff by blast
  have rel: "\<exists>z. p = z @ relative p" for p by (metis append_take_drop_id append_Nil relative_def)
  obtain z z' where "path = z @ relative path" "rest = z' @ relative rest" using rel by blast
  then have "path = (z @ relative dir @ z') @ x @ tail" using tail(1,2) by simp
  then show thesis using tail(3) by (rule that)
qed

lemma entry_of_tails: "entry_of dir path x \<Longrightarrow> x \<in> set (tails path @ tails (butlast path))"
  by (erule entry_of_part) (auto simp: in_tails butlast_append)

lemma get_next_token_name:
  assumes "get_next_token path dir = Some tok" "take 1 path \<noteq> ''.''" "no_long_name path"
  shows "entry_name dir path = tok"
proof (cases tok)
  case None
  have "\<not> entry_of dir path x" for x
  proof
    assume x: "entry_of dir path x"
    then obtain y tail where y: "path = y @ x @ tail" by (rule entry_of_part)
    have "CHR ''/'' \<notin> set x" using x by (simp add: entry_of_iff)
    then have "length x \<le> length (takeWhile (\<lambda>c. c \<noteq> CHR ''/'') (drop (length y) path))"
      unfolding y by (induction x) auto
    also have "\<dots> < VFS_MAX_NAME" using assms(3) y unfolding no_long_name_def by (metis le_add1 length_append)
    finally show False using x assms(1) None get_next_token_entry [of path dir x] by simp
  qed
  then show ?thesis using None assms(2) by (simp add: entry_name_def find_None_iff)
next
  case (Some x)
  then have x: "entry_of dir path x" using assms(1) get_next_token_entry [of path dir x] by simp
  then obtain rest where "relative path = relative dir @ rest" unfolding entry_of_iff by blast
  then have "y = x" if "entry_of dir path y" for y using that x entry_of_token by metis
  then have "find (entry_of dir path) (tails path @ tails (butlast path)) = Some x" using x entry_of_tails [OF x] by (intro find_unique)
  then show ?thesis using Some assms(2) by (simp add: entry_name_def)
qed

text \<open>Files of the root, of a directory and below it, and the two cases the optional slash brings.\<close>

lemma entry_name_examples:
  "entry_name ''/'' ''a'' = Some ''a''" "entry_name ''/'' ''d/b'' = None" "entry_name ''/d'' ''d/b'' = Some ''b''"
  "entry_name ''/d'' ''d'' = None" "entry_name ''/foo'' ''foobar'' = Some ''bar''" "entry_name ''/d'' ''d//'' = Some []"
  by code_simp+

lemma dir_entries_locate:
  assumes "list_all (\<lambda>f. no_long_name (af_name f)) fs"
  shows "dir_entries prefix (locate off fs) = map (\<lambda>(f, name). (file_entry f, name)) (dir_files prefix fs)"
  using assms
proof (induction fs arbitrary: off)
  case (Cons f fs)
  then obtain tok where tok: "get_next_token (af_name f) prefix = Some tok" using get_next_token_short [of "af_name f" prefix] by auto
  show ?case
  proof (cases "take 1 (af_name f) = ''.''")
    case True
    then show ?thesis using Cons by (simp add: dir_files_def entry_name_def)
  next
    case False
    then show ?thesis using Cons tok get_next_token_name [OF tok False] by (auto simp: dir_files_def split: option.splits)
  qed
qed (simp add: dir_files_def)

lemma nth_from_map: "nth_from (map g xs) k = map_option g (nth_from xs k)"
  by (auto simp: nth_from_def)

lemma set_locate: "(e, off') \<in> set (locate off fs) \<Longrightarrow> \<exists>f \<in> set fs. e = file_entry f"
  by (induction fs arbitrary: off) auto

lemma hello_name: "no_long_name ''a''"
  by (auto simp: no_long_name_def le_Suc_eq)

text \<open>C33: On a device with an archive whose names have no component of 256 characters or more,
  \<^verbatim>\<open>cpio_readdir\<close> with offset \<open>k\<close> gives the \<open>k\<close>-th file of the archive that is an entry of the directory, with its name there and
  the type its mode has, and -1 exactly from the number of these files on. The entries are the paths that continue the path of the
  directory by an optional slash, a name without slashes and an optional slash, unless they begin with a dot: nested files are left
  out, but for want of a required separator \<^verbatim>\<open>foobar\<close> is listed as \<^verbatim>\<open>bar\<close> of \<^verbatim>\<open>/foo\<close>.\<close>

theorem cpio_readdir_archive:
  assumes "archive_mounted h (v_mount dv) fs" "list_all (\<lambda>f. no_long_name (af_name f)) fs" "nodes h dn = Some dv"
  shows "\<exists>h'. cpio_readdir dn off h = Some (h',
      case nth_from (dir_files (v_path dv) fs) (sint off) of
        None \<Rightarrow> (empty_dirent, -1)
      | Some (f, name) \<Rightarrow> (\<lparr>d_off = off, d_reclen = 1, d_type = type_of_mode (af_mode f), d_name = name\<rparr>, 0))"
proof -
  from assms(1) obtain mt post where mt: "mounts h (v_mount dv) = Some mt" and dev: "dev_holds (world h) (m_dev mt) (archive fs @ post)"
    and len: "length (archive fs @ post) < 2 ^ 32" and files: "list_all file_ok fs" and ok: "\<forall>n. alloc_ok (world h) n"
    by (auto simp: archive_mounted_def)
  have es: "archive_entries (archive fs @ post) 0 = Some (locate 0 fs)"
    using archive_entries_locate [OF files, of "[]" post] len by simp
  have short: "\<forall>(e, _) \<in> set (locate 0 fs). no_long_name (ent_path e)"
    using assms(2) by (auto simp: list_all_iff dest!: set_locate)
  obtain w' where w': "readdir_loop (world h) (m_dev mt) (v_path dv) off 0 0
      = Some (w', nth_from (dir_entries (v_path dv) (locate 0 fs)) (sint off - 0))"
    using readdir_loop_entries [OF dev es short, of "v_path dv" off 0] ok by (rule parses_alloc)
  then show ?thesis
    using assms(3) mt unfolding dir_entries_locate [OF assms(2)] nth_from_map
    by (cases "nth_from (dir_files (v_path dv) fs) (sint off)") (auto simp: cpio_readdir_def cpio_dirent_type_mode)
qed

theorem cpio_readdir_archive_witness:
  "\<exists>h'. cpio_readdir 0 0 hello_mem = Some (h', \<lparr>d_off = 0, d_reclen = 1, d_type = VDT_REG, d_name = ''a''\<rparr>, 0)"
proof -
  obtain dv where dv: "nodes hello_mem 0 = Some dv" "v_mount dv = 0" "v_path dv = ''/''" by (rule hello_nodes)
  have name: "list_all (\<lambda>f. no_long_name (af_name f)) [hello]" using hello_name by (simp add: hello_def)
  have "dir_files ''/'' [hello] = [(hello, ''a'')]"
    by (simp add: dir_files_def entry_name_def entry_of_def relative_def hello_def)
  then have "nth_from (dir_files ''/'' [hello]) (sint (0 :: s64)) = Some (hello, ''a'')" by (simp add: nth_from_def)
  moreover have "type_of_mode (af_mode hello) = VDT_REG" by (simp add: hello_def type_of_mode_def)
  ultimately show ?thesis
    using cpio_readdir_archive [of hello_mem dv "[hello]" 0 0] hello_mounted dv name by simp
qed

lemma hello_usable: "mem_ok cpio_usable hello_mem"
proof -
  have files: "list_all file_ok [hello]" and dev: "dev_holds (world hello_mem) (Some 0) hello_disk"
    using hello_mounted hello_holds by (auto simp: archive_mounted_def dev_holds_def hello_mem_def Let_def)
  have "\<forall>(e, _) \<in> set (locate 0 [hello]). no_long_name (ent_path e)" using hello_name by (simp add: hello_def)
  moreover have "archive_entries hello_disk 0 = Some (locate 0 [hello])"
    using archive_entries_locate [OF files, of "[]" "replicate 784 0"] length_hello_disk by (simp add: hello_disk_def)
  ultimately have "cpio_usable (world hello_mem) (Some 0)" using dev by (auto simp: cpio_usable_def)
  then show ?thesis by (auto simp: mem_ok_def hello_mem_def Let_def split: if_splits)
qed

text \<open>C34: On every usable device, with any contents and whether or not buffers can be allocated, the loops of
  \<^verbatim>\<open>cpio_lookup\<close> and \<^verbatim>\<open>cpio_readdir\<close> end and the functions return, with the identity of nodes and mounts
  unchanged and every device still usable.\<close>

theorem cpio_loops_return:
  assumes "mem_ok cpio_usable h" "dn \<in> dom (nodes h)" "n \<in> dom (nodes h)"
  shows "op_ok cpio_usable h (cpio_lookup dn name n h) \<and> op_ok cpio_usable h (cpio_readdir dn off h)"
  using assms by (simp add: cpio_lookup_ok cpio_readdir_ok)

theorem cpio_loops_return_witness:
  "op_ok cpio_usable hello_mem (cpio_lookup 0 ''b'' 1 hello_mem) \<and> op_ok cpio_usable hello_mem (cpio_readdir 0 5 hello_mem)"
  by (rule cpio_loops_return [OF hello_usable]) (simp_all add: hello_mem_def Let_def)

text \<open>
  In the same terms, \<^verbatim>\<open>cpio_lookup\<close> matches a path that is the directory, a slash and the name, or the directory and the name.
\<close>

lemma check_path_relative:
  "check_path path dir name \<longleftrightarrow> relative path = relative dir @ ''/'' @ name \<or> relative path = relative dir @ name \<and> take 1 name \<noteq> ''/''"
proof -
  have rel: "relative rest = name \<longleftrightarrow> rest = ''/'' @ name \<or> rest = name \<and> take 1 name \<noteq> ''/''" for rest
    by (cases rest) (auto simp: relative_def)
  have "check_path path dir name \<longleftrightarrow> (\<exists>rest. relative path = relative dir @ rest \<and> relative rest = name)"
  proof (cases "take (length (relative dir)) (relative path) = relative dir")
    case True
    then obtain rest where "relative path = relative dir @ rest" by (metis append_take_drop_id)
    then show ?thesis by (auto simp: check_path_def skip_slash_relative Let_def)
  qed (auto simp: check_path_def skip_slash_relative Let_def)
  then show ?thesis unfolding rel by auto
qed

text \<open>\<^verbatim>\<open>check_path\<close> does not require a separator after the directory: a file named by the
  directory's name with a further text appended is found as that text inside the directory.\<close>

lemma check_path_no_separator:
  assumes "hd dir \<noteq> CHR ''/''" "hd name \<noteq> CHR ''/''" "dir \<noteq> []" "name \<noteq> []"
  shows "check_path (dir @ name) (CHR ''/'' # dir) name \<and> check_path (dir @ ''/'' @ name) (CHR ''/'' # dir) name"
  using assms by (cases dir; cases name) (auto simp: check_path_def skip_slash_def)

lemma check_path_no_separator_witness: "check_path ''foobar'' ''/foo'' ''bar'' \<and> check_path ''foo/bar'' ''/foo'' ''bar''"
  using check_path_no_separator [of "''foo''" "''bar''"] by simp

end
