(* ===== verification/Vfs_Properties.thy ===== *)
theory Vfs_Properties
  imports Vfs_Open Cpio_Files
begin

text \<open>
  The properties of the virtual file system, and its composition with the cpio file system and the block layer.
\<close>

section \<open>A system with one mount\<close>

text \<open>The disk of \<open>hello\<close> mounted at the root, nothing open.\<close>

definition root_node :: vfs_node_t where
  "root_node = \<lparr>v_mount = 0, v_refcnt = 1, v_path = ''/'', v_flags = VNF_ROOT, v_type = VNT_DIR, v_ctime = 0, v_atime = 0,
      v_mtime = 0, v_mode = 0x1016D, v_size = 0, v_data = 0\<rparr>"

definition root_mount :: vfs_mount_t where
  "root_mount = \<lparr>m_fs = ''cpio'', m_dev = Some 0, m_path = ''/'', m_flags = MOUNT_RO, m_refcnt = 1, m_root = Some 0,
      m_covered = None, m_data = 0\<rparr>"

definition hello_vfs :: "u8 list block_world vfs_t" where
  "hello_vfs =
     \<lparr>mem = \<lparr>nodes = [0 \<mapsto> root_node], mounts = [0 \<mapsto> root_mount], world = world hello_mem\<rparr>,
      mnt_list = [0], node_list = (replicate VFS_NODE_HASH_SIZE [])[vfs_node_hash 0 ''/'' := [0]],
      fd_file = replicate VFS_MAX_FD closed_file, next_ptr = 1, can_alloc = (\<lambda>_. True)\<rparr>"

definition root_refs :: ref_map where
  "root_refs k = (if k = (0, []) then 1 else 0)"

lemma hello_vfs_fields [simp]:
  "nodes (mem hello_vfs) = [0 \<mapsto> root_node]" "mounts (mem hello_vfs) = [0 \<mapsto> root_mount]" "mnt_list hello_vfs = [0]"
  "next_ptr hello_vfs = 1" "fd_file hello_vfs = replicate VFS_MAX_FD closed_file" "world (mem hello_vfs) = world hello_mem"
  "node_list hello_vfs = (replicate VFS_NODE_HASH_SIZE [])[vfs_node_hash 0 ''/'' := [0]]"
  by (simp_all add: hello_vfs_def)

lemma node_path_root: "good_comps cs \<Longrightarrow> node_path cs = ''/'' \<longleftrightarrow> cs = []"
  by (cases cs) (simp_all add: node_path_def)

lemma hello_node_at: "node_at (mem hello_vfs) n m cs \<longleftrightarrow> n = 0 \<and> m = 0 \<and> cs = []"
proof (cases "n = 0 \<and> good_comps cs")
  case True
  then show ?thesis
    using node_path_root [of cs] by (auto simp: node_at_def nmount_def npath_def root_node_def)
next
  case False
  then show ?thesis by (auto simp: node_at_def split: if_splits)
qed

lemma hello_cache_inv: "cache_inv (cpio_env devs) cpio_usable hello_vfs root_refs"
proof -
  have "bucket_wf hello_vfs"
    using vfs_node_hash_less [of 0 "''/''"]
    by (auto simp: bucket_wf_def nth_list_update nmount_def npath_def root_node_def split: if_splits)
  moreover have "node_wf hello_vfs"
    using hello_node_at by (auto simp: node_wf_def nmount_def root_node_def)
  moreover have "ref_wf hello_vfs root_refs"
    by (auto simp: ref_wf_def hello_node_at root_refs_def nref_def root_node_def split: if_splits)
  moreover have "mount_wf hello_vfs"
    by (auto simp: mount_wf_def mref_def nmount_def root_mount_def root_node_def)
  moreover have "fs_ready (cpio_env devs) cpio_usable (mem hello_vfs)"
    using hello_usable by (auto simp: fs_ready_def mem_ok_def root_mount_def root_node_def cpio_env_def hello_mem_def Let_def split: if_splits)
  ultimately show ?thesis by (simp add: cache_inv_def)
qed

lemma hello_vfs_mounted: "vfs_mounted hello_vfs"
  by (auto simp: vfs_mounted_def mounted_def hello_node_at root_mount_def)

lemma hello_findroot: "vfs_findroot hello_vfs ''/'' = Some (Some (0, []))"
  by (simp add: vfs_findroot_def get_mount_def root_mount_def count_match_def)

lemma hello_acquire_root:
  "vfs_node_acquire (cpio_env devs) hello_vfs ''/''
    = Some (put_node hello_vfs 0 (root_node\<lparr>v_refcnt := 2\<rparr>), 0, Some 0)"
  by (simp add: vfs_node_acquire_def hello_findroot get_mount_def root_mount_def vfs_node_ref_def get_node_def
      acquire_loop.simps [of _ _ _ "[]"] root_node_def)

section \<open>Opening a file of an archive\<close>

text \<open>The system has one mount, the archive at the root.\<close>

definition root_archive :: "(string \<Rightarrow> dev_ptr option) \<Rightarrow> 'd block_world vfs_t \<Rightarrow> ref_map \<Rightarrow> mount_ptr \<Rightarrow> archive_file list \<Rightarrow> bool" where
  "root_archive devs st \<rho> m fs \<longleftrightarrow>
     cache_inv (cpio_env devs) cpio_usable st \<rho> \<and> vfs_mounted st \<and> mnt_list st = [m] \<and> mpath (mem st) m = ''/''
     \<and> (\<exists>mt. mounts (mem st) m = Some mt \<and> m_fs mt = ''cpio'')
     \<and> archive_mounted (mem st) m fs \<and> (\<forall>k. can_alloc st k)"

lemma archive_mounted_frame:
  assumes "archive_mounted h m fs" "world h' = world h" "mount_key h' = mount_key h"
  shows "archive_mounted h' m fs"
proof -
  from assms(1) obtain mt post where mt: "mounts h m = Some mt" "dev_holds (world h) (m_dev mt) (archive fs @ post)"
    "length (archive fs @ post) < 2 ^ 32" by (auto simp: archive_mounted_def)
  then obtain mt' where "mounts h' m = Some mt'" "m_dev mt' = m_dev mt"
    using fun_cong [OF assms(3), of m] by (cases "mounts h' m") (auto simp: mount_key_def)
  then show ?thesis using mt assms by (auto simp: archive_mounted_def)
qed

lemma call_cpio:
  assumes "mounts (mem st) m = Some mt" "m_fs mt = ''cpio''"
  shows "call_fs (cpio_env devs) st m op = map_option (\<lambda>(h, r). (st\<lparr>mem := h\<rparr>, r)) (op cpio (mem st))"
  using assms by (cases "op cpio (mem st)") (auto simp: call_fs_def get_mount_def cpio_env_def)

lemma cpio_node_get:
  assumes mt: "mounts (mem st) m = Some mt" "m_fs mt = ''cpio''" and alloc: "can_alloc st (next_ptr st)" and len: "length path < VFS_MAX_PATH"
  obtains st' where "vfs_node_get (cpio_env devs) st m path = Some (st', Some (next_ptr st))"
    "mem st' = (mem st)\<lparr>nodes := (nodes (mem st))(next_ptr st \<mapsto> new_node m path), mounts := (mounts (mem st))(m \<mapsto> mt\<lparr>m_refcnt := m_refcnt mt + 1\<rparr>)\<rparr>"
proof -
  let ?n = "next_ptr st"
  let ?st2 = "put_node (st\<lparr>next_ptr := Suc ?n\<rparr>) ?n (new_node m path)"
  let ?st4 = "put_mount ?st2 m (mt\<lparr>m_refcnt := m_refcnt mt + 1\<rparr>)"
  have m2: "mounts (mem ?st2) m = Some mt" using mt by (simp add: put_node_def)
  have "call_fs (cpio_env devs) ?st2 m (\<lambda>fs. fs_vget fs m ?n) = Some (?st2, 0)"
    by (simp add: call_cpio [OF m2 mt(2)] cpio_def cpio_vget_def)
  then have "vfs_node_get (cpio_env devs) st m path = Some (link_node ?st4 (vfs_node_hash m path) ?n, Some ?n)"
    using alloc len m2 by (simp add: vfs_node_get_def vfs_calloc_def mount_count_def get_mount_def Let_def)
  then show thesis by (rule that) (simp add: link_node_def put_mount_def put_node_def)
qed

lemma root_archive_findroot:
  assumes "root_archive devs st \<rho> m fs" "good_comps [c]"
  shows "vfs_findroot st (CHR ''/'' # c @ s) = Some (Some (m, c @ s))"
proof -
  from assms obtain mt where mt: "mounts (mem st) m = Some mt" "m_path mt = ''/''" "mnt_list st = [m]"
    by (auto simp: root_archive_def mpath_def)
  have "count_match (CHR ''/'' # c @ s) ''/'' = 1" by (simp add: count_match_covers covers_def)
  moreover have "dropWhile (\<lambda>x. x = CHR ''/'') (c @ s) = c @ s" using assms(2) by (cases c) auto
  ultimately show ?thesis using mt by (simp add: vfs_findroot_def get_mount_def)
qed

lemma first_component:
  assumes "good_comps [c]" "s = [] \<or> hd s = CHR ''/''"
  shows "dropWhile (\<lambda>x. x = CHR ''/'') (c @ s) = c @ s" "takeWhile (\<lambda>x. x \<noteq> CHR ''/'') (c @ s) = c"
    "dropWhile (\<lambda>x. x \<noteq> CHR ''/'') (c @ s) = s"
proof -
  show "dropWhile (\<lambda>x. x = CHR ''/'') (c @ s) = c @ s" using assms(1) by (cases c) auto
  show take: "takeWhile (\<lambda>x. x \<noteq> CHR ''/'') (c @ s) = c" using assms by (simp add: takeWhile_comp)
  show "dropWhile (\<lambda>x. x \<noteq> CHR ''/'') (c @ s) = s"
    using takeWhile_dropWhile_id [of "\<lambda>x. x \<noteq> CHR ''/''" "c @ s"] unfolding take by simp
qed

text \<open>The root directory and the state with a further reference to it.\<close>

lemma root_archive_root:
  assumes sys: "root_archive devs st \<rho> m fs"
  obtains r rv mt where "mounts (mem st) m = Some mt" "m_root mt = Some r" "m_fs mt = ''cpio''" "nodes (mem st) r = Some rv"
    "v_mount rv = m" "v_path rv = ''/''" "r < next_ptr st"
    "vfs_node_ref st r = Some (put_node st r (rv\<lparr>v_refcnt := v_refcnt rv + 1\<rparr>))"
    "cache_inv (cpio_env devs) cpio_usable (put_node st r (rv\<lparr>v_refcnt := v_refcnt rv + 1\<rparr>)) (\<rho>((m, []) := \<rho> (m, []) + 1))"
proof -
  from sys have inv: "cache_inv (cpio_env devs) cpio_usable st \<rho>" and mtd: "vfs_mounted st" and ml: "mnt_list st = [m]"
    by (auto simp: root_archive_def)
  from mtd ml obtain r where "mounted (mem st) m r" by (auto simp: vfs_mounted_def)
  then obtain mt where mt: "mounts (mem st) m = Some mt" "m_root mt = Some r" and at: "node_at (mem st) r m []"
    by (rule mountedE)
  have fs: "m_fs mt = ''cpio''" using sys mt by (auto simp: root_archive_def)
  from at obtain rv where rv: "nodes (mem st) r = Some rv" "v_mount rv = m" "v_path rv = ''/''"
    by (auto simp: node_at_def nmount_def npath_def node_path_def)
  have ref: "vfs_node_ref st r = Some (put_node st r (rv\<lparr>v_refcnt := v_refcnt rv + 1\<rparr>))"
    using rv by (simp add: vfs_node_ref_def get_node_def)
  have "cache_inv (cpio_env devs) cpio_usable (put_node st r (rv\<lparr>v_refcnt := v_refcnt rv + 1\<rparr>)) (\<rho>((m, []) := \<rho> (m, []) + 1))"
    using vfs_node_ref_spec [OF inv at] ref by (metis option.inject)
  moreover have "r < next_ptr st" using inv rv(1) by (auto simp: cache_inv_def node_wf_def)
  ultimately show thesis using mt fs rv ref by (intro that)
qed

lemma found_type: "v_type (found_node f off v) = fst (cpio_node_type (af_mode f))"
  by (simp add: found_node_def)

text \<open>A file in the root directory that is not in the cache yet: its node is made and filled from the archive. What follows
  depends on the rest of the path.\<close>

lemma acquire_fresh_file:
  assumes sys: "root_archive devs st \<rho> m fs" and c: "good_comps [c]" "Suc (Suc (length c)) < VFS_MAX_PATH" and fresh: "\<rho> (m, [c]) = 0"
    and found: "find_file (\<lambda>f. matches ''/'' c (file_entry f)) 0 fs = Some (f, off)"
  obtains st' n where "nodes (mem st') n = Some (found_node f off (new_node m (CHR ''/'' # c)))" "archive_mounted (mem st') m fs"
    "\<exists>mt. mounts (mem st') m = Some mt \<and> m_fs mt = ''cpio''"
    "\<forall>s. s = [] \<or> hd s = CHR ''/'' \<longrightarrow> vfs_node_acquire (cpio_env devs) st (CHR ''/'' # c @ s) =
       (if s \<noteq> [] \<and> fst (cpio_node_type (af_mode f)) \<noteq> VNT_DIR
        then do { st4 \<leftarrow> vfs_node_release (cpio_env devs) st' (Some n); Some (st4, 0, None) }
        else acquire_loop (cpio_env devs) st' m s (CHR ''/'' # c) n)"
proof -
  from sys have arch: "archive_mounted (mem st) m fs" and alloc: "\<forall>k. can_alloc st k" by (auto simp: root_archive_def)
  from sys obtain r rv mt where mt: "mounts (mem st) m = Some mt" "m_root mt = Some r" and fs: "m_fs mt = ''cpio''"
    and rv: "nodes (mem st) r = Some rv" "v_mount rv = m" "v_path rv = ''/''" "r < next_ptr st"
    and ref: "vfs_node_ref st r = Some (put_node st r (rv\<lparr>v_refcnt := v_refcnt rv + 1\<rparr>))"
    and inv1: "cache_inv (cpio_env devs) cpio_usable (put_node st r (rv\<lparr>v_refcnt := v_refcnt rv + 1\<rparr>)) (\<rho>((m, []) := \<rho> (m, []) + 1))"
    by (rule root_archive_root)
  let ?path = "CHR ''/'' # c" and ?rv = "rv\<lparr>v_refcnt := v_refcnt rv + 1\<rparr>"
  have path: "node_path [c] = ?path" by (simp add: node_path_def)
  let ?st1 = "put_node st r ?rv" and ?n = "next_ptr (put_node st r ?rv)"
  have look: "vfs_node_lookup ?st1 m ?path = Some (?st1, None)"
    by (rule vfs_node_lookup_spec [OF inv1 c(1), of m]) (use c fresh in \<open>auto simp: path\<close>)
  obtain st2 where get: "vfs_node_get (cpio_env devs) ?st1 m ?path = Some (st2, Some ?n)"
    and mem2: "mem st2 = (mem ?st1)\<lparr>nodes := (nodes (mem ?st1))(?n \<mapsto> new_node m ?path),
        mounts := (mounts (mem ?st1))(m \<mapsto> mt\<lparr>m_refcnt := m_refcnt mt + 1\<rparr>)\<rparr>"
    by (rule cpio_node_get [of ?st1 m mt ?path devs]) (use mt fs alloc c in \<open>simp_all add: put_node_def\<close>)
  have nr: "nodes (mem st2) r = Some ?rv" and nn: "nodes (mem st2) ?n = Some (new_node m ?path)"
    and m2: "mounts (mem st2) m = Some (mt\<lparr>m_refcnt := m_refcnt mt + 1\<rparr>)"
    using rv(4) by (simp_all add: mem2 put_node_def)
  have "archive_mounted (mem st2) m fs"
    by (rule archive_mounted_frame [OF arch]) (use mt in \<open>auto simp: mem2 put_node_def mount_key_def fun_eq_iff\<close>)
  then have arch2: "archive_mounted (mem st2) (v_mount ?rv) fs" using rv(2) by simp
  obtain w' where w': "same_disks (world (mem st2)) w'"
    "cpio_lookup r c ?n (mem st2) = Some ((mem st2)\<lparr>world := w', nodes := (nodes (mem st2))(?n \<mapsto> found_node f off (new_node m ?path))\<rparr>, 0)"
    using lookup_archive [OF arch2 nr nn, of c] found rv(3) by auto
  let ?h = "(mem st2)\<lparr>world := w', nodes := (nodes (mem st2))(?n \<mapsto> found_node f off (new_node m ?path))\<rparr>"
  have call: "call_fs (cpio_env devs) st2 (v_mount ?rv) (\<lambda>fs. fs_lookup fs r c ?n) = Some (st2\<lparr>mem := ?h\<rparr>, 0)"
    using m2 fs rv(2) w'(2) by (simp add: call_cpio cpio_def)
  let ?next = "\<lambda>s. if s \<noteq> [] \<and> fst (cpio_node_type (af_mode f)) \<noteq> VNT_DIR
       then do { st4 \<leftarrow> vfs_node_release (cpio_env devs) (st2\<lparr>mem := ?h\<rparr>) (Some ?n); Some (st4, 0, None) }
       else acquire_loop (cpio_env devs) (st2\<lparr>mem := ?h\<rparr>) m s ?path ?n"
  have "acquire_loop (cpio_env devs) ?st1 m (c @ s) [] r = ?next s" if "s = [] \<or> hd s = CHR ''/''" for s
    using c look get call nr first_component [OF c(1) that]
    by (subst acquire_loop.simps) (simp add: Let_def get_node_def found_type)
  then have "vfs_node_acquire (cpio_env devs) st (?path @ s) = ?next s" if "s = [] \<or> hd s = CHR ''/''" for s
    using mt ref root_archive_findroot [OF sys c(1), of s] that by (simp add: vfs_node_acquire_def get_mount_def)
  moreover have "archive_mounted ?h m fs" using archive_mounted_world [OF _ w'(1)] arch2 rv(2) by simp
  ultimately show thesis using m2 fs by (intro that [of "st2\<lparr>mem := ?h\<rparr>" ?n]) simp_all
qed

lemma acquire_fresh_exact:
  assumes "root_archive devs st \<rho> m fs" "good_comps [c]" "Suc (Suc (length c)) < VFS_MAX_PATH" "\<rho> (m, [c]) = 0"
    and "find_file (\<lambda>f. matches ''/'' c (file_entry f)) 0 fs = Some (f, off)"
  obtains st' n where "nodes (mem st') n = Some (found_node f off (new_node m (CHR ''/'' # c)))" "archive_mounted (mem st') m fs"
    "\<exists>mt. mounts (mem st') m = Some mt \<and> m_fs mt = ''cpio''" "vfs_node_acquire (cpio_env devs) st (CHR ''/'' # c) = Some (st', 0, Some n)"
proof (rule acquire_fresh_file [OF assms])
  let ?env = "cpio_env devs" and ?path = "CHR ''/'' # c"
  fix st' n
  assume 1: "nodes (mem st') n = Some (found_node f off (new_node m ?path))" "archive_mounted (mem st') m fs"
    "\<exists>mt. mounts (mem st') m = Some mt \<and> m_fs mt = ''cpio''"
    and all: "\<forall>s. s = [] \<or> hd s = CHR ''/'' \<longrightarrow> vfs_node_acquire ?env st (CHR ''/'' # c @ s) =
       (if s \<noteq> [] \<and> fst (cpio_node_type (af_mode f)) \<noteq> VNT_DIR
        then do { st4 \<leftarrow> vfs_node_release ?env st' (Some n); Some (st4, 0, None) }
        else acquire_loop ?env st' m s (CHR ''/'' # c) n)"
  have "acquire_loop ?env st' m [] ?path n = Some (st', 0, Some n)" by (subst acquire_loop.simps) simp
  then show thesis using 1 all [rule_format, of "[]"] that by simp
qed

text \<open>Reading an open file of the archive from its start, and closing it.\<close>

lemma read_held:
  assumes hold: "holds_node (cpio_env devs) cpio_usable st \<rho> n"
    and node: "nodes (mem st) n = Some (found_node f off (new_node m path))" and arch: "archive_mounted (mem st) m fs"
    and cpio: "mounts (mem st) m = Some mt" "m_fs mt = ''cpio''" and pos: "find_file P 0 fs = Some (f, off)"
    and reg: "fst (cpio_node_type (af_mode f)) = VNT_REG"
    and fd: "open_node st fd = Some (i, n)" "fd_file st ! i = \<lparr>f_node = Some n, f_offset = 0, f_flags = O_RDONLY\<rparr>"
    and buf: "buf \<noteq> 0" "len \<noteq> 0"
  obtains st2 where "vfs_read (cpio_env devs) st fd buf len
      = Some (st2, take (unat len) (af_data f), of_nat (min (unat len) (length (af_data f))))"
    "holds_node (cpio_env devs) cpio_usable st2 \<rho> n" "nodes (mem st2) = nodes (mem st)" "mounts (mem st2) = mounts (mem st)"
    "fd_file st2 = (fd_file st)[i := (fd_file st ! i)\<lparr>f_offset := of_nat (min (unat len) (length (af_data f)))\<rparr>]"
proof -
  let ?v = "found_node f off (new_node m path)" and ?k = "min (unat len) (length (af_data f))"
  let ?op = "\<lambda>fs. fs_read fs n 0 len"
  have vm: "v_mount ?v = m" "v_type ?v = VNT_REG" "v_size ?v = of_nat (length (af_data f))" "v_data ?v = of_nat (off + data_start f)"
    using reg by (simp_all add: found_node_def new_node_def)
  obtain w' where rd: "cpio_read n 0 len (mem st) = Some ((mem st)\<lparr>world := w'\<rparr>, take (unat len) (af_data f), of_nat ?k)"
    using read_archive [OF _ pos node, of 0 len] vm arch by (auto simp: chunk_def)
  have call: "call_node_fs (cpio_env devs) st n ?op
      = Some (st\<lparr>mem := (mem st)\<lparr>world := w'\<rparr>\<rparr>, take (unat len) (af_data f), of_nat ?k)"
    using call_cpio [OF cpio, of devs ?op] rd node vm(1) by (simp add: call_node_fs_def get_node_def cpio_def)
  obtain h' r where "call_node_fs (cpio_env devs) st n ?op = Some (st\<lparr>mem := h'\<rparr>, r)"
      "holds_node (cpio_env devs) cpio_usable (st\<lparr>mem := h'\<rparr>) \<rho> n"
    using cpio_fs.filesystem_env_axioms hold cpio_fs.fs_read_ok [where off = 0] by (rule filesystem_env.call_holds) simp_all
  then have hold': "holds_node (cpio_env devs) cpio_usable (st\<lparr>mem := (mem st)\<lparr>world := w'\<rparr>\<rparr>) \<rho> n" using call
    by (metis option.inject prod.inject)
  show thesis
    using call fd buf node vm(2) hold'
    by (intro that [of "set_file (st\<lparr>mem := (mem st)\<lparr>world := w'\<rparr>\<rparr>) i (\<lambda>f. f\<lparr>f_offset := f_offset f + of_nat ?k\<rparr>)"])
      (simp_all add: vfs_read_def get_node_def Let_def set_file_def)
qed

lemma close_held:
  assumes hold: "holds_node (cpio_env devs) cpio_usable st \<rho> n" and node: "nodes (mem st) n = Some v"
    and cpio: "mounts (mem st) (v_mount v) = Some mt" "m_fs mt = ''cpio''" and files: "length (fd_file st) = VFS_MAX_FD"
    and fd: "3 \<le> i" "i < VFS_MAX_FD" "f_node (fd_file st ! i) = Some n"
  obtains st1 where "vfs_close (cpio_env devs) st (int i) = Some (st1, 0)" "cache_inv (cpio_env devs) cpio_usable st1 \<rho>"
    "fd_file st1 = (fd_file st)[i := closed_file]"
proof (rule filesystem_env.vfs_close_spec [OF cpio_fs.filesystem_env_axioms hold files fd])
  fix st1 err
  assume err: "err \<noteq> 0" "vfs_close (cpio_env devs) st (int i) = Some (st1, err)"
  have "call_node_fs (cpio_env devs) st n (\<lambda>fs. fs_sync fs n) = Some (st\<lparr>mem := mem st\<rparr>, 0)"
    using call_cpio [OF cpio, of devs "\<lambda>fs. fs_sync fs n"] node by (simp add: call_node_fs_def get_node_def cpio_def cpio_sync_def)
  moreover have "open_node st (int i) = Some (i, n)" using fd by (simp add: open_node_eq)
  ultimately show thesis using err by (auto simp: vfs_close_def elim!: option_elims)
qed (rule that)

text \<open>The system of the examples: the archive with one file.\<close>

lemma hello_root_archive: "root_archive devs hello_vfs root_refs 0 [hello]"
proof -
  have "archive_mounted (mem hello_vfs) 0 [hello]"
    using hello_mounted
    by (rule archive_mounted_frame) (auto simp: hello_vfs_def root_mount_def hello_mem_def mount_key_def Let_def)
  then show ?thesis
    using hello_cache_inv [of devs] hello_vfs_mounted
    by (simp add: root_archive_def mpath_def root_mount_def) (simp add: hello_vfs_def)
qed

lemma hello_find: "find (\<lambda>f. matches ''/'' ''a'' (file_entry f)) [hello] = Some hello"
  using hello_matches(1) by simp

lemma hello_regular: "fst (cpio_node_type (af_mode hello)) = VNT_REG"
  by (simp add: cpio_node_type_def hello_def)

lemma hello_fresh: "root_refs (0, [''a'']) = 0" "good_comps [''a'']"
  by (simp_all add: root_refs_def)

text \<open>The state with the root directory open as file 3.\<close>

definition hello_open :: "u8 list block_world vfs_t" where
  "hello_open = (put_node hello_vfs 0 (root_node\<lparr>v_refcnt := 2\<rparr>))
     \<lparr>fd_file := (replicate VFS_MAX_FD closed_file)[3 := \<lparr>f_node = Some 0, f_offset = 0, f_flags = O_RDONLY\<rparr>]\<rparr>"

lemma hello_open_holds: "holds_node (cpio_env devs) cpio_usable hello_open root_refs 0"
  unfolding hello_open_def
  using filesystem_env.acquire_holds(2) [OF cpio_fs.filesystem_env_axioms hello_cache_inv hello_vfs_mounted _ hello_acquire_root] by simp

section \<open>Properties\<close>

text \<open>C35: \<^verbatim>\<open>vfs_findroot\<close> finds the mount with the longest path that covers the given path on a component
  boundary, with what is left of the path, and no mount exactly when none covers it.\<close>

theorem vfs_findroot_longest:
  assumes "set (mnt_list st) \<subseteq> dom (mounts (mem st))"
  shows "case vfs_findroot st path of
      None \<Rightarrow> False
    | Some None \<Rightarrow> (\<forall>x \<in> set (mnt_list st). mpath (mem st) x = [] \<or> \<not> covers (mpath (mem st) x) path)
    | Some (Some (m, rest)) \<Rightarrow>
        m \<in> set (mnt_list st) \<and> covers (mpath (mem st) m) path
        \<and> rest = dropWhile (\<lambda>c. c = CHR ''/'') (drop (length (mpath (mem st) m)) path)
        \<and> (\<forall>x \<in> set (mnt_list st). covers (mpath (mem st) x) path \<longrightarrow> length (mpath (mem st) x) \<le> length (mpath (mem st) m))"
  using assms by (rule vfs_findroot_spec [of st path]) auto

theorem vfs_findroot_longest_witness:
  "\<exists>rest. vfs_findroot hello_vfs ''/a'' = Some (Some (0, rest)) \<and> rest = ''a''"
proof -
  have "covers ''/'' ''/a''" by (simp add: covers_def)
  then show ?thesis
    using vfs_findroot_longest [of hello_vfs "''/a''"]
    by (auto simp: mpath_def root_mount_def split: option.splits)
qed

text \<open>C9: With consistent reference counts, \<^verbatim>\<open>vfs_node_acquire\<close> of a path that fits the buffer never faults. If it
  stores a node, the result is 0, the node is the one of the path and exactly the references of the node and its ancestors have
  been taken. If it stores none, the references are as before, provided that memory is not exhausted.\<close>

theorem vfs_node_acquire_correct:
  assumes "filesystem_env env wok" "cache_inv env wok st \<rho>" "vfs_mounted st" "Suc (length path) < VFS_MAX_PATH"
  shows "\<exists>st' err np. vfs_node_acquire env st path = Some (st', err, np) \<and> fd_file st' = fd_file st \<and> mnt_list st' = mnt_list st \<and>
    (case np of
       None \<Rightarrow> (\<forall>k. can_alloc st k) \<and> vget_total env \<longrightarrow> cache_inv env wok st' \<rho>
     | Some n \<Rightarrow> err = 0 \<and> (\<exists>m p. vfs_findroot st path = Some (Some (m, p)) \<and> node_at (mem st') n m (path_comps p)
                 \<and> cache_inv env wok st' (add_path \<rho> m (path_comps p))))"
proof (rule filesystem_env.vfs_node_acquire_spec [OF assms])
  assume "vfs_node_acquire env st path = Some (st, -1, None)"
  then show ?thesis using assms(2) by simp
next
  fix m p st' err np
  assume "vfs_findroot st path = Some (Some (m, p))" "vfs_node_acquire env st path = Some (st', err, np)"
    "acquire_result env wok \<rho> m (path_comps p) st st' err np"
  then show ?thesis by (auto simp: acquire_result_def node_step_def)
qed

theorem vfs_node_acquire_correct_witness:
  "\<exists>st'. vfs_node_acquire (cpio_env (\<lambda>_. None)) hello_vfs ''/'' = Some (st', 0, Some 0)
    \<and> cache_inv (cpio_env (\<lambda>_. None)) cpio_usable st' (add_path root_refs 0 [])"
  using vfs_node_acquire_correct [OF cpio_fs.filesystem_env_axioms hello_cache_inv hello_vfs_mounted, of "''/''" "\<lambda>_. None"]
    hello_acquire_root [of "\<lambda>_. None"] hello_findroot path_comps.simps [of "[]"] by auto

text \<open>C5: A node that \<^verbatim>\<open>vfs_node_acquire\<close> stored can be released, and \<^verbatim>\<open>vfs_node_release\<close> gives back exactly
  the references that had been taken.\<close>

theorem vfs_acquire_release:
  assumes "filesystem_env env wok" "cache_inv env wok st \<rho>" "vfs_mounted st" "Suc (length path) < VFS_MAX_PATH"
    and "vfs_node_acquire env st path = Some (st1, err, Some n)"
  shows "\<exists>st2. vfs_node_release env st1 (Some n) = Some st2 \<and> cache_inv env wok st2 \<rho> \<and> fd_file st2 = fd_file st"
proof -
  note hold = filesystem_env.acquire_holds [OF assms]
  obtain st2 where "vfs_node_release env st1 (Some n) = Some st2" "cache_inv env wok st2 \<rho>" "node_step st1 st2 \<rho>"
    using assms(1) hold(2) by (rule filesystem_env.release_holds)
  then show ?thesis using hold(3) by (auto simp: node_step_def)
qed

theorem vfs_acquire_release_witness:
  "\<exists>st2. vfs_node_release (cpio_env (\<lambda>_. None)) (put_node hello_vfs 0 (root_node\<lparr>v_refcnt := 2\<rparr>)) (Some 0) = Some st2
    \<and> cache_inv (cpio_env (\<lambda>_. None)) cpio_usable st2 root_refs \<and> fd_file st2 = fd_file hello_vfs"
  by (rule vfs_acquire_release [OF cpio_fs.filesystem_env_axioms hello_cache_inv hello_vfs_mounted _ hello_acquire_root]) simp

text \<open>C10: Opening an existing file without creating or truncating it never faults. It gives the lowest free descriptor
  from 3 on, at offset 0, and the file holds exactly the references of its path; or it returns -1 with the references as before,
  which happens only when every descriptor is taken or the file was to be written.\<close>

theorem vfs_open_correct:
  assumes "filesystem_env env wok" "cache_inv env wok st \<rho>" "vfs_mounted st" "Suc (length path) < VFS_MAX_PATH"
    and "length (fd_file st) = VFS_MAX_FD" "flags AND O_ACCMODE \<noteq> 0" "flags AND O_CREAT = 0" "flags AND O_TRUNC = 0"
    and "vfs_node_acquire env st path = Some (st', 0, Some n)"
  shows "\<exists>st1 fd. vfs_open env st (Some path) flags mode = Some (st1, fd) \<and>
    (if fd = -1
     then cache_inv env wok st1 \<rho> \<and> fd_file st1 = fd_file st
       \<and> (flags AND O_WRONLY \<noteq> 0 \<or> (\<forall>i \<in> {3..<VFS_MAX_FD}. f_node (fd_file st ! i) \<noteq> None))
     else 3 \<le> fd \<and> fd < 256 \<and> f_node (fd_file st ! nat fd) = None \<and> (\<forall>j \<in> {3..<nat fd}. f_node (fd_file st ! j) \<noteq> None)
       \<and> fd_file st1 = (fd_file st)[nat fd := \<lparr>f_node = Some n, f_offset = 0, f_flags = flags\<rparr>]
       \<and> holds_node env wok st1 \<rho> n)"
proof (rule filesystem_env.vfs_open_spec [OF assms, where mode = mode])
  fix st1 assume "vfs_open env st (Some path) flags mode = Some (st1, -1)" "cache_inv env wok st1 \<rho>" "fd_file st1 = fd_file st"
    "flags AND O_WRONLY \<noteq> 0 \<or> (\<forall>i \<in> {3..<VFS_MAX_FD}. f_node (fd_file st ! i) \<noteq> None)"
  then show ?thesis by simp
next
  fix i st1 assume "vfs_open env st (Some path) flags mode = Some (st1, int i)" "3 \<le> i" "i < VFS_MAX_FD"
    "f_node (fd_file st ! i) = None" "\<forall>j\<in>{3..<i}. f_node (fd_file st ! j) \<noteq> None" "holds_node env wok st1 \<rho> n"
    "fd_file st1 = (fd_file st)[i := \<lparr>f_node = Some n, f_offset = 0, f_flags = flags\<rparr>]"
  then show ?thesis by (intro exI [of _ st1] exI [of _ "int i"]) simp
qed

theorem vfs_open_correct_witness:
  "\<exists>st1. vfs_open (cpio_env (\<lambda>_. None)) hello_vfs (Some ''/'') O_RDONLY 0 = Some (st1, 3)"
proof -
  have first: "\<not> (\<forall>j \<in> {3..<nat fd}. f_node (fd_file hello_vfs ! j) \<noteq> None)" if "3 < fd" "fd < 256" for fd :: int
    using that by (auto simp: closed_file_def intro!: bexI [of _ 3])
  show ?thesis
    using vfs_open_correct [OF cpio_fs.filesystem_env_axioms hello_cache_inv hello_vfs_mounted _ _ _ _ _ hello_acquire_root,
        of O_RDONLY "\<lambda>_. None" 0] first
    by (auto simp: closed_file_def split: if_splits dest!: bspec [of _ _ 3])
qed

text \<open>C36: Closing an open file either frees its descriptor and gives back exactly its references, or, when the file
  system reports an error, leaves it open with its references.\<close>

theorem vfs_close_correct:
  assumes "filesystem_env env wok" "holds_node env wok st \<rho> n" "length (fd_file st) = VFS_MAX_FD"
    and "3 \<le> i" "i < VFS_MAX_FD" "f_node (fd_file st ! i) = Some n"
  shows "\<exists>st1 err. vfs_close env st (int i) = Some (st1, err) \<and>
    (if err = 0 then cache_inv env wok st1 \<rho> \<and> fd_file st1 = (fd_file st)[i := closed_file]
     else holds_node env wok st1 \<rho> n \<and> fd_file st1 = fd_file st)"
proof (rule filesystem_env.vfs_close_spec [OF assms])
  fix st1 err assume "err \<noteq> 0" "vfs_close env st (int i) = Some (st1, err)" "holds_node env wok st1 \<rho> n" "fd_file st1 = fd_file st"
  then show ?thesis by simp
next
  fix st1 assume "vfs_close env st (int i) = Some (st1, 0)" "cache_inv env wok st1 \<rho>" "fd_file st1 = (fd_file st)[i := closed_file]"
  then show ?thesis by simp
qed

theorem vfs_close_correct_witness:
  "\<exists>st1 err. vfs_close (cpio_env (\<lambda>_. None)) hello_open (int 3) = Some (st1, err) \<and>
    (if err = 0 then cache_inv (cpio_env (\<lambda>_. None)) cpio_usable st1 root_refs \<and> fd_file st1 = (fd_file hello_open)[3 := closed_file]
     else holds_node (cpio_env (\<lambda>_. None)) cpio_usable st1 root_refs 0 \<and> fd_file st1 = fd_file hello_open)"
  by (rule vfs_close_correct [OF cpio_fs.filesystem_env_axioms hello_open_holds]) (simp_all add: hello_open_def)

text \<open>C6: With an archive mounted at the root, opening a regular file of the root directory that is not in use, reading it and
  closing it succeeds: the read returns the first bytes of the file in the archive, and afterwards all references
  and descriptors are as before.\<close>

theorem vfs_read_archive_file:
  assumes sys: "root_archive devs st \<rho> m fs" and c: "good_comps [c]" "Suc (Suc (length c)) < VFS_MAX_PATH" and fresh: "\<rho> (m, [c]) = 0"
    and found: "find (\<lambda>f. matches ''/'' c (file_entry f)) fs = Some f" and reg: "fst (cpio_node_type (af_mode f)) = VNT_REG"
    and files: "length (fd_file st) = VFS_MAX_FD" "j \<in> {3..<VFS_MAX_FD}" "f_node (fd_file st ! j) = None"
    and buf: "buf \<noteq> 0" "len \<noteq> 0"
  shows "\<exists>st1 i st2 st3. vfs_open (cpio_env devs) st (Some (CHR ''/'' # c)) O_RDONLY mode = Some (st1, int i) \<and> 3 \<le> i \<and> i < VFS_MAX_FD
    \<and> vfs_read (cpio_env devs) st1 (int i) buf len
        = Some (st2, take (unat len) (af_data f), of_nat (min (unat len) (length (af_data f))))
    \<and> vfs_close (cpio_env devs) st2 (int i) = Some (st3, 0) \<and> cache_inv (cpio_env devs) cpio_usable st3 \<rho>
    \<and> fd_file st3 = (fd_file st)[i := closed_file]"
proof -
  let ?env = "cpio_env devs"
  from sys have inv: "cache_inv ?env cpio_usable st \<rho>" and mtd: "vfs_mounted st" by (auto simp: root_archive_def)
  obtain off where off: "find_file (\<lambda>f. matches ''/'' c (file_entry f)) 0 fs = Some (f, off)"
    using find_file_find [of "\<lambda>f. matches ''/'' c (file_entry f)" 0 fs] found by auto
  obtain st' n mt where node: "nodes (mem st') n = Some (found_node f off (new_node m (CHR ''/'' # c)))"
    and arch: "archive_mounted (mem st') m fs" and mt: "mounts (mem st') m = Some mt" "m_fs mt = ''cpio''"
    and acq: "vfs_node_acquire ?env st (CHR ''/'' # c) = Some (st', 0, Some n)"
    using acquire_fresh_exact [OF sys c fresh off] by metis
  have len: "Suc (length (CHR ''/'' # c)) < VFS_MAX_PATH" using c(2) by simp
  show ?thesis
  proof (rule filesystem_env.vfs_open_spec [OF cpio_fs.filesystem_env_axioms inv mtd len files(1) _ _ _ acq, of O_RDONLY mode])
    fix i st1
    let ?f = "\<lparr>f_node = Some n, f_offset = 0, f_flags = O_RDONLY\<rparr>"
    assume o: "vfs_open ?env st (Some (CHR ''/'' # c)) O_RDONLY mode = Some (st1, int i)" "3 \<le> i" "i < VFS_MAX_FD"
      "holds_node ?env cpio_usable st1 \<rho> n" "fd_file st1 = (fd_file st)[i := ?f]" "mem st1 = mem st'"
    have f: "fd_file st1 ! i = ?f" using o(3,5) files(1) by simp
    then have on: "open_node st1 (int i) = Some (i, n)" using o(3) by (simp add: open_node_eq)
    obtain st2 where r: "vfs_read ?env st1 (int i) buf len
          = Some (st2, take (unat len) (af_data f), of_nat (min (unat len) (length (af_data f))))"
        "holds_node ?env cpio_usable st2 \<rho> n" "nodes (mem st2) = nodes (mem st1)" "mounts (mem st2) = mounts (mem st1)"
        "fd_file st2 = (fd_file st1)[i := (fd_file st1 ! i)\<lparr>f_offset := of_nat (min (unat len) (length (af_data f)))\<rparr>]"
      using read_held [OF o(4) _ _ _ mt(2) off reg on f buf] node arch mt(1) o(6) by metis
    obtain st3 where "vfs_close ?env st2 (int i) = Some (st3, 0)" "cache_inv ?env cpio_usable st3 \<rho>"
        "fd_file st3 = (fd_file st2)[i := closed_file]"
      using close_held [OF r(2), of "found_node f off (new_node m (CHR ''/'' # c))" mt i] r(3-5) node mt o files(1) f
      by (auto simp: found_node_def new_node_def)
    then show ?thesis using o r by auto
  qed (use files in \<open>auto dest!: bspec [of _ _ j]\<close>)
qed


theorem vfs_read_archive_file_witness:
  "\<exists>st1 i st2. vfs_open (cpio_env (\<lambda>_. None)) hello_vfs (Some ''/a'') O_RDONLY 0 = Some (st1, int i)
    \<and> vfs_read (cpio_env (\<lambda>_. None)) st1 (int i) 4096 1 = Some (st2, [104], 1)"
proof -
  have "take (unat (1 :: u64)) (af_data hello) = [104]" "min (unat (1 :: u64)) (length (af_data hello)) = 1" by (simp_all add: hello_def)
  then show ?thesis
    using vfs_read_archive_file [OF hello_root_archive hello_fresh(2) _ hello_fresh(1) hello_find hello_regular, of 3 4096 1 "\<lambda>_. None" 0]
    by (auto simp: closed_file_def)
qed

text \<open>C37: With an archive as the only mount, at the root, and a path below a regular file of its root directory that is not in the
  cache of nodes, \<^verbatim>\<open>vfs_node_acquire\<close> returns the result 0 of the lookup although it stores no node, and
  \<^verbatim>\<open>vfs_open\<close> then goes on with a pointer that was never set. (When the file is cached, the loop goes on with the file as the
  directory.)\<close>

theorem vfs_acquire_below_file:
  assumes sys: "root_archive devs st \<rho> m fs" and c: "good_comps [c]" "Suc (Suc (length c)) < VFS_MAX_PATH" and fresh: "\<rho> (m, [c]) = 0"
    and len: "Suc (Suc (Suc (length c + length rest))) < VFS_MAX_PATH"
    and found: "find (\<lambda>f. matches ''/'' c (file_entry f)) fs = Some f" and reg: "fst (cpio_node_type (af_mode f)) = VNT_REG"
  shows "\<exists>st'. vfs_node_acquire (cpio_env devs) st (CHR ''/'' # c @ CHR ''/'' # rest) = Some (st', 0, None)
    \<and> vfs_open (cpio_env devs) st (Some (CHR ''/'' # c @ CHR ''/'' # rest)) O_RDONLY mode = None"
proof -
  let ?env = "cpio_env devs" and ?path = "CHR ''/'' # c @ CHR ''/'' # rest"
  from sys have inv: "cache_inv ?env cpio_usable st \<rho>" and mtd: "vfs_mounted st" by (auto simp: root_archive_def)
  obtain off where off: "find_file (\<lambda>f. matches ''/'' c (file_entry f)) 0 fs = Some (f, off)"
    using find_file_find [of "\<lambda>f. matches ''/'' c (file_entry f)" 0 fs] found by auto
  obtain st' n where "vfs_node_acquire ?env st ?path = do { st4 \<leftarrow> vfs_node_release ?env st' (Some n); Some (st4, 0, None) }"
    using acquire_fresh_file [OF sys c fresh off] reg
    by (metis list.sel(1) list.distinct(1) vfs_node_type_t.distinct(20))
  then have "vfs_node_acquire ?env st ?path = None \<or> (\<exists>st'. vfs_node_acquire ?env st ?path = Some (st', 0, None))"
    by (cases "vfs_node_release ?env st' (Some n)") auto
  moreover have "vfs_node_acquire ?env st ?path \<noteq> None"
    using cpio_fs.filesystem_env_axioms inv mtd by (rule filesystem_env.vfs_node_acquire_spec [of _ _ _ _ ?path]) (use len in simp_all)
  ultimately obtain st' where "vfs_node_acquire ?env st ?path = Some (st', 0, None)" by auto
  then show ?thesis by (simp add: vfs_open_def open_node_flags_def)
qed

theorem vfs_acquire_below_file_witness:
  "vfs_open (cpio_env (\<lambda>_. None)) hello_vfs (Some ''/a/b'') O_RDONLY 0 = None"
  using vfs_acquire_below_file [OF hello_root_archive hello_fresh(2) _ hello_fresh(1) _ hello_find hello_regular, of "''b''" "\<lambda>_. None" 0] by simp

text \<open>\<^verbatim>\<open>vfs_lseek\<close> moves the offset of an open file to the wanted position, counted from the start, the
  current offset or the end, clamped to the file: never below 0 and never beyond its size. The sum must not overflow for
  \<^verbatim>\<open>VFS_SEEK_CUR\<close>.\<close>

lemma vfs_lseek_clamps:
  assumes "open_node st fd = Some (i, n)" "get_node st n = Some v" "i < length (fd_file st)" "whence \<in> {0, 1, 2}"
    and "0 \<le> sint (f_offset (fd_file st ! i))" "sint (f_offset (fd_file st ! i)) \<le> sint (v_size v)"
    and "whence = 1 \<longrightarrow> sint (f_offset (fd_file st ! i)) + sint off < 2 ^ 63"
  shows "\<exists>st' r. vfs_lseek st fd off whence = Some (st', r) \<and> f_offset (fd_file st' ! i) = r
    \<and> sint r = max 0 (min (sint (v_size v)) (seek_base (v_size v) (f_offset (fd_file st ! i)) whence + sint off))"
proof -
  obtain t where t: "seek_target (v_size v) (f_offset (fd_file st ! i)) off whence = Some (Seek_To t)"
    "sint t = max 0 (min (sint (v_size v)) (seek_base (v_size v) (f_offset (fd_file st ! i)) whence + sint off))"
    using assms(4-7) by (rule seek_target_clamps)
  have "sint t \<le> sint (v_size v)" using t(2) assms(5,6) by simp
  then have "vfs_lseek st fd off whence = Some (set_file st i (\<lambda>f. f\<lparr>f_offset := t\<rparr>), t)"
    using assms(1,2) t(1) by (simp add: vfs_lseek_def)
  then show ?thesis using t(2) assms(3) by (simp add: set_file_def)
qed


lemma vfs_lseek_clamps_witness:
  "\<exists>st' r. vfs_lseek hello_open 3 5 2 = Some (st', r) \<and> f_offset (fd_file st' ! 3) = r \<and> sint r = 0"
proof -
  have "open_node hello_open 3 = Some (3, 0)" using open_node_eq [of hello_open 3 0] by (simp add: hello_open_def)
  moreover have "get_node hello_open 0 = Some (root_node\<lparr>v_refcnt := 2\<rparr>)" by (simp add: hello_open_def get_node_def)
  ultimately show ?thesis
    using vfs_lseek_clamps [of hello_open 3 3 0 "root_node\<lparr>v_refcnt := 2\<rparr>" 2 5]
    by (simp add: hello_open_def root_node_def seek_base_def)
qed

end
