(* ===== verification/Lsort.thy ===== *)
theory Lsort
  imports Kernel_Prelude "HOL-Library.Multiset"
begin

text \<open>
  The list sort of \<^verbatim>\<open>lib/lsort.c\<close>: a bottom-up merge sort that keeps sorted runs of doubling length in
  the array \<^verbatim>\<open>part\<close>. A chain of \<^verbatim>\<open>list_head\<close>s is the list of its elements and \<^verbatim>\<open>NULL\<close> the empty
  list; the comparison is an argument. The main result is that the function computes the stable sort.
\<close>

section \<open>Definitions\<close>

abbreviation (input) PART_SIZE :: nat where "PART_SIZE \<equiv> 20 + 1"

fun merge :: "('a \<Rightarrow> 'a \<Rightarrow> int) \<Rightarrow> 'a list \<Rightarrow> 'a list \<Rightarrow> 'a list" where
  "merge cmp (a # as) (b # bs) =
     (if cmp a b \<le> 0 then a # merge cmp as (b # bs) else b # merge cmp (a # as) bs)"
| "merge cmp [] bs = bs"
| "merge cmp as [] = as"

text \<open>The result is empty only when both chains are: then the second loop dereferences a null pointer.\<close>

definition merge_and_restore_back_links :: "('a \<Rightarrow> 'a \<Rightarrow> int) \<Rightarrow> 'a list \<Rightarrow> 'a list \<Rightarrow> 'a list option" where
  "merge_and_restore_back_links cmp a b = (if a = [] \<and> b = [] then None else Some (merge cmp a b))"

text \<open>The inner loop: \<open>cur\<close> is merged with the runs from level \<open>lev\<close> on, up to the first free level.\<close>

function merge_parts :: "('a \<Rightarrow> 'a \<Rightarrow> int) \<Rightarrow> 'a list list \<Rightarrow> nat \<Rightarrow> 'a list \<Rightarrow> ('a list list \<times> nat \<times> 'a list) option" where
  "merge_parts cmp part lev cur = do {
     p \<leftarrow> arr_get part lev;
     if p = [] then Some (part, lev, cur)
     else merge_parts cmp (part[lev := []]) (lev + 1) (merge cmp p cur)
   }"
  by pat_completeness auto
termination
  by (relation "measure (\<lambda>(cmp, part, lev, cur). length part - lev)") (auto simp: arr_get_eq_Some)

declare merge_parts.simps [simp del]

fun lsort_loop :: "('a \<Rightarrow> 'a \<Rightarrow> int) \<Rightarrow> 'a list \<Rightarrow> 'a list list \<Rightarrow> nat \<Rightarrow> ('a list list \<times> nat) option" where
  "lsort_loop cmp [] part maxlev = Some (part, maxlev)"
| "lsort_loop cmp (x # xs) part maxlev = do {
     (part, lev, cur) \<leftarrow> merge_parts cmp part 0 [x];
     let lev' = (if lev > maxlev \<and> lev \<ge> PART_SIZE - 1 then lev - 1 else lev);
     part \<leftarrow> arr_set part lev' cur;
     lsort_loop cmp xs part (if lev > maxlev then lev' else maxlev)
   }"

definition lsort :: "('a \<Rightarrow> 'a \<Rightarrow> int) \<Rightarrow> 'a list \<Rightarrow> 'a list option" where
  "lsort cmp xs =
     (if xs = [] then Some []
      else do {
        (part, maxlev) \<leftarrow> lsort_loop cmp xs (replicate PART_SIZE []) 0;
        let list = fold (\<lambda>p list. if p \<noteq> [] then merge cmp p list else list) (take maxlev part) [];
        p \<leftarrow> arr_get part maxlev;
        merge_and_restore_back_links cmp p list
      })"

section \<open>Sorting\<close>

lemma filter_sort_key [simp]: "filter (\<lambda>x. k = f x) (sort_key f xs) = filter (\<lambda>x. k = f x) xs"
  using sort_key_stable [of f k xs] by (simp add: eq_commute [of k])

lemma sort_key_eq_Nil [simp]: "sort_key f xs = [] \<longleftrightarrow> xs = []"
  using length_sort [of f xs] by (metis length_0_conv)

lemma merge_induct [case_names both left right]:
  fixes cmp :: "'a \<Rightarrow> 'a \<Rightarrow> int"
  assumes "\<And>a as b bs. \<lbrakk>cmp a b \<le> 0 \<Longrightarrow> P as (b # bs); \<not> cmp a b \<le> 0 \<Longrightarrow> P (a # as) bs\<rbrakk> \<Longrightarrow> P (a # as) (b # bs)"
    and "\<And>bs. P [] bs" and "\<And>a as. P (a # as) []"
  shows "P as bs"
proof -
  have "c = cmp \<longrightarrow> P as bs" for c
    by (induction c as bs rule: merge.induct) (use assms in blast)+
  then show ?thesis by simp
qed

text \<open>The comparison orders the elements of a set by a key.\<close>

lemma set_merge: "set (merge cmp as bs) = set as \<union> set bs"
  by (induction cmp as bs rule: merge.induct) auto

lemma mset_merge: "mset (merge cmp as bs) = mset as + mset bs"
  by (induction cmp as bs rule: merge.induct) auto

locale comparison =
  fixes cmp :: "'a \<Rightarrow> 'a \<Rightarrow> int" and key :: "'a \<Rightarrow> 'k::linorder" and S :: "'a set"
  assumes cmp_key: "\<lbrakk>a \<in> S; b \<in> S\<rbrakk> \<Longrightarrow> cmp a b \<le> 0 \<longleftrightarrow> key a \<le> key b"
begin

lemma sorted_merge:
  "\<lbrakk>sorted (map key as); sorted (map key bs); set as \<subseteq> S; set bs \<subseteq> S\<rbrakk> \<Longrightarrow> sorted (map key (merge cmp as bs))"
proof (induction as bs rule: merge_induct [of cmp])
  case (both a as b bs)
  then have "cmp a b \<le> 0 \<longleftrightarrow> key a \<le> key b" by (simp add: cmp_key)
  then show ?case
    using both order_trans [of "key a" "key b"] order_trans [of "key b" "key a"] by (auto simp: set_merge)
qed simp_all

lemma filter_merge:
  "\<lbrakk>sorted (map key as); sorted (map key bs); set as \<subseteq> S; set bs \<subseteq> S\<rbrakk>
    \<Longrightarrow> filter (\<lambda>x. k = key x) (merge cmp as bs) = filter (\<lambda>x. k = key x) as @ filter (\<lambda>x. k = key x) bs"
proof (induction as bs rule: merge_induct [of cmp])
  case (both a as b bs)
  have "filter (\<lambda>x. k = key x) as = []" if "\<not> key a \<le> key b" "k = key b"
    using both.prems(1) that by (force simp: filter_empty_conv)
  moreover have "cmp a b \<le> 0 \<longleftrightarrow> key a \<le> key b" using both.prems by (simp add: cmp_key)
  ultimately show ?case using both by (cases "key a \<le> key b") auto
qed simp_all

lemma merge_sort_key:
  "\<lbrakk>set as \<subseteq> S; set bs \<subseteq> S\<rbrakk> \<Longrightarrow> merge cmp (sort_key key as) (sort_key key bs) = sort_key key (as @ bs)"
  by (rule properties_for_sort_key [symmetric]) (simp_all add: mset_merge filter_merge sorted_merge)

end

lemma concat_rev_empty_upto:
  assumes "\<forall>i<n. cs ! i = []" "n \<le> length cs"
  shows "concat (rev cs) = concat (rev (drop n cs))"
proof -
  have "concat (rev (take n cs)) = []" using assms by (auto simp: in_set_conv_nth)
  moreover have "concat (rev (take n cs @ drop n cs)) = concat (rev (drop n cs)) @ concat (rev (take n cs))"
    by (simp only: rev_append concat_append)
  ultimately show ?thesis by simp
qed

lemma concat_rev_update:
  assumes "\<forall>i<n. cs ! i = []" "n < length cs"
  shows "concat (rev (cs[n := c])) = concat (rev (drop (Suc n) cs)) @ c"
    and "concat (rev cs) = concat (rev (drop (Suc n) cs)) @ cs ! n"
proof -
  have "concat (rev (cs[n := c])) = concat (rev (drop n (cs[n := c])))"
    using assms by (intro concat_rev_empty_upto) auto
  also have "drop n (cs[n := c]) = c # drop (Suc n) cs" using assms(2) by (simp add: Cons_nth_drop_Suc [symmetric] drop_update_swap)
  finally show "concat (rev (cs[n := c])) = concat (rev (drop (Suc n) cs)) @ c" by simp
  have "concat (rev cs) = concat (rev (drop n cs))" using assms by (intro concat_rev_empty_upto) auto
  also have "drop n cs = cs ! n # drop (Suc n) cs" using assms(2) by (simp add: Cons_nth_drop_Suc)
  finally show "concat (rev cs) = concat (rev (drop (Suc n) cs)) @ cs ! n" by simp
qed

lemma concat_rev_fill:
  assumes "\<forall>i\<le>n. cs ! i = []" "n < length cs" "k \<le> n"
  shows "concat (rev (cs[k := c])) = concat (rev cs) @ c"
proof -
  have "concat (rev (cs[k := c])) = concat (rev (drop (Suc k) cs)) @ c" using assms by (intro concat_rev_update(1)) auto
  moreover have "concat (rev cs) = concat (rev (drop (Suc k) cs)) @ cs ! k" using assms by (intro concat_rev_update(2)) auto
  ultimately show ?thesis using assms by simp
qed

section \<open>The sort is the stable sort\<close>

context comparison
begin

text \<open>The array holds the sorted runs of a partition of the elements seen so far, the oldest elements at the highest level.\<close>

abbreviation runs :: "'a list list \<Rightarrow> 'a list list" where "runs \<equiv> map (sort_key key)"

lemma merge_parts_runs:
  assumes "length cs = PART_SIZE" "lev < PART_SIZE" "cs ! (PART_SIZE - 1) = []" "\<forall>i<lev. cs ! i = []"
    and "\<forall>c \<in> set cs. set c \<subseteq> S" "set c \<subseteq> S"
  obtains cs' lev' c' where "merge_parts cmp (runs cs) lev (sort_key key c) = Some (runs cs', lev', sort_key key c')"
    "concat (rev cs') @ c' = concat (rev cs) @ c" "length cs' = PART_SIZE" "lev' < PART_SIZE" "\<forall>i\<le>lev'. cs' ! i = []"
    "\<forall>i>lev'. cs' ! i = cs ! i" "lev \<le> lev'" "c \<noteq> [] \<longrightarrow> c' \<noteq> []"
  using assms
proof (induction "PART_SIZE - lev" arbitrary: cs lev c thesis rule: less_induct)
  case less
  show thesis
  proof (cases "cs ! lev = []")
    case True
    then have "merge_parts cmp (runs cs) lev (sort_key key c) = Some (runs cs, lev, sort_key key c)"
      using less.prems by (subst merge_parts.simps) simp
    then show thesis using True less.prems(2-5) by (intro less.prems(1)) (auto simp: le_less)
  next
    case False
    let ?cs = "cs[lev := []]" and ?c = "cs ! lev @ c"
    have lev: "Suc lev < PART_SIZE" using False less.prems(3,4) by (cases "lev = PART_SIZE - 1") auto
    have p: "set (cs ! lev) \<subseteq> S" "set c \<subseteq> S" using less.prems(2,3,6,7) by (auto dest!: nth_mem)
    have "\<forall>c \<in> set ?cs. set c \<subseteq> S" using less.prems(6) set_update_subset_insert [of cs lev "[]"] by fastforce
    note ok = this p
    have step: "merge_parts cmp (runs cs) lev (sort_key key c) = merge_parts cmp (runs ?cs) (Suc lev) (sort_key key ?c)"
      using False less.prems(2,3) p by (subst merge_parts.simps) (simp add: merge_sort_key map_update)
    have all: "concat (rev ?cs) @ ?c = concat (rev cs) @ c"
      using concat_rev_update(1) [of lev cs "[]"] concat_rev_update(2) [of lev cs] less.prems(2,3,5) by simp
    show thesis
    proof (rule less.hyps [of "Suc lev" ?cs ?c])
      fix cs' lev' c'
      assume "merge_parts cmp (runs ?cs) (Suc lev) (sort_key key ?c) = Some (runs cs', lev', sort_key key c')"
        "concat (rev cs') @ c' = concat (rev ?cs) @ ?c" "length cs' = PART_SIZE" "lev' < PART_SIZE" "\<forall>i\<le>lev'. cs' ! i = []"
        "\<forall>i>lev'. cs' ! i = ?cs ! i" "Suc lev \<le> lev'" "?c \<noteq> [] \<longrightarrow> c' \<noteq> []"
      then show thesis using False all step by (intro less.prems(1)) auto
    qed (use less.prems lev ok in \<open>auto simp: nth_list_update less_Suc_eq\<close>)
  qed
qed

text \<open>The state of the loop after the elements \<open>ys\<close>.\<close>

definition sorted_runs :: "'a list \<Rightarrow> 'a list list \<Rightarrow> nat \<Rightarrow> bool" where
  "sorted_runs ys cs maxlev \<longleftrightarrow>
     length cs = PART_SIZE \<and> concat (rev cs) = ys \<and> (\<forall>c \<in> set cs. set c \<subseteq> S) \<and> maxlev < PART_SIZE - 1 \<and> (\<forall>i. maxlev < i \<and> i < PART_SIZE \<longrightarrow> cs ! i = [])
     \<and> (if ys = [] then maxlev = 0 else cs ! maxlev \<noteq> [])"

lemma lsort_step:
  assumes "sorted_runs ys cs maxlev" "x \<in> S"
  obtains cs' maxlev' where "lsort_loop cmp (x # xs) (runs cs) maxlev = lsort_loop cmp xs (runs cs') maxlev'"
    "sorted_runs (ys @ [x]) cs' maxlev'"
proof -
  obtain cs' lev c where m: "merge_parts cmp (runs cs) 0 (sort_key key [x]) = Some (runs cs', lev, sort_key key c)"
    and all: "concat (rev cs') @ c = concat (rev cs) @ [x]" and cs': "length cs' = PART_SIZE" "lev < PART_SIZE" "\<forall>i\<le>lev. cs' ! i = []"
    "\<forall>i>lev. cs' ! i = cs ! i" "c \<noteq> []"
    using assms by (rule_tac merge_parts_runs [of cs 0 "[x]"]) (auto simp: sorted_runs_def)
  define lev' where "lev' = (if lev > maxlev \<and> lev \<ge> PART_SIZE - 1 then lev - 1 else lev)"
  let ?max = "if lev > maxlev then lev' else maxlev"
  have lev': "lev' \<le> lev" by (simp add: lev'_def)
  have loop: "lsort_loop cmp (x # xs) (runs cs) maxlev = lsort_loop cmp xs (runs (cs'[lev' := c])) ?max"
    using m cs' lev' by (simp add: lev'_def map_update Let_def)
  have all': "concat (rev (cs'[lev' := c])) = ys @ [x]"
    using concat_rev_fill [of lev cs' lev' c] all cs' lev' assms by (simp add: sorted_runs_def)
  have "set (ys @ [x]) \<subseteq> S" using assms by (fastforce simp: sorted_runs_def)
  then have "\<forall>d \<in> set (cs'[lev' := c]). set d \<subseteq> S" unfolding all' [symmetric] by (simp add: UN_subset_iff)
  then have "sorted_runs (ys @ [x]) (cs'[lev' := c]) ?max"
    using all' assms cs' lev' by (auto simp: sorted_runs_def lev'_def nth_list_update split: if_splits)
  with loop show thesis by (rule that)
qed

lemma lsort_loop_runs:
  assumes "sorted_runs ys cs maxlev" "set xs \<subseteq> S"
  obtains cs' maxlev' where "lsort_loop cmp xs (runs cs) maxlev = Some (runs cs', maxlev')" "sorted_runs (ys @ xs) cs' maxlev'"
  using assms
proof (induction xs arbitrary: ys cs maxlev thesis)
  case Nil
  then show ?case by simp
next
  case (Cons x xs)
  obtain cs1 max1 where "lsort_loop cmp (x # xs) (runs cs) maxlev = lsort_loop cmp xs (runs cs1) max1" "sorted_runs (ys @ [x]) cs1 max1"
    using Cons.prems(2,3) by (rule_tac lsort_step [of ys cs maxlev x]) auto
  moreover obtain cs' max' where "lsort_loop cmp xs (runs cs1) max1 = Some (runs cs', max')" "sorted_runs ((ys @ [x]) @ xs) cs' max'"
    using Cons.IH [OF _ calculation(2)] Cons.prems(3) by (metis set_subset_Cons subset_trans)
  ultimately show ?case by (intro Cons.prems(1) [of cs' max']) simp_all
qed

lemma fold_merge_runs:
  "\<lbrakk>\<forall>c \<in> set cs. set c \<subseteq> S; set c \<subseteq> S\<rbrakk> \<Longrightarrow> fold (\<lambda>p list. if p \<noteq> [] then merge cmp p list else list) (runs cs) (sort_key key c) = sort_key key (concat (rev cs) @ c)"
proof (induction cs arbitrary: c)
  case (Cons d cs)
  then show ?case using Cons.IH [of "d @ c"] Cons.IH [of c] by (simp add: merge_sort_key)
qed simp

lemma lsort_sort_key:
  assumes "set xs \<subseteq> S"
  shows "lsort cmp xs = Some (sort_key key xs)"
proof (cases "xs = []")
  case False
  have "sorted_runs [] (replicate PART_SIZE []) 0" by (auto simp: sorted_runs_def)
  then obtain cs maxlev where l: "lsort_loop cmp xs (runs (replicate PART_SIZE [])) 0 = Some (runs cs, maxlev)"
    and inv: "sorted_runs xs cs maxlev"
    using lsort_loop_runs [of "[]" "replicate PART_SIZE []" 0 xs] assms by (metis append_Nil)
  let ?low = "concat (rev (take maxlev cs))"
  have len: "maxlev < length cs" "cs ! maxlev \<noteq> []" using inv False by (auto simp: sorted_runs_def)
  have "concat (rev (drop (Suc maxlev) cs)) = []" using inv by (auto simp: sorted_runs_def in_set_conv_nth)
  moreover have "concat (rev cs) = concat (rev (drop (Suc maxlev) cs)) @ cs ! maxlev @ ?low"
    using id_take_nth_drop [OF len(1)] by (metis append.assoc concat.simps(2) concat_append rev.simps(2) rev_append append_Nil2 concat.simps(1))
  ultimately have xs: "cs ! maxlev @ ?low = xs" using inv by (simp add: sorted_runs_def del: concat_eq_Nil_conv)
  have low: "\<forall>c \<in> set (take maxlev cs). set c \<subseteq> S" "set (cs ! maxlev) \<subseteq> S" "set ?low \<subseteq> S"
    using inv len(1) by (auto simp: sorted_runs_def dest!: in_set_takeD)
  moreover have "fold (\<lambda>p list. if p \<noteq> [] then merge cmp p list else list) (take maxlev (runs cs)) [] = sort_key key ?low"
    using fold_merge_runs [of "take maxlev cs" "[]"] low by (simp add: take_map)
  ultimately show ?thesis
    using False l len xs low by (simp add: lsort_def merge_and_restore_back_links_def merge_sort_key)
qed (simp add: lsort_def)

end

section \<open>Property\<close>

text \<open>C26: \<^verbatim>\<open>lsort\<close> with a comparison that orders the elements by a key computes the stable sort by that key, for
  lists of any length.\<close>

theorem lsort_stable:
  assumes "\<forall>a \<in> set xs. \<forall>b \<in> set xs. cmp a b \<le> 0 \<longleftrightarrow> key a \<le> key b"
  shows "lsort cmp xs = Some (sort_key key xs)"
  using assms by (intro comparison.lsort_sort_key [of cmp key "set xs"]) (auto simp: comparison_def)

theorem lsort_stable_witness:
  "lsort (\<lambda>a b. fst a - fst b) [(2, 0), (1, 1), (2, 2), (1, 3)] = Some [(1, 1), (1, 3), (2 :: int, 0 :: int), (2, 2)]"
  by (subst lsort_stable [where key = fst]) simp_all

end
