(* ===== verification/Hmap.thy ===== *)
theory Hmap
  imports Libc_String Bit_Search Lsort "HOL-Library.List_Lexorder" "HOL-Library.AList"
begin

text \<open>
  The hash map of \<^verbatim>\<open>lib/hmap.c\<close> and the string hash of \<^verbatim>\<open>include/shash.h\<close>. Entries are objects with an
  address: each is on the list of its bucket and on the list of all entries. Strings are lists of
  characters other than NUL. Whether the \<open>i\<close>-th allocation of a map succeeds is given by
  \<open>alloc_ok\<close>; a null pointer that is dereferenced stops the model. The locks are not modelled.
\<close>

section \<open>Definitions\<close>

type_synonym entry_ptr = nat

record 'v hmap_entry_t =
  e_key :: "string option"
  e_value :: 'v

record 'v hmap_t =
  hash :: "entry_ptr list list"
  entry_list :: "entry_ptr list"
  hsize :: u32
  hn :: u32
  entries :: "entry_ptr \<rightharpoonup> 'v hmap_entry_t"
  next_entry :: entry_ptr
  alloc_ok :: "nat \<Rightarrow> bool"
  alloc_no :: nat

fun shash_loop :: "u32 \<Rightarrow> string \<Rightarrow> u32" where
  "shash_loop v [] = v"
| "shash_loop v (c # s) = shash_loop (push_bit 5 v + v + of_char c) s"

definition shash :: "string option \<Rightarrow> u32" where
  "shash s = (case s of None \<Rightarrow> 5381 | Some s \<Rightarrow> shash_loop 5381 s)"

definition bucket :: "'v hmap_t \<Rightarrow> string option \<Rightarrow> nat" where
  "bucket m key = unat (shash key AND (hsize m - 1))"

text \<open>An allocation; \<^verbatim>\<open>malloc(0)\<close> returns a null pointer.\<close>

definition hmalloc :: "'v hmap_t \<Rightarrow> u64 \<Rightarrow> 'v hmap_t \<times> bool" where
  "hmalloc m sz = (m\<lparr>alloc_no := alloc_no m + 1\<rparr>, sz \<noteq> 0 \<and> alloc_ok m (alloc_no m))"

definition round_size :: "u32 \<Rightarrow> u32 option" where
  "round_size sz = do {
     let sz = (if sz < 16 then 16 else sz);
     if sz AND (sz - 1) \<noteq> 0 then do {
       r \<leftarrow> roundup_pow_of_two (ucast sz);
       Some (ucast r)
     }
     else Some sz
   }"

text \<open>The result is \<open>Some None\<close> for the null pointer. The \<open>n\<close>-th call of \<^verbatim>\<open>malloc\<close> succeeds if \<open>ok n\<close>.\<close>

definition hmap_alloc :: "(nat \<Rightarrow> bool) \<Rightarrow> u32 \<Rightarrow> 'v hmap_t option option" where
  "hmap_alloc ok sz = do {
     sz \<leftarrow> round_size sz;
     let m = \<lparr>hash = [], entry_list = [], hsize = sz, hn = 0, entries = Map.empty, next_entry = 0, alloc_ok = ok, alloc_no = 0\<rparr>;
     let (m, got) = hmalloc m 32;
     if \<not> got then Some None
     else do {
       let (m, got) = hmalloc m (8 * ucast sz);
       if \<not> got then Some None
       else Some (Some (m\<lparr>hash := replicate (unat sz) []\<rparr>))
     }
   }"

text \<open>One entry taken off both lists and freed.\<close>

definition hmap_del_entry :: "'v hmap_t \<Rightarrow> entry_ptr \<Rightarrow> 'v hmap_t" where
  "hmap_del_entry m pos =
     m\<lparr>hash := map (remove1 pos) (hash m), entry_list := remove1 pos (entry_list m), hn := hn m - 1,
       entries := (entries m)(pos := None)\<rparr>"

text \<open>The second component is what the callback was given, in order.\<close>

fun hmap_clear_loop :: "'v hmap_t \<Rightarrow> entry_ptr list \<Rightarrow> ('v hmap_t \<times> 'v hmap_entry_t list) option" where
  "hmap_clear_loop m [] = Some (m, [])"
| "hmap_clear_loop m (pos # ps) = do {
     e \<leftarrow> entries m pos;
     (m', es) \<leftarrow> hmap_clear_loop (hmap_del_entry m pos) ps;
     Some (m', e # es)
   }"

definition hmap_clear :: "'v hmap_t \<Rightarrow> ('v hmap_t \<times> 'v hmap_entry_t list) option" where
  "hmap_clear m = hmap_clear_loop m (entry_list m)"

definition hmap_free :: "'v hmap_t option \<Rightarrow> 'v hmap_entry_t list option" where
  "hmap_free m =
     (case m of
        None \<Rightarrow> Some []
      | Some m \<Rightarrow> do {
          (_, es) \<leftarrow> hmap_clear m;
          Some es
        })"

definition hlist_add :: "'v hmap_t \<Rightarrow> entry_ptr \<Rightarrow> string option \<Rightarrow> 'v hmap_t option" where
  "hlist_add m pos key = do {
     b \<leftarrow> arr_get (hash m) (bucket m key);
     Some (m\<lparr>hash := (hash m)[bucket m key := pos # b]\<rparr>)
   }"

fun rehash_loop :: "'v hmap_t \<Rightarrow> entry_ptr list \<Rightarrow> 'v hmap_t option" where
  "rehash_loop m [] = Some m"
| "rehash_loop m (pos # ps) = do {
     e \<leftarrow> entries m pos;
     m \<leftarrow> hlist_add m pos (e_key e);
     rehash_loop m ps
   }"

definition hmap_resize :: "'v hmap_t \<Rightarrow> u32 \<Rightarrow> 'v hmap_t option" where
  "hmap_resize m sz = do {
     sz \<leftarrow> round_size sz;
     let (m, got) = hmalloc m (8 * ucast sz);
     if \<not> got then Some m
     else rehash_loop (m\<lparr>hash := replicate (unat sz) [], hsize := sz\<rparr>) (entry_list m)
   }"

text \<open>The walk along a bucket; the stored key is compared, so it must not be null.\<close>

fun bucket_find :: "'v hmap_t \<Rightarrow> entry_ptr list \<Rightarrow> string \<Rightarrow> entry_ptr option option" where
  "bucket_find m [] key = Some None"
| "bucket_find m (pos # ps) key = do {
     e \<leftarrow> entries m pos;
     k \<leftarrow> e_key e;
     if k = key then Some (Some pos) else bucket_find m ps key
   }"

definition hmap_find :: "'v hmap_t \<Rightarrow> string \<Rightarrow> entry_ptr option option" where
  "hmap_find m key = do {
     b \<leftarrow> arr_get (hash m) (bucket m (Some key));
     bucket_find m b key
   }"

definition hmap_new_entry :: "'v hmap_t \<Rightarrow> string \<Rightarrow> 'v \<Rightarrow> 'v hmap_t option" where
  "hmap_new_entry m key v = do {
     let (m, got) = hmalloc m 48;
     if \<not> got then Some m
     else do {
       let (m, dup) = hmalloc m (of_nat (length key) + 1);
       let pos = next_entry m;
       let e = \<lparr>e_key = (if dup then Some key else None), e_value = v\<rparr>;
       m \<leftarrow> hlist_add m pos (e_key e);
       Some (m\<lparr>entries := (entries m)(pos \<mapsto> e), next_entry := pos + 1, entry_list := entry_list m @ [pos], hn := hn m + 1\<rparr>)
     }
   }"

definition hmap_add :: "'v hmap_t \<Rightarrow> string \<Rightarrow> 'v \<Rightarrow> 'v hmap_t option" where
  "hmap_add m key v = do {
     found \<leftarrow> hmap_find m key;
     case found of
       Some pos \<Rightarrow> do {
         e \<leftarrow> entries m pos;
         Some (m\<lparr>entries := (entries m)(pos \<mapsto> e\<lparr>e_value := v\<rparr>)\<rparr>)
       }
     | None \<Rightarrow> do {
         m \<leftarrow> (if hn m > drop_bit 1 (hsize m) then hmap_resize m (push_bit 1 (hsize m)) else Some m);
         hmap_new_entry m key v
       }
   }"

definition hmap_remove :: "'v hmap_t \<Rightarrow> string \<Rightarrow> 'v hmap_t option" where
  "hmap_remove m key = do {
     m \<leftarrow> (if hsize m > 16 \<and> hn m < drop_bit 1 (hsize m) then hmap_resize m (drop_bit 1 (hsize m)) else Some m);
     found \<leftarrow> hmap_find m key;
     case found of
       Some pos \<Rightarrow> Some (hmap_del_entry m pos)
     | None \<Rightarrow> Some m
   }"

definition key_bytes :: "'v hmap_t \<Rightarrow> entry_ptr \<Rightarrow> u8 list" where
  "key_bytes m pos =
     (case entries m pos of
        None \<Rightarrow> []
      | Some e \<Rightarrow> (case e_key e of None \<Rightarrow> [] | Some k \<Rightarrow> bytes_of_string k))"

definition hmap_compare :: "'v hmap_t \<Rightarrow> entry_ptr \<Rightarrow> entry_ptr \<Rightarrow> int" where
  "hmap_compare m a b = str_cmp (key_bytes m a) (key_bytes m b)"

text \<open>With two entries or more every key is compared at least once, so a null key stops the model.\<close>

definition hmap_sort :: "'v hmap_t \<Rightarrow> 'v hmap_t option" where
  "hmap_sort m = do {
     assert_that (length (entry_list m) < 2 \<or> list_all (\<lambda>p. \<exists>e \<in> set_option (entries m p). e_key e \<noteq> None) (entry_list m));
     l \<leftarrow> lsort (hmap_compare m) (entry_list m);
     Some (m\<lparr>entry_list := l\<rparr>)
   }"

definition hmap_search :: "'v hmap_t \<Rightarrow> string \<Rightarrow> 'v option option" where
  "hmap_search m key = do {
     found \<leftarrow> hmap_find m key;
     case found of
       None \<Rightarrow> Some None
     | Some pos \<Rightarrow> do {
         e \<leftarrow> entries m pos;
         Some (Some (e_value e))
       }
   }"

section \<open>Sizes\<close>

lemma bit_top:
  assumes "2 ^ k \<le> unat (x :: u32)" "unat x < 2 ^ Suc k"
  shows "bit x k"
proof -
  have "unat x div 2 ^ k = 1" using assms by (intro div_nat_eqI) auto
  then have "odd (unat x div 2 ^ k)" by simp
  then show ?thesis by (simp add: bit_unsigned_iff flip: bit_iff_odd)
qed

lemma power_of_two_32:
  assumes "x \<noteq> 0" "(x :: u32) AND (x - 1) = 0"
  obtains k where "k < 32" "x = 2 ^ k"
proof -
  obtain k where k: "2 ^ k \<le> unat x" "unat x < 2 ^ Suc k"
    using ex_power_ivl1 [of 2 "unat x"] assms(1) by (auto simp: Suc_le_eq unat_gt_0)
  have "(2 :: nat) ^ k < 2 ^ 32" using k(1) unat_less_2p [of x] by simp
  then have k32: "k < 32" by (simp only: power_strict_increasing_iff)
  have "x = 2 ^ k"
  proof (rule ccontr)
    assume "x \<noteq> 2 ^ k"
    then have "unat x \<noteq> 2 ^ k" using k32 by (simp add: word_unat_eq_iff)
    moreover have "unat (x - 1) = unat x - 1" using assms(1) by (simp add: unat_sub word_le_nat_alt unat_gt_0 Suc_leI)
    ultimately have "bit (x - 1) k" using k by (intro bit_top) auto
    moreover have "bit x k" using k by (rule bit_top)
    ultimately have "bit (x AND (x - 1)) k" by (simp add: bit_and_iff)
    then show False using assms(2) by simp
  qed
  then show thesis using k32 that by blast
qed

lemma round_size_spec:
  obtains (zero) "round_size sz = Some 0" "2 ^ 31 < unat sz" | (power) k where "round_size sz = Some (2 ^ k)" "4 \<le> k" "k < 32"
proof -
  let ?sz = "if sz < 16 then 16 else sz"
  have ge: "16 \<le> unat ?sz" by (simp add: word_less_nat_alt not_less)
  show thesis
  proof (cases "?sz AND (?sz - 1) = 0")
    case True
    have "?sz \<noteq> 0" using ge by auto
    then obtain k where k: "k < 32" "?sz = 2 ^ k" using True by (rule power_of_two_32)
    have "(2 :: nat) ^ 4 \<le> 2 ^ k" using ge k by simp
    then have "4 \<le> k" by (simp only: power_increasing_iff)
    then show thesis using True k by (intro power) (simp_all add: round_size_def Let_def)
  next
    case False
    have "1 < unat (ucast ?sz :: u64)" "unat (ucast ?sz :: u64) \<le> 2 ^ 63"
      using ge unat_less_2p [of ?sz] by (simp_all only: unat_ucast_64_32) simp_all
    then obtain k where k: "roundup_pow_of_two (ucast ?sz) = Some (2 ^ k)" "k < 64" "unat (ucast ?sz :: u64) \<le> 2 ^ k"
        "2 ^ k < 2 * unat (ucast ?sz :: u64)"
      by (rule roundup_pow_of_two_correct)
    then have r: "round_size sz = Some (ucast (2 ^ k :: u64))" using False by (simp add: round_size_def Let_def)
    have "(2 :: nat) ^ 4 \<le> 2 ^ k" using ge k(3) by simp
    then have k4: "4 \<le> k" by (simp only: power_increasing_iff)
    show thesis
    proof (cases "k < 32")
      case True
      then have "(ucast (2 ^ k :: u64) :: u32) = 2 ^ k" by (intro bit_word_eqI) (auto simp: bit_simps)
      then show thesis using True r k4 by (intro power [of k]) simp_all
    next
      case False
      then have "(ucast (2 ^ k :: u64) :: u32) = 0" by (intro bit_word_eqI) (auto simp: bit_simps)
      moreover have "(2 :: nat) ^ 32 \<le> 2 ^ k" using False by (intro power_increasing) simp_all
      then have "2 ^ 31 < unat ?sz" using k(4) by (simp only: unat_ucast_64_32) simp
      then have "2 ^ 31 < unat sz" by (simp split: if_splits)
      ultimately show thesis using r by (intro zero) simp_all
    qed
  qed
qed

lemma and_pow2_less: "k < 32 \<Longrightarrow> unat (x AND (2 ^ k - 1) :: u32) < 2 ^ k"
  by (simp add: unat_take_bit flip: mask_eq_exp_minus_1 take_bit_eq_mask)

section \<open>The invariant and the abstract map\<close>

text \<open>The entry behind a pointer as a pair, and the map as the association list of its entries in the order of insertion.\<close>

definition entry_pair :: "'v hmap_t \<Rightarrow> entry_ptr \<Rightarrow> string \<times> 'v" where
  "entry_pair m p = (the (e_key (the (entries m p))), e_value (the (entries m p)))"

definition hmap_alist :: "'v hmap_t \<Rightarrow> (string \<times> 'v) list" where
  "hmap_alist m = map (entry_pair m) (entry_list m)"

definition in_bucket :: "'v hmap_t \<Rightarrow> nat \<Rightarrow> entry_ptr \<Rightarrow> bool" where
  "in_bucket m i p \<longleftrightarrow> bucket m (Some (fst (entry_pair m p))) = i"

definition size_ok :: "'v hmap_t \<Rightarrow> bool" where
  "size_ok m \<longleftrightarrow> (\<exists>k. 4 \<le> k \<and> k < 32 \<and> hsize m = 2 ^ k) \<and> length (hash m) = unat (hsize m)"

definition entries_ok :: "'v hmap_t \<Rightarrow> bool" where
  "entries_ok m \<longleftrightarrow>
     distinct (entry_list m) \<and> set (entry_list m) = dom (entries m) \<and> (\<forall>p \<in> dom (entries m). p < next_entry m)
     \<and> (\<forall>p e. entries m p = Some e \<longrightarrow> e_key e \<noteq> None) \<and> distinct (map fst (hmap_alist m))
     \<and> hn m = of_nat (length (entry_list m))"

definition buckets_ok :: "'v hmap_t \<Rightarrow> bool" where
  "buckets_ok m \<longleftrightarrow> (\<forall>i < length (hash m). distinct (hash m ! i) \<and> set (hash m ! i) = {p \<in> set (entry_list m). in_bucket m i p})"

definition hmap_ok :: "'v hmap_t \<Rightarrow> bool" where
  "hmap_ok m \<longleftrightarrow> size_ok m \<and> entries_ok m \<and> buckets_ok m"

lemma bucket_less: "size_ok m \<Longrightarrow> bucket m key < length (hash m)"
  using and_pow2_less by (auto simp: size_ok_def bucket_def)

lemma entry_pair_key:
  assumes "entries_ok m" "p \<in> set (entry_list m)"
  obtains e where "entries m p = Some e" "e_key e = Some (fst (entry_pair m p))" "e_value e = snd (entry_pair m p)"
proof -
  from assms obtain e where e: "entries m p = Some e" by (auto simp: entries_ok_def)
  moreover from this assms(1) obtain k where "e_key e = Some k" unfolding entries_ok_def by blast
  ultimately show thesis by (intro that [of e]) (simp_all add: entry_pair_def)
qed

lemma bucket_find_spec:
  assumes "entries_ok m" "set ps \<subseteq> set (entry_list m)"
  shows "bucket_find m ps key = Some (find (\<lambda>p. fst (entry_pair m p) = key) ps)"
  using assms(2)
proof (induction ps)
  case (Cons p ps)
  then obtain e where "entries m p = Some e" "e_key e = Some (fst (entry_pair m p))"
    using assms(1) by (auto elim: entry_pair_key)
  then show ?case using Cons by simp
qed simp

lemma hmap_find_spec:
  assumes "hmap_ok m"
  obtains (none) "hmap_find m key = Some None" "key \<notin> fst ` set (hmap_alist m)"
  | (found) p where "hmap_find m key = Some (Some p)" "p \<in> set (entry_list m)" "fst (entry_pair m p) = key"
proof -
  let ?b = "bucket m (Some key)" and ?P = "\<lambda>p. fst (entry_pair m p) = key"
  have ok: "size_ok m" "entries_ok m" "buckets_ok m" using assms by (auto simp: hmap_ok_def)
  then have b: "?b < length (hash m)" by (simp add: bucket_less)
  then have set: "set (hash m ! ?b) = {p \<in> set (entry_list m). in_bucket m ?b p}" using ok(3) by (simp add: buckets_ok_def)
  then have eq: "hmap_find m key = Some (find ?P (hash m ! ?b))"
    using b bucket_find_spec [OF ok(2), of "hash m ! ?b"] by (simp add: hmap_find_def subset_iff)
  show thesis
  proof (cases "find ?P (hash m ! ?b)")
    case None
    then have "\<forall>p \<in> set (entry_list m). fst (entry_pair m p) \<noteq> key"
      using set by (auto simp: find_None_iff in_bucket_def)
    then show thesis using None eq by (intro none) (auto simp: hmap_alist_def)
  next
    case (Some p)
    then show thesis using set eq by (intro found [of p]) (auto simp: find_Some_iff dest: nth_mem)
  qed
qed

lemma hmap_search_map_of:
  assumes "hmap_ok m"
  shows "hmap_search m key = Some (map_of (hmap_alist m) key)"
  using assms
proof (rule hmap_find_spec [of _ key])
  assume "hmap_find m key = Some None" "key \<notin> fst ` set (hmap_alist m)"
  then show ?thesis by (simp add: hmap_search_def map_of_eq_None_iff [THEN iffD2])
next
  fix p assume p: "hmap_find m key = Some (Some p)" "p \<in> set (entry_list m)" "fst (entry_pair m p) = key"
  have ok: "entries_ok m" using assms by (simp add: hmap_ok_def)
  obtain e where e: "entries m p = Some e" "e_value e = snd (entry_pair m p)" using ok p(2) by (rule entry_pair_key)
  have "(key, snd (entry_pair m p)) \<in> set (hmap_alist m)" using p(2,3) by (force simp: hmap_alist_def)
  then have "map_of (hmap_alist m) key = Some (snd (entry_pair m p))"
    using ok by (intro map_of_is_SomeI) (auto simp: entries_ok_def)
  then show ?thesis using p(1) e by (simp add: hmap_search_def)
qed

section \<open>Resizing\<close>

lemma pair_simps [simp]:
  "entry_pair (m\<lparr>hash := h\<rparr>) = entry_pair m" "entry_pair (m\<lparr>hsize := s\<rparr>) = entry_pair m"
  "entry_pair (m\<lparr>alloc_no := a\<rparr>) = entry_pair m" "bucket (m\<lparr>hash := h\<rparr>) = bucket m" "bucket (m\<lparr>alloc_no := a\<rparr>) = bucket m"
  by (simp_all add: fun_eq_iff entry_pair_def bucket_def)

lemma content_simps [simp]:
  "hmap_alist (m\<lparr>hash := h\<rparr>) = hmap_alist m" "hmap_alist (m\<lparr>hsize := s\<rparr>) = hmap_alist m"
  "hmap_alist (m\<lparr>alloc_no := a\<rparr>) = hmap_alist m"
  "in_bucket (m\<lparr>hash := h\<rparr>) = in_bucket m" "in_bucket (m\<lparr>alloc_no := a\<rparr>) = in_bucket m"
  by (simp_all add: fun_eq_iff hmap_alist_def in_bucket_def)

lemma ok_simps [simp]:
  "entries_ok (m\<lparr>hash := h\<rparr>) = entries_ok m" "entries_ok (m\<lparr>hsize := s\<rparr>) = entries_ok m"
  "entries_ok (m\<lparr>alloc_no := a\<rparr>) = entries_ok m" "buckets_ok (m\<lparr>alloc_no := a\<rparr>) = buckets_ok m"
  "size_ok (m\<lparr>alloc_no := a\<rparr>) = size_ok m"
  by (simp_all add: entries_ok_def buckets_ok_def size_ok_def)

lemma hmap_ok_alloc_no [simp]: "hmap_ok (m\<lparr>alloc_no := a\<rparr>) = hmap_ok m"
  by (simp add: hmap_ok_def)

lemma hlist_add_eq:
  "size_ok m \<Longrightarrow> hlist_add m p (Some k)
    = Some (m\<lparr>hash := (hash m)[bucket m (Some k) := p # hash m ! bucket m (Some k)]\<rparr>)"
  by (simp add: hlist_add_def bucket_less)

lemma rehash_loop_eq:
  assumes "size_ok m" "entries_ok m" "set ps \<subseteq> set (entry_list m)"
  shows "rehash_loop m ps = Some (m\<lparr>hash := map (\<lambda>i. rev (filter (in_bucket m i) ps) @ hash m ! i) [0..<length (hash m)]\<rparr>)"
  using assms
proof (induction ps arbitrary: m)
  case Nil
  then show ?case by (simp add: map_nth)
next
  case (Cons p ps)
  let ?b = "bucket m (Some (fst (entry_pair m p)))"
  let ?m = "m\<lparr>hash := (hash m)[?b := p # hash m ! ?b]\<rparr>"
  obtain e where e: "entries m p = Some e" "e_key e = Some (fst (entry_pair m p))"
    using Cons.prems(2,3) by (auto elim: entry_pair_key)
  have "size_ok ?m" using Cons.prems(1) by (simp add: size_ok_def)
  then have "rehash_loop ?m ps = Some (?m\<lparr>hash := map (\<lambda>i. rev (filter (in_bucket ?m i) ps) @ hash ?m ! i) [0..<length (hash ?m)]\<rparr>)"
    using Cons by simp
  moreover have "map (\<lambda>i. rev (filter (in_bucket ?m i) ps) @ hash ?m ! i) [0..<length (hash ?m)]
      = map (\<lambda>i. rev (filter (in_bucket m i) (p # ps)) @ hash m ! i) [0..<length (hash m)]"
    by (auto simp: nth_list_update in_bucket_def)
  ultimately show ?case using e hlist_add_eq [OF Cons.prems(1)] by simp
qed

lemma table_bytes_nonzero:
  assumes "k < 32"
  shows "(8 :: u64) * ucast (2 ^ k :: u32) \<noteq> 0"
proof -
  have "(8 :: nat) * 2 ^ k < 2 ^ 64" using assms power_strict_increasing [of k 32 "2 :: nat"] by simp
  then have "unat (of_nat (8 * 2 ^ k) :: u64) = 8 * 2 ^ k" by (rule unat_of_nat_64)
  then have "(of_nat (8 * 2 ^ k) :: u64) \<noteq> 0" by auto
  moreover have "(ucast (2 ^ k :: u32) :: u64) = of_nat (2 ^ k)" using assms by (simp add: word_unat_eq_iff)
  ultimately show ?thesis by simp
qed

lemma hmap_resize_spec:
  assumes "hmap_ok m"
  obtains m' where "hmap_resize m sz = Some m'" "hmap_ok m'" "hmap_alist m' = hmap_alist m" "alloc_ok m' = alloc_ok m"
proof -
  let ?a = "m\<lparr>alloc_no := alloc_no m + 1\<rparr>"
  show thesis
  proof (rule round_size_spec [of sz])
    assume "round_size sz = Some 0"
    then show thesis using assms by (intro that [of ?a]) (simp_all add: hmap_resize_def hmalloc_def)
  next
    fix k assume k: "round_size sz = Some (2 ^ k)" "4 \<le> k" "k < 32"
    let ?m = "?a\<lparr>hash := replicate (2 ^ k) [], hsize := 2 ^ k\<rparr>"
    let ?h = "map (\<lambda>i. rev (filter (in_bucket ?m i) (entry_list m)) @ hash ?m ! i) [0..<length (hash ?m)]"
    have ok: "size_ok ?m" "entries_ok ?m" using k assms by (auto simp: size_ok_def hmap_ok_def)
    have r: "rehash_loop ?m (entry_list m) = Some (?m\<lparr>hash := ?h\<rparr>)"
      using ok by (rule rehash_loop_eq) simp
    have "buckets_ok (?m\<lparr>hash := ?h\<rparr>)"
      using ok(2) by (auto simp: buckets_ok_def entries_ok_def in_bucket_def bucket_def)
    moreover have "size_ok (?m\<lparr>hash := ?h\<rparr>)" using k by (auto simp: size_ok_def)
    ultimately have "hmap_ok (?m\<lparr>hash := ?h\<rparr>)" using ok(2) by (simp add: hmap_ok_def)
    moreover have "(8 :: u64) * ucast (2 ^ k :: u32) \<noteq> 0" using k(3) by (rule table_bytes_nonzero)
    ultimately have "\<exists>m'. hmap_resize m sz = Some m' \<and> hmap_ok m' \<and> hmap_alist m' = hmap_alist m \<and> alloc_ok m' = alloc_ok m"
      using k r assms by (cases "alloc_ok m (alloc_no m)") (simp_all add: hmap_resize_def hmalloc_def)
    then show thesis using that by blast
  qed
qed

section \<open>The operations implement an association list\<close>

lemma alist_update_new: "k \<notin> fst ` set al \<Longrightarrow> AList.update k v al = al @ [(k, v)]"
  by (induction al) auto

lemma alist_update_at:
  "\<lbrakk>distinct (map fst (map f ps)); p \<in> set ps; fst (f p) = k\<rbrakk> \<Longrightarrow> AList.update k v (map f ps) = map (f(p := (k, v))) ps"
  by (induction ps) (auto simp: fun_upd_def image_iff intro!: map_cong)

lemma alist_delete_at:
  "\<lbrakk>distinct (map fst (map f ps)); p \<in> set ps; fst (f p) = k\<rbrakk> \<Longrightarrow> AList.delete k (map f ps) = map f (remove1 p ps)"
proof (induction ps)
  case (Cons q ps)
  then show ?case
    by (cases "p = q") (auto simp: AList.delete_eq image_iff filter_id_conv intro!: filter_True)
qed simp

lemma hmap_set_value:
  assumes ok: "hmap_ok m" and p: "p \<in> set (entry_list m)" "fst (entry_pair m p) = key" and e: "entries m p = Some e"
  shows "hmap_ok (m\<lparr>entries := (entries m)(p \<mapsto> e\<lparr>e_value := v\<rparr>)\<rparr>)"
    "hmap_alist (m\<lparr>entries := (entries m)(p \<mapsto> e\<lparr>e_value := v\<rparr>)\<rparr>) = AList.update key v (hmap_alist m)"
proof -
  let ?m = "m\<lparr>entries := (entries m)(p \<mapsto> e\<lparr>e_value := v\<rparr>)\<rparr>"
  have k: "e_key e = Some key"
    using ok p e by (auto simp: hmap_ok_def elim: entry_pair_key)
  have pair: "entry_pair ?m = (entry_pair m)(p := (key, v))" using k by (auto simp: entry_pair_def fun_eq_iff)
  then have keys: "fst \<circ> entry_pair ?m = fst \<circ> entry_pair m" using p(2) by (auto simp: fun_eq_iff)
  have "AList.update key v (map (entry_pair m) (entry_list m)) = map ((entry_pair m)(p := (key, v))) (entry_list m)"
    using ok p by (intro alist_update_at) (auto simp: hmap_ok_def entries_ok_def hmap_alist_def)
  then show "hmap_alist ?m = AList.update key v (hmap_alist m)" by (simp add: hmap_alist_def pair)
  have "in_bucket ?m = in_bucket m"
    using fun_cong [OF keys] by (simp add: in_bucket_def bucket_def fun_eq_iff)
  then have "buckets_ok ?m" using ok by (simp add: hmap_ok_def buckets_ok_def)
  moreover have "distinct (map fst (hmap_alist ?m))"
    using ok keys by (simp add: hmap_ok_def entries_ok_def hmap_alist_def)
  then have "entries_ok ?m" using ok k e by (auto simp: hmap_ok_def entries_ok_def)
  ultimately show "hmap_ok ?m" using ok by (simp add: hmap_ok_def size_ok_def)
qed

lemma hmap_new_entry_spec:
  assumes ok: "hmap_ok m" and new: "key \<notin> fst ` set (hmap_alist m)" and alloc: "\<forall>i. alloc_ok m i" and len: "length key < 2 ^ 63"
  obtains m' where "hmap_new_entry m key v = Some m'" "hmap_ok m'" "hmap_alist m' = hmap_alist m @ [(key, v)]" "alloc_ok m' = alloc_ok m"
proof -
  let ?p = "next_entry m" and ?b = "bucket m (Some key)" and ?e = "\<lparr>e_key = Some key, e_value = v\<rparr>"
  define m' where "m' = m\<lparr>alloc_no := alloc_no m + 2, hash := (hash m)[?b := ?p # hash m ! ?b], entries := (entries m)(?p \<mapsto> ?e),
    next_entry := ?p + 1, entry_list := entry_list m @ [?p], hn := hn m + 1\<rparr>"
  have m': "hash m' = (hash m)[?b := ?p # hash m ! ?b]" "hsize m' = hsize m" "entries m' = (entries m)(?p \<mapsto> ?e)"
    "next_entry m' = ?p + 1" "entry_list m' = entry_list m @ [?p]" "hn m' = hn m + 1" "alloc_ok m' = alloc_ok m"
    by (simp_all add: m'_def)
  have parts: "size_ok m" "entries_ok m" "buckets_ok m" using ok by (auto simp: hmap_ok_def)
  have fresh: "?p \<notin> set (entry_list m)" "entries m ?p = None" using parts(2) by (auto simp: entries_ok_def)
  have "unat (of_nat (length key + 1) :: u64) = length key + 1" using len by (intro unat_of_nat_64) simp
  then have "(of_nat (length key + 1) :: u64) \<noteq> 0" by (metis Suc_eq_plus1 nat.distinct(1) unat_0)
  then have "(of_nat (length key) :: u64) + 1 \<noteq> 0" by (simp add: add.commute)
  then have eq: "hmap_new_entry m key v = Some m'"
    using alloc parts(1) by (simp add: hmap_new_entry_def hmalloc_def Let_def hlist_add_eq m'_def)
  have pair: "entry_pair m' q = (if q = ?p then (key, v) else entry_pair m q)" for q by (simp add: entry_pair_def m')
  then have al: "hmap_alist m' = hmap_alist m @ [(key, v)]" using fresh by (auto simp: hmap_alist_def m')
  have bucket: "in_bucket m' i q \<longleftrightarrow> (if q = ?p then i = ?b else in_bucket m i q)" for i q
    by (auto simp: in_bucket_def pair bucket_def m')
  have "distinct (hash m' ! i) \<and> set (hash m' ! i) = {p \<in> set (entry_list m'). in_bucket m' i p}" if i: "i < length (hash m)" for i
  proof -
    have "distinct (hash m ! i)" "set (hash m ! i) = {p \<in> set (entry_list m). in_bucket m i p}"
      using parts(3) i by (auto simp: buckets_ok_def)
    then show ?thesis using fresh(1) i by (cases "i = ?b") (auto simp: m' bucket)
  qed
  then have "buckets_ok m'" by (simp add: buckets_ok_def m')
  moreover have "entries_ok m'" using parts(2) new fresh al by (auto simp: entries_ok_def m' less_Suc_eq)
  ultimately have "hmap_ok m'" using parts(1) by (simp add: hmap_ok_def size_ok_def m')
  then show thesis using eq al m' by (intro that [of m']) simp_all
qed

lemma hmap_add_spec:
  assumes ok: "hmap_ok m" and alloc: "\<forall>i. alloc_ok m i" and len: "length key < 2 ^ 63"
  obtains m' where "hmap_add m key v = Some m'" "hmap_ok m'" "hmap_alist m' = AList.update key v (hmap_alist m)" "alloc_ok m' = alloc_ok m"
  using ok
proof (rule hmap_find_spec [of _ key])
  assume f: "hmap_find m key = Some None" and new: "key \<notin> fst ` set (hmap_alist m)"
  obtain m1 where m1: "(if hn m > drop_bit 1 (hsize m) then hmap_resize m (push_bit 1 (hsize m)) else Some m) = Some m1" "hmap_ok m1"
    "hmap_alist m1 = hmap_alist m" "alloc_ok m1 = alloc_ok m"
    using ok hmap_resize_spec [OF ok, of "push_bit 1 (hsize m)"] by (cases "hn m > drop_bit 1 (hsize m)") auto
  obtain m' where "hmap_new_entry m1 key v = Some m'" "hmap_ok m'" "hmap_alist m' = hmap_alist m1 @ [(key, v)]" "alloc_ok m' = alloc_ok m1"
    using m1 new alloc len by (rule_tac hmap_new_entry_spec [of m1 key v]) auto
  then show thesis using f m1 new by (intro that [of m']) (simp_all add: hmap_add_def alist_update_new)
next
  fix p assume p: "hmap_find m key = Some (Some p)" "p \<in> set (entry_list m)" "fst (entry_pair m p) = key"
  then obtain e where e: "entries m p = Some e" using ok by (auto simp: hmap_ok_def elim: entry_pair_key)
  let ?m = "m\<lparr>entries := (entries m)(p \<mapsto> e\<lparr>e_value := v\<rparr>)\<rparr>"
  show thesis using hmap_set_value [OF ok p(2,3) e] p(1) e by (intro that [of ?m]) (simp_all add: hmap_add_def)
qed

lemma hmap_del_entry_spec:
  assumes ok: "hmap_ok m" and p: "p \<in> set (entry_list m)"
  shows "hmap_ok (hmap_del_entry m p)" "hmap_alist (hmap_del_entry m p) = AList.delete (fst (entry_pair m p)) (hmap_alist m)"
    "entry_list (hmap_del_entry m p) = remove1 p (entry_list m)" "alloc_ok (hmap_del_entry m p) = alloc_ok m"
    "\<And>q. q \<noteq> p \<Longrightarrow> entries (hmap_del_entry m p) q = entries m q"
proof -
  define m' where "m' = hmap_del_entry m p"
  have m': "hash m' = map (remove1 p) (hash m)" "hsize m' = hsize m" "entries m' = (entries m)(p := None)"
    "next_entry m' = next_entry m" "entry_list m' = remove1 p (entry_list m)" "hn m' = hn m - 1" "alloc_ok m' = alloc_ok m"
    by (simp_all add: m'_def hmap_del_entry_def)
  have parts: "size_ok m" "entries_ok m" "buckets_ok m" using ok by (auto simp: hmap_ok_def)
  have dist: "distinct (entry_list m)" "distinct (map fst (map (entry_pair m) (entry_list m)))"
    using parts(2) by (auto simp: entries_ok_def hmap_alist_def)
  have pair: "entry_pair m' q = entry_pair m q" if "q \<noteq> p" for q using that by (simp add: entry_pair_def m')
  have same: "map (entry_pair m') (remove1 p (entry_list m)) = map (entry_pair m) (remove1 p (entry_list m))"
    using dist(1) pair by (intro map_cong) auto
  have al: "hmap_alist m' = AList.delete (fst (entry_pair m p)) (hmap_alist m)"
    using alist_delete_at [OF dist(2) p refl] same by (simp add: hmap_alist_def m')
  have bucket: "in_bucket m' i q \<longleftrightarrow> in_bucket m i q" if "q \<noteq> p" for i q
    using pair [OF that] by (simp add: in_bucket_def bucket_def m')
  have "distinct (hash m' ! i) \<and> set (hash m' ! i) = {p \<in> set (entry_list m'). in_bucket m' i p}" if i: "i < length (hash m)" for i
  proof -
    have "distinct (hash m ! i)" "set (hash m ! i) = {p \<in> set (entry_list m). in_bucket m i p}"
      using parts(3) i by (auto simp: buckets_ok_def)
    then show ?thesis using i dist(1) bucket by (auto simp: m')
  qed
  then have "buckets_ok m'" by (simp add: buckets_ok_def m')
  moreover have "distinct (map fst (hmap_alist m'))"
    using parts(2) unfolding al by (intro distinct_delete) (simp add: entries_ok_def)
  moreover have "(of_nat (length (remove1 p (entry_list m))) :: u32) = of_nat (length (entry_list m)) - 1"
    using p by (cases "length (entry_list m)") (auto simp: length_remove1)
  ultimately have "hmap_ok m'"
    using parts dist(1) by (auto simp: hmap_ok_def size_ok_def entries_ok_def m')
  then show "hmap_ok (hmap_del_entry m p)" "hmap_alist (hmap_del_entry m p) = AList.delete (fst (entry_pair m p)) (hmap_alist m)"
    "entry_list (hmap_del_entry m p) = remove1 p (entry_list m)" "alloc_ok (hmap_del_entry m p) = alloc_ok m"
    "\<And>q. q \<noteq> p \<Longrightarrow> entries (hmap_del_entry m p) q = entries m q"
    using al m' by (simp_all add: m'_def [symmetric])
qed

lemma hmap_resize_if:
  assumes "hmap_ok m"
  obtains m' where "(if c then hmap_resize m sz else Some m) = Some m'" "hmap_ok m'" "hmap_alist m' = hmap_alist m" "alloc_ok m' = alloc_ok m"
proof (cases c)
  case True
  obtain m' where "hmap_resize m sz = Some m'" "hmap_ok m'" "hmap_alist m' = hmap_alist m" "alloc_ok m' = alloc_ok m"
    using assms by (rule hmap_resize_spec)
  then show thesis using True by (intro that [of m']) simp_all
next
  case False
  then show thesis using assms that [of m] by simp
qed

lemma hmap_remove_spec:
  assumes ok: "hmap_ok m"
  obtains m' where "hmap_remove m key = Some m'" "hmap_ok m'" "hmap_alist m' = AList.delete key (hmap_alist m)" "alloc_ok m' = alloc_ok m"
proof -
  obtain m1 where m1: "(if hsize m > 16 \<and> hn m < drop_bit 1 (hsize m) then hmap_resize m (drop_bit 1 (hsize m)) else Some m) = Some m1"
    "hmap_ok m1" "hmap_alist m1 = hmap_alist m" "alloc_ok m1 = alloc_ok m"
    using ok by (rule hmap_resize_if)
  have eq: "hmap_remove m key = do { found \<leftarrow> hmap_find m1 key;
      case found of Some pos \<Rightarrow> Some (hmap_del_entry m1 pos) | None \<Rightarrow> Some m1 }"
    unfolding hmap_remove_def m1(1) by simp
  show thesis
    using m1(2)
  proof (rule hmap_find_spec [of _ key])
    assume "hmap_find m1 key = Some None" "key \<notin> fst ` set (hmap_alist m1)"
    then show thesis using eq m1(2-4) by (intro that [of m1]) simp_all
  next
    fix p assume p: "hmap_find m1 key = Some (Some p)" "p \<in> set (entry_list m1)" "fst (entry_pair m1 p) = key"
    then show thesis
      using eq m1(3,4) hmap_del_entry_spec(1,2,4) [OF m1(2) p(2)] by (intro that [of "hmap_del_entry m1 p"]) simp_all
  qed
qed

text \<open>Clearing gives the callback every entry in order.\<close>

lemma hmap_clear_loop_spec:
  assumes "hmap_ok m" "entry_list m = ps"
  obtains m' es where "hmap_clear_loop m ps = Some (m', es)" "hmap_ok m'" "hmap_alist m' = []"
    "map (\<lambda>e. (the (e_key e), e_value e)) es = hmap_alist m"
  using assms
proof (induction ps arbitrary: m thesis)
  case Nil
  then show ?case by (simp add: hmap_alist_def)
next
  case (Cons p ps)
  let ?m = "hmap_del_entry m p"
  have p: "p \<in> set (entry_list m)" "distinct (p # ps)" using Cons.prems(2,3) by (auto simp: hmap_ok_def entries_ok_def)
  obtain e where e: "entries m p = Some e" using Cons.prems(2) p(1) by (auto simp: hmap_ok_def elim: entry_pair_key)
  note del = hmap_del_entry_spec [OF Cons.prems(2) p(1)]
  have list: "entry_list ?m = ps" using del(3) Cons.prems(3) by simp
  obtain m' es where r: "hmap_clear_loop ?m ps = Some (m', es)" "hmap_ok m'" "hmap_alist m' = []"
    "map (\<lambda>e. (the (e_key e), e_value e)) es = hmap_alist ?m"
    by (rule Cons.IH [OF _ del(1) list])
  have "entry_pair ?m q = entry_pair m q" if "q \<in> set ps" for q
    using del(5) [of q] p(2) that by (cases "q = p") (auto simp: entry_pair_def)
  then have "hmap_alist m = entry_pair m p # hmap_alist ?m"
    using Cons.prems(3) list by (simp add: hmap_alist_def)
  then show ?case using r e by (intro Cons.prems(1) [of m' "e # es"]) (simp_all add: entry_pair_def)
qed

lemma hmap_alloc_spec:
  assumes "\<forall>i. ok i" "unat sz \<le> 2 ^ 31"
  obtains m where "hmap_alloc ok sz = Some (Some m)" "hmap_ok m" "hmap_alist m = []" "alloc_ok m = ok"
proof (rule round_size_spec [of sz])
  fix k assume k: "round_size sz = Some (2 ^ k)" "4 \<le> k" "k < 32"
  let ?m = "\<lparr>hash = replicate (2 ^ k) [], entry_list = [], hsize = 2 ^ k, hn = 0, entries = Map.empty, next_entry = 0, alloc_ok = ok, alloc_no = 2\<rparr>"
  have "hmap_ok ?m"
    using k by (auto simp: hmap_ok_def size_ok_def entries_ok_def buckets_ok_def hmap_alist_def)
  then show thesis
    using k assms(1) table_bytes_nonzero [OF k(3)]
    by (intro that [of ?m]) (simp_all add: hmap_alloc_def hmalloc_def hmap_alist_def Let_def)
qed (use assms in simp)

section \<open>Sorting\<close>

lemma str_cmp_le:
  assumes "0 \<notin> set s" "0 \<notin> set t"
  shows "str_cmp s t \<le> 0 \<longleftrightarrow> s \<le> t"
proof -
  have "s \<le> t \<longleftrightarrow> s = t \<or> ord_class.lexordp s t" by (auto simp: list_le_def list_less_def lexordp_conv_lexord)
  then show ?thesis using str_cmp_0 [OF assms] str_cmp_less [OF assms] by (auto simp: order_le_less [of "str_cmp s t"])
qed

interpretation hmap_order: comparison "hmap_compare m" "key_bytes m" "{p. 0 \<notin> set (key_bytes m p)}" for m
  unfolding comparison_def hmap_compare_def using str_cmp_le by blast

definition no_nul :: "string \<Rightarrow> bool" where
  "no_nul s \<longleftrightarrow> CHR 0x00 \<notin> set s"

lemma map_insort_key: "\<lbrakk>h x = g (f x); \<forall>y \<in> set xs. h y = g (f y)\<rbrakk> \<Longrightarrow> map f (insort_key h x xs) = insort_key g (f x) (map f xs)"
  by (induction xs) auto

lemma map_sort_key: "\<forall>x \<in> set xs. h x = g (f x) \<Longrightarrow> map f (sort_key h xs) = sort_key g (map f xs)"
proof (induction xs)
  case (Cons x xs)
  then show ?case using map_insort_key [of h x g f "sort_key h xs"] by simp
qed simp

lemma hmap_sort_spec:
  assumes ok: "hmap_ok m" and keys: "\<forall>k \<in> fst ` set (hmap_alist m). no_nul k"
  obtains m' where "hmap_sort m = Some m'" "hmap_ok m'" "hmap_alist m' = sort_key (\<lambda>(k, v). bytes_of_string k) (hmap_alist m)"
    "alloc_ok m' = alloc_ok m"
proof -
  let ?l = "sort_key (key_bytes m) (entry_list m)"
  let ?m = "m\<lparr>entry_list := ?l\<rparr>"
  have bytes: "key_bytes m p = bytes_of_string (fst (entry_pair m p))" if "p \<in> set (entry_list m)" for p
    using ok that by (auto simp: hmap_ok_def key_bytes_def elim: entry_pair_key)
  have "set (entry_list m) \<subseteq> {p. 0 \<notin> set (key_bytes m p)}"
    using keys by (auto simp: bytes hmap_alist_def no_nul_def bytes_of_string_def)
  then have "lsort (hmap_compare m) (entry_list m) = Some ?l" by (rule hmap_order.lsort_sort_key)
  moreover have "list_all (\<lambda>p. \<exists>e \<in> set_option (entries m p). e_key e \<noteq> None) (entry_list m)"
    using ok by (auto simp: list_all_iff hmap_ok_def elim!: entry_pair_key)
  ultimately have eq: "hmap_sort m = Some ?m" by (simp add: hmap_sort_def)
  have pair: "entry_pair ?m = entry_pair m" by (simp add: entry_pair_def fun_eq_iff)
  have al: "hmap_alist ?m = sort_key (\<lambda>(k, v). bytes_of_string k) (hmap_alist m)"
    using map_sort_key [of "entry_list m" "key_bytes m" "\<lambda>(k, v). bytes_of_string k" "entry_pair m"] bytes(1)
    by (simp add: hmap_alist_def pair split_beta)
  have "distinct (map fst (hmap_alist ?m))" using ok by (auto simp: al hmap_ok_def entries_ok_def distinct_map)
  then have "entries_ok ?m" using ok by (simp add: hmap_ok_def entries_ok_def)
  moreover have "in_bucket ?m = in_bucket m" by (simp add: in_bucket_def bucket_def pair fun_eq_iff)
  then have "buckets_ok ?m" using ok by (simp add: hmap_ok_def buckets_ok_def)
  ultimately have "hmap_ok ?m" using ok by (simp add: hmap_ok_def size_ok_def)
  then show thesis using eq al by (intro that [of ?m]) simp_all
qed

section \<open>Sequences of operations\<close>

datatype 'v hmap_op = Hmap_Add string 'v | Hmap_Remove string | Hmap_Sort

fun hmap_step :: "'v hmap_op \<Rightarrow> 'v hmap_t \<Rightarrow> 'v hmap_t option" where
  "hmap_step (Hmap_Add k v) m = hmap_add m k v"
| "hmap_step (Hmap_Remove k) m = hmap_remove m k"
| "hmap_step Hmap_Sort m = hmap_sort m"

fun hmap_run :: "'v hmap_op list \<Rightarrow> 'v hmap_t \<Rightarrow> 'v hmap_t option" where
  "hmap_run [] m = Some m"
| "hmap_run (op # ops) m = do { m \<leftarrow> hmap_step op m; hmap_run ops m }"

fun alist_step :: "'v hmap_op \<Rightarrow> (string \<times> 'v) list \<Rightarrow> (string \<times> 'v) list" where
  "alist_step (Hmap_Add k v) al = AList.update k v al"
| "alist_step (Hmap_Remove k) al = AList.delete k al"
| "alist_step Hmap_Sort al = sort_key (\<lambda>(k, v). bytes_of_string k) al"

definition key_ok :: "string \<Rightarrow> bool" where
  "key_ok k \<longleftrightarrow> no_nul k \<and> length k < 2 ^ 63"

fun op_ok :: "'v hmap_op \<Rightarrow> bool" where
  "op_ok (Hmap_Add k v) = key_ok k"
| "op_ok (Hmap_Remove k) = True"
| "op_ok Hmap_Sort = True"

definition hmap_valid :: "'v hmap_t \<Rightarrow> bool" where
  "hmap_valid m \<longleftrightarrow> hmap_ok m \<and> (\<forall>i. alloc_ok m i) \<and> (\<forall>k \<in> fst ` set (hmap_alist m). no_nul k)"

lemma hmap_step_refines:
  assumes m: "hmap_valid m" and "op_ok op"
  obtains m' where "hmap_step op m = Some m'" "hmap_valid m'" "hmap_alist m' = alist_step op (hmap_alist m)"
proof -
  from m have ok: "hmap_ok m" and alloc: "\<forall>i. alloc_ok m i" and keys: "\<forall>k \<in> fst ` set (hmap_alist m). no_nul k"
    by (auto simp: hmap_valid_def)
  obtain m' where "hmap_step op m = Some m'" "hmap_ok m'" "hmap_alist m' = alist_step op (hmap_alist m)" "alloc_ok m' = alloc_ok m"
  proof (cases op)
    case (Hmap_Add k v)
    then show thesis using assms(2) that by (auto simp: key_ok_def intro: hmap_add_spec [OF ok alloc, of k v])
  next
    case (Hmap_Remove k)
    then show thesis using that by (auto intro: hmap_remove_spec [OF ok, of k])
  next
    case Hmap_Sort
    then show thesis using that by (auto intro: hmap_sort_spec [OF ok keys])
  qed
  moreover have "\<forall>k \<in> fst ` set (alist_step op (hmap_alist m)). no_nul k"
    using keys assms(2) by (cases op) (auto simp: dom_update key_ok_def AList.delete_eq)
  ultimately show thesis using alloc by (intro that [of m']) (simp_all add: hmap_valid_def)
qed

lemma hmap_run_refines:
  assumes "hmap_valid m" "list_all op_ok ops"
  obtains m' where "hmap_run ops m = Some m'" "hmap_valid m'" "hmap_alist m' = fold alist_step ops (hmap_alist m)"
  using assms
proof (induction ops arbitrary: m thesis)
  case (Cons op ops)
  obtain m1 where m1: "hmap_step op m = Some m1" "hmap_valid m1" "hmap_alist m1 = alist_step op (hmap_alist m)"
    using Cons.prems(2,3) by (auto elim: hmap_step_refines)
  obtain m' where "hmap_run ops m1 = Some m'" "hmap_valid m'" "hmap_alist m' = fold alist_step ops (hmap_alist m1)"
    using m1(2) Cons.prems(3) by (auto elim: Cons.IH)
  then show ?case using m1 by (intro Cons.prems(1) [of m']) simp_all
qed simp

section \<open>Property\<close>

text \<open>C16: A hash map that starts empty and whose allocations succeed implements the association list: after any sequence of
  additions, removals and sorts no operation has faulted, the entries in order are those of the list, where an addition changes
  the value in place or appends and a sort is stable by the bytes of the key, and a search returns what the list maps the key to.\<close>

theorem hmap_implements_alist:
  fixes ops :: "'a hmap_op list"
  assumes "\<forall>i. ok i" "list_all op_ok ops"
  shows "\<exists>m m'. hmap_alloc ok 0 = Some (Some m) \<and> hmap_run ops m = Some m'
    \<and> hmap_alist m' = fold alist_step ops [] \<and> hmap_ok m'
    \<and> (\<forall>k. hmap_search m' k = Some (map_of (fold alist_step ops []) k))"
proof -
  obtain m :: "'a hmap_t" where m: "hmap_alloc ok 0 = Some (Some m)" "hmap_ok m" "hmap_alist m = []" "alloc_ok m = ok"
    using assms(1) by (rule hmap_alloc_spec [of _ 0]) simp
  then have "hmap_valid m" using assms(1) by (simp add: hmap_valid_def)
  then obtain m' where "hmap_run ops m = Some m'" "hmap_valid m'" "hmap_alist m' = fold alist_step ops []"
    using assms(2) m(3) by (metis hmap_run_refines)
  then show ?thesis using m(1) hmap_search_map_of [of m'] by (auto simp: hmap_valid_def)
qed

theorem hmap_implements_alist_witness:
  "\<exists>m m'. hmap_alloc (\<lambda>_. True) 0 = Some (Some m)
    \<and> hmap_run [Hmap_Add ''b'' 1, Hmap_Add ''a'' 2, Hmap_Add ''b'' (3 :: nat), Hmap_Sort] m = Some m'
    \<and> hmap_alist m' = [(''a'', 2), (''b'', 3)] \<and> hmap_search m' ''b'' = Some (Some 3)"
  using hmap_implements_alist [of "\<lambda>_. True" "[Hmap_Add ''b'' 1, Hmap_Add ''a'' 2, Hmap_Add ''b'' (3 :: nat), Hmap_Sort]"]
  by (auto simp: key_ok_def no_nul_def bytes_of_string_def)

end
