(* ===== verification/Thread.thy ===== *)
theory Thread
  imports Kernel_Prelude
begin

text \<open>
  Threads and the scheduler of \<^verbatim>\<open>core/thread.c\<close> and \<^verbatim>\<open>core/sched.c\<close>. The kernel runs on one processor
  and is not preemptive: \<^verbatim>\<open>arch/entry.S\<close> calls \<^verbatim>\<open>schedule\<close> only on the way back to user mode, so between
  two calls of \<^verbatim>\<open>schedule\<close> the code of one thread runs alone. \<^verbatim>\<open>schedule\<close> is modelled up to the point where
  the thread it switches to continues. What a thread continues with is its saved context: the code behind
  the \<^verbatim>\<open>switch_to\<close> of \<^verbatim>\<open>schedule\<close> or of \<^verbatim>\<open>schedule_to\<close>, or its entry point when it has not run yet.
\<close>

section \<open>Definitions\<close>

type_synonym thread_ptr = nat
type_synonym vmspace_ptr = nat

datatype task_status_t = TASK_STATUS_RUNNING | TASK_STATUS_READY | TASK_STATUS_SUSPEND | TASK_STATUS_EXIT

datatype resume_point = In_Entry | In_Schedule | In_Schedule_To

record thread_t =
  t_status :: task_status_t
  t_flags :: u64
  t_context :: resume_point
  t_vmspace :: vmspace_ptr
  t_kstack :: u64
  t_kernel_sp :: u64

record sched_t =
  threads :: "thread_ptr \<rightharpoonup> thread_t"
  ready :: "thread_ptr list"
  current :: thread_ptr
  active_mm :: vmspace_ptr
  next_thread :: thread_ptr

abbreviation (input) NEED_RESCHED :: u64 where "NEED_RESCHED \<equiv> 1"
abbreviation (input) THREAD_SIZE :: u64 where "THREAD_SIZE \<equiv> 8192"

definition update_thread :: "sched_t \<Rightarrow> thread_ptr \<Rightarrow> (thread_t \<Rightarrow> thread_t) \<Rightarrow> sched_t option" where
  "update_thread st t f = do {
     th \<leftarrow> threads st t;
     Some (st\<lparr>threads := (threads st)(t \<mapsto> f th)\<rparr>)
   }"

text \<open>A node that is on a list must be neither added nor initialised again.\<close>

definition scheduler_enqueue_task :: "sched_t \<Rightarrow> thread_ptr \<Rightarrow> sched_t option" where
  "scheduler_enqueue_task st t = do {
     assert_that (t \<notin> set (ready st));
     Some (st\<lparr>ready := ready st @ [t]\<rparr>)
   }"

definition scheduler_dequeue_task :: "sched_t \<Rightarrow> thread_ptr \<Rightarrow> sched_t" where
  "scheduler_dequeue_task st t = st\<lparr>ready := remove1 t (ready st)\<rparr>"

definition scheduler_next_ready_task :: "sched_t \<Rightarrow> thread_ptr option" where
  "scheduler_next_ready_task st = (case ready st of [] \<Rightarrow> None | t # _ \<Rightarrow> Some t)"

definition thread_need_sched :: "sched_t \<Rightarrow> thread_ptr \<Rightarrow> sched_t option" where
  "thread_need_sched st t = update_thread st t (\<lambda>th. th\<lparr>t_flags := t_flags th OR NEED_RESCHED\<rparr>)"

definition thread_clear_sched_flag :: "sched_t \<Rightarrow> thread_ptr \<Rightarrow> sched_t option" where
  "thread_clear_sched_flag st t = update_thread st t (\<lambda>th. th\<lparr>t_flags := t_flags th AND NOT NEED_RESCHED\<rparr>)"

definition thread_self_set_state :: "sched_t \<Rightarrow> task_status_t \<Rightarrow> sched_t option" where
  "thread_self_set_state st s = update_thread st (current st) (\<lambda>th. th\<lparr>t_status := s\<rparr>)"

text \<open>
  The end of both scheduling functions: the context of \<open>old\<close> is saved and the address space of the current thread made
  active. A thread that continues in \<^verbatim>\<open>schedule\<close> deletes \<open>old\<close> when it has exited.
\<close>

definition switch_to :: "sched_t \<Rightarrow> thread_ptr \<Rightarrow> resume_point \<Rightarrow> sched_t option" where
  "switch_to st old ctx = do {
     st \<leftarrow> update_thread st old (\<lambda>th. th\<lparr>t_context := ctx\<rparr>);
     th \<leftarrow> threads st (current st);
     prev \<leftarrow> threads st old;
     let st = st\<lparr>active_mm := t_vmspace th\<rparr>;
     Some (if t_context th = In_Schedule \<and> t_status prev = TASK_STATUS_EXIT then st\<lparr>threads := (threads st)(old := None)\<rparr> else st)
   }"

definition schedule_to :: "sched_t \<Rightarrow> thread_ptr \<Rightarrow> sched_t option" where
  "schedule_to st t = do {
     let old = current st;
     st \<leftarrow> update_thread st old (\<lambda>th. th\<lparr>t_status := TASK_STATUS_SUSPEND\<rparr>);
     assert_that (old \<notin> set (ready st));
     let st = st\<lparr>current := t\<rparr>;
     st \<leftarrow> update_thread st t (\<lambda>th. th\<lparr>t_status := TASK_STATUS_RUNNING\<rparr>);
     switch_to st old In_Schedule_To
   }"

definition schedule :: "sched_t \<Rightarrow> sched_t option" where
  "schedule st = do {
     let old = current st;
     st \<leftarrow> thread_clear_sched_flag st old;
     th \<leftarrow> threads st old;
     st \<leftarrow> (if t_status th = TASK_STATUS_SUSPEND \<or> t_status th = TASK_STATUS_EXIT
           then do { assert_that (old \<notin> set (ready st)); Some st }
           else scheduler_enqueue_task st old);
     t \<leftarrow> scheduler_next_ready_task st;
     let st = (scheduler_dequeue_task st t)\<lparr>current := t\<rparr>;
     st \<leftarrow> update_thread st t (\<lambda>th. th\<lparr>t_status := TASK_STATUS_RUNNING\<rparr>);
     switch_to st old In_Schedule
   }"

definition thread_resume :: "sched_t \<Rightarrow> thread_ptr \<Rightarrow> sched_t option" where
  "thread_resume st t = do {
     th \<leftarrow> threads st t;
     if t_status th = TASK_STATUS_SUSPEND
     then do {
       st \<leftarrow> update_thread st t (\<lambda>th. th\<lparr>t_status := TASK_STATUS_READY\<rparr>);
       scheduler_enqueue_task st t
     }
     else Some st
   }"

definition thread_suspend :: "sched_t \<Rightarrow> thread_ptr \<Rightarrow> sched_t option" where
  "thread_suspend st t = do {
     th \<leftarrow> threads st t;
     if t_status th = TASK_STATUS_READY
     then do {
       st \<leftarrow> update_thread st t (\<lambda>th. th\<lparr>t_status := TASK_STATUS_SUSPEND\<rparr>);
       Some (scheduler_dequeue_task st t)
     }
     else if t_status th = TASK_STATUS_RUNNING
     then do {
       st \<leftarrow> update_thread st t (\<lambda>th. th\<lparr>t_status := TASK_STATUS_SUSPEND\<rparr>);
       schedule st
     }
     else Some st
   }"

text \<open>The exiting thread does not come back from \<^verbatim>\<open>schedule\<close>, so the \<^verbatim>\<open>PANIC\<close> behind it is not reached.\<close>

definition thread_destroy :: "sched_t \<Rightarrow> thread_ptr \<Rightarrow> sched_t option" where
  "thread_destroy st t = do {
     st \<leftarrow> update_thread st t (\<lambda>th. th\<lparr>t_status := TASK_STATUS_EXIT\<rparr>);
     assert_that (t = current st);
     schedule st
   }"

definition sys_yield :: "sched_t \<Rightarrow> sched_t option" where
  "sys_yield st = thread_suspend st (current st)"

definition sys_thread_exit :: "sched_t \<Rightarrow> sched_t option" where
  "sys_thread_exit st = thread_destroy st (current st)"

text \<open>
  A new thread; its context is the entry point. The stack and the address space are what the allocators returned: the code does
  not test them, so a failed allocation would be written through.
\<close>

definition kthread_create :: "sched_t \<Rightarrow> u64 \<Rightarrow> vmspace_ptr \<Rightarrow> sched_t \<times> thread_ptr" where
  "kthread_create st kstack mm =
     (let t = next_thread st;
          th = \<lparr>t_status = TASK_STATUS_SUSPEND, t_flags = 0, t_context = In_Entry, t_vmspace = mm, t_kstack = kstack,
                t_kernel_sp = kstack + THREAD_SIZE\<rparr>
      in (st\<lparr>threads := (threads st)(t \<mapsto> th), next_thread := t + 1\<rparr>, t))"

text \<open>The first thread; the page table of the kernel is active.\<close>

definition do_task_init :: "u64 \<Rightarrow> vmspace_ptr \<Rightarrow> vmspace_ptr \<Rightarrow> sched_t" where
  "do_task_init stack0 kernel_mm mm =
     \<lparr>threads = [0 \<mapsto> \<lparr>t_status = TASK_STATUS_RUNNING, t_flags = 0, t_context = In_Entry, t_vmspace = mm, t_kstack = stack0,
                         t_kernel_sp = stack0 + THREAD_SIZE\<rparr>],
      ready = [], current = 0, active_mm = kernel_mm, next_thread = 1\<rparr>"

section \<open>What the operations do\<close>

definition status :: "sched_t \<Rightarrow> thread_ptr \<Rightarrow> task_status_t option" where
  "status st t = map_option t_status (threads st t)"

definition stopped :: "task_status_t \<Rightarrow> bool" where
  "stopped s \<longleftrightarrow> s = TASK_STATUS_SUSPEND \<or> s = TASK_STATUS_EXIT"

lemma status_Some: "status st t = Some s \<longleftrightarrow> (\<exists>th. threads st t = Some th \<and> t_status th = s)"
  by (auto simp: status_def)

lemma status_None: "status st t = None \<longleftrightarrow> threads st t = None"
  by (simp add: status_def)

lemma update_thread_eq: "threads st t = Some th \<Longrightarrow> update_thread st t f = Some (st\<lparr>threads := (threads st)(t \<mapsto> f th)\<rparr>)"
  by (simp add: update_thread_def)

text \<open>The queue from which \<^verbatim>\<open>schedule\<close> takes the next thread.\<close>

definition run_queue :: "sched_t \<Rightarrow> thread_t \<Rightarrow> thread_ptr list" where
  "run_queue st th = (if stopped (t_status th) then ready st else ready st @ [current st])"

lemma schedule_result:
  assumes "threads st (current st) = Some th" "current st \<notin> set (ready st)" "run_queue st th = t # q" "threads st t = Some th'"
  obtains st' where "schedule st = Some st'" "current st' = t" "ready st' = q" "next_thread st' = next_thread st" "active_mm st' = t_vmspace th'"
    "\<forall>u. status st' u = (if u = t then Some TASK_STATUS_RUNNING
        else if u = current st \<and> t_status th = TASK_STATUS_EXIT \<and> t_context th' = In_Schedule then None else status st u)"
    "\<forall>u v. threads st' u = Some v \<longrightarrow> (\<exists>v'. threads st u = Some v' \<and> t_vmspace v = t_vmspace v')"
proof -
  let ?c = "current st"
  have "\<exists>st'. schedule st = Some st' \<and> current st' = t \<and> ready st' = q \<and> next_thread st' = next_thread st \<and> active_mm st' = t_vmspace th'
    \<and> (\<forall>u. status st' u = (if u = t then Some TASK_STATUS_RUNNING
        else if u = ?c \<and> t_status th = TASK_STATUS_EXIT \<and> t_context th' = In_Schedule then None else status st u))
    \<and> (\<forall>u v. threads st' u = Some v \<longrightarrow> (\<exists>v'. threads st u = Some v' \<and> t_vmspace v = t_vmspace v'))"
    using assms
    by (cases "t = ?c")
      (auto simp: schedule_def thread_clear_sched_flag_def update_thread_def run_queue_def stopped_def scheduler_enqueue_task_def
        scheduler_next_ready_task_def scheduler_dequeue_task_def switch_to_def status_def Let_def split: if_splits list.splits)
  then show thesis using that by blast
qed

section \<open>The invariant of the scheduler\<close>

text \<open>
  The current thread runs and is not queued; the queued threads are ready or were preempted while running; every other
  thread is suspended or has exited. The idle thread is never stopped, so there is always a thread to run.
\<close>

definition sched_inv :: "thread_ptr \<Rightarrow> sched_t \<Rightarrow> bool" where
  "sched_inv idle st \<longleftrightarrow>
     status st (current st) = Some TASK_STATUS_RUNNING \<and> distinct (current st # ready st)
     \<and> (\<forall>t \<in> set (ready st). status st t = Some TASK_STATUS_READY \<or> status st t = Some TASK_STATUS_RUNNING)
     \<and> (\<forall>t s. status st t = Some s \<and> t \<noteq> current st \<and> t \<notin> set (ready st) \<longrightarrow> stopped s)
     \<and> (\<forall>t. status st t \<noteq> None \<longrightarrow> t < next_thread st) \<and> idle \<in> set (current st # ready st)"

text \<open>
  What the kernel does on behalf of the current thread: \<^verbatim>\<open>Op_Schedule_To\<close> is the switch to a given thread in a message call and its
  return, \<^verbatim>\<open>Op_Suspend\<close> the suspension of another thread. \<^verbatim>\<open>thread_destroy\<close> is only ever called for the current thread; for
  another one it would reach the \<^verbatim>\<open>PANIC\<close> at its end.
\<close>

datatype kernel_op = Op_Schedule | Op_Suspend_Self | Op_Exit | Op_Resume thread_ptr | Op_Create u64 vmspace_ptr | Op_Tick
  | Op_Schedule_To thread_ptr | Op_Suspend thread_ptr

fun kernel_step :: "kernel_op \<Rightarrow> sched_t \<Rightarrow> sched_t option" where
  "kernel_step Op_Schedule st = schedule st"
| "kernel_step Op_Suspend_Self st = thread_suspend st (current st)"
| "kernel_step Op_Exit st = thread_destroy st (current st)"
| "kernel_step (Op_Resume t) st = thread_resume st t"
| "kernel_step (Op_Create kstack mm) st = Some (fst (kthread_create st kstack mm))"
| "kernel_step Op_Tick st = thread_need_sched st (current st)"
| "kernel_step (Op_Schedule_To t) st = schedule_to st t"
| "kernel_step (Op_Suspend t) st = thread_suspend st t"

text \<open>The operations that call \<^verbatim>\<open>schedule\<close> and take the next thread from the queue.\<close>

fun switches :: "kernel_op \<Rightarrow> bool" where
  "switches Op_Schedule = True"
| "switches Op_Suspend_Self = True"
| "switches Op_Exit = True"
| "switches _ = False"

text \<open>The thread an operation names.\<close>

fun target :: "kernel_op \<Rightarrow> thread_ptr option" where
  "target (Op_Resume t) = Some t"
| "target (Op_Schedule_To t) = Some t"
| "target (Op_Suspend t) = Some t"
| "target _ = None"

text \<open>The current thread and the queue after an operation, without new entries.\<close>

fun queue_after :: "kernel_op \<Rightarrow> sched_t \<Rightarrow> thread_ptr list" where
  "queue_after (Op_Schedule_To t) st = t # ready st"
| "queue_after (Op_Suspend t) st = current st # remove1 t (ready st)"
| "queue_after op st = (if switches op then ready st else current st # ready st)"

lemma queue_after_switches [simp]: "switches op \<Longrightarrow> queue_after op st = ready st"
  by (cases op) simp_all

text \<open>
  The idle thread neither suspends itself, exits, calls another thread nor is suspended, and a thread that is resumed exists. The thread
  the kernel switches to in a message call is suspended. Another thread may be suspended unless it is queued with the
  status \<^verbatim>\<open>TASK_STATUS_RUNNING\<close>: \<^verbatim>\<open>thread_suspend\<close> would leave such a thread, which was preempted, in the queue.
\<close>

fun op_allowed :: "thread_ptr \<Rightarrow> sched_t \<Rightarrow> kernel_op \<Rightarrow> bool" where
  "op_allowed idle st Op_Suspend_Self = (current st \<noteq> idle)"
| "op_allowed idle st Op_Exit = (current st \<noteq> idle)"
| "op_allowed idle st (Op_Resume t) = (status st t \<noteq> None)"
| "op_allowed idle st (Op_Schedule_To t) = (current st \<noteq> idle \<and> status st t = Some TASK_STATUS_SUSPEND)"
| "op_allowed idle st (Op_Suspend t) = (t \<noteq> idle \<and> status st t \<noteq> None \<and> status st t \<noteq> Some TASK_STATUS_RUNNING)"
| "op_allowed idle st _ = True"

text \<open>The current thread stops with status \<open>s\<close> or stays in the queue, and the next one of the queue runs.\<close>

lemma schedule_inv:
  assumes inv: "sched_inv idle st" and s: "s = TASK_STATUS_RUNNING \<or> stopped s \<and> current st \<noteq> idle"
    and th: "threads st (current st) = Some th"
  defines "st0 \<equiv> st\<lparr>threads := (threads st)(current st \<mapsto> th\<lparr>t_status := s\<rparr>)\<rparr>"
  obtains st' t q where "schedule st0 = Some st'" "sched_inv idle st'" "current st' = t" "ready st' = q"
    "t # q = (if stopped s then ready st else ready st @ [current st])"
    "\<forall>u. u \<noteq> t \<and> u \<noteq> current st \<longrightarrow> status st' u = status st u"
    "stopped s \<longrightarrow> status st' (current st) = Some s \<or> s = TASK_STATUS_EXIT \<and> status st' (current st) = None"
    "\<exists>v. threads st' t = Some v \<and> active_mm st' = t_vmspace v"
proof -
  have st0: "threads st0 (current st0) = Some (th\<lparr>t_status := s\<rparr>)" "current st0 = current st" "ready st0 = ready st"
    by (simp_all add: st0_def)
  have status0: "status st0 u = (if u = current st then Some s else status st u)" for u by (simp add: st0_def status_def)
  let ?q = "if stopped s then ready st else ready st @ [current st]"
  have "?q \<noteq> []" using inv s by (auto simp: sched_inv_def stopped_def)
  then obtain t q where q: "?q = t # q" by (auto simp: neq_Nil_conv)
  then have set_q: "set (t # q) = (if stopped s then set (ready st) else insert (current st) (set (ready st)))"
    by (metis Un_insert_right append.right_neutral list.simps(15) set_append)
  then have t: "t \<in> set (current st # ready st)" by (auto split: if_splits)
  then have "status st0 t \<noteq> None" using inv status0 by (auto simp: sched_inv_def)
  then obtain th' where th': "threads st0 t = Some th'" by (auto simp: status_def)
  have pre: "current st0 \<notin> set (ready st0)" "run_queue st0 (th\<lparr>t_status := s\<rparr>) = t # q"
    using inv st0 q by (auto simp: run_queue_def sched_inv_def)
  obtain st' where r: "schedule st0 = Some st'" "current st' = t" "ready st' = q" "next_thread st' = next_thread st0" "active_mm st' = t_vmspace th'"
    and stat': "\<forall>u. status st' u = (if u = t then Some TASK_STATUS_RUNNING
        else if u = current st0 \<and> t_status (th\<lparr>t_status := s\<rparr>) = TASK_STATUS_EXIT \<and> t_context th' = In_Schedule then None else status st0 u)"
    and vm: "\<forall>u v. threads st' u = Some v \<longrightarrow> (\<exists>v'. threads st0 u = Some v' \<and> t_vmspace v = t_vmspace v')"
    using st0(1) pre th' by (rule schedule_result)
  have stat: "status st' u = (if u = t then Some TASK_STATUS_RUNNING else if u = current st
      then (if s = TASK_STATUS_EXIT \<and> t_context th' = In_Schedule then None else Some s) else status st u)" for u
    using stat' [rule_format, of u] st0(2) by (simp add: status0)
  have dist: "distinct (t # q)" unfolding q [symmetric] using inv by (simp add: sched_inv_def)
  have "sched_inv idle st'"
    unfolding sched_inv_def r(2,3)
  proof (intro conjI ballI allI impI)
    show "status st' u = Some TASK_STATUS_READY \<or> status st' u = Some TASK_STATUS_RUNNING" if u: "u \<in> set q" for u
    proof (cases "u = current st")
      case True
      then have "s = TASK_STATUS_RUNNING" using u set_q inv s by (auto simp: sched_inv_def split: if_splits)
      then show ?thesis using True stat [of u] by auto
    next
      case False
      then have "u \<in> set (ready st)" using u set_q by (auto split: if_splits)
      then show ?thesis using False stat [of u] inv by (auto simp: sched_inv_def)
    qed
    show "stopped s'" if u: "status st' u = Some s' \<and> u \<noteq> t \<and> u \<notin> set q" for u s'
      using u stat [of u] set_q inv s by (auto simp: sched_inv_def split: if_splits)
    show "u < next_thread st'" if "status st' u \<noteq> None" for u
      using that stat [of u] inv t r(4) by (auto simp: sched_inv_def st0_def split: if_splits)
    show "idle \<in> set (t # q)" using set_q inv s by (auto simp: sched_inv_def stopped_def)
  qed (use dist stat in simp_all)
  moreover have "\<exists>v. threads st' t = Some v \<and> active_mm st' = t_vmspace v"
  proof -
    have "status st' t \<noteq> None" using stat by simp
    then obtain v where v: "threads st' t = Some v" by (auto simp: status_def)
    then show ?thesis using vm th' r(5) by fastforce
  qed
  moreover have "status st' (current st) = Some s \<or> s = TASK_STATUS_EXIT \<and> status st' (current st) = None" if "stopped s"
    using that stat [of "current st"] set_q inv by (auto simp: sched_inv_def)
  ultimately show thesis
    using r(1-3) q stat by (intro that [of st' t q]) auto
qed

text \<open>A switch to a suspended thread leaves the queue as it is.\<close>

lemma schedule_to_inv:
  assumes inv: "sched_inv idle st" and idle: "current st \<noteq> idle" and t: "status st t = Some TASK_STATUS_SUSPEND"
  obtains st' where "schedule_to st t = Some st'" "sched_inv idle st'" "current st' = t" "ready st' = ready st"
    "\<forall>u. status st' u = (if u = t then Some TASK_STATUS_RUNNING else if u = current st then Some TASK_STATUS_SUSPEND else status st u)"
proof -
  obtain th where th: "threads st (current st) = Some th" using inv by (auto simp: sched_inv_def status_Some)
  obtain v where v: "threads st t = Some v" using t by (auto simp: status_Some)
  have out: "t \<notin> set (current st # ready st)" "current st \<notin> set (ready st)" using inv t by (auto simp: sched_inv_def)
  then have "\<exists>st'. schedule_to st t = Some st' \<and> current st' = t \<and> ready st' = ready st \<and> next_thread st' = next_thread st
    \<and> (\<forall>u. status st' u = (if u = t then Some TASK_STATUS_RUNNING else if u = current st then Some TASK_STATUS_SUSPEND else status st u))"
    using th v by (auto simp: schedule_to_def update_thread_def switch_to_def status_def Let_def)
  then obtain st' where st': "schedule_to st t = Some st'" "current st' = t" "ready st' = ready st" "next_thread st' = next_thread st"
    and stat: "\<forall>u. status st' u = (if u = t then Some TASK_STATUS_RUNNING else if u = current st then Some TASK_STATUS_SUSPEND else status st u)"
    by blast
  have "sched_inv idle st'" unfolding sched_inv_def st'(2-4) using inv idle t out stat by (auto simp: sched_inv_def stopped_def)
  then show thesis using that st' stat by blast
qed

text \<open>A ready thread that is suspended leaves the queue.\<close>

lemma suspend_other_inv:
  assumes inv: "sched_inv idle st" and idle: "t \<noteq> idle" and t: "status st t \<noteq> None" "status st t \<noteq> Some TASK_STATUS_RUNNING"
  obtains st' where "thread_suspend st t = Some st'" "sched_inv idle st'" "current st' = current st" "ready st' = remove1 t (ready st)"
    "\<forall>u. u \<noteq> t \<longrightarrow> status st' u = status st u"
proof -
  obtain v where v: "threads st t = Some v" "t_status v \<noteq> TASK_STATUS_RUNNING" using t by (auto simp: status_def)
  have cur: "t \<noteq> current st" using inv t by (auto simp: sched_inv_def)
  show thesis
  proof (cases "t_status v = TASK_STATUS_READY")
    case True
    let ?st = "st\<lparr>threads := (threads st)(t \<mapsto> v\<lparr>t_status := TASK_STATUS_SUSPEND\<rparr>), ready := remove1 t (ready st)\<rparr>"
    have stat: "status ?st u = (if u = t then Some TASK_STATUS_SUSPEND else status st u)" for u by (simp add: status_def)
    have "distinct (ready st)" using inv by (simp add: sched_inv_def)
    then have "sched_inv idle ?st" using inv cur idle t(1) stat by (auto simp: sched_inv_def stopped_def)
    then show thesis
      using v True stat by (intro that [of ?st]) (simp_all add: thread_suspend_def update_thread_def scheduler_dequeue_task_def)
  next
    case False
    then have "t \<notin> set (ready st)" using inv v by (auto simp: sched_inv_def status_def)
    then show thesis using v False inv by (intro that [of st]) (simp_all add: thread_suspend_def remove1_idem)
  qed
qed

lemma running_current:
  assumes "sched_inv idle st"
  obtains th where "threads st (current st) = Some th" "t_status th = TASK_STATUS_RUNNING"
  using assms by (auto simp: sched_inv_def status_Some)

text \<open>One operation keeps the invariant. A switching operation takes the next thread from the front of the queue; new
  entries are added behind.\<close>

lemma kernel_step_ok:
  assumes inv: "sched_inv idle st" and allowed: "op_allowed idle st op"
  obtains st' zs where "kernel_step op st = Some st'" "sched_inv idle st'"
    "current st' # ready st' = queue_after op st @ zs"
    "\<forall>t \<in> set zs. op = Op_Schedule \<and> t = current st \<or> op = Op_Resume t"
    "\<forall>u. status st u \<noteq> None \<and> u \<notin> set (current st # ready st) \<and> target op \<noteq> Some u \<longrightarrow> status st' u = status st u"
    "op = Op_Suspend_Self \<longrightarrow> status st' (current st) = Some TASK_STATUS_SUSPEND"
    "\<forall>t. op = Op_Resume t \<and> status st t = Some TASK_STATUS_SUSPEND \<longrightarrow> t \<in> set zs"
proof -
  note result = that
  obtain th where th: "threads st (current st) = Some th" "t_status th = TASK_STATUS_RUNNING" using inv by (rule running_current)
  have sched: thesis
    if s: "s = TASK_STATUS_RUNNING \<and> op = Op_Schedule \<or> stopped s \<and> current st \<noteq> idle" and sw: "switches op"
      and self: "op = Op_Suspend_Self \<longrightarrow> s = TASK_STATUS_SUSPEND"
      and eq: "kernel_step op st = schedule (st\<lparr>threads := (threads st)(current st \<mapsto> th\<lparr>t_status := s\<rparr>)\<rparr>)" for s
  proof -
    have s': "s = TASK_STATUS_RUNNING \<or> stopped s \<and> current st \<noteq> idle" using s by auto
    obtain st' t q where st': "schedule (st\<lparr>threads := (threads st)(current st \<mapsto> th\<lparr>t_status := s\<rparr>)\<rparr>) = Some st'" "sched_inv idle st'"
      "current st' = t" "ready st' = q" "t # q = (if stopped s then ready st else ready st @ [current st])"
      and same: "\<forall>u. u \<noteq> t \<and> u \<noteq> current st \<longrightarrow> status st' u = status st u"
      and own: "stopped s \<longrightarrow> status st' (current st) = Some s \<or> s = TASK_STATUS_EXIT \<and> status st' (current st) = None"
      using inv s' th(1) by (rule schedule_inv)
    have "t \<in> set (current st # ready st)" using st'(5) by (cases "ready st") (auto split: if_splits)
    then have "status st' u = status st u" if "u \<notin> set (current st # ready st)" for u using same that by auto
    then show thesis
      using st' eq sw s self own by (intro result [of st' "if stopped s then [] else [current st]"]) (auto simp: stopped_def split: if_splits)
  qed
  show thesis
  proof (cases op)
    case Op_Schedule
    have "(threads st)(current st \<mapsto> th\<lparr>t_status := TASK_STATUS_RUNNING\<rparr>) = threads st" using th by (auto simp: fun_eq_iff)
    then show thesis using Op_Schedule by (intro sched [of TASK_STATUS_RUNNING]) simp_all
  next
    case Op_Suspend_Self
    then show thesis using allowed th
      by (intro sched [of TASK_STATUS_SUSPEND]) (simp_all add: thread_suspend_def update_thread_def stopped_def)
  next
    case Op_Exit
    then show thesis using allowed th
      by (intro sched [of TASK_STATUS_EXIT]) (simp_all add: thread_destroy_def update_thread_def stopped_def)
  next
    case (Op_Resume t)
    then obtain v where v: "threads st t = Some v" using allowed by (auto simp: status_def)
    show thesis
    proof (cases "t_status v = TASK_STATUS_SUSPEND")
      case True
      let ?st = "st\<lparr>threads := (threads st)(t \<mapsto> v\<lparr>t_status := TASK_STATUS_READY\<rparr>), ready := ready st @ [t]\<rparr>"
      have t: "t \<notin> set (current st # ready st)" using inv v True by (auto simp: sched_inv_def status_def)
      have "status ?st u = (if u = t then Some TASK_STATUS_READY else status st u)" for u by (simp add: status_def)
      moreover from this have "sched_inv idle ?st" using inv t v by (auto simp: sched_inv_def status_def)
      ultimately show thesis using v True t Op_Resume
        by (intro that [of ?st "[t]"]) (simp_all add: thread_resume_def update_thread_def scheduler_enqueue_task_def)
    next
      case False
      then show thesis using v inv Op_Resume by (intro that [of st "[]"]) (simp_all add: thread_resume_def status_def)
    qed
  next
    case (Op_Create kstack mm)
    let ?st = "fst (kthread_create st kstack mm)"
    have "status ?st u = (if u = next_thread st then Some TASK_STATUS_SUSPEND else status st u)" for u
      by (simp add: kthread_create_def status_def Let_def)
    note stat = this
    have new: "next_thread st \<notin> set (current st # ready st)" "status st (next_thread st) = None" using inv by (fastforce simp: sched_inv_def)+
    then have "sched_inv idle ?st"
      using inv stat by (auto simp: sched_inv_def kthread_create_def stopped_def less_Suc_eq Let_def)
    then show thesis using Op_Create stat new by (intro that [of ?st "[]"]) (auto simp: kthread_create_def Let_def)
  next
    case Op_Tick
    let ?st = "st\<lparr>threads := (threads st)(current st \<mapsto> th\<lparr>t_flags := t_flags th OR NEED_RESCHED\<rparr>)\<rparr>"
    have "status ?st = status st" using th by (auto simp: status_def fun_eq_iff)
    moreover from this have "sched_inv idle ?st" using inv by (simp add: sched_inv_def)
    ultimately show thesis using Op_Tick th by (intro that [of ?st "[]"]) (simp_all add: thread_need_sched_def update_thread_def)
  next
    case (Op_Schedule_To t)
    then obtain st' where "schedule_to st t = Some st'" "sched_inv idle st'" "current st' = t" "ready st' = ready st"
      "\<forall>u. status st' u = (if u = t then Some TASK_STATUS_RUNNING else if u = current st then Some TASK_STATUS_SUSPEND else status st u)"
      using allowed schedule_to_inv [OF inv, of t] by auto
    then show thesis using Op_Schedule_To by (intro result [of st' "[]"]) simp_all
  next
    case (Op_Suspend t)
    then obtain st' where "thread_suspend st t = Some st'" "sched_inv idle st'" "current st' = current st" "ready st' = remove1 t (ready st)"
      "\<forall>u. u \<noteq> t \<longrightarrow> status st' u = status st u"
      using allowed suspend_other_inv [OF inv, of t] by auto
    then show thesis using Op_Suspend by (intro result [of st' "[]"]) simp_all
  qed
qed

lemma kernel_stepE:
  assumes "sched_inv idle st" "op_allowed idle st op" "kernel_step op st = Some st'"
  obtains zs where "sched_inv idle st'" "current st' # ready st' = queue_after op st @ zs"
    "\<forall>t \<in> set zs. op = Op_Schedule \<and> t = current st \<or> op = Op_Resume t"
    "\<forall>u. status st u \<noteq> None \<and> u \<notin> set (current st # ready st) \<and> target op \<noteq> Some u \<longrightarrow> status st' u = status st u"
    "op = Op_Suspend_Self \<longrightarrow> status st' (current st) = Some TASK_STATUS_SUSPEND"
    "\<forall>t. op = Op_Resume t \<and> status st t = Some TASK_STATUS_SUSPEND \<longrightarrow> t \<in> set zs"
proof (rule kernel_step_ok [OF assms(1,2)])
  fix st1 zs
  assume "kernel_step op st = Some st1" "sched_inv idle st1" "current st1 # ready st1 = queue_after op st @ zs"
    "\<forall>t \<in> set zs. op = Op_Schedule \<and> t = current st \<or> op = Op_Resume t"
    "\<forall>u. status st u \<noteq> None \<and> u \<notin> set (current st # ready st) \<and> target op \<noteq> Some u \<longrightarrow> status st1 u = status st u"
    "op = Op_Suspend_Self \<longrightarrow> status st1 (current st) = Some TASK_STATUS_SUSPEND"
    "\<forall>t. op = Op_Resume t \<and> status st t = Some TASK_STATUS_SUSPEND \<longrightarrow> t \<in> set zs"
  then show thesis using assms(3) by (intro that [of zs]) simp_all
qed

lemma kernel_step_ex:
  assumes "sched_inv idle st" "op_allowed idle st op"
  shows "\<exists>st' zs. kernel_step op st = Some st' \<and> sched_inv idle st'
    \<and> current st' # ready st' = queue_after op st @ zs
    \<and> (\<forall>t \<in> set zs. op = Op_Schedule \<and> t = current st \<or> op = Op_Resume t)"
  using assms by (rule kernel_step_ok) blast

section \<open>Runs of the kernel\<close>

inductive kernel_steps :: "thread_ptr \<Rightarrow> sched_t \<Rightarrow> kernel_op list \<Rightarrow> sched_t \<Rightarrow> bool" for idle where
  kernel_steps_refl: "kernel_steps idle st [] st"
| kernel_steps_step:
    "\<lbrakk>op_allowed idle st op; kernel_step op st = Some st'; kernel_steps idle st' ops st''\<rbrakk> \<Longrightarrow> kernel_steps idle st (op # ops) st''"

inductive_cases kernel_steps_NilE: "kernel_steps idle st [] st'"
inductive_cases kernel_steps_ConsE: "kernel_steps idle st (op # ops) st'"

lemma kernel_steps_inv: "\<lbrakk>kernel_steps idle st ops st'; sched_inv idle st\<rbrakk> \<Longrightarrow> sched_inv idle st'"
proof (induction rule: kernel_steps.induct)
  case (kernel_steps_step st op st' ops st'')
  obtain st1 where "kernel_step op st = Some st1" "sched_inv idle st1"
    using kernel_steps_step.prems kernel_steps_step.hyps(1) by (rule kernel_step_ok)
  then show ?case using kernel_steps_step by simp
qed



lemma stopped_stays:
  "\<lbrakk>kernel_steps idle st ops st'; sched_inv idle st; c \<notin> set (current st # ready st); Op_Resume c \<notin> set ops;
      Op_Schedule_To c \<notin> set ops\<rbrakk>
    \<Longrightarrow> c \<notin> set (current st' # ready st')"
proof (induction rule: kernel_steps.induct)
  case (kernel_steps_step st op st' ops st'')
  obtain st1 zs where st1: "kernel_step op st = Some st1" "sched_inv idle st1"
    "current st1 # ready st1 = queue_after op st @ zs"
    "\<forall>t \<in> set zs. op = Op_Schedule \<and> t = current st \<or> op = Op_Resume t"
    using kernel_steps_step.prems(1) kernel_steps_step.hyps(1) by (rule kernel_step_ok)
  have "c \<notin> set (current st1 # ready st1)"
    unfolding st1(3) using st1(4) kernel_steps_step.prems(2-4) by (cases op) (auto dest: notin_set_remove1)
  then show ?case using st1 kernel_steps_step by simp
qed simp

section \<open>Properties\<close>

lemma do_task_init_inv: "sched_inv 0 (do_task_init stack0 kmm mm)"
  by (auto simp: sched_inv_def do_task_init_def status_def)

text \<open>C15: Each of these operations of the kernel on a consistent scheduler succeeds and keeps it consistent: \<^verbatim>\<open>schedule\<close>,
  \<^verbatim>\<open>schedule_to\<close> a suspended thread, the suspension and the exit of the current thread, \<^verbatim>\<open>thread_resume\<close> of any thread that
  exists, \<^verbatim>\<open>thread_suspend\<close> of another thread that is not preempted, \<^verbatim>\<open>kthread_create\<close> and the tick. The current thread runs and
  is not queued, exactly the ready and the preempted threads are queued, and the \<^verbatim>\<open>PANIC\<close> for an empty queue is never reached. The
  idle thread neither suspends itself, exits, calls \<^verbatim>\<open>schedule_to\<close> nor is suspended.\<close>

theorem scheduler_consistent:
  assumes "sched_inv idle st" "op_allowed idle st op"
  shows "\<exists>st'. kernel_step op st = Some st' \<and> sched_inv idle st'"
  using kernel_step_ex [OF assms] by blast

theorem scheduler_consistent_witness: "\<exists>st'. kernel_step Op_Schedule (do_task_init 0x1000 0 1) = Some st' \<and> sched_inv 0 st'"
  by (rule scheduler_consistent [OF do_task_init_inv]) simp


text \<open>Two threads, the second ready.\<close>

definition two_threads :: sched_t where
  "two_threads = (do_task_init 0x1000 0 1)\<lparr>threads := (\<lambda>t. if t < 2 then Some \<lparr>t_status = (if t = 0 then TASK_STATUS_RUNNING else TASK_STATUS_READY),
      t_flags = 0, t_context = In_Entry, t_vmspace = 1, t_kstack = 0x1000, t_kernel_sp = 0x3000\<rparr> else None), ready := [1], next_thread := 2\<rparr>"

lemma two_threads_inv: "sched_inv 0 two_threads"
  by (auto simp: sched_inv_def two_threads_def do_task_init_def status_def)


text \<open>
  \<^verbatim>\<open>thread_suspend\<close> of a preempted thread is left out above for a reason: it takes the status \<^verbatim>\<open>TASK_STATUS_RUNNING\<close> to mean the
  current thread, calls \<^verbatim>\<open>schedule\<close> and leaves the thread, now suspended, in the queue.
\<close>

definition three_threads :: sched_t where
  "three_threads = two_threads\<lparr>threads := (threads two_threads)(2 \<mapsto> \<lparr>t_status = TASK_STATUS_RUNNING, t_flags = 0, t_context = In_Schedule,
      t_vmspace = 1, t_kstack = 0x1000, t_kernel_sp = 0x3000\<rparr>), ready := [1, 2], next_thread := 3\<rparr>"

lemma suspend_preempted_stays_queued:
  "sched_inv 0 three_threads \<and> (\<exists>st'. thread_suspend three_threads 2 = Some st' \<and> 2 \<in> set (ready st')
    \<and> status st' 2 = Some TASK_STATUS_SUSPEND \<and> \<not> sched_inv 0 st')"
proof
  show "sched_inv 0 three_threads"
    by (auto simp: sched_inv_def three_threads_def two_threads_def do_task_init_def status_def split: if_splits)
  have "map_option (\<lambda>s. (ready s, status s 2)) (thread_suspend three_threads 2) = Some ([2, 0], Some TASK_STATUS_SUSPEND)"
    by code_simp
  then show "\<exists>st'. thread_suspend three_threads 2 = Some st' \<and> 2 \<in> set (ready st') \<and> status st' 2 = Some TASK_STATUS_SUSPEND \<and> \<not> sched_inv 0 st'"
    by (auto simp: sched_inv_def)
qed

text \<open>C38: \<^verbatim>\<open>sys_yield\<close> suspends its caller without queueing it: the thread does not run again before another thread
  resumes it or switches to it with \<^verbatim>\<open>schedule_to\<close>.\<close>

theorem sys_yield_suspends:
  assumes "sched_inv idle st" "current st \<noteq> idle" "sys_yield st = Some st1" "kernel_steps idle st1 ops st2"
    and "Op_Resume (current st) \<notin> set ops" "Op_Schedule_To (current st) \<notin> set ops"
  shows "current st2 \<noteq> current st"
proof -
  have "op_allowed idle st Op_Suspend_Self" using assms(2) by simp
  then obtain st' zs where "kernel_step Op_Suspend_Self st = Some st'" "sched_inv idle st'" "current st' # ready st' = ready st @ zs"
    "\<forall>t \<in> set zs. False"
    using kernel_step_ex [OF assms(1), of Op_Suspend_Self] by auto
  then have st1: "sched_inv idle st1" "set (current st1 # ready st1) = set (ready st)"
    using assms(3) by (auto simp: sys_yield_def)
  have "current st \<notin> set (current st1 # ready st1)" unfolding st1(2) using assms(1) by (simp add: sched_inv_def)
  then show ?thesis using stopped_stays [OF assms(4) st1(1) _ assms(5,6)] by simp
qed

theorem sys_yield_suspends_witness:
  "\<exists>st0 st1 st2. schedule two_threads = Some st0 \<and> current st0 = 1 \<and> sys_yield st0 = Some st1 \<and> schedule st1 = Some st2
    \<and> current st2 \<noteq> 1"
proof -
  obtain st0 zs where st0: "kernel_step Op_Schedule two_threads = Some st0" "sched_inv 0 st0" "current st0 # ready st0 = ready two_threads @ zs"
    using kernel_step_ex [OF two_threads_inv, of Op_Schedule] by auto
  then have cur: "current st0 = 1" by (simp add: two_threads_def)
  obtain st1 where st1: "kernel_step Op_Suspend_Self st0 = Some st1" "sched_inv 0 st1"
    using kernel_step_ex [OF st0(2), of Op_Suspend_Self] cur by auto
  obtain st2 where st2: "kernel_step Op_Schedule st1 = Some st2" using kernel_step_ex [OF st1(2), of Op_Schedule] by auto
  then have "kernel_steps 0 st1 [Op_Schedule] st2" by (auto intro: kernel_steps.intros)
  then have "current st2 \<noteq> current st0"
    using st1(1) cur by (intro sys_yield_suspends [OF st0(2), of st1 "[Op_Schedule]" st2]) (simp_all add: sys_yield_def)
  then show ?thesis using st0(1) st1(1) st2 cur by (auto simp: sys_yield_def)
qed

end
