(* ===== verification/Sync.thy ===== *)
theory Sync
  imports Thread
begin

text \<open>
  The mutex of \<^verbatim>\<open>core/mutex.c\<close> and the semaphore of \<^verbatim>\<open>core/semaphore.c\<close> on top of the scheduler. A thread that
  cannot get the object puts its node \<^verbatim>\<open>mlist\<close> on the wait list and suspends itself inside the loop; when it runs again it
  continues with the next turn of the loop. One turn, up to the point where another thread runs, is therefore one
  atomic action. The lock is released by waking the first waiter, which has to try again.
\<close>

section \<open>Definitions\<close>

type_synonym obj_ptr = nat

record mutex_t =
  m_atomic :: int
  mwait :: "thread_ptr list"

type_synonym semaphore_t = mutex_t

text \<open>The scheduler with the objects, and for every thread the list its node \<^verbatim>\<open>mlist\<close> is on.\<close>

record sync_t =
  sched :: sched_t
  objs :: "obj_ptr \<Rightarrow> mutex_t"
  mlist :: "thread_ptr \<Rightarrow> obj_ptr option"

definition set_atomic :: "sync_t \<Rightarrow> obj_ptr \<Rightarrow> int \<Rightarrow> sync_t" where
  "set_atomic st m v = st\<lparr>objs := (objs st)(m := (objs st m)\<lparr>m_atomic := v\<rparr>)\<rparr>"

definition atomic_add :: "sync_t \<Rightarrow> obj_ptr \<Rightarrow> int \<Rightarrow> sync_t" where
  "atomic_add st m v = set_atomic st m (sint (word_of_int (m_atomic (objs st m) + v) :: u32))"

definition atomic_cmpxchg :: "sync_t \<Rightarrow> obj_ptr \<Rightarrow> int \<Rightarrow> int \<Rightarrow> sync_t \<times> int" where
  "atomic_cmpxchg st m old new =
     (if m_atomic (objs st m) = old then (set_atomic st m new, old) else (st, m_atomic (objs st m)))"

definition mutex_init :: mutex_t where
  "mutex_init = \<lparr>m_atomic = 1, mwait = []\<rparr>"

definition semaphore_init :: "u32 \<Rightarrow> semaphore_t" where
  "semaphore_init count = \<lparr>m_atomic = sint count, mwait = []\<rparr>"

text \<open>The waiting part of both loops.\<close>

definition wait_on :: "sync_t \<Rightarrow> obj_ptr \<Rightarrow> sync_t option" where
  "wait_on st m = do {
     let self = current (sched st);
     let st = (if mlist st self = None
               then st\<lparr>objs := (objs st)(m := (objs st m)\<lparr>mwait := mwait (objs st m) @ [self]\<rparr>), mlist := (mlist st)(self \<mapsto> m)\<rparr>
               else st);
     s \<leftarrow> thread_suspend (sched st) self;
     Some (st\<lparr>sched := s\<rparr>)
   }"

text \<open>The first waiter is taken off the list and resumed.\<close>

definition wake_first :: "sync_t \<Rightarrow> obj_ptr \<Rightarrow> sync_t option" where
  "wake_first st m =
     (case mwait (objs st m) of
        [] \<Rightarrow> Some st
      | pos # ps \<Rightarrow> do {
          let st = st\<lparr>objs := (objs st)(m := (objs st m)\<lparr>mwait := ps\<rparr>), mlist := (mlist st)(pos := None)\<rparr>;
          s \<leftarrow> thread_resume (sched st) pos;
          Some (st\<lparr>sched := s\<rparr>)
        })"

text \<open>One turn of the loop. The flag tells whether the object has been acquired; otherwise another thread runs now.\<close>

definition mutex_lock :: "sync_t \<Rightarrow> obj_ptr \<Rightarrow> (sync_t \<times> bool) option" where
  "mutex_lock st m = do {
     let (st, v) = atomic_cmpxchg st m 1 0;
     if v \<noteq> 1 then do {
       st \<leftarrow> wait_on st m;
       Some (st, False)
     }
     else Some (st, True)
   }"

definition mutex_unlock :: "sync_t \<Rightarrow> obj_ptr \<Rightarrow> sync_t option" where
  "mutex_unlock st m = do {
     let (st, v) = atomic_cmpxchg st m 0 1;
     if v = 0 then wake_first st m else Some st
   }"

definition semaphore_down :: "sync_t \<Rightarrow> obj_ptr \<Rightarrow> (sync_t \<times> bool) option" where
  "semaphore_down st m =
     (if m_atomic (objs st m) > 0 then Some (atomic_add st m (- 1), True)
      else do {
        st \<leftarrow> wait_on st m;
        Some (st, False)
      })"

definition semaphore_up :: "sync_t \<Rightarrow> obj_ptr \<Rightarrow> sync_t option" where
  "semaphore_up st m = do {
     let st = atomic_add st m 1;
     if m_atomic (objs st m) > 0 then wake_first st m else Some st
   }"

section \<open>Systems of threads that use such objects\<close>

text \<open>
  The code of a thread that has blocked continues with the next turn for the object \<open>waits_for\<close>; \<open>held\<close> records the
  threads that have acquired an object and not released it. \<open>owner\<close> is true for a mutex: only a holder releases it. The counter
  of a semaphore is an \<^verbatim>\<open>int\<close>: it is not raised beyond its largest value. A thread inside the loop is resumed by the object it
  waits for and by nobody else, nobody switches to it directly or suspends it, and no thread exits while it holds an object.
\<close>

record wait_sys =
  ws :: sync_t
  waits_for :: "thread_ptr \<Rightarrow> obj_ptr option"
  held :: "obj_ptr \<Rightarrow> thread_ptr list"

abbreviation self_of :: "wait_sys \<Rightarrow> thread_ptr" where "self_of w \<equiv> current (sched (ws w))"

fun thread_op_ok :: "wait_sys \<Rightarrow> kernel_op \<Rightarrow> bool" where
  "thread_op_ok w (Op_Resume t) = (waits_for w t = None)"
| "thread_op_ok w (Op_Schedule_To t) = (waits_for w t = None)"
| "thread_op_ok w (Op_Suspend t) = (waits_for w t = None)"
| "thread_op_ok w Op_Exit = (\<forall>m. self_of w \<notin> set (held w m))"
| "thread_op_ok w _ = True"

inductive wait_step ::
    "(sync_t \<Rightarrow> obj_ptr \<Rightarrow> (sync_t \<times> bool) option) \<Rightarrow> (sync_t \<Rightarrow> obj_ptr \<Rightarrow> sync_t option) \<Rightarrow> bool \<Rightarrow> thread_ptr \<Rightarrow> wait_sys \<Rightarrow> wait_sys \<Rightarrow> bool"
  for acquire release owner idle where
  step_acquire: "\<lbrakk>waits_for w (self_of w) = None \<or> waits_for w (self_of w) = Some m; self_of w \<noteq> idle; acquire (ws w) m = Some (st, True)\<rbrakk>
    \<Longrightarrow> wait_step acquire release owner idle w
          (w\<lparr>ws := st, waits_for := (waits_for w)(self_of w := None), held := (held w)(m := self_of w # held w m)\<rparr>)"
| step_block: "\<lbrakk>waits_for w (self_of w) = None \<or> waits_for w (self_of w) = Some m; self_of w \<noteq> idle; acquire (ws w) m = Some (st, False)\<rbrakk>
    \<Longrightarrow> wait_step acquire release owner idle w (w\<lparr>ws := st, waits_for := (waits_for w)(self_of w \<mapsto> m)\<rparr>)"
| step_release: "\<lbrakk>waits_for w (self_of w) = None; owner \<longrightarrow> self_of w \<in> set (held w m); m_atomic (objs (ws w) m) < 2 ^ 31 - 1; release (ws w) m = Some st\<rbrakk>
    \<Longrightarrow> wait_step acquire release owner idle w (w\<lparr>ws := st, held := (held w)(m := remove1 (self_of w) (held w m))\<rparr>)"
| step_other: "\<lbrakk>waits_for w (self_of w) = None; op_allowed idle (sched (ws w)) op; thread_op_ok w op; kernel_step op (sched (ws w)) = Some s\<rbrakk>
    \<Longrightarrow> wait_step acquire release owner idle w (w\<lparr>ws := (ws w)\<lparr>sched := s\<rparr>\<rparr>)"

section \<open>The invariant\<close>

abbreviation runnable :: "wait_sys \<Rightarrow> thread_ptr set" where
  "runnable w \<equiv> set (current (sched (ws w)) # ready (sched (ws w)))"

text \<open>Threads that have been woken for \<open>m\<close> and will try again.\<close>

definition woken :: "wait_sys \<Rightarrow> obj_ptr \<Rightarrow> thread_ptr set" where
  "woken w m = {t \<in> runnable w. waits_for w t = Some m}"

text \<open>
  A waiting thread is suspended and on exactly the list of the object it waits for, a thread inside the loop that is
  on no list can run, and while threads wait on an object there are at least as many woken threads as units available:
  no wake-up is lost.
\<close>

definition wait_inv :: "bool \<Rightarrow> thread_ptr \<Rightarrow> wait_sys \<Rightarrow> bool" where
  "wait_inv owner idle w \<longleftrightarrow>
     sched_inv idle (sched (ws w))
     \<and> (\<forall>m. m_atomic (objs (ws w) m) \<in> {0 ..< 2 ^ 31}) \<and> (owner \<longrightarrow> (\<forall>m. m_atomic (objs (ws w) m) + int (length (held w m)) = 1))
     \<and> (\<forall>m. distinct (mwait (objs (ws w) m))) \<and> (\<forall>m t. t \<in> set (mwait (objs (ws w) m)) \<longleftrightarrow> mlist (ws w) t = Some m)
     \<and> (\<forall>t m. mlist (ws w) t = Some m \<longrightarrow> waits_for w t = Some m \<and> status (sched (ws w)) t = Some TASK_STATUS_SUSPEND)
     \<and> (\<forall>t m. waits_for w t = Some m \<and> mlist (ws w) t = None \<longrightarrow> t \<in> runnable w)
     \<and> (\<forall>m. mwait (objs (ws w) m) \<noteq> [] \<longrightarrow> m_atomic (objs (ws w) m) \<le> int (card (woken w m)))"

lemma wait_invD:
  assumes "wait_inv owner idle w"
  shows "sched_inv idle (sched (ws w))" "0 \<le> m_atomic (objs (ws w) m)"
    "owner \<Longrightarrow> m_atomic (objs (ws w) m) + int (length (held w m)) = 1" "distinct (mwait (objs (ws w) m))"
    "t \<in> set (mwait (objs (ws w) m)) \<longleftrightarrow> mlist (ws w) t = Some m"
    "mlist (ws w) t = Some m \<Longrightarrow> waits_for w t = Some m" "mlist (ws w) t = Some m \<Longrightarrow> status (sched (ws w)) t = Some TASK_STATUS_SUSPEND"
    "\<lbrakk>waits_for w t = Some m; mlist (ws w) t = None\<rbrakk> \<Longrightarrow> t \<in> runnable w"
    "mwait (objs (ws w) m) \<noteq> [] \<Longrightarrow> m_atomic (objs (ws w) m) \<le> int (card (woken w m))"
    "m_atomic (objs (ws w) m) < 2 ^ 31" "m_atomic (objs (ws w) m) \<in> {0 ..< 2 ^ 31}"
  using assms unfolding wait_inv_def by (blast, simp, blast+, simp, blast)

lemma finite_woken [simp]: "finite (woken w m)"
  by (simp add: woken_def)

lemma suspended_not_runnable:
  assumes "wait_inv owner idle w" "mlist (ws w) t = Some m"
  shows "t \<notin> runnable w"
proof -
  have "status (sched (ws w)) t = Some TASK_STATUS_SUSPEND" using assms by (rule wait_invD(7))
  then show ?thesis using wait_invD(1) [OF assms(1)] by (auto simp: sched_inv_def)
qed

lemma self_not_waiting: "wait_inv owner idle w \<Longrightarrow> mlist (ws w) (self_of w) = None"
  using suspended_not_runnable [of owner idle w "self_of w"] by (cases "mlist (ws w) (self_of w)") auto

section \<open>The steps keep it\<close>

lemma set_run_queue: "current s # ready s = xs @ zs \<Longrightarrow> set (current s # ready s) = set xs \<union> set zs"
  by (metis set_append)

lemma other_inv:
  assumes inv: "wait_inv owner idle w" and self: "waits_for w (self_of w) = None" and op: "op_allowed idle (sched (ws w)) op" "thread_op_ok w op"
    and s: "kernel_step op (sched (ws w)) = Some s"
  shows "wait_inv owner idle (w\<lparr>ws := (ws w)\<lparr>sched := s\<rparr>\<rparr>)"
proof -
  let ?w = "w\<lparr>ws := (ws w)\<lparr>sched := s\<rparr>\<rparr>"
  obtain zs where s': "sched_inv idle s" "current s # ready s = queue_after op (sched (ws w)) @ zs"
    and zs: "\<forall>t \<in> set zs. op = Op_Schedule \<and> t = self_of w \<or> op = Op_Resume t"
    and same: "\<forall>u. status (sched (ws w)) u \<noteq> None \<and> u \<notin> runnable w \<and> target op \<noteq> Some u \<longrightarrow> status s u = status (sched (ws w)) u"
    using wait_invD(1) [OF inv] op(1) s by (rule kernel_stepE)
  have run: "t \<in> runnable ?w \<longleftrightarrow> t \<in> runnable w" if "waits_for w t = Some m" for t m
  proof -
    have "t \<noteq> self_of w" using that self by auto
    moreover have "t \<notin> set zs" using zs that self op(2) by auto
    moreover have "t \<in> set (queue_after op (sched (ws w))) \<longleftrightarrow> t \<in> set (ready (sched (ws w)))"
    proof (cases op)
      case (Op_Suspend u)
      then have "t \<noteq> u" using that op(2) by auto
      then show ?thesis using Op_Suspend \<open>t \<noteq> self_of w\<close> by simp
    qed (use \<open>t \<noteq> self_of w\<close> that op(2) in auto)
    ultimately show ?thesis using set_run_queue [OF s'(2)] by simp
  qed
  then have woken: "woken ?w m = woken w m" for m unfolding woken_def by fastforce
  have susp: "status s t = Some TASK_STATUS_SUSPEND" if t: "mlist (ws w) t = Some m" for t m
  proof -
    have "target op \<noteq> Some t" using wait_invD(6) [OF inv t] op(2) by (cases op) auto
    then show ?thesis using same wait_invD(7) [OF inv t] suspended_not_runnable [OF inv t] by simp
  qed
  show ?thesis
    unfolding wait_inv_def
  proof (intro conjI allI impI, goal_cases)
    case (8 t m)
    then have "t \<in> runnable w" using wait_invD(8) [OF inv, of t m] by simp
    then show ?case using run [of t m] 8 by simp
  next
    case (9 m)
    then show ?case using wait_invD(9) [OF inv, of m] woken [of m] by simp
  qed (use s'(1) susp wait_invD [OF inv] in simp_all)
qed

lemma set_atomic_simps [simp]:
  "sched (set_atomic st m v) = sched st" "mlist (set_atomic st m v) = mlist st" "mwait (objs (set_atomic st m v) k) = mwait (objs st k)"
  "m_atomic (objs (set_atomic st m v) k) = (if k = m then v else m_atomic (objs st k))"
  by (simp_all add: set_atomic_def)

lemma acquire_inv:
  assumes inv: "wait_inv owner idle w" and self: "waits_for w (self_of w) = None \<or> waits_for w (self_of w) = Some m"
    and v: "0 < m_atomic (objs (ws w) m)"
  shows "wait_inv owner idle (w\<lparr>ws := set_atomic (ws w) m (m_atomic (objs (ws w) m) - 1), waits_for := (waits_for w)(self_of w := None),
      held := (held w)(m := self_of w # held w m)\<rparr>)"
    (is "wait_inv owner idle ?w")
proof -
  have woken: "woken ?w k = woken w k - {self_of w}" for k by (auto simp: woken_def)
  have others: "t \<noteq> self_of w" if "mlist (ws w) t = Some k" for t k using that self_not_waiting [OF inv] by auto
  show ?thesis
    unfolding wait_inv_def
  proof (intro conjI allI impI, goal_cases)
    case (2 k)
    then show ?case using wait_invD(11) [OF inv, of k] v by (cases "k = m") simp_all
  next
    case (3 k)
    then show ?case using wait_invD(3) [OF inv, of k] by (cases "k = m") simp_all
  next
    case (6 t k)
    then show ?case using wait_invD(6) [OF inv, of t k] others [of t k] by simp
  next
    case (8 t k)
    then show ?case using wait_invD(8) [OF inv, of t k] by (simp split: if_splits)
  next
    case (9 k)
    then have le: "m_atomic (objs (ws w) k) \<le> int (card (woken w k))" using wait_invD(9) [OF inv, of k] by simp
    show ?case
    proof (cases "self_of w \<in> woken w k")
      case True
      then have "k = m" "card (woken w k) > 0" using self by (auto simp: woken_def card_gt_0_iff)
      then show ?thesis using le True by (simp add: woken card_Diff_singleton)
    next
      case False
      then show ?thesis using le woken [of k] by (cases "k = m") simp_all
    qed
  qed (use v wait_invD [OF inv] in simp_all)
qed

lemma block_inv:
  assumes inv: "wait_inv owner idle w" and self: "waits_for w (self_of w) = None \<or> waits_for w (self_of w) = Some m"
    and v: "m_atomic (objs (ws w) m) = 0" and idle: "self_of w \<noteq> idle"
  obtains st where "wait_on (ws w) m = Some st" "wait_inv owner idle (w\<lparr>ws := st, waits_for := (waits_for w)(self_of w \<mapsto> m)\<rparr>)"
proof -
  let ?s = "sched (ws w)" and ?self = "self_of w"
  have "op_allowed idle ?s Op_Suspend_Self" using idle by simp
  with wait_invD(1) [OF inv] obtain s zs where s: "kernel_step Op_Suspend_Self ?s = Some s" "sched_inv idle s"
    "current s # ready s = queue_after Op_Suspend_Self ?s @ zs"
    and zs: "\<forall>t \<in> set zs. Op_Suspend_Self = Op_Schedule \<and> t = current ?s \<or> Op_Suspend_Self = Op_Resume t"
    and same: "\<forall>u. status ?s u \<noteq> None \<and> u \<notin> set (current ?s # ready ?s) \<and> target Op_Suspend_Self \<noteq> Some u \<longrightarrow> status s u = status ?s u"
    and own: "Op_Suspend_Self = Op_Suspend_Self \<longrightarrow> status s (current ?s) = Some TASK_STATUS_SUSPEND"
    by (rule kernel_step_ok)
  have none: "mlist (ws w) ?self = None" using inv by (rule self_not_waiting)
  define st where "st = (ws w)\<lparr>objs := (objs (ws w))(m := (objs (ws w) m)\<lparr>mwait := mwait (objs (ws w) m) @ [?self]\<rparr>),
    mlist := (mlist (ws w))(?self \<mapsto> m), sched := s\<rparr>"
  have st: "sched st = s" "mlist st = (mlist (ws w))(?self \<mapsto> m)" "m_atomic (objs st k) = m_atomic (objs (ws w) k)"
    "mwait (objs st k) = (if k = m then mwait (objs (ws w) m) @ [?self] else mwait (objs (ws w) k))" for k
    by (simp_all add: st_def)
  have eq: "wait_on (ws w) m = Some st" using s(1) none by (simp add: wait_on_def st_def Let_def)
  let ?w = "w\<lparr>ws := st, waits_for := (waits_for w)(?self \<mapsto> m)\<rparr>"
  have "?self \<notin> set (ready ?s)" using wait_invD(1) [OF inv] by (simp add: sched_inv_def)
  then have run: "runnable ?w = runnable w - {?self}" using set_run_queue [OF s(3)] zs st(1) by auto
  have woken: "woken ?w k = woken w k" if "k \<noteq> m" for k
  proof -
    have "waits_for w ?self \<noteq> Some k" using that self by auto
    then show ?thesis unfolding woken_def run using that by auto
  qed
  show thesis
  proof (rule that [OF eq], unfold wait_inv_def, intro conjI allI impI, goal_cases)
    case (4 k)
    then show ?case using wait_invD(4,5) [OF inv] none by (simp add: st)
  next
    case (5 k t)
    then show ?case using wait_invD(5) [OF inv, of t k] none by (auto simp: st)
  next
    case (6 t k)
    then show ?case using wait_invD(6) [OF inv, of t k] by (auto simp: st split: if_splits)
  next
    case (7 t k)
    then show ?case
    proof (cases "t = ?self")
      case False
      then have t: "mlist (ws w) t = Some k" using 7 by (simp add: st)
      then show ?thesis using wait_invD(7) [OF inv t] suspended_not_runnable [OF inv t] same by (simp add: st)
    qed (use own in \<open>simp add: st\<close>)
  next
    case (8 t k)
    then show ?case using wait_invD(8) [OF inv, of t k] run by (simp add: st split: if_splits)
  next
    case (9 k)
    then show ?case using wait_invD(9) [OF inv, of k] woken [of k] v by (cases "k = m") (simp_all add: st)
  qed (use s(2) wait_invD [OF inv] in \<open>simp_all add: st\<close>)
qed

lemma int_length_remove1: "x \<in> set xs \<Longrightarrow> int (length (remove1 x xs)) = int (length xs) - 1"
  by (induction xs) auto

lemma release_none_inv:
  assumes inv: "wait_inv owner idle w" and owner: "owner \<longrightarrow> self_of w \<in> set (held w m)" and bound: "m_atomic (objs (ws w) m) < 2 ^ 31 - 1" and empty: "mwait (objs (ws w) m) = []"
  shows "wait_inv owner idle (w\<lparr>ws := set_atomic (ws w) m (m_atomic (objs (ws w) m) + 1), held := (held w)(m := remove1 (self_of w) (held w m))\<rparr>)"
    (is "wait_inv owner idle ?w")
proof -
  have woken: "woken ?w k = woken w k" for k by (simp add: woken_def)
  show ?thesis
    unfolding wait_inv_def
  proof (intro conjI allI impI, goal_cases)
    case (2 k)
    then show ?case using wait_invD(11) [OF inv, of k] bound by (cases "k = m") simp_all
  next
    case (3 k)
    then have "self_of w \<in> set (held w m)" using owner by simp
    from int_length_remove1 [OF this] show ?case using wait_invD(3) [OF inv, of k] 3 by (cases "k = m") simp_all
  next
    case (8 t k)
    then show ?case using wait_invD(8) [OF inv, of t k] by simp
  next
    case (9 k)
    then show ?case using wait_invD(9) [OF inv, of k] woken [of k] empty by (cases "k = m") simp_all
  qed (use wait_invD [OF inv] in simp_all)
qed

lemma release_wake_inv:
  assumes inv: "wait_inv owner idle w" and owner: "owner \<longrightarrow> self_of w \<in> set (held w m)" and bound: "m_atomic (objs (ws w) m) < 2 ^ 31 - 1" and waiters: "mwait (objs (ws w) m) = p # ps"
  obtains st where "wake_first (set_atomic (ws w) m (m_atomic (objs (ws w) m) + 1)) m = Some st"
    "wait_inv owner idle (w\<lparr>ws := st, held := (held w)(m := remove1 (self_of w) (held w m))\<rparr>)"
proof -
  let ?s = "sched (ws w)" and ?self = "self_of w" and ?v = "m_atomic (objs (ws w) m)"
  have p: "mlist (ws w) p = Some m" using wait_invD(5) [OF inv, of p m] waiters by simp
  note p' = wait_invD(6) [OF inv p] wait_invD(7) [OF inv p] suspended_not_runnable [OF inv p]
  have "op_allowed idle ?s (Op_Resume p)" using p'(2) by simp
  with wait_invD(1) [OF inv] obtain s zs where s: "kernel_step (Op_Resume p) ?s = Some s" "sched_inv idle s"
    "current s # ready s = queue_after (Op_Resume p) ?s @ zs"
    and zs: "\<forall>t \<in> set zs. Op_Resume p = Op_Schedule \<and> t = current ?s \<or> Op_Resume p = Op_Resume t"
    and same: "\<forall>u. status ?s u \<noteq> None \<and> u \<notin> set (current ?s # ready ?s) \<and> target (Op_Resume p) \<noteq> Some u \<longrightarrow> status s u = status ?s u"
    and "Op_Resume p = Op_Suspend_Self \<longrightarrow> status s (current ?s) = Some TASK_STATUS_SUSPEND"
    and queued: "\<forall>t. Op_Resume p = Op_Resume t \<and> status ?s t = Some TASK_STATUS_SUSPEND \<longrightarrow> t \<in> set zs"
    by (rule kernel_step_ok)
  define st where "st = (set_atomic (ws w) m (?v + 1))\<lparr>objs := (objs (set_atomic (ws w) m (?v + 1)))(m := (objs (set_atomic (ws w) m (?v + 1)) m)\<lparr>mwait := ps\<rparr>),
    mlist := (mlist (ws w))(p := None), sched := s\<rparr>"
  have st: "sched st = s" "mlist st = (mlist (ws w))(p := None)" "m_atomic (objs st k) = (if k = m then ?v + 1 else m_atomic (objs (ws w) k))"
    "mwait (objs st k) = (if k = m then ps else mwait (objs (ws w) k))" for k
    by (simp_all add: st_def)
  have eq: "wake_first (set_atomic (ws w) m (?v + 1)) m = Some st" using s(1) waiters by (simp add: wake_first_def st_def Let_def)
  let ?w = "w\<lparr>ws := st, held := (held w)(m := remove1 ?self (held w m))\<rparr>"
  have "p \<in> set zs" using queued p'(2) by simp
  moreover have "\<forall>t \<in> set zs. t = p" using zs by simp
  ultimately have "set zs = {p}" by blast
  then have run: "runnable ?w = insert p (runnable w)" using set_run_queue [OF s(3)] st(1) by simp
  have woken: "woken ?w k = (if k = m then insert p (woken w m) else woken w k)" for k
    unfolding woken_def run using p'(1) by auto
  have fresh: "p \<notin> woken w m" using p'(3) by (simp add: woken_def)
  show thesis
  proof (rule that [OF eq], unfold wait_inv_def, intro conjI allI impI, goal_cases)
    case (2 k)
    then show ?case using wait_invD(11) [OF inv, of k] bound by (cases "k = m") (simp_all add: st)
  next
    case (3 k)
    then have "?self \<in> set (held w m)" using owner by simp
    from int_length_remove1 [OF this] show ?case using wait_invD(3) [OF inv, of k] 3 by (cases "k = m") (simp_all add: st)
  next
    case (4 k)
    then show ?case using wait_invD(4) [OF inv, of k] waiters by (cases "k = m") (simp_all add: st)
  next
    case (5 k t)
    then show ?case using wait_invD(5) [OF inv, of t k] wait_invD(4) [OF inv, of m] waiters p by (cases "k = m") (auto simp: st)
  next
    case (6 t k)
    then show ?case using wait_invD(6) [OF inv, of t k] by (simp add: st split: if_splits)
  next
    case (7 t k)
    then have t: "t \<noteq> p" "mlist (ws w) t = Some k" by (simp_all add: st split: if_splits)
    then show ?case using wait_invD(7) [OF inv t(2)] suspended_not_runnable [OF inv t(2)] same by (simp add: st)
  next
    case (8 t k)
    then show ?case using wait_invD(8) [OF inv, of t k] unfolding run by (simp add: st split: if_splits)
  next
    case (9 k)
    then show ?case using wait_invD(9) [OF inv, of k] woken [of k] fresh waiters by (cases "k = m") (simp_all add: st)
  qed (use s(2) in \<open>simp_all add: st\<close>)
qed

lemma sint_word_of_int_32: "\<lbrakk>- (2 ^ 31) \<le> v; v < 2 ^ 31\<rbrakk> \<Longrightarrow> sint (word_of_int v :: u32) = v"
  by (simp add: signed_of_int signed_take_bit_int_eq_self)

lemma atomic_add_eq: "\<lbrakk>- (2 ^ 31) \<le> m_atomic (objs st m) + d; m_atomic (objs st m) + d < 2 ^ 31\<rbrakk>
    \<Longrightarrow> atomic_add st m d = set_atomic st m (m_atomic (objs st m) + d)"
  unfolding atomic_add_def by (subst sint_word_of_int_32) auto

section \<open>The contract of an object to wait on\<close>

locale wait_lock =
  fixes acquire :: "sync_t \<Rightarrow> obj_ptr \<Rightarrow> (sync_t \<times> bool) option"
    and release :: "sync_t \<Rightarrow> obj_ptr \<Rightarrow> sync_t option"
    and owner :: bool
  assumes acquire_eq: "\<lbrakk>v = m_atomic (objs st m); v \<in> {0 ..< 2 ^ 31}; owner \<longrightarrow> v \<le> 1\<rbrakk>
      \<Longrightarrow> acquire st m = (if 0 < v then Some (set_atomic st m (v - 1), True) else Option.bind (wait_on st m) (\<lambda>st. Some (st, False)))"
    and release_eq: "\<lbrakk>v = m_atomic (objs st m); v \<in> {0 ..< 2 ^ 31 - 1}; owner \<longrightarrow> v = 0\<rbrakk> \<Longrightarrow> release st m = wake_first (set_atomic st m (v + 1)) m"
begin

lemma acquire_step:
  assumes inv: "wait_inv owner idle w" and self: "waits_for w (self_of w) = None \<or> waits_for w (self_of w) = Some m" "self_of w \<noteq> idle"
  obtains st where "acquire (ws w) m = Some (st, 0 < m_atomic (objs (ws w) m))"
    "wait_inv owner idle (if 0 < m_atomic (objs (ws w) m)
       then w\<lparr>ws := st, waits_for := (waits_for w)(self_of w := None), held := (held w)(m := self_of w # held w m)\<rparr>
       else w\<lparr>ws := st, waits_for := (waits_for w)(self_of w \<mapsto> m)\<rparr>)"
proof -
  let ?v = "m_atomic (objs (ws w) m)"
  have v: "?v \<in> {0 ..< 2 ^ 31}" "owner \<longrightarrow> ?v \<le> 1" using wait_invD(3,11) [OF inv, of m] by auto
  note eq = acquire_eq [OF refl v]
  show thesis
  proof (cases "0 < ?v")
    case True
    then show thesis using eq acquire_inv [OF inv self(1) True] by (intro that [of "set_atomic (ws w) m (?v - 1)"]) simp_all
  next
    case False
    then have "?v = 0" using v(1) by simp
    from inv self(1) this self(2) obtain st where "wait_on (ws w) m = Some st" "wait_inv owner idle (w\<lparr>ws := st, waits_for := (waits_for w)(self_of w \<mapsto> m)\<rparr>)"
      by (rule block_inv)
    then show thesis using eq False by (intro that [of st]) simp_all
  qed
qed

lemma release_step:
  assumes inv: "wait_inv owner idle w" and own: "owner \<longrightarrow> self_of w \<in> set (held w m)" and bound: "m_atomic (objs (ws w) m) < 2 ^ 31 - 1"
  obtains st where "release (ws w) m = Some st" "wait_inv owner idle (w\<lparr>ws := st, held := (held w)(m := remove1 (self_of w) (held w m))\<rparr>)"
proof -
  let ?v = "m_atomic (objs (ws w) m)"
  have v: "?v \<in> {0 ..< 2 ^ 31 - 1}" using wait_invD(2) [OF inv, of m] bound by simp
  have "owner \<longrightarrow> ?v = 0"
  proof
    assume owner
    then have "held w m \<noteq> []" using own by auto
    then have "0 < length (held w m)" by simp
    then show "?v = 0" using wait_invD(3) [OF inv \<open>owner\<close>, of m] wait_invD(2) [OF inv, of m] by linarith
  qed
  note eq = release_eq [OF refl v this]
  show thesis
  proof (cases "mwait (objs (ws w) m)")
    case Nil
    then show thesis using eq release_none_inv [OF inv own bound Nil] by (intro that [of "set_atomic (ws w) m (?v + 1)"]) (simp_all add: wake_first_def)
  next
    case (Cons p ps)
    with inv own bound obtain st where "wake_first (set_atomic (ws w) m (?v + 1)) m = Some st"
      "wait_inv owner idle (w\<lparr>ws := st, held := (held w)(m := remove1 (self_of w) (held w m))\<rparr>)"
      by (rule release_wake_inv)
    then show thesis using eq by (intro that [of st]) simp_all
  qed
qed

lemma wait_step_inv:
  assumes "wait_step acquire release owner idle w w'" "wait_inv owner idle w"
  shows "wait_inv owner idle w'"
  using assms(1)
proof cases
  case (step_acquire m st)
  obtain st' where st': "acquire (ws w) m = Some (st', 0 < m_atomic (objs (ws w) m))"
    "wait_inv owner idle (if 0 < m_atomic (objs (ws w) m)
       then w\<lparr>ws := st', waits_for := (waits_for w)(self_of w := None), held := (held w)(m := self_of w # held w m)\<rparr>
       else w\<lparr>ws := st', waits_for := (waits_for w)(self_of w \<mapsto> m)\<rparr>)"
    using assms(2) step_acquire(2,3) by (rule acquire_step)
  then show ?thesis using step_acquire(1,4) by simp
next
  case (step_block m st)
  obtain st' where st': "acquire (ws w) m = Some (st', 0 < m_atomic (objs (ws w) m))"
    "wait_inv owner idle (if 0 < m_atomic (objs (ws w) m)
       then w\<lparr>ws := st', waits_for := (waits_for w)(self_of w := None), held := (held w)(m := self_of w # held w m)\<rparr>
       else w\<lparr>ws := st', waits_for := (waits_for w)(self_of w \<mapsto> m)\<rparr>)"
    using assms(2) step_block(2,3) by (rule acquire_step)
  then show ?thesis using step_block(1,4) by simp
next
  case (step_release m st)
  obtain st' where "release (ws w) m = Some st'" "wait_inv owner idle (w\<lparr>ws := st', held := (held w)(m := remove1 (self_of w) (held w m))\<rparr>)"
    using assms(2) step_release(3,4) by (rule release_step)
  then show ?thesis using step_release(1,5) by simp
next
  case (step_other op s)
  then show ?thesis using other_inv [OF assms(2)] by simp
qed

lemma wait_steps_inv: "\<lbrakk>(wait_step acquire release owner idle)\<^sup>*\<^sup>* w w'; wait_inv owner idle w\<rbrakk> \<Longrightarrow> wait_inv owner idle w'"
  by (induction rule: rtranclp_induct) (simp_all add: wait_step_inv)

end

interpretation mutex_lk: wait_lock mutex_lock mutex_unlock True
proof
  fix v :: int and st :: sync_t and m
  assume "v = m_atomic (objs st m)" "v \<in> {0 ..< 2 ^ 31}" "True \<longrightarrow> v \<le> 1"
  moreover from this have "v = 0 \<or> v = 1" by auto
  ultimately show "mutex_lock st m = (if 0 < v then Some (set_atomic st m (v - 1), True) else Option.bind (wait_on st m) (\<lambda>st. Some (st, False)))"
    by (auto simp: mutex_lock_def atomic_cmpxchg_def)
qed (simp add: mutex_unlock_def atomic_cmpxchg_def)

interpretation semaphore_lk: wait_lock semaphore_down semaphore_up False
  by unfold_locales (simp_all add: semaphore_down_def semaphore_up_def atomic_add_eq Let_def)

section \<open>Properties\<close>

definition wait_start :: "sched_t \<Rightarrow> mutex_t \<Rightarrow> wait_sys" where
  "wait_start s m = \<lparr>ws = \<lparr>sched = s, objs = \<lambda>_. m, mlist = \<lambda>_. None\<rparr>, waits_for = \<lambda>_. None, held = \<lambda>_. []\<rparr>"

lemma wait_start_inv:
  "\<lbrakk>sched_inv idle s; mwait m = []; m_atomic m \<in> {0 ..< 2 ^ 31}; owner \<longrightarrow> m_atomic m = 1\<rbrakk> \<Longrightarrow> wait_inv owner idle (wait_start s m)"
  by (simp add: wait_inv_def wait_start_def)

text \<open>C14: However the threads interleave, a mutex never has two holders, and no wake-up is lost: when threads wait for a mutex
  that nobody holds, one of the waiters taken off the list is current or ready and tries again.\<close>

theorem mutex_exclusive:
  assumes "sched_inv idle s" "(wait_step mutex_lock mutex_unlock True idle)\<^sup>*\<^sup>* (wait_start s mutex_init) w"
  shows "length (held w m) \<le> 1 \<and> (mwait (objs (ws w) m) \<noteq> [] \<and> held w m = [] \<longrightarrow> (\<exists>t \<in> runnable w. waits_for w t = Some m))"
proof -
  have "wait_inv True idle (wait_start s mutex_init)" using assms(1) by (intro wait_start_inv) (simp_all add: mutex_init_def)
  with assms(2) have inv: "wait_inv True idle w" by (rule mutex_lk.wait_steps_inv)
  have count: "m_atomic (objs (ws w) m) + int (length (held w m)) = 1" using wait_invD(3) [OF inv] by simp
  have "woken w m \<noteq> {}" if "mwait (objs (ws w) m) \<noteq> []" "held w m = []"
    using wait_invD(9) [OF inv that(1)] count that(2) by auto
  then have "mwait (objs (ws w) m) \<noteq> [] \<and> held w m = [] \<longrightarrow> (\<exists>t \<in> runnable w. waits_for w t = Some m)"
    unfolding woken_def by blast
  then show ?thesis using count wait_invD(2) [OF inv, of m] by simp
qed

text \<open>The second thread takes the lock.\<close>

theorem mutex_exclusive_witness:
  "\<exists>w. (wait_step mutex_lock mutex_unlock True 0)\<^sup>*\<^sup>* (wait_start two_threads mutex_init) w \<and> held w 0 = [1] \<and> length (held w 0) \<le> 1"
proof -
  let ?w = "wait_start two_threads mutex_init" and ?R = "wait_step mutex_lock mutex_unlock True 0"
  obtain s zs where s: "kernel_step Op_Schedule two_threads = Some s" "sched_inv 0 s" "current s # ready s = ready two_threads @ zs"
    using kernel_step_ex [OF two_threads_inv, of Op_Schedule] by auto
  then have cur: "current s = 1" by (simp add: two_threads_def)
  let ?w1 = "?w\<lparr>ws := (ws ?w)\<lparr>sched := s\<rparr>\<rparr>"
  let ?w2 = "?w1\<lparr>ws := set_atomic (ws ?w1) 0 0, waits_for := (waits_for ?w1)(self_of ?w1 := None), held := (held ?w1)(0 := self_of ?w1 # held ?w1 0)\<rparr>"
  have 1: "?R ?w ?w1" by (rule step_other [where op = Op_Schedule]) (use s(1) in \<open>simp_all add: wait_start_def\<close>)
  have 2: "?R ?w1 ?w2"
    by (rule step_acquire) (simp_all add: wait_start_def cur mutex_lock_def atomic_cmpxchg_def mutex_init_def)
  have run: "?R\<^sup>*\<^sup>* ?w ?w2" using 1 2 by (meson rtranclp.rtrancl_into_rtrancl rtranclp.rtrancl_refl)
  have "held ?w2 0 = [1]" using cur by (simp add: wait_start_def)
  then show ?thesis using mutex_exclusive [OF two_threads_inv run, of 0] run by (intro exI [of _ ?w2]) blast
qed

text \<open>C25: A semaphore loses no wake-up: while threads wait on it, at least as many woken threads are current or ready as
  there are units to take, so no unit stays unused while a thread sleeps.\<close>

theorem semaphore_no_lost_wakeup:
  assumes "sched_inv idle s" "uint count < 2 ^ 31" "(wait_step semaphore_down semaphore_up False idle)\<^sup>*\<^sup>* (wait_start s (semaphore_init count)) w"
    and "mwait (objs (ws w) m) \<noteq> []"
  shows "0 \<le> m_atomic (objs (ws w) m) \<and> m_atomic (objs (ws w) m) \<le> int (card {t \<in> runnable w. waits_for w t = Some m})"
proof -
  have "- (2 ^ 31) \<le> uint count" by (rule order_trans [OF _ uint_ge_0]) simp
  then have "sint count = uint count" using sint_word_of_int_32 [of "uint count"] assms(2) by simp
  then have "wait_inv False idle (wait_start s (semaphore_init count))"
    using assms(1,2) by (intro wait_start_inv) (simp_all add: semaphore_init_def)
  with assms(3) have inv: "wait_inv False idle w" by (rule semaphore_lk.wait_steps_inv)
  show ?thesis
    by (intro conjI wait_invD(2) [OF inv] wait_invD(9) [OF inv assms(4), unfolded woken_def])
qed

text \<open>The second thread waits on a semaphore without units.\<close>

theorem semaphore_no_lost_wakeup_witness:
  "\<exists>w. (wait_step semaphore_down semaphore_up False 0)\<^sup>*\<^sup>* (wait_start two_threads (semaphore_init 0)) w \<and> mwait (objs (ws w) 0) = [1]
     \<and> m_atomic (objs (ws w) 0) \<le> int (card {t \<in> runnable w. waits_for w t = Some 0})"
proof -
  let ?w = "wait_start two_threads (semaphore_init 0)" and ?R = "wait_step semaphore_down semaphore_up False 0"
  obtain s zs where s: "kernel_step Op_Schedule two_threads = Some s" "sched_inv 0 s" "current s # ready s = ready two_threads @ zs"
    using kernel_step_ex [OF two_threads_inv, of Op_Schedule] by auto
  then have cur: "current s = 1" by (simp add: two_threads_def)
  obtain s' where s': "kernel_step Op_Suspend_Self s = Some s'" using kernel_step_ex [OF s(2), of Op_Suspend_Self] cur by auto
  let ?w1 = "?w\<lparr>ws := (ws ?w)\<lparr>sched := s\<rparr>\<rparr>"
  let ?st = "(ws ?w1)\<lparr>objs := (objs (ws ?w1))(0 := (objs (ws ?w1) 0)\<lparr>mwait := [1]\<rparr>), mlist := (mlist (ws ?w1))(1 \<mapsto> 0), sched := s'\<rparr>"
  let ?w2 = "?w1\<lparr>ws := ?st, waits_for := (waits_for ?w1)(self_of ?w1 \<mapsto> 0)\<rparr>"
  have 1: "?R ?w ?w1" by (rule step_other [where op = Op_Schedule]) (use s(1) in \<open>simp_all add: wait_start_def\<close>)
  have 2: "?R ?w1 ?w2"
    by (rule step_block) (use s' in \<open>simp_all add: wait_start_def cur semaphore_down_def semaphore_init_def wait_on_def Let_def\<close>)
  have run: "?R\<^sup>*\<^sup>* ?w ?w2" using 1 2 by (meson rtranclp.rtrancl_into_rtrancl rtranclp.rtrancl_refl)
  have "mwait (objs (ws ?w2) 0) = [1]" by (simp add: wait_start_def)
  then show ?thesis using semaphore_no_lost_wakeup [OF two_threads_inv _ run, of 0] run by (intro exI [of _ ?w2] conjI) simp_all
qed

end
