(* ===== verification/Table_Tree.thy ===== *)
theory Table_Tree
  imports Kalloc
begin

text \<open>
  Trees of tables in the memory of the kernel heap. A table is a page that holds 512 words of eight bytes. The words of an inner table
  refer to the tables of the next level, those of the lowest level are the values. The page tables of
  \<^verbatim>\<open>arch/vm.c\<close> and the radix trees of \<^verbatim>\<open>lib/radix.c\<close> are such trees: they differ in the number of levels
  and in how a word refers to a table, which are the parameters of the interface \<open>table_tree\<close>.
\<close>

section \<open>Definitions\<close>

text \<open>Access to a little-endian 64-bit word.\<close>

definition load64 :: "memory \<Rightarrow> u64 \<Rightarrow> u64" where
  "load64 m a = foldr (\<lambda>i v. push_bit 8 v OR ucast (m (a + of_nat i))) [0..<8] 0"

definition store64 :: "memory \<Rightarrow> u64 \<Rightarrow> u64 \<Rightarrow> memory" where
  "store64 m a v = (\<lambda>x. if x - a < 8 then ucast (drop_bit (8 * unat (x - a)) v) else m x)"

text \<open>An element of an array of words.\<close>

definition elem_ptr :: "u64 \<Rightarrow> u64 \<Rightarrow> u64" where "elem_ptr a i = a + 8 * i"

section \<open>Words in memory\<close>

lemma bit_load64: "bit (load64 m a) n \<longleftrightarrow> n < 64 \<and> bit (m (a + of_nat (n div 8))) (n mod 8)"
proof -
  have "bit (foldr (\<lambda>i v. push_bit 8 v OR ucast (m (a + of_nat i))) [j..<8] (0 :: u64)) n
     \<longleftrightarrow> n < 64 - 8 * j \<and> bit (m (a + of_nat (j + n div 8))) (n mod 8)" if "j \<le> 8" for j n
    using that
  proof (induction "8 - j" arbitrary: j n)
    case (Suc k)
    then have j: "j < 8" "k = 8 - Suc j" by auto
    have "[j..<8] = j # [Suc j..<8]" using j(1) by (simp add: upt_conv_Cons)
    moreover have "n - 8 < 64 - 8 * Suc j \<longleftrightarrow> n < 64 - 8 * j" if "8 \<le> n" using that j(1) by auto
    moreover have "(n - 8) div 8 = n div 8 - 1" "(n - 8) mod 8 = n mod 8" "0 < n div 8" if "8 \<le> n"
      using that by (auto simp: le_div_geq le_mod_geq)
    moreover have "n < 64" if "n < 64 - 8 * j" using that by simp
    moreover have "n div 8 = 0 \<and> n mod 8 = n" if "\<not> 8 \<le> n" using that by simp
    moreover have "\<not> bit (x :: u8) n" if "8 \<le> n" for x
      using that bit_imp_le_length [of x n] by auto
    ultimately show ?case using Suc.hyps(1) [OF j(2), of "n - 8"] j(1)
      by (cases "8 \<le> n") (auto simp: bit_simps)
  qed simp
  from this [of 0 n] show ?thesis by (simp add: load64_def)
qed


lemma load64_cong: "(\<And>i. i < 8 \<Longrightarrow> m (a + of_nat i) = m' (a + of_nat i)) \<Longrightarrow> load64 m a = load64 m' a"
  by (rule bit_word_eqI) (simp add: bit_load64)

lemma load64_store64 [simp]: "load64 (store64 m a v) a = v"
proof (rule bit_word_eqI)
  fix n assume "n < LENGTH(64)"
  then have n: "n < 64" by simp
  then have "n div 8 < 8" by simp
  then have "(of_nat (n div 8) :: u64) < 8" "unat (of_nat (n div 8) :: u64) = n div 8" by (simp_all add: word_less_nat_alt)
  then show "bit (load64 (store64 m a v) a) n = bit v n" using n by (simp add: bit_load64 store64_def bit_simps)
qed

lemma load64_zero: "(\<And>i. i < 8 \<Longrightarrow> m (a + of_nat i) = 0) \<Longrightarrow> load64 m a = 0"
  by (rule bit_word_eqI) (simp add: bit_load64)

abbreviation aligned :: "u64 \<Rightarrow> bool" where "aligned t \<equiv> unat t mod 4096 = 0"

text \<open>The bytes of the page at \<open>t\<close>.\<close>

definition in_page :: "u64 \<Rightarrow> u64 \<Rightarrow> bool" where
  "in_page t x \<longleftrightarrow> unat x div 4096 * 4096 = unat t"

lemma in_page_unique: "\<lbrakk>in_page t x; in_page t' x\<rbrakk> \<Longrightarrow> t = t'"
  by (simp add: in_page_def word_unat_eq_iff)

lemma aligned_space: "aligned t \<Longrightarrow> unat t + 4096 \<le> 2 ^ 64"
  using unsigned_less [of t, where ?'a = nat] by (auto simp: mod_eq_0_iff_dvd)

lemma in_pageI: "\<lbrakk>aligned t; i < 4096\<rbrakk> \<Longrightarrow> in_page t (t + of_nat i)"
  using aligned_space [of t] by (auto simp: in_page_def unat_add_64 simp: mod_eq_0_iff_dvd)

lemma in_pageE:
  assumes "in_page t x"
  obtains i where "i < 4096" "x = t + of_nat i"
proof (rule that)
  show "unat (x - t) < 4096" "x = t + of_nat (unat (x - t))"
  proof -
    have "unat t \<le> unat x" "unat x < unat t + 4096" using assms div_mult_mod_eq [of "unat x" 4096] mod_less_divisor [of 4096 "unat x"] unfolding in_page_def by linarith+
    then show "unat (x - t) < 4096" by (simp add: unat_diff_64 word_le_nat_alt)
  qed simp
qed

lemma unat_elem_ptr:
  assumes "aligned t" "i < 512" "k < 8"
  shows "unat (elem_ptr t i + of_nat k) = unat t + 8 * unat i + k"
proof -
  have i: "unat i < 512" using assms(2) by (simp add: word_less_nat_alt)
  then have "unat (8 * i) = 8 * unat i" by (simp add: unat_word_ariths)
  then have "unat (t + 8 * i) = unat t + 8 * unat i" using aligned_space [OF assms(1)] i by (subst unat_add_64) simp_all
  then show ?thesis unfolding elem_ptr_def using aligned_space [OF assms(1)] i assms(3) by (subst unat_add_64) simp_all
qed

lemma entry_in_page: "\<lbrakk>aligned t; i < 512; k < 8\<rbrakk> \<Longrightarrow> in_page t (elem_ptr t i + of_nat k)"
  by (auto simp: in_page_def unat_elem_ptr word_less_nat_alt mod_eq_0_iff_dvd)

lemma entry_apart:
  assumes "aligned t" "i < 512" "aligned t'" "j < 512" "(t, i) \<noteq> (t', j)" "k < 8"
  shows "\<not> elem_ptr t i + of_nat k - elem_ptr t' j < 8"
proof
  let ?x = "elem_ptr t i + of_nat k" and ?a = "elem_ptr t' j"
  assume less: "?x - ?a < 8"
  have x: "unat ?x = unat t + 8 * unat i + k" using assms by (intro unat_elem_ptr)
  have a: "unat ?a = unat t' + 8 * unat j" using unat_elem_ptr [OF assms(3,4), of 0] by simp
  obtain d where d: "?x = ?a + of_nat d" "d < 8" using less by (intro that [of "unat (?x - ?a)"]) (simp_all add: word_less_nat_alt)
  have "unat ?x = unat t' + 8 * unat j + d" using unat_elem_ptr [OF assms(3,4) d(2)] d(1) by simp
  then have eq: "unat t + 8 * unat i + k = unat t' + 8 * unat j + d" using x by simp
  obtain q q' where q: "unat t = 4096 * q" "unat t' = 4096 * q'" using assms(1,3) by (metis mod_eq_0_iff_dvd dvdE)
  have b: "unat i < 512" "unat j < 512" using assms(2,4) by (simp_all add: word_less_nat_alt)
  have "512 * q + unat i = (unat t + 8 * unat i + k) div 8" using q(1) assms(6) by simp
  also have "\<dots> = 512 * q' + unat j" unfolding eq using q(2) d(2) by simp
  finally have *: "512 * q + unat i = 512 * q' + unat j" .
  then have "unat i = unat j" using b by (metis mod_less mod_mult_self4)
  then show False using * q assms(5) by (simp add: word_unat_eq_iff)
qed

lemma load64_other:
  "\<lbrakk>aligned t; i < 512; aligned t'; j < 512; (t, i) \<noteq> (t', j)\<rbrakk>
    \<Longrightarrow> load64 (store64 m (elem_ptr t' j) v) (elem_ptr t i) = load64 m (elem_ptr t i)"
  by (rule load64_cong) (simp add: store64_def entry_apart)

lemma store64_outside: "\<lbrakk>aligned t; i < 512; \<not> in_page t x\<rbrakk> \<Longrightarrow> store64 m (elem_ptr t i) v x = m x"
  using entry_in_page [of t i "unat (x - elem_ptr t i)"] by (auto simp: store64_def word_less_nat_alt)

section \<open>The invariant\<close>

text \<open>
  The tables of a tree, by the indices that lead to them from the root. The words of the inner tables refer to a table
  exactly where there is one below, and each table is a page of its own that the heap has handed out.
\<close>

type_synonym table_map = "u64 list \<rightharpoonup> u64"

definition entry :: "kernel_heap \<Rightarrow> u64 \<Rightarrow> u64 \<Rightarrow> u64" where
  "entry h t i = load64 (bytes h) (elem_ptr t i)"

definition tree_inv :: "nat \<Rightarrow> (u64 \<Rightarrow> u64 option) \<Rightarrow> kernel_heap \<Rightarrow> object set \<Rightarrow> u64 \<Rightarrow> table_map \<Rightarrow> bool" where
  "tree_inv depth decode h V root T \<longleftrightarrow> heap_ok h V \<and> T [] = Some root
     \<and> (\<forall>p t. T p = Some t \<longrightarrow> aligned t \<and> t \<noteq> 0 \<and> length p \<le> depth \<and> (\<exists>v \<in> V. unat t \<in> object_bytes v)) \<and> inj_on T (dom T)
     \<and> (\<forall>p i. T (p @ [i]) \<noteq> None \<longrightarrow> T p \<noteq> None)
     \<and> (\<forall>p t i. T p = Some t \<and> length p < depth \<and> i < 512 \<longrightarrow> decode (entry h t i) = T (p @ [i]))"

lemma tree_invD:
  assumes "tree_inv depth decode h V root T"
  shows "heap_ok h V" "T [] = Some root" "T p = Some t \<Longrightarrow> aligned t" "T p = Some t \<Longrightarrow> t \<noteq> 0" "T p = Some t \<Longrightarrow> length p \<le> depth"
    "T p = Some t \<Longrightarrow> \<exists>v \<in> V. unat t \<in> object_bytes v" "inj_on T (dom T)" "T (p @ [i]) \<noteq> None \<Longrightarrow> T p \<noteq> None"
    "\<lbrakk>T p = Some t; length p < depth; i < 512\<rbrakk> \<Longrightarrow> decode (entry h t i) = T (p @ [i])"
  using assms unfolding tree_inv_def by blast+

lemma tree_inv_inj: "\<lbrakk>tree_inv depth decode h V root T; T p = Some t; T q = Some t\<rbrakk> \<Longrightarrow> p = q"
  using tree_invD(7) [of depth decode h V root T] by (metis domI inj_onD)

lemma tree_inv_below:
  assumes "tree_inv depth decode h V root T"
  shows "T p = None \<Longrightarrow> T (p @ q) = None"
proof (induction q rule: rev_induct)
  case (snoc i q)
  then show ?case using tree_invD(8) [OF assms, of "p @ q" i] by (cases "T ((p @ q) @ [i])") auto
qed simp

text \<open>The word of the lowest level at a place; it is 0 where there is no table.\<close>

definition leaf :: "kernel_heap \<Rightarrow> table_map \<Rightarrow> u64 list \<Rightarrow> u64 \<Rightarrow> u64" where
  "leaf h T p i = (case T p of None \<Rightarrow> 0 | Some t \<Rightarrow> entry h t i)"

definition same_leaves :: "nat \<Rightarrow> kernel_heap \<Rightarrow> table_map \<Rightarrow> kernel_heap \<Rightarrow> table_map \<Rightarrow> bool" where
  "same_leaves depth h T h' T' \<longleftrightarrow> (\<forall>p i. length p = depth \<and> i < 512 \<longrightarrow> leaf h' T' p i = leaf h T p i)"

lemma same_leaves_refl [simp]: "same_leaves depth h T h T"
  by (simp add: same_leaves_def)

lemma same_leaves_trans: "\<lbrakk>same_leaves depth h T h1 T1; same_leaves depth h1 T1 h2 T2\<rbrakk> \<Longrightarrow> same_leaves depth h T h2 T2"
  by (simp add: same_leaves_def)

definition outside :: "table_map \<Rightarrow> u64 \<Rightarrow> bool" where
  "outside T x \<longleftrightarrow> (\<forall>p t. T p = Some t \<longrightarrow> \<not> in_page t x)"

lemma outside_mono: "\<lbrakk>outside T' x; T \<subseteq>\<^sub>m T'\<rbrakk> \<Longrightarrow> outside T x"
  by (auto simp: outside_def map_le_def dom_def)

text \<open>What a change of the tables keeps.\<close>

definition grows :: "kernel_heap \<Rightarrow> object set \<Rightarrow> table_map \<Rightarrow> kernel_heap \<Rightarrow> object set \<Rightarrow> table_map \<Rightarrow> bool" where
  "grows h V T h' V' T' \<longleftrightarrow> T \<subseteq>\<^sub>m T' \<and> V \<subseteq> V' \<and> (\<forall>x. outside T' x \<longrightarrow> bytes h' x = bytes h x)"

lemma grows_refl [simp]: "grows h V T h V T"
  by (simp add: grows_def)

lemma grows_trans: "\<lbrakk>grows h V T h1 V1 T1; grows h1 V1 T1 h2 V2 T2\<rbrakk> \<Longrightarrow> grows h V T h2 V2 T2"
  unfolding grows_def by (metis map_le_trans order_trans outside_mono)

section \<open>A page for a table\<close>

lemma fresh_table:
  assumes inv: "tree_inv depth decode h V root T" and new: "heap_ok h' (insert (a, k) V)" "(a, k) \<notin> V" "0 < k"
  shows "T p \<noteq> Some a"
proof
  assume p: "T p = Some a"
  from tree_invD(6) [OF inv p] obtain v where v: "v \<in> V" "unat a \<in> object_bytes v" by blast
  then have "(a, k) \<noteq> v" using new(2) by auto
  then have "disjnt (object_bytes (a, k)) (object_bytes v)" using kh.live_disjoint [OF new(1), of "(a, k)" v] v(1) by blast
  moreover have "unat a \<in> object_bytes (a, k)" using new(3) by (simp add: object_bytes_def)
  ultimately show False using v(2) by (auto simp: disjnt_iff)
qed

lemma zeroed_page:
  assumes ok: "heap_ok h V"
  obtains (none) "alloc_page h 1 = Some (h, 0)"
    | (some) h' a m k where "alloc_page h 1 = Some (h', a)" "a \<noteq> 0" "aligned a" "memset (bytes h') a 0 4096 = Some (m, a)" "0 < k" "(a, k) \<notin> V"
      "heap_ok h' (insert (a, k) V)" "\<forall>x. in_page a x \<longrightarrow> m x = 0" "\<forall>x. \<not> in_page a x \<longrightarrow> m x = bytes h x"
proof -
  have "0 < unat (1 :: u64)" "unat (1 :: u64) \<le> 2 ^ 20" by simp_all
  from alloc_page_ok [OF ok this] consider "alloc_page h 1 = Some (h, 0)"
    | h' a k where "alloc_page h 1 = Some (h', a)" "bytes h' = bytes h" "a \<noteq> 0" "aligned a" "1 \<le> k" "(a, k * 4096) \<notin> V"
      "heap_ok h' (insert (a, k * 4096) V)"
    by auto
  then show thesis
  proof cases
    case (2 h' a k)
    obtain m where m: "memset (bytes h') a 0 4096 = Some (m, a)"
      "\<And>i. i < unat (4096 :: u32) \<Longrightarrow> m (a + of_nat i) = ucast (0 :: u32)"
      "\<And>x. (\<And>i. i < unat (4096 :: u32) \<Longrightarrow> x \<noteq> a + of_nat i) \<Longrightarrow> m x = bytes h' x"
      by (rule memset_correct [of 4096 "bytes h'" a 0]) auto
    have "m x = 0" if "in_page a x" for x using that m(2) by (elim in_pageE) simp
    moreover have "m x = bytes h x" if "\<not> in_page a x" for x
      using that in_pageI [OF 2(4)] m(3) [of x] 2(2) by fastforce
    moreover have "0 < k * 4096" using 2(5) by simp
    ultimately show thesis using some [OF 2(1,3,4) m(1) _ 2(6,7)] by blast
  qed (rule none)
qed

lemma load64_zero_page: "\<lbrakk>aligned a; \<forall>x. in_page a x \<longrightarrow> m x = 0; i < 512\<rbrakk> \<Longrightarrow> load64 m (elem_ptr a i) = 0"
  by (rule load64_zero) (simp add: entry_in_page)

section \<open>The interface\<close>

locale table_tree =
  fixes depth :: nat and decode :: "u64 \<Rightarrow> u64 option" and encode :: "u64 \<Rightarrow> u64"
  assumes decode_0: "decode 0 = None"
    and decode_encode: "\<lbrakk>aligned a; a \<noteq> 0\<rbrakk> \<Longrightarrow> decode (encode a) = Some a"
begin

text \<open>A tree of one cleared table.\<close>

lemma single_table:
  assumes "heap_ok h (insert (a, k) V)" "0 < k" "aligned a" "a \<noteq> 0" "\<forall>x. in_page a x \<longrightarrow> bytes h x = 0"
  shows "tree_inv depth decode h (insert (a, k) V) a [[] \<mapsto> a]" "\<lbrakk>i < 512; 0 < depth \<or> p = []\<rbrakk> \<Longrightarrow> leaf h [[] \<mapsto> a] p i = 0"
  using assms load64_zero_page [OF assms(3,5)] decode_0
  by (auto simp: tree_inv_def leaf_def entry_def object_bytes_def split: if_splits)

text \<open>A cleared page linked into an entry that was not valid.\<close>

lemma link_table:
  assumes inv: "tree_inv depth decode h V root T" and p: "T p = Some t" "length p < depth" "i < 512" "T (p @ [i]) = None"
    and h': "heap_ok h' (insert (a, k) V)" "0 < k" "aligned a" "a \<noteq> 0" "(a, k) \<notin> V"
    and m: "\<forall>x. in_page a x \<longrightarrow> m x = 0" "\<forall>x. \<not> in_page a x \<longrightarrow> m x = bytes h x"
    and h2: "h2 = h'\<lparr>bytes := store64 m (elem_ptr t i) (encode a)\<rparr>"
  shows "tree_inv depth decode h2 (insert (a, k) V) root (T(p @ [i] \<mapsto> a))" and "same_leaves depth h T h2 (T(p @ [i] \<mapsto> a))"
    and "grows h V T h2 (insert (a, k) V) (T(p @ [i] \<mapsto> a))"
proof -
  let ?T = "T(p @ [i] \<mapsto> a)"
  note new = fresh_table [OF inv h'(1,5,2)]
  have t: "aligned t" "t \<noteq> a" using tree_invD(3) [OF inv p(1)] p(1) new [of p] by auto
  have old: "load64 m (elem_ptr u j) = entry h u j" if "aligned u" "u \<noteq> a" "j < 512" for u j
    unfolding entry_def by (rule load64_cong) (use that entry_in_page [OF that(1,3)] in_page_unique m(2) in blast)
  have zero: "load64 m (elem_ptr a j) = 0" if "j < 512" for j
    using load64_zero_page [OF h'(3) m(1) that] .
  have e: "entry h2 u j = (if u = a then 0 else if u = t \<and> j = i then encode a else entry h u j)" if "aligned u" "j < 512" for u j
    using load64_other [OF that t(1) p(3), of m "encode a"] old [OF that(1) _ that(2)] zero [OF that(2)] t(2)
    by (cases "u = t \<and> j = i") (auto simp: entry_def h2)
  have tab: "aligned u" "u \<noteq> a" if "T q = Some u" for q u using tree_invD(3) [OF inv that] that new [of q] by auto
  have below: "T (p @ [i] @ [j]) = None" for j using tree_invD(8) [OF inv, of "p @ [i]" j] p(4) by (cases "T (p @ [i] @ [j])") auto
  show "tree_inv depth decode h2 (insert (a, k) V) root ?T"
    unfolding tree_inv_def
  proof (intro conjI allI impI, goal_cases)
    case (6 q u)
    then show ?case using tree_invD(6) [OF inv, of q u] h'(2) by (cases "q = p @ [i]") (auto simp: object_bytes_def)
  next
    case 7
    have "\<forall>q \<in> dom T. T q \<noteq> Some a" using new by simp
    then show ?case using tree_invD(7) [OF inv] by (auto simp: inj_on_def)
  next
    case (8 q j)
    then show ?case using tree_invD(8) [OF inv, of q j] p(1) by (auto split: if_splits)
  next
    case (9 q u j)
    show ?case
    proof (cases "q = p @ [i]")
      case True
      then show ?thesis using 9 e [of a j] h'(3) below [of j] decode_0 by simp
    next
      case False
      then have q: "T q = Some u" using 9 by simp
      then have "u = t \<longleftrightarrow> q = p" using tree_inv_inj [OF inv q, of p] q p(1) by auto
      then show ?thesis using e [OF tab(1) [OF q], of j] tab(2) [OF q] 9 tree_invD(9) [OF inv q, of j] decode_encode [OF h'(3,4)]
        by auto
    qed
  qed (use tree_invD [OF inv] p(2) h' in \<open>auto simp: h2 split: if_splits\<close>)
  show "same_leaves depth h T h2 ?T"
    unfolding same_leaves_def
  proof (intro allI impI)
    fix q :: "u64 list" and j :: u64
    assume q: "length q = depth \<and> j < 512"
    show "leaf h2 ?T q j = leaf h T q j"
    proof (cases "T q")
      case None
      then show ?thesis using e [OF h'(3), of j] q by (simp add: leaf_def)
    next
      case (Some u)
      moreover have "u \<noteq> t" using p(1,2) tree_inv_inj [OF inv Some, of p] q by (cases "u = t") auto
      moreover have "q \<noteq> p @ [i]" using p(4) Some by (metis option.distinct(1))
      ultimately show ?thesis using e [OF tab(1) [OF Some], of j] q tab(2) [OF Some] by (auto simp: leaf_def)
    qed
  qed
  have "bytes h2 x = bytes h x" if "outside ?T x" for x
  proof -
    have "\<not> in_page a x" using that unfolding outside_def by (metis fun_upd_same)
    moreover have "\<not> in_page t x" using that [unfolded outside_def, rule_format, of p t] p(1) by simp
    ultimately show ?thesis using store64_outside [OF t(1) p(3)] m(2) by (simp add: h2)
  qed
  moreover have "T \<subseteq>\<^sub>m ?T" using p(4) by (simp add: map_le_def dom_def)
  ultimately show "grows h V T h2 (insert (a, k) V) ?T" by (auto simp: grows_def)
qed

text \<open>A word of the lowest level is written.\<close>

lemma store_leaf:
  assumes inv: "tree_inv depth decode h V root T" and u: "T q = Some u" "length q = depth" "j < 512"
    and h2: "h2 = h\<lparr>bytes := store64 (bytes h) (elem_ptr u j) e\<rparr>"
  shows "tree_inv depth decode h2 V root T" "i < 512 \<Longrightarrow> leaf h2 T p i = (if p = q \<and> i = j then e else leaf h T p i)"
    "grows h V T h2 V T"
proof -
  have au: "aligned u" using tree_invD(3) [OF inv u(1)] .
  have e: "entry h2 t i = (if t = u \<and> i = j then e else entry h t i)" if "aligned t" "i < 512" for t i
    using load64_other [OF that au u(3), of "bytes h" e] by (auto simp: entry_def h2)
  show "tree_inv depth decode h2 V root T"
    unfolding tree_inv_def
  proof (intro conjI allI impI, goal_cases)
    case (9 p t i)
    then have "t \<noteq> u" using tree_inv_inj [OF inv, of p u q] u(1,2) by auto
    then show ?case using e [of t i] tree_invD(3) [OF inv, of p t] tree_invD(9) [OF inv, of p t i] 9 by simp
  qed (use tree_invD [OF inv] in \<open>auto simp: h2\<close>)
  show "leaf h2 T p i = (if p = q \<and> i = j then e else leaf h T p i)" if "i < 512"
  proof (cases "T p")
    case None
    then show ?thesis using u(1) by (auto simp: leaf_def)
  next
    case (Some t)
    then have "t = u \<longleftrightarrow> p = q" using tree_inv_inj [OF inv Some, of q] u(1) Some by auto
    then show ?thesis using Some e [OF tree_invD(3) [OF inv Some] that] by (auto simp: leaf_def)
  qed
  show "grows h V T h2 V T"
    using store64_outside [OF au u(3)] u(1) by (auto simp: grows_def h2 outside_def)
qed

lemma elem_not_null: "\<lbrakk>tree_inv depth decode h V root T; T p = Some u; i < 512\<rbrakk> \<Longrightarrow> elem_ptr u i \<noteq> 0"
  using unat_elem_ptr [of u i 0] tree_invD(3,4) [of depth decode h V root T p u] by (auto simp: word_unat_eq_iff)

end

end
