(* ===== verification/Page_Table.thy ===== *)
theory Page_Table
  imports Table_Tree
begin

text \<open>
  The three-level page tables of \<^verbatim>\<open>arch/vm.c\<close>. A table is a page of the kernel heap that holds 512
  entries of eight bytes; the entries are read from and written to the bytes of memory, and new tables come
  from \<^verbatim>\<open>alloc_page\<close>. Physical addresses are used as pointers, as the kernel maps its memory one to one.
\<close>

section \<open>Definitions\<close>

abbreviation (input) PTE_V :: u64 where "PTE_V \<equiv> 1"
abbreviation (input) PTE_R :: u64 where "PTE_R \<equiv> 2"
abbreviation (input) PTE_W :: u64 where "PTE_W \<equiv> 4"
abbreviation (input) PTE_X :: u64 where "PTE_X \<equiv> 8"
abbreviation (input) PTE_U :: u64 where "PTE_U \<equiv> 16"
abbreviation (input) MAXVA :: u64 where "MAXVA \<equiv> 0x4000000000"
abbreviation (input) PGSIZE :: u64 where "PGSIZE \<equiv> 4096"
abbreviation (input) KERNBASE :: u64 where "KERNBASE \<equiv> 0x80000000"
abbreviation (input) CLINT :: u64 where "CLINT \<equiv> 0x2000000"
abbreviation (input) UART0 :: u64 where "UART0 \<equiv> 0x10000000"
abbreviation (input) VIRTIO0 :: u64 where "VIRTIO0 \<equiv> 0x10001000"
abbreviation (input) PLIC_ADDR :: u64 where "PLIC_ADDR \<equiv> 0x0c000000"

definition PGROUNDUP :: "u64 \<Rightarrow> u64" where "PGROUNDUP sz = (sz + PGSIZE - 1) AND NOT (PGSIZE - 1)"
definition PGROUNDDOWN :: "u64 \<Rightarrow> u64" where "PGROUNDDOWN a = a AND NOT (PGSIZE - 1)"
definition PA2PTE :: "u64 \<Rightarrow> u64" where "PA2PTE pa = push_bit 10 (drop_bit 12 pa)"
definition PTE2PA :: "u64 \<Rightarrow> u64" where "PTE2PA pte = push_bit 12 (drop_bit 10 pte)"
definition PX :: "nat \<Rightarrow> u64 \<Rightarrow> u64" where "PX level va = drop_bit (12 + 9 * level) va AND 0x1FF"

text \<open>The result of \<^verbatim>\<open>alloc_page\<close> is not checked before the page is cleared.\<close>

definition pagetable_create :: "kernel_heap \<Rightarrow> (kernel_heap \<times> u64) option" where
  "pagetable_create h = do {
     (h, pt) \<leftarrow> alloc_page h 1;
     assert_that (pt \<noteq> 0);
     (m, _) \<leftarrow> memset (bytes h) pt 0 (ucast PGSIZE);
     Some (h\<lparr>bytes := m\<rparr>, pt)
   }"

text \<open>The levels that are left are the last argument.\<close>

fun walk_loop :: "kernel_heap \<Rightarrow> u64 \<Rightarrow> u64 \<Rightarrow> bool \<Rightarrow> nat \<Rightarrow> (kernel_heap \<times> u64) option" where
  "walk_loop h pagetable va alloc 0 = Some (h, elem_ptr pagetable (PX 0 va))"
| "walk_loop h pagetable va alloc (Suc level) = do {
     let pte = elem_ptr pagetable (PX (Suc level) va);
     if load64 (bytes h) pte AND PTE_V \<noteq> 0 then walk_loop h (PTE2PA (load64 (bytes h) pte)) va alloc level
     else if alloc then do {
       (h, pagetable) \<leftarrow> alloc_page h 1;
       if pagetable = 0 then Some (h, 0)
       else do {
         (m, _) \<leftarrow> memset (bytes h) pagetable 0 (ucast PGSIZE);
         walk_loop (h\<lparr>bytes := store64 m pte (PA2PTE pagetable OR PTE_V)\<rparr>) pagetable va alloc level
       }
     }
     else Some (h, 0)
   }"

definition walk :: "kernel_heap \<Rightarrow> u64 \<Rightarrow> u64 \<Rightarrow> bool \<Rightarrow> (kernel_heap \<times> u64) option" where
  "walk h pagetable va alloc = do {
     assert_that (va < MAXVA);
     walk_loop h pagetable va alloc 2
   }"

definition walk_addr :: "kernel_heap \<Rightarrow> u64 \<Rightarrow> u64 \<Rightarrow> u64 option" where
  "walk_addr h pagetable va =
     (if MAXVA \<le> va then Some 0
      else do {
        (h, pte) \<leftarrow> walk h pagetable va False;
        let e = load64 (bytes h) pte;
        if pte = 0 then Some 0
        else if e AND PTE_V = 0 then Some 0
        else if e AND PTE_U = 0 then Some 0
        else Some (PTE2PA e)
      })"

lemma walk_below: "walk h pagetable va alloc = Some r \<Longrightarrow> va < MAXVA"
  by (auto simp: walk_def assert_that_def split: if_splits)

text \<open>The loop ends because \<^verbatim>\<open>walk\<close> stops the kernel at \<^verbatim>\<open>MAXVA\<close>.\<close>

function map_loop :: "kernel_heap \<Rightarrow> u64 \<Rightarrow> u64 \<Rightarrow> u64 \<Rightarrow> u64 \<Rightarrow> u64 \<Rightarrow> (kernel_heap \<times> int) option" where
  "map_loop h pagetable a last_a pa perm =
     Option.bind (walk h pagetable a True) (\<lambda>(h, pte).
       if pte = 0 then Some (h, -1)
       else let h = h\<lparr>bytes := store64 (bytes h) pte (PA2PTE pa OR perm OR PTE_V)\<rparr> in
         if a = last_a then Some (h, 0)
         else map_loop h pagetable (a + PGSIZE) last_a (pa + PGSIZE) perm)"
  by pat_completeness auto
termination
proof (relation "measure (\<lambda>(h, pagetable, a, last_a, pa, perm). 2 ^ 39 - unat a)", goal_cases)
  case (2 h pagetable a last_a pa perm x h1 pte h2)
  then have "unat a < 2 ^ 38" using walk_below [of h pagetable a True] by (auto simp: word_less_nat_alt)
  then show ?case by (simp add: unat_word_ariths)
qed simp

definition map_range_in_pgtbl :: "kernel_heap \<Rightarrow> u64 \<Rightarrow> u64 \<Rightarrow> u64 \<Rightarrow> u64 \<Rightarrow> u32 \<Rightarrow> (kernel_heap \<times> int) option" where
  "map_range_in_pgtbl h pagetable va pa sz perm = do {
     assert_that (va AND (PGSIZE - 1) = 0 \<and> sz AND (PGSIZE - 1) = 0);
     map_loop h pagetable (PGROUNDDOWN va) (PGROUNDDOWN (va + sz - 1)) pa (scast perm)
   }"

function unmap_loop :: "kernel_heap \<Rightarrow> u64 \<Rightarrow> u64 \<Rightarrow> u64 \<Rightarrow> (kernel_heap \<times> int) option" where
  "unmap_loop h pagetable a last_a =
     Option.bind (walk h pagetable a False) (\<lambda>(h, pte).
       if pte = 0 then None
       else let h = h\<lparr>bytes := store64 (bytes h) pte 0\<rparr> in
         if a = last_a then Some (h, 0) else unmap_loop h pagetable (a + PGSIZE) last_a)"
  by pat_completeness auto
termination
proof (relation "measure (\<lambda>(h, pagetable, a, last_a). 2 ^ 39 - unat a)", goal_cases)
  case (2 h pagetable a last_a x h1 pte h2)
  then have "unat a < 2 ^ 38" using walk_below [of h pagetable a False] by (auto simp: word_less_nat_alt)
  then show ?case by (simp add: unat_word_ariths)
qed simp

definition unmap_range_in_pgtbl :: "kernel_heap \<Rightarrow> u64 \<Rightarrow> u64 \<Rightarrow> u64 \<Rightarrow> (kernel_heap \<times> int) option" where
  "unmap_range_in_pgtbl h pagetable va sz = unmap_loop h pagetable (PGROUNDDOWN va) (PGROUNDDOWN (va + sz - 1))"

text \<open>The linker symbol \<^verbatim>\<open>etext\<close> is an argument; the results of the calls are ignored.\<close>

definition map_kernel_page :: "kernel_heap \<Rightarrow> u64 \<Rightarrow> u64 \<Rightarrow> kernel_heap option" where
  "map_kernel_page h pagetable etext = do {
     (h, _) \<leftarrow> map_range_in_pgtbl h pagetable CLINT CLINT 0x10000 (ucast (PTE_R OR PTE_W));
     (h, _) \<leftarrow> map_range_in_pgtbl h pagetable UART0 UART0 PGSIZE (ucast (PTE_R OR PTE_W));
     (h, _) \<leftarrow> map_range_in_pgtbl h pagetable VIRTIO0 VIRTIO0 (PGSIZE * 8) (ucast (PTE_R OR PTE_W));
     (h, _) \<leftarrow> map_range_in_pgtbl h pagetable PLIC_ADDR PLIC_ADDR 0x400000 (ucast (PTE_R OR PTE_W));
     (h, _) \<leftarrow> map_range_in_pgtbl h pagetable KERNBASE KERNBASE (etext - KERNBASE) (ucast (PTE_R OR PTE_X));
     (h, _) \<leftarrow> map_range_in_pgtbl h pagetable etext etext (PHYSTOP - etext) (ucast (PTE_R OR PTE_W));
     Some h
   }"

text \<open>Activating a page table writes the register \<^verbatim>\<open>satp\<close> and flushes the TLB; the state of the processor is the value of the
  register.\<close>

definition MAKE_SATP :: "u64 \<Rightarrow> u64" where
  "MAKE_SATP pagetable = push_bit 60 8 OR drop_bit 12 pagetable"

definition do_kvm_init :: "kernel_heap \<Rightarrow> u64 \<Rightarrow> (kernel_heap \<times> u64 \<times> u64) option" where
  "do_kvm_init h etext = do {
     (h, kernel_pagetable) \<leftarrow> pagetable_create h;
     h \<leftarrow> map_kernel_page h kernel_pagetable etext;
     Some (h, kernel_pagetable, MAKE_SATP kernel_pagetable)
   }"

section \<open>Entries\<close>

lemma PX_less: "PX l va < 512"
proof -
  have "PX l va = take_bit 9 (drop_bit (12 + 9 * l) va)" by (simp add: PX_def take_bit_eq_mask mask_eq_exp_minus_1)
  then show ?thesis by (simp add: word_less_nat_alt unat_take_bit)
qed

lemma PTE2PA_PA2PTE:
  assumes "aligned pa" "unat f < 1024"
  shows "PTE2PA (PA2PTE pa OR f OR PTE_V) = pa"
proof -
  have "take_bit 10 f = f" using assms(2) by (simp add: take_bit_eq_self_iff_unat)
  then have f: "\<not> bit f n" if "10 \<le> n" for n using that by (metis bit_take_bit_iff not_le)
  have "take_bit 12 pa = 0" using assms(1) by (simp add: word_unat_eq_iff unat_take_bit)
  then have pa: "12 \<le> n" if "bit pa n" for n using that by (metis bit_0_eq bit_take_bit_iff bot_apply bot_bool_def not_le)
  show ?thesis
    by (rule bit_word_eqI) (use pa in \<open>auto simp: PTE2PA_def PA2PTE_def bit_simps f\<close>)
qed

section \<open>The tree of tables\<close>

definition pte_target :: "u64 \<Rightarrow> u64 option" where
  "pte_target e = (if e AND PTE_V = 0 then None else Some (PTE2PA e))"

interpretation pt: table_tree 2 pte_target "\<lambda>a. PA2PTE a OR PTE_V"
  using PTE2PA_PA2PTE [of _ 0] by unfold_locales (auto simp: pte_target_def bit.conj_disj_distrib2 or_eq_0_iff)

lemma pte_target_eq: "pte_target e = None \<longleftrightarrow> e AND PTE_V = 0" "pte_target e = Some t \<longleftrightarrow> e AND PTE_V \<noteq> 0 \<and> PTE2PA e = t"
  by (auto simp: pte_target_def)

abbreviation pt_inv :: "kernel_heap \<Rightarrow> object set \<Rightarrow> u64 \<Rightarrow> table_map \<Rightarrow> bool" where
  "pt_inv \<equiv> tree_inv 2 pte_target"

text \<open>The entry of the lowest level for an address.\<close>

definition pt_leaf :: "kernel_heap \<Rightarrow> table_map \<Rightarrow> u64 \<Rightarrow> u64" where
  "pt_leaf h T va = leaf h T [PX 2 va, PX 1 va] (PX 0 va)"

lemma same_pt_leaf: "same_leaves 2 h T h' T' \<Longrightarrow> pt_leaf h' T' = pt_leaf h T"
  by (rule ext) (simp add: same_leaves_def pt_leaf_def PX_less)

section \<open>Walking the tables\<close>

definition path :: "u64 \<Rightarrow> nat \<Rightarrow> u64 list" where
  "path va level = take (2 - level) [PX 2 va, PX 1 va]"

lemma path_simps: "path va 0 = [PX 2 va, PX 1 va]" "path va 2 = []"
  "level < 2 \<Longrightarrow> path va level = path va (Suc level) @ [PX (Suc level) va]" "length (path va level) = 2 - level"
proof -
  assume "level < 2"
  then have "level = 0 \<or> level = 1" by auto
  then show "path va level = path va (Suc level) @ [PX (Suc level) va]" by (auto simp: path_def numeral_2_eq_2)
qed (auto simp: path_def)

text \<open>The address of an entry of the lowest level, or the null pointer.\<close>

definition slot_of :: "table_map \<Rightarrow> u64 \<Rightarrow> u64" where
  "slot_of T va = (case T [PX 2 va, PX 1 va] of None \<Rightarrow> 0 | Some u \<Rightarrow> elem_ptr u (PX 0 va))"

lemma walk_loop_alloc:
  "\<lbrakk>pt_inv h V root T; level \<le> 2; T (path va level) = Some t\<rbrakk>
    \<Longrightarrow> \<exists>h' V' T' r. walk_loop h t va True level = Some (h', r) \<and> pt_inv h' V' root T' \<and> grows h V T h' V' T' \<and> same_leaves 2 h T h' T'
      \<and> (r = 0 \<and> alloc_page h' 1 = Some (h', 0) \<or> T' (path va 0) \<noteq> None \<and> r = slot_of T' va)"
proof (induction level arbitrary: h V T t)
  case 0
  then show ?case by (intro exI [of _ h] exI [of _ V] exI [of _ T]) (simp add: path_simps slot_of_def)
next
  case (Suc level)
  let ?p = "path va (Suc level)" and ?i = "PX (Suc level) va"
  note inv = Suc.prems(1) and t = Suc.prems(3)
  have p: "path va level = ?p @ [?i]" "length ?p < 2" using Suc.prems(2) by (simp_all add: path_simps)
  have e: "pte_target (entry h t ?i) = T (?p @ [?i])" using tree_invD(9) [OF inv t p(2) PX_less] .
  show ?case
  proof (cases "T (?p @ [?i])")
    case (Some u)
    then have "entry h t ?i AND PTE_V \<noteq> 0" "PTE2PA (entry h t ?i) = u" using e by (simp_all add: pte_target_eq)
    then have eq: "walk_loop h t va True (Suc level) = walk_loop h u va True level" by (simp add: entry_def)
    show ?thesis unfolding eq using Suc.IH [OF inv, of u] Suc.prems(2) Some p(1) by simp
  next
    case None
    then have "entry h t ?i AND PTE_V = 0" using e by (simp add: pte_target_eq)
    then have eq: "walk_loop h t va True (Suc level) = do {
         (h, pagetable) \<leftarrow> alloc_page h 1;
         if pagetable = 0 then Some (h, 0)
         else do {
           (m, _) \<leftarrow> memset (bytes h) pagetable 0 (ucast PGSIZE);
           walk_loop (h\<lparr>bytes := store64 m (elem_ptr t ?i) (PA2PTE pagetable OR PTE_V)\<rparr>) pagetable va True level
         }
       }" by (simp add: entry_def Let_def)
    from tree_invD(1) [OF inv] show ?thesis
    proof (cases rule: zeroed_page)
      case none
      then show ?thesis unfolding eq using inv by (intro exI [of _ h] exI [of _ V] exI [of _ T] exI [of _ 0]) simp
    next
      case (some h' a m k)
      let ?h = "h'\<lparr>bytes := store64 m (elem_ptr t ?i) (PA2PTE a OR PTE_V)\<rparr>" and ?T = "T(?p @ [?i] \<mapsto> a)"
      note L = pt.link_table [OF inv t p(2) PX_less None some(7,5,3,2,6,8,9) refl]
      have "walk_loop h t va True (Suc level) = walk_loop ?h a va True level" unfolding eq using some(1,2,4) by simp
      moreover have "level \<le> 2" "?T (path va level) = Some a" using Suc.prems(2) p(1) by simp_all
      from Suc.IH [OF L(1) this] obtain h2 V2 T2 r where "walk_loop ?h a va True level = Some (h2, r)" "pt_inv h2 V2 root T2" "grows ?h (insert (a, k) V) ?T h2 V2 T2"
        "same_leaves 2 ?h ?T h2 T2" "r = 0 \<and> alloc_page h2 1 = Some (h2, 0) \<or> T2 (path va 0) \<noteq> None \<and> r = slot_of T2 va"
        by blast
      ultimately show ?thesis using same_leaves_trans [OF L(2)] grows_trans [OF L(3)]
        by (intro exI [of _ h2] exI [of _ V2] exI [of _ T2] exI [of _ r]) simp
    qed
  qed
qed

lemma walk_loop_find:
  "\<lbrakk>pt_inv h V root T; level \<le> 2; T (path va level) = Some t\<rbrakk> \<Longrightarrow> walk_loop h t va False level = Some (h, slot_of T va)"
proof (induction level arbitrary: t)
  case 0
  then show ?case by (simp add: path_simps slot_of_def)
next
  case (Suc level)
  let ?p = "path va (Suc level)" and ?i = "PX (Suc level) va"
  have p: "path va level = ?p @ [?i]" "length ?p < 2" using Suc.prems(2) by (simp_all add: path_simps)
  have e: "pte_target (entry h t ?i) = T (?p @ [?i])" using tree_invD(9) [OF Suc.prems(1,3) p(2) PX_less] .
  show ?case
  proof (cases "T (?p @ [?i])")
    case None
    then have "T (path va level) = None" using p(1) by simp
    then have "T (path va 0) = None"
      using Suc.prems(2) tree_invD(8) [OF Suc.prems(1), of "path va 1" "PX 1 va"] path_simps(3) [of 0 va]
      by (cases level; cases "T (path va 0)") auto
    then show ?thesis using e None by (simp add: pte_target_eq entry_def slot_of_def path_simps)
  next
    case (Some u)
    then show ?thesis using e Suc.IH [OF Suc.prems(1), of u] Suc.prems(2) p(1) by (simp add: pte_target_eq entry_def)
  qed
qed

lemma walk_find: "\<lbrakk>pt_inv h V root T; va < MAXVA\<rbrakk> \<Longrightarrow> walk h root va False = Some (h, slot_of T va)"
  using walk_loop_find [of h V root T 2 va root] tree_invD(2) [of 2 pte_target h V root T] by (simp add: walk_def path_simps)

lemma walk_existing:
  assumes inv: "pt_inv h V root T" and u: "T (path va 0) = Some u" and va: "va < MAXVA"
  shows "walk h root va alloc = Some (h, slot_of T va)"
proof -
  have "T ([PX 2 va] @ [PX 1 va]) \<noteq> None" using u by (simp add: path_simps)
  from tree_invD(8) [OF inv this] obtain t where t: "T [PX 2 va] = Some t" by auto
  note e = tree_invD(9) [OF inv tree_invD(2) [OF inv] _ PX_less, of 2 va] tree_invD(9) [OF inv t _ PX_less, of 1 va]
  show ?thesis using e t u va by (simp add: walk_def numeral_2_eq_2 pte_target_eq entry_def slot_of_def path_simps)
qed

lemma walk_alloc:
  assumes "pt_inv h V root T" "va < MAXVA"
  obtains h' V' T' r where "walk h root va True = Some (h', r)" "pt_inv h' V' root T'" "grows h V T h' V' T'" "pt_leaf h' T' = pt_leaf h T"
    "r = 0 \<and> alloc_page h' 1 = Some (h', 0) \<or> T' (path va 0) \<noteq> None \<and> r = slot_of T' va"
proof -
  have "T (path va 2) = Some root" using tree_invD(2) [OF assms(1)] by (simp add: path_simps)
  from walk_loop_alloc [OF assms(1) order_refl this] show thesis using that same_pt_leaf assms(2) by (fastforce simp: walk_def)
qed

lemma slot_of_null: "\<lbrakk>pt_inv h V root T; T (path va 0) = Some u\<rbrakk> \<Longrightarrow> slot_of T va = elem_ptr u (PX 0 va)" 
  "\<lbrakk>pt_inv h V root T; T (path va 0) = Some u\<rbrakk> \<Longrightarrow> elem_ptr u (PX 0 va) \<noteq> 0"
proof -
  assume "pt_inv h V root T" "T (path va 0) = Some u"
  then show "elem_ptr u (PX 0 va) \<noteq> 0" by (rule pt.elem_not_null [OF _ _ PX_less])
qed (simp add: slot_of_def path_simps)

section \<open>Writing an entry\<close>

text \<open>Addresses on the same page have the same indices.\<close>

lemma store_pte:
  assumes inv: "pt_inv h V root T" and u: "T (path va 0) = Some u" and h2: "h2 = h\<lparr>bytes := store64 (bytes h) (slot_of T va) e\<rparr>"
  shows "pt_inv h2 V root T" "pt_leaf h2 T x = (if [PX 2 x, PX 1 x, PX 0 x] = [PX 2 va, PX 1 va, PX 0 va] then e else pt_leaf h T x)"
    "grows h V T h2 V T"
proof -
  have "h2 = h\<lparr>bytes := store64 (bytes h) (elem_ptr u (PX 0 va)) e\<rparr>" using u h2 by (simp add: slot_of_def path_simps)
  note S = pt.store_leaf [OF inv u _ PX_less this]
  show "pt_inv h2 V root T" "grows h V T h2 V T" using S(1,3) by (simp_all add: path_simps)
  show "pt_leaf h2 T x = (if [PX 2 x, PX 1 x, PX 0 x] = [PX 2 va, PX 1 va, PX 0 va] then e else pt_leaf h T x)"
    using S(2) [OF _ PX_less, of "[PX 2 x, PX 1 x]" 0 x] by (simp add: pt_leaf_def path_simps)
qed

section \<open>Addresses and indices\<close>

lemma bit_PX: "bit (PX l va) k \<longleftrightarrow> k < 9 \<and> bit va (12 + 9 * l + k)"
proof -
  have "PX l va = take_bit 9 (drop_bit (12 + 9 * l) va)" by (simp add: PX_def take_bit_eq_mask mask_eq_exp_minus_1)
  then show ?thesis by (auto simp: bit_simps)
qed

lemma page_number_PX:
  assumes "va < MAXVA"
  shows "drop_bit 12 va = push_bit 18 (PX 2 va) OR push_bit 9 (PX 1 va) OR PX 0 va"
proof (rule bit_word_eqI)
  fix n assume "n < LENGTH(64)"
  have "take_bit 38 va = va" using assms by (simp add: take_bit_eq_self_iff_unat word_less_nat_alt)
  then have top: "n + 12 < 38" if "bit va (12 + n)" using that by (metis add.commute bit_take_bit_iff)
  consider "n < 9" | "9 \<le> n" "n < 18" | "18 \<le> n" by linarith
  then show "bit (drop_bit 12 va) n = bit (push_bit 18 (PX 2 va) OR push_bit 9 (PX 1 va) OR PX 0 va) n"
  proof cases
    case 2
    then have "n - 9 < 9" by linarith
    then show ?thesis using 2 by (simp add: bit_simps bit_PX)
  next
    case 3
    then show ?thesis using \<open>n < LENGTH(64)\<close> top by (auto simp: bit_simps bit_PX)
  qed (use \<open>n < LENGTH(64)\<close> in \<open>simp_all add: bit_simps bit_PX\<close>)
qed

lemma same_page:
  assumes "x < MAXVA" "va < MAXVA"
  shows "[PX 2 x, PX 1 x, PX 0 x] = [PX 2 va, PX 1 va, PX 0 va] \<longleftrightarrow> unat x div 4096 = unat va div 4096"
proof -
  have "unat x div 4096 = unat va div 4096 \<longleftrightarrow> drop_bit 12 x = drop_bit 12 va"
    by (simp add: word_unat_eq_iff [of "drop_bit 12 x"] unat_drop_bit)
  also have "\<dots> \<longleftrightarrow> [PX 2 x, PX 1 x, PX 0 x] = [PX 2 va, PX 1 va, PX 0 va]"
  proof
    assume eq: "drop_bit 12 x = drop_bit 12 va"
    have "PX l x = PX l va" for l
    proof -
      have "drop_bit (12 + 9 * l) x = drop_bit (9 * l) (drop_bit 12 x)" "drop_bit (12 + 9 * l) va = drop_bit (9 * l) (drop_bit 12 va)" by (simp_all add: add.commute)
      then show ?thesis using eq by (simp add: PX_def)
    qed
    then show "[PX 2 x, PX 1 x, PX 0 x] = [PX 2 va, PX 1 va, PX 0 va]" by simp
  qed (simp add: page_number_PX [OF assms(1)] page_number_PX [OF assms(2)])
  finally show ?thesis by simp
qed

section \<open>Mapping and unmapping\<close>

text \<open>The entry that the first \<open>k\<close> pages from \<open>a\<close> get.\<close>

definition mapped :: "u64 \<Rightarrow> nat \<Rightarrow> u64 \<Rightarrow> bool" where
  "mapped a k x \<longleftrightarrow> unat a div 4096 \<le> unat x div 4096 \<and> unat x div 4096 < unat a div 4096 + k"

definition page_pte :: "u64 \<Rightarrow> u64 \<Rightarrow> u64 \<Rightarrow> u64 \<Rightarrow> u64" where
  "page_pte a pa perm x = PA2PTE (pa + of_nat ((unat x div 4096 - unat a div 4096) * 4096)) OR perm OR PTE_V"

lemma mapped_0 [simp]: "\<not> mapped a 0 x"
  by (simp add: mapped_def)

lemma mapped_Suc:
  assumes "unat a' = unat a + 4096"
  shows "mapped a (Suc k) x \<longleftrightarrow> unat x div 4096 = unat a div 4096 \<or> mapped a' k x"
    "mapped a' k x \<Longrightarrow> page_pte a' (pa + 4096) perm x = page_pte a pa perm x"
proof -
  have d: "unat a' div 4096 = Suc (unat a div 4096)" using assms by simp
  then show "mapped a (Suc k) x \<longleftrightarrow> unat x div 4096 = unat a div 4096 \<or> mapped a' k x" by (auto simp: mapped_def)
  assume "mapped a' k x"
  then have "unat x div 4096 - unat a div 4096 = Suc (unat x div 4096 - unat a' div 4096)" using d unfolding mapped_def by linarith
  then show "page_pte a' (pa + 4096) perm x = page_pte a pa perm x" by (simp add: page_pte_def algebra_simps)
qed

lemma walk_and_store:
  assumes inv: "pt_inv h V root T" and a: "a < MAXVA"
  obtains (none) h1 V1 T1 where "walk h root a True = Some (h1, 0)" "pt_inv h1 V1 root T1" "grows h V T h1 V1 T1" "pt_leaf h1 T1 = pt_leaf h T"
      "alloc_page h1 1 = Some (h1, 0)"
    | (some) h1 pte V1 T1 where "walk h root a True = Some (h1, pte)" "pte \<noteq> 0" "pt_inv (h1\<lparr>bytes := store64 (bytes h1) pte e\<rparr>) V1 root T1"
      "grows h V T (h1\<lparr>bytes := store64 (bytes h1) pte e\<rparr>) V1 T1"
      "\<forall>x < MAXVA. pt_leaf (h1\<lparr>bytes := store64 (bytes h1) pte e\<rparr>) T1 x = (if unat x div 4096 = unat a div 4096 then e else pt_leaf h T x)"
proof -
  obtain h1 V1 T1 r where w: "walk h root a True = Some (h1, r)" "pt_inv h1 V1 root T1" "grows h V T h1 V1 T1" "pt_leaf h1 T1 = pt_leaf h T"
    "r = 0 \<and> alloc_page h1 1 = Some (h1, 0) \<or> T1 (path a 0) \<noteq> None \<and> r = slot_of T1 a"
    using inv a by (rule walk_alloc)
  show thesis
  proof (cases "r = 0")
    case True
    then have "alloc_page h1 1 = Some (h1, 0)" using w(5) slot_of_null [OF w(2), of a] by auto
    then show thesis using none [OF _ w(2-4)] w(1) True by simp
  next
    case False
    then obtain u where u: "T1 (path a 0) = Some u" "r = slot_of T1 a" using w(5) by auto
    note S = store_pte [OF w(2) u(1) refl, of e]
    show thesis
      using some [OF w(1) False, of V1 T1] S(1) grows_trans [OF w(3) S(3)] S(2) same_page [OF _ a] w(4) unfolding u(2) by simp
  qed
qed

lemma map_loop_spec:
  "\<lbrakk>pt_inv h V root T; unat a mod 4096 = 0; unat a + 4096 * n < 2 ^ 38; l = a + of_nat (4096 * n)\<rbrakk>
    \<Longrightarrow> \<exists>h' V' T' r k. map_loop h root a l pa perm = Some (h', r) \<and> pt_inv h' V' root T' \<and> grows h V T h' V' T'
      \<and> (r = 0 \<and> k = Suc n \<or> r = -1 \<and> k \<le> n \<and> alloc_page h' 1 = Some (h', 0))
      \<and> (\<forall>x < MAXVA. pt_leaf h' T' x = (if mapped a k x then page_pte a pa perm x else pt_leaf h T x))"
proof (induction n arbitrary: h V T a pa)
  case 0
  then have a: "a < MAXVA" by (simp add: word_less_nat_alt)
  from 0(1) a show ?case
  proof (cases rule: walk_and_store [where e = "PA2PTE pa OR perm OR PTE_V"])
    case (none h1 V1 T1)
    then show ?thesis by (intro exI [of _ h1] exI [of _ V1] exI [of _ T1] exI [of _ "-1"] exI [of _ 0]) simp
  next
    case (some h1 pte V1 T1)
    then show ?thesis using 0(4)
      by (intro exI [of _ "h1\<lparr>bytes := store64 (bytes h1) pte (PA2PTE pa OR perm OR PTE_V)\<rparr>"] exI [of _ V1] exI [of _ T1] exI [of _ 0] exI [of _ 1])
        (auto simp: mapped_def page_pte_def)
  qed
next
  case (Suc n)
  then have a: "a < MAXVA" by (simp add: word_less_nat_alt)
  have n: "unat (of_nat (4096 * Suc n) :: u64) = 4096 * Suc n" by (rule unat_of_nat_64) (use Suc.prems(3) in simp)
  have "unat l = unat a + 4096 * Suc n" unfolding Suc.prems(4) using Suc.prems(3) n by (subst unat_add_64) simp_all
  then have ne: "a \<noteq> l" by auto
  have a': "unat (a + 4096) = unat a + 4096" using Suc.prems(3) by (subst unat_add_64) simp_all
  have l: "l = (a + 4096) + of_nat (4096 * n)" using Suc.prems(4) by (simp add: algebra_simps)
  from Suc.prems(1) a show ?case
  proof (cases rule: walk_and_store [where e = "PA2PTE pa OR perm OR PTE_V"])
    case (none h1 V1 T1)
    then show ?thesis by (intro exI [of _ h1] exI [of _ V1] exI [of _ T1] exI [of _ "-1"] exI [of _ 0]) simp
  next
    case (some h1 pte V1 T1)
    let ?h = "h1\<lparr>bytes := store64 (bytes h1) pte (PA2PTE pa OR perm OR PTE_V)\<rparr>"
    have eq: "map_loop h root a l pa perm = map_loop ?h root (a + 4096) l (pa + 4096) perm"
      using some(1,2) ne by (simp add: map_loop.simps [of h])
    have "unat (a + 4096) mod 4096 = 0" "unat (a + 4096) + 4096 * n < 2 ^ 38" using Suc.prems(2,3) a' by simp_all
    from Suc.IH [OF some(3) this l, of "pa + 4096"] obtain h' V' T' r k where h': "map_loop ?h root (a + 4096) l (pa + 4096) perm = Some (h', r)"
      "pt_inv h' V' root T'" "grows ?h V1 T1 h' V' T'" "r = 0 \<and> k = Suc n \<or> r = -1 \<and> k \<le> n \<and> alloc_page h' 1 = Some (h', 0)"
      "\<forall>x < MAXVA. pt_leaf h' T' x = (if mapped (a + 4096) k x then page_pte (a + 4096) (pa + 4096) perm x else pt_leaf ?h T1 x)"
      by blast
    have "pt_leaf h' T' x = (if mapped a (Suc k) x then page_pte a pa perm x else pt_leaf h T x)" if "x < MAXVA" for x
      using h'(5) some(5) that mapped_Suc [OF a', of k x] by (auto simp: page_pte_def)
    then show ?thesis unfolding eq using h'(1,2,4) grows_trans [OF some(4) h'(3)]
      by (intro exI [of _ h'] exI [of _ V'] exI [of _ T'] exI [of _ r] exI [of _ "Suc k"]) auto
  qed
qed

lemma unmap_loop_spec:
  "\<lbrakk>pt_inv h V root T; unat a mod 4096 = 0; unat a + 4096 * n < 2 ^ 38; l = a + of_nat (4096 * n);
     \<forall>x < MAXVA. mapped a (Suc n) x \<longrightarrow> pt_leaf h T x \<noteq> 0\<rbrakk>
    \<Longrightarrow> \<exists>h'. unmap_loop h root a l = Some (h', 0) \<and> pt_inv h' V root T \<and> grows h V T h' V T
      \<and> (\<forall>x < MAXVA. pt_leaf h' T x = (if mapped a (Suc n) x then 0 else pt_leaf h T x))"
proof (induction n arbitrary: h a)
  case (0 h a)
  then have a: "a < MAXVA" by (simp add: word_less_nat_alt)
  have "pt_leaf h T a \<noteq> 0" using 0(5) a by (simp add: mapped_def)
  then obtain u where u: "T (path a 0) = Some u" by (auto simp: pt_leaf_def leaf_def path_simps split: option.splits)
  note S = store_pte [OF 0(1) u refl, of 0]
  have "unmap_loop h root a l = Some (h\<lparr>bytes := store64 (bytes h) (slot_of T a) 0\<rparr>, 0)"
    using walk_find [OF 0(1) a] slot_of_null [OF 0(1) u] 0(4) by (simp add: unmap_loop.simps [of h])
  then show ?case using S same_page [OF _ a]
    by (intro exI [of _ "h\<lparr>bytes := store64 (bytes h) (slot_of T a) 0\<rparr>"]) (auto simp: mapped_def)
next
  case (Suc n h a)
  then have a: "a < MAXVA" by (simp add: word_less_nat_alt)
  have n: "unat (of_nat (4096 * Suc n) :: u64) = 4096 * Suc n" by (rule unat_of_nat_64) (use Suc.prems(3) in simp)
  have "unat l = unat a + 4096 * Suc n" unfolding Suc.prems(4) using Suc.prems(3) n by (subst unat_add_64) simp_all
  then have ne: "a \<noteq> l" by auto
  have a': "unat (a + 4096) = unat a + 4096" using Suc.prems(3) by (subst unat_add_64) simp_all
  have l: "l = (a + 4096) + of_nat (4096 * n)" using Suc.prems(4) by (simp add: algebra_simps)
  have "pt_leaf h T a \<noteq> 0" using Suc.prems(5) a by (simp add: mapped_def)
  then obtain u where u: "T (path a 0) = Some u" by (auto simp: pt_leaf_def leaf_def path_simps split: option.splits)
  let ?h = "h\<lparr>bytes := store64 (bytes h) (slot_of T a) 0\<rparr>"
  note S = store_pte [OF Suc.prems(1) u refl, of 0]
  have eq: "unmap_loop h root a l = unmap_loop ?h root (a + 4096) l"
    using walk_find [OF Suc.prems(1) a] slot_of_null [OF Suc.prems(1) u] ne by (simp add: unmap_loop.simps [of h])
  have leaf1: "pt_leaf ?h T x = (if unat x div 4096 = unat a div 4096 then 0 else pt_leaf h T x)" if "x < MAXVA" for x
    using S(2) [of x] same_page [OF that a] by simp
  have b: "unat (a + 4096) mod 4096 = 0" "unat (a + 4096) + 4096 * n < 2 ^ 38" using Suc.prems(2,3) a' by simp_all
  have "pt_leaf ?h T x \<noteq> 0" if "x < MAXVA" "mapped (a + 4096) (Suc n) x" for x
  proof -
    have "unat (a + 4096) div 4096 = Suc (unat a div 4096)" using a' by simp
    then have "unat x div 4096 \<noteq> unat a div 4096" using that(2) unfolding mapped_def by linarith
    then show ?thesis using leaf1 [OF that(1)] mapped_Suc(1) [OF a', of "Suc n" x] Suc.prems(5) that by simp
  qed
  then obtain h' where h': "unmap_loop ?h root (a + 4096) l = Some (h', 0)" "pt_inv h' V root T" "grows ?h V T h' V T"
    "\<forall>x < MAXVA. pt_leaf h' T x = (if mapped (a + 4096) (Suc n) x then 0 else pt_leaf ?h T x)"
    using Suc.IH [OF S(1) b l] by blast
  have "pt_leaf h' T x = (if mapped a (Suc (Suc n)) x then 0 else pt_leaf h T x)" if "x < MAXVA" for x
    using h'(4) leaf1 [OF that] that mapped_Suc(1) [OF a', of "Suc n" x] by auto
  then show ?case unfolding eq using h'(1,2) grows_trans [OF S(3) h'(3)] by (intro exI [of _ h']) simp
qed

section \<open>The entry of an address\<close>

definition pte_of :: "kernel_heap \<Rightarrow> u64 \<Rightarrow> u64 \<Rightarrow> u64 option" where
  "pte_of h root va = do {
     (h, pte) \<leftarrow> walk h root va False;
     Some (if pte = 0 then 0 else load64 (bytes h) pte)
   }"

lemma pte_of_leaf: "\<lbrakk>pt_inv h V root T; va < MAXVA\<rbrakk> \<Longrightarrow> pte_of h root va = Some (pt_leaf h T va)"
  using slot_of_null [of h V root T va] walk_find [of h V root T va]
  by (cases "T (path va 0)") (auto simp: pte_of_def pt_leaf_def leaf_def slot_of_def path_simps entry_def)

lemma walk_addr_pte:
  assumes "pt_inv h V root T" "va < MAXVA"
  shows "walk_addr h root va = Some (if pt_leaf h T va AND PTE_V = 0 \<or> pt_leaf h T va AND PTE_U = 0 then 0 else PTE2PA (pt_leaf h T va))"
  using slot_of_null [OF assms(1), of va] walk_find [OF assms] assms(2)
  by (cases "T (path va 0)") (auto simp: walk_addr_def pt_leaf_def leaf_def slot_of_def path_simps entry_def Let_def)

lemma unat_PGROUNDDOWN: "unat (PGROUNDDOWN a) = unat a div 4096 * 4096"
  using unat_and_not_mask [of a 12] by (simp add: PGROUNDDOWN_def mask_eq_exp_minus_1)

lemma page_range:
  assumes "va AND 0xFFF = 0" "sz AND 0xFFF = 0" "sz \<noteq> 0" "unat va + unat sz \<le> 2 ^ 38"
  obtains n where "unat va mod 4096 = 0" "unat sz = 4096 * Suc n" "unat va + 4096 * n < 2 ^ 38" "PGROUNDDOWN va = va"
    "PGROUNDDOWN (va + sz - 1) = va + of_nat (4096 * n)"
proof -
  have va: "unat va mod 4096 = 0" and sz: "unat sz mod 4096 = 0" using assms(1,2) and_page_mask_0 by force+
  have pos: "0 < unat sz" using assms(3) by (simp add: unat_gt_0)
  define n where "n = unat sz div 4096 - 1"
  have n: "unat sz = 4096 * Suc n" unfolding n_def using sz pos by auto
  obtain q where q: "unat va = 4096 * q" using va by (metis mod_eq_0_iff_dvd dvdE)
  have "unat (va + sz) = unat va + unat sz" using assms(4) by (intro unat_add_64) simp
  then have "unat (va + sz - 1) = 4096 * (q + n) + 4095" using q n by (subst unat_sub) (simp_all add: word_le_nat_alt)
  moreover have "(4096 * r + 4095) div 4096 = r" for r :: nat by simp
  ultimately have "unat (PGROUNDDOWN (va + sz - 1)) = 4096 * (q + n)" by (simp only: unat_PGROUNDDOWN mult.commute)
  moreover have "unat (va + of_nat (4096 * n)) = 4096 * (q + n)"
  proof -
    have "unat (of_nat (4096 * n) :: u64) = 4096 * n" by (rule unat_of_nat_64) (use assms(4) n in simp)
    then show ?thesis using q assms(4) n by (subst unat_add_64) simp_all
  qed
  ultimately have "PGROUNDDOWN (va + sz - 1) = va + of_nat (4096 * n)" by (simp only: word_unat_eq_iff)
  moreover have "PGROUNDDOWN va = va" using q by (simp add: word_unat_eq_iff unat_PGROUNDDOWN)
  ultimately show thesis using that va n assms(4) by simp
qed


lemma mapped_addr:
  assumes "unat va mod 4096 = 0"
  shows "mapped va k x \<longleftrightarrow> unat va \<le> unat x \<and> unat x < unat va + 4096 * k"
    "unat va \<le> unat x \<Longrightarrow> page_pte va pa perm x = PA2PTE (pa + (PGROUNDDOWN x - va)) OR perm OR PTE_V"
proof -
  obtain q where q: "unat va = 4096 * q" using assms by (metis mod_eq_0_iff_dvd dvdE)
  then show "mapped va k x \<longleftrightarrow> unat va \<le> unat x \<and> unat x < unat va + 4096 * k"
    unfolding mapped_def by (simp add: less_eq_div_iff_mult_less_eq div_less_iff_less_mult algebra_simps)
  assume le: "unat va \<le> unat x"
  then have "q \<le> unat x div 4096" using q by simp
  then have "(unat x div 4096 - unat va div 4096) * 4096 = unat (PGROUNDDOWN x) - unat va" using q by (simp add: unat_PGROUNDDOWN diff_mult_distrib)
  also have "\<dots> = unat (PGROUNDDOWN x - va)"
    using \<open>q \<le> unat x div 4096\<close> q by (subst unat_sub) (simp_all add: unat_PGROUNDDOWN word_le_nat_alt)
  finally show "page_pte va pa perm x = PA2PTE (pa + (PGROUNDDOWN x - va)) OR perm OR PTE_V" by (simp add: page_pte_def)
qed

lemma map_range_spec:
  assumes inv: "pt_inv h V root T" and range: "va AND 0xFFF = 0" "sz AND 0xFFF = 0" "sz \<noteq> 0" "unat va + unat sz \<le> 2 ^ 38"
  obtains h' V' T' r k where "map_range_in_pgtbl h root va pa sz perm = Some (h', r)" "pt_inv h' V' root T'" "grows h V T h' V' T'"
    "r = 0 \<and> k = unat sz \<or> r = -1 \<and> k < unat sz \<and> alloc_page h' 1 = Some (h', 0)"
    "\<forall>x < MAXVA. pt_leaf h' T' x = (if unat va \<le> unat x \<and> unat x < unat va + k then PA2PTE (pa + (PGROUNDDOWN x - va)) OR scast perm OR PTE_V else pt_leaf h T x)"
proof -
  obtain n where n: "unat va mod 4096 = 0" "unat sz = 4096 * Suc n" "unat va + 4096 * n < 2 ^ 38" "PGROUNDDOWN va = va"
    "PGROUNDDOWN (va + sz - 1) = va + of_nat (4096 * n)"
    using range by (rule page_range)
  from map_loop_spec [OF inv n(1,3) refl, of pa "scast perm"] obtain h' V' T' r k where
    m: "map_loop h root va (va + of_nat (4096 * n)) pa (scast perm) = Some (h', r)" "pt_inv h' V' root T'" "grows h V T h' V' T'"
    "r = 0 \<and> k = Suc n \<or> r = -1 \<and> k \<le> n \<and> alloc_page h' 1 = Some (h', 0)"
    "\<forall>x < MAXVA. pt_leaf h' T' x = (if mapped va k x then page_pte va pa (scast perm) x else pt_leaf h T x)"
    by blast
  show thesis
  proof (rule that [OF _ m(2,3), of r "4096 * k"])
    show "map_range_in_pgtbl h root va pa sz perm = Some (h', r)" using m(1) range(1,2) n(4,5) by (simp add: map_range_in_pgtbl_def)
    show "r = 0 \<and> 4096 * k = unat sz \<or> r = - 1 \<and> 4096 * k < unat sz \<and> alloc_page h' 1 = Some (h', 0)" using m(4) n(2) by auto
    show "\<forall>x < MAXVA. pt_leaf h' T' x = (if unat va \<le> unat x \<and> unat x < unat va + 4096 * k then PA2PTE (pa + (PGROUNDDOWN x - va)) OR scast perm OR PTE_V else pt_leaf h T x)"
      using m(5) mapped_addr [OF n(1)] by simp
  qed
qed

lemma unmap_range_spec:
  assumes inv: "pt_inv h V root T" and range: "va AND 0xFFF = 0" "sz AND 0xFFF = 0" "sz \<noteq> 0" "unat va + unat sz \<le> 2 ^ 38"
    and valid: "\<forall>x < MAXVA. unat va \<le> unat x \<and> unat x < unat va + unat sz \<longrightarrow> pt_leaf h T x \<noteq> 0"
  obtains h' where "unmap_range_in_pgtbl h root va sz = Some (h', 0)" "pt_inv h' V root T" "grows h V T h' V T"
    "\<forall>x < MAXVA. pt_leaf h' T x = (if unat va \<le> unat x \<and> unat x < unat va + unat sz then 0 else pt_leaf h T x)"
proof -
  obtain n where n: "unat va mod 4096 = 0" "unat sz = 4096 * Suc n" "unat va + 4096 * n < 2 ^ 38" "PGROUNDDOWN va = va"
    "PGROUNDDOWN (va + sz - 1) = va + of_nat (4096 * n)"
    using range by (rule page_range)
  have "\<forall>x < MAXVA. mapped va (Suc n) x \<longrightarrow> pt_leaf h T x \<noteq> 0" using valid mapped_addr(1) [OF n(1), of "Suc n"] n(2) by simp
  from unmap_loop_spec [OF inv n(1,3) refl this] obtain h' where "unmap_loop h root va (va + of_nat (4096 * n)) = Some (h', 0)" "pt_inv h' V root T"
    "grows h V T h' V T" "\<forall>x < MAXVA. pt_leaf h' T x = (if mapped va (Suc n) x then 0 else pt_leaf h T x)" by blast
  then show thesis using that [of h'] mapped_addr(1) [OF n(1), of "Suc n"] n(2,4,5) by (simp add: unmap_range_in_pgtbl_def)
qed

section \<open>New page tables\<close>

lemma pagetable_create_spec:
  assumes ok: "heap_ok h V"
  obtains (none) "alloc_page h 1 = Some (h, 0)" "pagetable_create h = None"
    | (some) h' root k where "pagetable_create h = Some (h', root)" "pt_inv h' (insert (root, k) V) root [[] \<mapsto> root]" "\<forall>x. pt_leaf h' [[] \<mapsto> root] x = 0"
  using ok
proof (cases rule: zeroed_page)
  case none
  then show thesis using that(1) by (simp add: pagetable_create_def)
next
  case (some h' a m k)
  have "heap_ok (h'\<lparr>bytes := m\<rparr>) (insert (a, k) V)" "\<forall>x. in_page a x \<longrightarrow> bytes (h'\<lparr>bytes := m\<rparr>) x = 0" using some(7,8) by simp_all
  note S = pt.single_table [OF this(1) some(5,3,2) this(2)]
  show thesis
    by (rule that(2) [of "h'\<lparr>bytes := m\<rparr>" a k]) (use some(1,2,4) S PX_less in \<open>simp_all add: pagetable_create_def pt_leaf_def\<close>)
qed

text \<open>Only identity mappings.\<close>

definition identity :: "kernel_heap \<Rightarrow> table_map \<Rightarrow> bool" where
  "identity h T \<longleftrightarrow> (\<forall>x < MAXVA. pt_leaf h T x AND PTE_V \<noteq> 0 \<longrightarrow> PTE2PA (pt_leaf h T x) = PGROUNDDOWN x)"

lemma identity_step:
  assumes "pt_inv h V root T \<and> identity h T" "va AND 0xFFF = 0" "sz AND 0xFFF = 0" "sz \<noteq> 0" "unat va + unat sz \<le> 2 ^ 38"
    "unat (scast perm :: u64) < 1024"
  obtains h' V' T' r where "map_range_in_pgtbl h root va va sz perm = Some (h', r)" "pt_inv h' V' root T' \<and> identity h' T'"
proof -
  obtain h' V' T' r k where m: "map_range_in_pgtbl h root va va sz perm = Some (h', r)" "pt_inv h' V' root T'"
    "\<forall>x < MAXVA. pt_leaf h' T' x = (if unat va \<le> unat x \<and> unat x < unat va + k then PA2PTE (va + (PGROUNDDOWN x - va)) OR scast perm OR PTE_V else pt_leaf h T x)"
    using assms(1-5) map_range_spec by (metis (no_types, lifting))
  have "PTE2PA (PA2PTE (PGROUNDDOWN x) OR scast perm OR PTE_V) = PGROUNDDOWN x" for x
    using assms(6) by (intro PTE2PA_PA2PTE) (simp_all add: unat_PGROUNDDOWN)
  then have "identity h' T'" using m(3) assms(1) by (simp add: identity_def)
  then show thesis using that m by blast
qed


lemma map_kernel_page_identity:
  assumes "pt_inv h V root T \<and> identity h T" "etext AND 0xFFF = 0" "KERNBASE < etext" "etext < PHYSTOP"
  obtains h' V' T' where "map_kernel_page h root etext = Some h'" "pt_inv h' V' root T' \<and> identity h' T'"
proof -
  have etext: "unat etext mod 4096 = 0" using assms(2) and_page_mask_0 by force
  have sz1: "unat (etext - KERNBASE) = unat etext - 0x80000000" and sz2: "unat (PHYSTOP - etext) = 0x88000000 - unat etext"
    using assms(3,4) by (simp_all add: unat_sub word_le_nat_alt word_less_nat_alt)
  obtain q where q: "unat etext = 4096 * q" using etext by (metis mod_eq_0_iff_dvd dvdE)
  have "4096 dvd unat (etext - KERNBASE)" "4096 dvd unat (PHYSTOP - etext)" unfolding sz1 sz2 q by (auto intro!: dvd_diff_nat)
  then have al: "(etext - KERNBASE) AND 0xFFF = 0" "(PHYSTOP - etext) AND 0xFFF = 0" using and_page_mask_0 [of "etext - KERNBASE"] and_page_mask_0 [of "PHYSTOP - etext"] by simp_all
  have b: "0x80000000 < unat etext" "unat etext < 0x88000000" using assms(3,4) by (simp_all add: word_less_nat_alt)
  have ne: "etext - KERNBASE \<noteq> 0" "PHYSTOP - etext \<noteq> 0" using assms(3,4) by auto
  obtain h1 V1 T1 r1 where 1: "map_range_in_pgtbl h root CLINT CLINT 0x10000 (ucast (PTE_R OR PTE_W)) = Some (h1, r1)" "pt_inv h1 V1 root T1 \<and> identity h1 T1"
    by (rule identity_step [OF assms(1)]) auto
  obtain h2 V2 T2 r2 where 2: "map_range_in_pgtbl h1 root UART0 UART0 PGSIZE (ucast (PTE_R OR PTE_W)) = Some (h2, r2)" "pt_inv h2 V2 root T2 \<and> identity h2 T2"
    by (rule identity_step [OF 1(2)]) auto
  obtain h3 V3 T3 r3 where 3: "map_range_in_pgtbl h2 root VIRTIO0 VIRTIO0 (PGSIZE * 8) (ucast (PTE_R OR PTE_W)) = Some (h3, r3)" "pt_inv h3 V3 root T3 \<and> identity h3 T3"
    by (rule identity_step [OF 2(2)]) auto
  obtain h4 V4 T4 r4 where 4: "map_range_in_pgtbl h3 root PLIC_ADDR PLIC_ADDR 0x400000 (ucast (PTE_R OR PTE_W)) = Some (h4, r4)" "pt_inv h4 V4 root T4 \<and> identity h4 T4"
    by (rule identity_step [OF 3(2)]) auto
  obtain h5 V5 T5 r5 where 5: "map_range_in_pgtbl h4 root KERNBASE KERNBASE (etext - KERNBASE) (ucast (PTE_R OR PTE_X)) = Some (h5, r5)" "pt_inv h5 V5 root T5 \<and> identity h5 T5"
    by (rule identity_step [OF 4(2), of KERNBASE "etext - KERNBASE" "ucast (PTE_R OR PTE_X)"]) (use al(1) ne(1) sz1 b in auto)
  obtain h6 V6 T6 r6 where 6: "map_range_in_pgtbl h5 root etext etext (PHYSTOP - etext) (ucast (PTE_R OR PTE_W)) = Some (h6, r6)" "pt_inv h6 V6 root T6 \<and> identity h6 T6"
    by (rule identity_step [OF 5(2) assms(2), of "PHYSTOP - etext" "ucast (PTE_R OR PTE_W)"]) (use al(2) ne(2) sz2 b in auto)
  show thesis using that [OF _ 6(2)] 1(1) 2(1) 3(1) 4(1) 5(1) 6(1) by (simp add: map_kernel_page_def)
qed

lemma unat_add_mod: "unat (a + b) mod 4096 = (unat a + unat b) mod 4096" for a b :: u64
  by (simp add: unat_word_ariths mod_mod_cancel)

lemma aligned_add: "\<lbrakk>aligned a; aligned b\<rbrakk> \<Longrightarrow> aligned (a + b)"
  by (simp add: unat_add_mod mod_add_eq [symmetric, of "unat a"])

lemma aligned_diff: "\<lbrakk>aligned a; aligned b\<rbrakk> \<Longrightarrow> aligned (a - b)"
  using unat_add_mod [of "a - b" b] by (simp add: mod_add_eq [symmetric, of "unat (a - b)"])

lemma make_satp:
  assumes "aligned t"
  shows "drop_bit 60 (MAKE_SATP t) = 8" "push_bit 12 (take_bit 52 (MAKE_SATP t)) = t"
proof -
  have "take_bit 12 t = 0" using assms by (simp add: word_unat_eq_iff unat_take_bit)
  then have t: "12 \<le> n" if "bit t n" for n using that by (metis bit_0_eq bit_take_bit_iff bot_apply bot_bool_def not_le)
  have b: "bit (MAKE_SATP t) n \<longleftrightarrow> n = 63 \<or> n < 52 \<and> bit t (12 + n)" for n
  proof -
    have "bit (push_bit 60 8 :: u64) n \<longleftrightarrow> n = 63" using bit_exp_iff [of 63 n, where ?'a = u64] by auto
    then show ?thesis using bit_imp_le_length [of t "12 + n"] unfolding MAKE_SATP_def bit_or_iff bit_drop_bit_eq by auto
  qed
  have "bit (8 :: u64) n \<longleftrightarrow> n = 3" for n using bit_exp_iff [of 3 n, where ?'a = u64] by auto
  then show "drop_bit 60 (MAKE_SATP t) = 8" by (intro bit_word_eqI) (auto simp: bit_simps b)
  show "push_bit 12 (take_bit 52 (MAKE_SATP t)) = t"
    by (rule bit_word_eqI) (use t in \<open>auto simp: bit_simps b\<close>)
qed

section \<open>Properties\<close>

text \<open>A heap with four free pages.\<close>

definition four_page_heap :: kernel_heap where
  "four_page_heap = \<lparr>control = fresh_pools, bytes = \<lambda>_. 0\<rparr>"

lemma four_page_heap_ok: "heap_ok four_page_heap {}"
  by (rule heap_okI [of _ "{}" "{}"]) (use fresh_pools_inv in \<open>simp_all add: four_page_heap_def small_objects_def large_objects_def\<close>)

lemma four_page_table:
  obtains h root k where "pagetable_create four_page_heap = Some (h, root)" "pt_inv h {(root, k)} root [[] \<mapsto> root]" "\<forall>x. pt_leaf h [[] \<mapsto> root] x = 0"
  using four_page_heap_ok
proof (cases rule: pagetable_create_spec)
  case none
  then have "buddy_alloc_page four_pages 1 = Some (four_pages, 0)"
    using fresh_pools_inv(3) by (cases "buddy_alloc_page four_pages 1") (auto simp: alloc_page_def four_page_heap_def dest: arg_cong [where f = system])
  then show ?thesis using four_pages_alloc_nonzero by blast
qed (use that in blast)

text \<open>C12: \<^verbatim>\<open>map_range_in_pgtbl\<close> never stops the kernel on a range of pages below \<^verbatim>\<open>MAXVA\<close>: it maps every page of the range to the
  corresponding physical page with the given permissions, or, when the heap has no page left for a table, a first part of the
  range only and returns \<open>-1\<close>. The entry of every other address, every byte outside the tables and the shape
  of the tables stay as they were.\<close>

theorem map_range_correct:
  assumes "pt_inv h V root T" "va AND 0xFFF = 0" "sz AND 0xFFF = 0" "sz \<noteq> 0" "unat va + unat sz \<le> 2 ^ 38"
  shows "\<exists>h' V' T' r k. map_range_in_pgtbl h root va pa sz perm = Some (h', r) \<and> pt_inv h' V' root T'
    \<and> (r = 0 \<and> k = unat sz \<or> r = -1 \<and> k < unat sz \<and> alloc_page h' 1 = Some (h', 0))
    \<and> (\<forall>x < MAXVA. pte_of h' root x =
         (if unat va \<le> unat x \<and> unat x < unat va + k then Some (PA2PTE (pa + (PGROUNDDOWN x - va)) OR scast perm OR PTE_V) else pte_of h root x))
    \<and> (\<forall>y. outside T' y \<longrightarrow> bytes h' y = bytes h y)"
proof -
  obtain h' V' T' r k where m: "map_range_in_pgtbl h root va pa sz perm = Some (h', r)" "pt_inv h' V' root T'" "grows h V T h' V' T'"
    "r = 0 \<and> k = unat sz \<or> r = -1 \<and> k < unat sz \<and> alloc_page h' 1 = Some (h', 0)"
    "\<forall>x < MAXVA. pt_leaf h' T' x = (if unat va \<le> unat x \<and> unat x < unat va + k then PA2PTE (pa + (PGROUNDDOWN x - va)) OR scast perm OR PTE_V else pt_leaf h T x)"
    using assms by (rule map_range_spec)
  have "\<forall>x < MAXVA. pte_of h' root x =
      (if unat va \<le> unat x \<and> unat x < unat va + k then Some (PA2PTE (pa + (PGROUNDDOWN x - va)) OR scast perm OR PTE_V) else pte_of h root x)"
    using m(5) pte_of_leaf [OF m(2)] pte_of_leaf [OF assms(1)] by simp
  moreover have "\<forall>y. outside T' y \<longrightarrow> bytes h' y = bytes h y" using m(3) by (simp add: grows_def)
  ultimately show ?thesis using m(1,2,4) by (intro exI [of _ h'] exI [of _ V'] exI [of _ T'] exI [of _ r] exI [of _ k] conjI)
qed

theorem map_range_correct_witness:
  "\<exists>h root h' r (k :: nat). pagetable_create four_page_heap = Some (h, root) \<and> map_range_in_pgtbl h root 0x20000000 0x80000000 0x2000 22 = Some (h', r)
    \<and> (r = 0 \<and> k = 0x2000 \<or> r = -1 \<and> k < 0x2000)
    \<and> pte_of h' root 0x20001234 = (if 0x20001234 < 0x20000000 + k then Some (PA2PTE 0x80001000 OR 22 OR PTE_V) else pte_of h root 0x20001234)"
proof -
  obtain h root k where h: "pagetable_create four_page_heap = Some (h, root)" "pt_inv h {(root, k)} root [[] \<mapsto> root]" by (rule four_page_table)
  have e: "PGROUNDDOWN 0x20001234 - 0x20000000 = 0x1000" "(0x20000000 :: u64) AND 0xFFF = 0" "(0x2000 :: u64) AND 0xFFF = 0" by (simp_all add: PGROUNDDOWN_def)
  have "(0x2000 :: u64) \<noteq> 0" "unat (0x20000000 :: u64) + unat (0x2000 :: u64) \<le> 2 ^ 38" by simp_all
  from map_range_correct [OF h(2) e(2,3) this, of "0x80000000" 22] obtain h' r k' where
    "map_range_in_pgtbl h root 0x20000000 0x80000000 0x2000 22 = Some (h', r)" "r = 0 \<and> k' = 0x2000 \<or> r = -1 \<and> k' < 0x2000"
    "\<forall>x < MAXVA. pte_of h' root x = (if unat (0x20000000 :: u64) \<le> unat x \<and> unat x < unat (0x20000000 :: u64) + k'
       then Some (PA2PTE (0x80000000 + (PGROUNDDOWN x - 0x20000000)) OR scast (22 :: u32) OR PTE_V) else pte_of h root x)"
    by auto
  from this(1,2) this(3) [rule_format, of "0x20001234"] h(1) show ?thesis
    by (intro exI [of _ h] exI [of _ root] exI [of _ h'] exI [of _ r] exI [of _ k'] conjI) (simp_all add: e(1))
qed


text \<open>C13: Mapping and unmapping a range of pages is a round trip: after a successful \<^verbatim>\<open>map_range_in_pgtbl\<close> with user permission
  \<^verbatim>\<open>walk_addr\<close> translates every address of the range, and after \<^verbatim>\<open>unmap_range_in_pgtbl\<close> no address of the
  range is translated and every other address as it was before both calls.\<close>

theorem map_unmap_roundtrip:
  assumes "pt_inv h V root T" "va AND 0xFFF = 0" "sz AND 0xFFF = 0" "sz \<noteq> 0" "unat va + unat sz \<le> 2 ^ 38"
    and "pa AND 0xFFF = 0" "unat (scast perm :: u64) < 1024" "scast perm AND PTE_U \<noteq> 0"
    and "map_range_in_pgtbl h root va pa sz perm = Some (h1, 0)"
  shows "(\<forall>x. unat va \<le> unat x \<and> unat x < unat va + unat sz \<longrightarrow> walk_addr h1 root x = Some (pa + (PGROUNDDOWN x - va)))
    \<and> (\<exists>h2. unmap_range_in_pgtbl h1 root va sz = Some (h2, 0)
         \<and> (\<forall>x < MAXVA. walk_addr h2 root x = (if unat va \<le> unat x \<and> unat x < unat va + unat sz then Some 0 else walk_addr h root x)))"
proof -
  let ?in = "\<lambda>x. unat va \<le> unat x \<and> unat x < unat va + unat sz" and ?e = "\<lambda>x. PA2PTE (pa + (PGROUNDDOWN x - va)) OR scast perm OR PTE_V"
  obtain V1 T1 where inv: "pt_inv h1 V1 root T1" and m: "\<forall>x < MAXVA. pt_leaf h1 T1 x = (if ?in x then ?e x else pt_leaf h T x)"
    by (rule map_range_spec [OF assms(1-5), of pa perm]) (use assms(9) in auto)
  have below: "x < MAXVA" if "?in x" for x using that assms(5) by (simp add: word_less_nat_alt)
  have e: "?e x AND PTE_V \<noteq> 0" "?e x AND PTE_U \<noteq> 0" "?e x \<noteq> 0" "PTE2PA (?e x) = pa + (PGROUNDDOWN x - va)" for x
  proof -
    show "?e x AND PTE_V \<noteq> 0" "?e x \<noteq> 0" by (simp_all add: bit.conj_disj_distrib2 or_eq_0_iff)
    show "?e x AND PTE_U \<noteq> 0" using assms(8) by (simp add: bit.conj_disj_distrib2 or_eq_0_iff)
    have "aligned pa" "aligned va" using assms(2,6) and_page_mask_0 by force+
    then have "aligned (pa + (PGROUNDDOWN x - va))" by (intro aligned_add aligned_diff) (simp_all add: unat_PGROUNDDOWN)
    then show "PTE2PA (?e x) = pa + (PGROUNDDOWN x - va)" using assms(7) by (rule PTE2PA_PA2PTE)
  qed
  have 1: "\<forall>x. ?in x \<longrightarrow> walk_addr h1 root x = Some (pa + (PGROUNDDOWN x - va))"
    using walk_addr_pte [OF inv below] m below e by simp
  have "\<forall>x < MAXVA. ?in x \<longrightarrow> pt_leaf h1 T1 x \<noteq> 0" using m e(3) by simp
  with inv assms(2-5) obtain h2 where h2: "unmap_range_in_pgtbl h1 root va sz = Some (h2, 0)" "pt_inv h2 V1 root T1"
    "\<forall>x < MAXVA. pt_leaf h2 T1 x = (if ?in x then 0 else pt_leaf h1 T1 x)"
    by (rule unmap_range_spec)
  have "\<forall>x < MAXVA. walk_addr h2 root x = (if ?in x then Some 0 else walk_addr h root x)"
  proof (intro allI impI)
    fix x :: u64 assume x: "x < MAXVA"
    show "walk_addr h2 root x = (if ?in x then Some 0 else walk_addr h root x)"
      using walk_addr_pte [OF h2(2) x] walk_addr_pte [OF assms(1) x] h2(3) [rule_format, OF x] m [rule_format, OF x] by auto
  qed
  then show ?thesis using 1 h2(1) by blast
qed


text \<open>A page table whose three tables lie in one object of the heap.\<close>

definition sample_tables :: kernel_heap where
  "sample_tables = small_heap\<lparr>bytes := store64 (store64 (\<lambda>_. 0) (elem_ptr 0x80200000 0) (PA2PTE 0x80201000 OR PTE_V))
     (elem_ptr 0x80201000 0x100) (PA2PTE 0x80202000 OR PTE_V)\<rparr>"

definition sample_map :: table_map where
  "sample_map = [[] \<mapsto> 0x80200000, [0] \<mapsto> 0x80201000, [0, 0x100] \<mapsto> 0x80202000]"

lemma sample_entry:
  assumes "aligned t" "i < 512"
  shows "entry sample_tables t i = (if t = 0x80201000 \<and> i = 0x100 then PA2PTE 0x80202000 OR PTE_V
    else if t = 0x80200000 \<and> i = 0 then PA2PTE 0x80201000 OR PTE_V else 0)"
proof -
  have "aligned 0x80200000" "(0 :: u64) < 512" "aligned 0x80201000" "(0x100 :: u64) < 512" by simp_all
  then show ?thesis using load64_other [OF assms, of "0x80201000" "0x100"] load64_other [OF assms, of "0x80200000" 0] load64_zero [of "\<lambda>_. 0" "elem_ptr t i"]
    by (auto simp: entry_def sample_tables_def)
qed

lemma sample_inv: "pt_inv sample_tables {(0x80200000, 16384)} 0x80200000 sample_map"
  unfolding tree_inv_def
proof (intro conjI allI impI, goal_cases)
  case 1
  show ?case using small_heap_ok by (simp add: sample_tables_def)
next
  case 7
  then show ?case by (auto simp: sample_map_def inj_on_def)
next
  case (9 p t i)
  then have "p = [] \<and> t = 0x80200000 \<or> p = [0] \<and> t = 0x80201000" by (auto simp: sample_map_def split: if_splits)
  moreover have "pte_target (PA2PTE 0x80201000 OR PTE_V) = Some 0x80201000" "pte_target (PA2PTE 0x80202000 OR PTE_V) = Some 0x80202000"
    by (simp_all add: pt.decode_encode)
  ultimately show ?case using 9 sample_entry [of t i] pt.decode_0 by (auto simp: sample_map_def)
qed (auto simp: sample_map_def object_bytes_def split: if_splits)

theorem map_unmap_roundtrip_witness:
  "\<exists>h1 h2. map_range_in_pgtbl sample_tables 0x80200000 0x20000000 0x80000000 0x1000 22 = Some (h1, 0)
    \<and> walk_addr h1 0x80200000 0x20000123 = Some 0x80000000 \<and> unmap_range_in_pgtbl h1 0x80200000 0x20000000 0x1000 = Some (h2, 0)
    \<and> walk_addr h2 0x80200000 0x20000123 = Some 0"
proof -
  have ar: "(0x20000000 :: u64) AND 0xFFF = 0" "(0x1000 :: u64) AND 0xFFF = 0" "(0x1000 :: u64) \<noteq> 0"
    "unat (0x20000000 :: u64) + unat (0x1000 :: u64) \<le> 2 ^ 38" "(0x80000000 :: u64) AND 0xFFF = 0"
    "unat (scast (22 :: u32) :: u64) < 1024" "scast (22 :: u32) AND PTE_U \<noteq> 0" by simp_all
  have px: "PX 2 0x20000000 = 0" "PX 1 0x20000000 = 0x100" by (simp_all add: PX_def)
  then have "sample_map (path 0x20000000 0) = Some 0x80202000" by (simp add: path_simps sample_map_def)
  from walk_existing [OF sample_inv this, of True] slot_of_null [OF sample_inv this] obtain h1
    where h1: "map_range_in_pgtbl sample_tables 0x80200000 0x20000000 0x80000000 0x1000 22 = Some (h1, 0)"
    by (simp add: map_range_in_pgtbl_def map_loop.simps [of sample_tables] PGROUNDDOWN_def)
  have pg: "PGROUNDDOWN 0x20000123 = 0x20000000" by (simp add: PGROUNDDOWN_def)
  from map_unmap_roundtrip [OF sample_inv ar h1] obtain h2 where
    "\<forall>x. unat (0x20000000 :: u64) \<le> unat x \<and> unat x < unat (0x20000000 :: u64) + unat (0x1000 :: u64)
       \<longrightarrow> walk_addr h1 0x80200000 x = Some (0x80000000 + (PGROUNDDOWN x - 0x20000000))"
    "unmap_range_in_pgtbl h1 0x80200000 0x20000000 0x1000 = Some (h2, 0)"
    "\<forall>x < MAXVA. walk_addr h2 0x80200000 x = (if unat (0x20000000 :: u64) \<le> unat x \<and> unat x < unat (0x20000000 :: u64) + unat (0x1000 :: u64)
       then Some 0 else walk_addr sample_tables 0x80200000 x)"
    by blast
  from this(1) [rule_format, of "0x20000123"] this(2) this(3) [rule_format, of "0x20000123"] h1 show ?thesis by (simp add: pg)
qed

text \<open>\<^verbatim>\<open>do_kvm_init\<close> stops the kernel only when there is no page for the root table. The page table it
  activates is the identity: an address below \<^verbatim>\<open>MAXVA\<close> is mapped to itself or not at all, whether or not all tables could be allocated,
  and \<^verbatim>\<open>satp\<close> selects three-level translation starting at the root table.\<close>

lemma do_kvm_init_identity:
  assumes "heap_ok h V" "etext AND 0xFFF = 0" "KERNBASE < etext" "etext < PHYSTOP" "alloc_page h 1 \<noteq> Some (h, 0)"
  shows "\<exists>h2 root satp. do_kvm_init h etext = Some (h2, root, satp) \<and> drop_bit 60 satp = 8 \<and> push_bit 12 (take_bit 52 satp) = root
    \<and> (\<forall>x < MAXVA. \<exists>e. pte_of h2 root x = Some e \<and> (e AND PTE_V \<noteq> 0 \<longrightarrow> PTE2PA e = PGROUNDDOWN x))"
proof -
  obtain h1 root k where h1: "pagetable_create h = Some (h1, root)" "pt_inv h1 (insert (root, k) V) root [[] \<mapsto> root]" "\<forall>x. pt_leaf h1 [[] \<mapsto> root] x = 0"
    using assms(1) by (rule pagetable_create_spec) (use assms(5) in auto)
  then have "pt_inv h1 (insert (root, k) V) root [[] \<mapsto> root] \<and> identity h1 [[] \<mapsto> root]" by (simp add: identity_def)
  then obtain h2 V2 T2 where h2: "map_kernel_page h1 root etext = Some h2" "pt_inv h2 V2 root T2 \<and> identity h2 T2"
    using assms(2-4) by (rule map_kernel_page_identity)
  have "aligned root" using tree_invD(3) [OF h1(2), of "[]" root] by simp
  note satp = make_satp [OF this]
  have "\<forall>x < MAXVA. \<exists>e. pte_of h2 root x = Some e \<and> (e AND PTE_V \<noteq> 0 \<longrightarrow> PTE2PA e = PGROUNDDOWN x)"
    using pte_of_leaf [of h2 V2 root T2] h2(2) by (auto simp: identity_def)
  then show ?thesis using h1(1) h2(1) satp by (intro exI [of _ h2] exI [of _ root] exI [of _ "MAKE_SATP root"] conjI) (simp_all add: do_kvm_init_def)
qed

lemma do_kvm_init_identity_witness:
  "\<exists>h root satp e. do_kvm_init four_page_heap 0x80020000 = Some (h, root, satp) \<and> drop_bit 60 satp = 8
    \<and> pte_of h root 0x80000000 = Some e \<and> (e AND PTE_V \<noteq> 0 \<longrightarrow> PTE2PA e = 0x80000000)"
proof -
  have ar: "(0x80020000 :: u64) AND 0xFFF = 0" "(KERNBASE :: u64) < 0x80020000" "(0x80020000 :: u64) < PHYSTOP" by simp_all
  have "alloc_page four_page_heap 1 \<noteq> Some (four_page_heap, 0)" by (rule four_page_table) (auto simp: pagetable_create_def)
  from do_kvm_init_identity [OF four_page_heap_ok ar this] obtain h2 root satp where h2: "do_kvm_init four_page_heap 0x80020000 = Some (h2, root, satp)"
    "drop_bit 60 satp = 8" "\<forall>x < MAXVA. \<exists>e. pte_of h2 root x = Some e \<and> (e AND PTE_V \<noteq> 0 \<longrightarrow> PTE2PA e = PGROUNDDOWN x)" by blast
  have "PGROUNDDOWN 0x80000000 = 0x80000000" by (simp add: PGROUNDDOWN_def)
  with h2(1,2) h2(3) [rule_format, of "0x80000000"] show ?thesis by auto
qed

end
