(* ===== verification/Radix.thy ===== *)
theory Radix
  imports Table_Tree
begin

text \<open>
  The radix tree of \<^verbatim>\<open>lib/radix.c\<close>: eight levels of nodes with 512 words each, indexed by nine bits of the key per level.
  The nodes are objects of the kernel heap; the union of \<^verbatim>\<open>children\<close> and \<^verbatim>\<open>values\<close> is the array of words. The
  structure \<^verbatim>\<open>struct radix\<close> is passed and returned.
\<close>

section \<open>Definitions\<close>

abbreviation (input) RADIX_NODE_BITS :: nat where "RADIX_NODE_BITS \<equiv> 9"
abbreviation (input) RADIX_NODE_SIZE :: nat where "RADIX_NODE_SIZE \<equiv> 512"
abbreviation (input) RADIX_NODE_MASK :: u64 where "RADIX_NODE_MASK \<equiv> 511"
abbreviation (input) RADIX_LEVELS :: nat where "RADIX_LEVELS \<equiv> 8"

record radix =
  radix_root :: u64
  value_deleter :: bool

definition new_radix :: "kernel_heap \<Rightarrow> (kernel_heap \<times> radix option) option" where
  "new_radix h = do {
     (h, p) \<leftarrow> calloc h 1 16;
     Some (h, if p = 0 then None else Some \<lparr>radix_root = 0, value_deleter = False\<rparr>)
   }"

definition init_radix :: "radix option \<Rightarrow> unit option" where
  "init_radix r = assert_that (r \<noteq> None)"

definition init_radix_w_deleter :: "radix option \<Rightarrow> bool \<Rightarrow> radix option" where
  "init_radix_w_deleter r deleter = do {
     r \<leftarrow> r;
     Some (r\<lparr>value_deleter := deleter\<rparr>)
   }"

definition new_radix_node :: "kernel_heap \<Rightarrow> (kernel_heap \<times> u64) option" where
  "new_radix_node h = calloc h 1 4096"

text \<open>The nonzero words of a node, and the result of freeing a tree: the values given to the deleter, in order. No node is freed.
  The levels below the node are the last argument.\<close>

definition node_words :: "kernel_heap \<Rightarrow> u64 \<Rightarrow> u64 list" where
  "node_words h node = filter (\<lambda>w. w \<noteq> 0) (map (\<lambda>i. load64 (bytes h) (elem_ptr node (of_nat i))) [0..<RADIX_NODE_SIZE])"

fun radix_free_node :: "kernel_heap \<Rightarrow> u64 \<Rightarrow> bool \<Rightarrow> nat \<Rightarrow> u64 list" where
  "radix_free_node h node deleter 0 = (if node = 0 then [] else if deleter then node_words h node else [])"
| "radix_free_node h node deleter (Suc n) =
     (if node = 0 then [] else concat (map (\<lambda>child. radix_free_node h child deleter n) (node_words h node)))"

text \<open>The loop that computes the indices.\<close>

fun radix_indices :: "u64 \<Rightarrow> nat \<Rightarrow> u16 list" where
  "radix_indices key 0 = []"
| "radix_indices key (Suc n) = ucast (key AND RADIX_NODE_MASK) # radix_indices (drop_bit RADIX_NODE_BITS key) n"

fun set_loop :: "kernel_heap \<Rightarrow> u64 \<Rightarrow> u16 list \<Rightarrow> nat \<Rightarrow> (kernel_heap \<times> u64) option" where
  "set_loop h node index 0 = Some (h, node)"
| "set_loop h node index (Suc i) = do {
     k \<leftarrow> arr_get index (Suc i);
     let child = elem_ptr node (ucast k);
     if load64 (bytes h) child = 0 then do {
       (h, new) \<leftarrow> new_radix_node h;
       if new = 0 then Some (h, 0)
       else set_loop (h\<lparr>bytes := store64 (bytes h) child new\<rparr>) new index i
     }
     else set_loop h (load64 (bytes h) child) index i
   }"

definition radix_set :: "kernel_heap \<Rightarrow> radix \<Rightarrow> u64 \<Rightarrow> u64 \<Rightarrow> (kernel_heap \<times> radix \<times> bool) option" where
  "radix_set h radix key v = do {
     (h, new) \<leftarrow> (if radix_root radix = 0 then new_radix_node h else Some (h, radix_root radix));
     if new = 0 then Some (h, radix, False)
     else do {
       let radix = radix\<lparr>radix_root := new\<rparr>;
       let index = radix_indices key RADIX_LEVELS;
       (h, node) \<leftarrow> set_loop h (radix_root radix) index (RADIX_LEVELS - 1);
       if node = 0 then Some (h, radix, False)
       else do {
         k \<leftarrow> arr_get index 0;
         Some (h\<lparr>bytes := store64 (bytes h) (elem_ptr node (ucast k)) v\<rparr>, radix, True)
       }
     }
   }"

fun get_loop :: "kernel_heap \<Rightarrow> u64 \<Rightarrow> u16 list \<Rightarrow> nat \<Rightarrow> u64 option" where
  "get_loop h node index 0 = Some node"
| "get_loop h node index (Suc i) = do {
     k \<leftarrow> arr_get index (Suc i);
     let child = load64 (bytes h) (elem_ptr node (ucast k));
     if child = 0 then Some 0 else get_loop h child index i
   }"

definition radix_get :: "kernel_heap \<Rightarrow> radix \<Rightarrow> u64 \<Rightarrow> u64 option" where
  "radix_get h radix key =
     (if radix_root radix = 0 then Some 0
      else do {
        let index = radix_indices key RADIX_LEVELS;
        node \<leftarrow> get_loop h (radix_root radix) index (RADIX_LEVELS - 1);
        if node = 0 then Some 0
        else do {
          k \<leftarrow> arr_get index 0;
          Some (load64 (bytes h) (elem_ptr node (ucast k)))
        }
      })"

definition radix_clear :: "kernel_heap \<Rightarrow> radix \<Rightarrow> u64 \<Rightarrow> (kernel_heap \<times> radix \<times> bool) option" where
  "radix_clear h radix key = radix_set h radix key 0"

definition radix_free :: "kernel_heap \<Rightarrow> radix option \<Rightarrow> u64 list \<times> bool" where
  "radix_free h radix =
     (case radix of
        None \<Rightarrow> ([], False)
      | Some r \<Rightarrow> if radix_root r = 0 then ([], False) else (radix_free_node h (radix_root r) (value_deleter r) (RADIX_LEVELS - 1), True))"

section \<open>Indices\<close>

definition radix_index :: "u64 \<Rightarrow> nat \<Rightarrow> u64" where
  "radix_index key i = take_bit 9 (drop_bit (9 * i) key)"

lemma radix_index_less: "radix_index key i < 512"
  by (simp add: radix_index_def word_less_nat_alt unat_take_bit)

lemma ucast_index: "ucast (ucast (key AND 511 :: u64) :: u16) = take_bit 9 key"
proof -
  have "key AND 511 = take_bit 9 key" by (simp add: take_bit_eq_mask mask_eq_exp_minus_1)
  then show ?thesis by (intro bit_word_eqI) (auto simp: bit_simps)
qed

lemma radix_indices_nth:
  "i < n \<Longrightarrow> \<exists>k. arr_get (radix_indices key n) i = Some k \<and> ucast k = radix_index key i"
proof (induction n arbitrary: key i)
  case (Suc n)
  have len: "length (radix_indices k m) = m" for k m by (induction k m rule: radix_indices.induct) auto
  show ?case
  proof (cases i)
    case 0
    then show ?thesis by (simp add: arr_get_def radix_index_def ucast_index)
  next
    case (Suc j)
    then show ?thesis using Suc.IH [of j "drop_bit 9 key"] Suc.prems len by (simp add: arr_get_def radix_index_def add.commute)
  qed
qed simp

lemma radix_index_inj:
  assumes "\<forall>i < 8. radix_index k i = radix_index key i"
  shows "k = key"
proof (rule bit_word_eqI)
  fix n assume n: "n < LENGTH(64)"
  have b: "bit (radix_index x (n div 9)) (n mod 9) = bit x n" for x
    by (simp add: radix_index_def bit_simps)
  have "n div 9 < 8" using n by simp
  then show "bit k n = bit key n" using b [of k] b [of key] assms by simp
qed

text \<open>The indices that lead to the node reached when \<open>i\<close> levels are left.\<close>

definition radix_path :: "u64 \<Rightarrow> nat \<Rightarrow> u64 list" where
  "radix_path key i = map (radix_index key) (rev [Suc i..<8])"

lemma radix_path_simps: "radix_path key 7 = []" "i < 7 \<Longrightarrow> radix_path key i = radix_path key (Suc i) @ [radix_index key (Suc i)]"
  "length (radix_path key i) = 7 - i"
proof -
  show "length (radix_path key i) = 7 - i" unfolding radix_path_def by (simp del: upt_rec_numeral)
qed (simp_all add: radix_path_def upt_rec [of "Suc i"])

lemma radix_path_inj:
  "radix_path k 0 = radix_path key 0 \<and> radix_index k 0 = radix_index key 0 \<longleftrightarrow> k = key"
proof
  assume eq: "radix_path k 0 = radix_path key 0 \<and> radix_index k 0 = radix_index key 0"
  then have "\<forall>i \<in> set [1..<8]. radix_index k i = radix_index key i" by (auto simp: radix_path_def rev_map [symmetric])
  then have "radix_index k i = radix_index key i" if "i < 8" for i using eq that by (cases "i = 0") auto
  then show "k = key" by (intro radix_index_inj) blast
qed simp

section \<open>The tree of nodes\<close>

definition child_of :: "u64 \<Rightarrow> u64 option" where
  "child_of w = (if w = 0 then None else Some w)"

interpretation rx: table_tree 7 child_of "\<lambda>a. a"
  by unfold_locales (auto simp: child_of_def)

abbreviation rx_inv :: "kernel_heap \<Rightarrow> object set \<Rightarrow> u64 \<Rightarrow> table_map \<Rightarrow> bool" where
  "rx_inv \<equiv> tree_inv 7 child_of"

definition radix_inv :: "kernel_heap \<Rightarrow> object set \<Rightarrow> radix \<Rightarrow> bool" where
  "radix_inv h V r \<longleftrightarrow> (if radix_root r = 0 then heap_ok h V else \<exists>T. rx_inv h V (radix_root r) T)"

definition rx_leaf :: "kernel_heap \<Rightarrow> table_map \<Rightarrow> u64 \<Rightarrow> u64" where
  "rx_leaf h T key = leaf h T (radix_path key 0) (radix_index key 0)"

lemma same_rx_leaf: "same_leaves 7 h T h' T' \<Longrightarrow> rx_leaf h' T' = rx_leaf h T"
  by (rule ext) (simp add: same_leaves_def rx_leaf_def radix_index_less radix_path_simps)

lemma new_radix_node_spec:
  assumes "heap_ok h V"
  obtains (none) "new_radix_node h = Some (h, 0)" "alloc_page h 1 = Some (h, 0)"
    | (some) h' a k where "new_radix_node h = Some (h', a)" "a \<noteq> 0" "aligned a" "0 < k" "(a, k) \<notin> V" "heap_ok h' (insert (a, k) V)"
      "\<forall>x. in_page a x \<longrightarrow> bytes h' x = 0" "\<forall>x. \<not> in_page a x \<longrightarrow> bytes h' x = bytes h x"
proof -
  have "align_up 4096 (of_nat PAGE_SIZE) = Some 4096" by (simp add: align_up_def)
  then have "malloc h 4096 = alloc_page h 1" by (simp add: malloc_def)
  moreover have c: "(ucast (4096 :: u64) :: u32) = 4096" by simp
  ultimately have eq: "new_radix_node h = do {
      (h, ptr) \<leftarrow> alloc_page h 1;
      if ptr \<noteq> 0 then do {
        (m, _) \<leftarrow> memset (bytes h) ptr 0 4096;
        Some (h\<lparr>bytes := m\<rparr>, ptr)
      }
      else Some (h, ptr)
    }" unfolding new_radix_node_def calloc_def mult_1 c by simp
  from assms show thesis
  proof (cases rule: zeroed_page)
    case none
    then show thesis using that(1) by (simp add: eq)
  next
    case (some h' a m k)
    then show thesis using that(2) [of "h'\<lparr>bytes := m\<rparr>" a k] by (simp add: eq)
  qed
qed


section \<open>The operations\<close>

lemma set_loop_spec:
  "\<lbrakk>rx_inv h V root T; i \<le> 7; T (radix_path key i) = Some t\<rbrakk>
    \<Longrightarrow> \<exists>h' V' T' node. set_loop h t (radix_indices key 8) i = Some (h', node) \<and> rx_inv h' V' root T' \<and> V \<subseteq> V' \<and> same_leaves 7 h T h' T'
      \<and> (node = 0 \<and> alloc_page h' 1 = Some (h', 0) \<or> node \<noteq> 0 \<and> T' (radix_path key 0) = Some node)"
proof (induction i arbitrary: h V T t)
  case 0
  then show ?case using tree_invD(4) by (intro exI [of _ h] exI [of _ V] exI [of _ T] exI [of _ t]) auto
next
  case (Suc i)
  let ?p = "radix_path key (Suc i)" and ?i = "radix_index key (Suc i)"
  note inv = Suc.prems(1) and t = Suc.prems(3)
  have p: "radix_path key i = ?p @ [?i]" "length ?p < 7" using Suc.prems(2) by (simp_all add: radix_path_simps)
  obtain k where k: "arr_get (radix_indices key 8) (Suc i) = Some k" "ucast k = ?i" using radix_indices_nth [of "Suc i" 8 key] Suc.prems(2) by auto
  have e: "child_of (entry h t ?i) = T (?p @ [?i])" using tree_invD(9) [OF inv t p(2) radix_index_less] .
  show ?case
  proof (cases "T (?p @ [?i])")
    case (Some u)
    then have "entry h t ?i = u" "u \<noteq> 0" using e by (auto simp: child_of_def split: if_splits)
    then have eq: "set_loop h t (radix_indices key 8) (Suc i) = set_loop h u (radix_indices key 8) i" using k by (simp add: entry_def)
    show ?thesis unfolding eq using Suc.IH [OF inv, of u] Suc.prems(2) Some p(1) by simp
  next
    case None
    then have zero: "load64 (bytes h) (elem_ptr t ?i) = 0" using e by (auto simp: child_of_def entry_def split: if_splits)
    from tree_invD(1) [OF inv] show ?thesis
    proof (cases rule: new_radix_node_spec)
      case none
      then have "set_loop h t (radix_indices key 8) (Suc i) = Some (h, 0)" using k zero by simp
      then show ?thesis using inv none(2) by (intro exI [of _ h] exI [of _ V] exI [of _ T] exI [of _ 0]) simp
    next
      case (some h' a n)
      let ?h = "h'\<lparr>bytes := store64 (bytes h') (elem_ptr t ?i) a\<rparr>" and ?T = "T(?p @ [?i] \<mapsto> a)"
      note L = rx.link_table [OF inv t p(2) radix_index_less None some(6,4,3,2,5,7,8) refl]
      have "set_loop h t (radix_indices key 8) (Suc i) = set_loop ?h a (radix_indices key 8) i" using k zero some(1,2) by simp
      moreover have "i \<le> 7" "?T (radix_path key i) = Some a" using Suc.prems(2) p(1) by simp_all
      from Suc.IH [OF L(1) this] obtain h2 V2 T2 node where "set_loop ?h a (radix_indices key 8) i = Some (h2, node)" "rx_inv h2 V2 root T2" "insert (a, n) V \<subseteq> V2"
        "same_leaves 7 ?h ?T h2 T2" "node = 0 \<and> alloc_page h2 1 = Some (h2, 0) \<or> node \<noteq> 0 \<and> T2 (radix_path key 0) = Some node"
        by blast
      ultimately show ?thesis using same_leaves_trans [OF L(2)]
        by (intro exI [of _ h2] exI [of _ V2] exI [of _ T2] exI [of _ node]) simp
    qed
  qed
qed

lemma get_loop_spec:
  "\<lbrakk>rx_inv h V root T; i \<le> 7; T (radix_path key i) = Some t\<rbrakk>
    \<Longrightarrow> get_loop h t (radix_indices key 8) i = Some (case T (radix_path key 0) of None \<Rightarrow> 0 | Some u \<Rightarrow> u)"
proof (induction i arbitrary: t)
  case (Suc i)
  let ?p = "radix_path key (Suc i)" and ?i = "radix_index key (Suc i)"
  have p: "radix_path key i = ?p @ [?i]" "length ?p < 7" using Suc.prems(2) by (simp_all add: radix_path_simps)
  obtain k where k: "arr_get (radix_indices key 8) (Suc i) = Some k" "ucast k = ?i" using radix_indices_nth [of "Suc i" 8 key] Suc.prems(2) by auto
  have e: "child_of (entry h t ?i) = T (?p @ [?i])" using tree_invD(9) [OF Suc.prems(1,3) p(2) radix_index_less] .
  show ?case
  proof (cases "T (?p @ [?i])")
    case None
    have "radix_path key 0 = radix_path key i @ map (radix_index key) (rev [Suc 0..<Suc i])"
      using Suc.prems(2) upt_add_eq_append [of 1 "Suc i" "7 - i"] by (simp add: radix_path_def flip: map_append rev_append)
    then have "T (radix_path key 0) = None" using tree_inv_below [OF Suc.prems(1), of "radix_path key i"] None p(1) by simp
    then show ?thesis using e None k by (auto simp: child_of_def entry_def split: if_splits)
  next
    case (Some u)
    then have "entry h t ?i = u" "u \<noteq> 0" using e by (auto simp: child_of_def split: if_splits)
    then show ?thesis using Suc.IH [OF Suc.prems(1), of u] Suc.prems(2) Some p(1) k by (simp add: entry_def)
  qed
qed simp

lemma radix_get_leaf:
  assumes "rx_inv h V (radix_root r) T"
  shows "radix_get h r key = Some (rx_leaf h T key)"
proof -
  note root = tree_invD(2) [OF assms]
  obtain k where k: "arr_get (radix_indices key 8) 0 = Some k" "ucast k = radix_index key 0" using radix_indices_nth [of 0 8 key] by auto
  have "get_loop h (radix_root r) (radix_indices key 8) 7 = Some (case T (radix_path key 0) of None \<Rightarrow> 0 | Some u \<Rightarrow> u)"
    by (rule get_loop_spec [OF assms]) (simp_all add: radix_path_simps root)
  moreover have "radix_root r \<noteq> 0" using tree_invD(4) [OF assms root] .
  ultimately show ?thesis using k tree_invD(4) [OF assms, of "radix_path key 0"]
    by (auto simp: radix_get_def rx_leaf_def leaf_def entry_def split: option.splits)
qed

lemma radix_set_root:
  assumes inv: "rx_inv h V (radix_root r) T"
  shows "\<exists>h' r' V' ok. radix_set h r key v = Some (h', r', ok) \<and> radix_inv h' V' r' \<and> V \<subseteq> V'
    \<and> (ok \<or> alloc_page h' 1 = Some (h', 0)) \<and> (\<forall>k. radix_get h' r' k = (if ok \<and> k = key then Some v else radix_get h r k))"
proof -
  note root = tree_invD(2) [OF inv]
  have ne: "radix_root r \<noteq> 0" using tree_invD(4) [OF inv root] .
  obtain k where k: "arr_get (radix_indices key 8) 0 = Some k" "ucast k = radix_index key 0" using radix_indices_nth [of 0 8 key] by auto
  have "T (radix_path key 7) = Some (radix_root r)" using root by (simp add: radix_path_simps)
  from set_loop_spec [OF inv order_refl this] obtain h1 V1 T1 node where h1: "set_loop h (radix_root r) (radix_indices key 8) 7 = Some (h1, node)"
    "rx_inv h1 V1 (radix_root r) T1" "V \<subseteq> V1" "same_leaves 7 h T h1 T1"
    "node = 0 \<and> alloc_page h1 1 = Some (h1, 0) \<or> node \<noteq> 0 \<and> T1 (radix_path key 0) = Some node"
    by blast
  have same: "radix_get h1 r x = radix_get h r x" for x
    using radix_get_leaf [OF h1(2), of x] radix_get_leaf [OF inv, of x] same_rx_leaf [OF h1(4)] by simp
  have upd: "r\<lparr>radix_root := radix_root r\<rparr> = r" by simp
  show ?thesis
  proof (cases "node = 0")
    case True
    then have "radix_set h r key v = Some (h1, r, False)" using ne h1(1) by (simp add: radix_set_def)
    then show ?thesis using h1(2,3,5) same ne True by (intro exI [of _ h1] exI [of _ r] exI [of _ V1] exI [of _ False]) (auto simp: radix_inv_def)
  next
    case False
    then have node: "T1 (radix_path key 0) = Some node" using h1(5) by simp
    let ?h = "h1\<lparr>bytes := store64 (bytes h1) (elem_ptr node (radix_index key 0)) v\<rparr>"
    note S = rx.store_leaf [OF h1(2) node _ radix_index_less [of key 0] refl, where e = v]
    have inv2: "rx_inv ?h V1 (radix_root r) T1" using S(1) by (simp add: radix_path_simps)
    have "radix_set h r key v = Some (?h, r, True)" using ne h1(1) False k by (simp add: radix_set_def)
    moreover have "radix_get ?h r x = (if x = key then Some v else radix_get h r x)" for x
      using radix_get_leaf [OF inv2, of x] radix_get_leaf [OF h1(2), of x] same [of x] S(2) [OF _ radix_index_less [of x 0], of "radix_path x 0"] radix_path_inj [of x key]
      by (simp add: rx_leaf_def radix_path_simps)
    ultimately show ?thesis using inv2 ne h1(3) by (intro exI [of _ ?h] exI [of _ r] exI [of _ V1] exI [of _ True]) (auto simp: radix_inv_def)
  qed
qed


lemma radix_set_ok:
  assumes inv: "radix_inv h V r"
  shows "\<exists>h' r' V' ok. radix_set h r key v = Some (h', r', ok) \<and> radix_inv h' V' r' \<and> V \<subseteq> V'
    \<and> (ok \<or> alloc_page h' 1 = Some (h', 0)) \<and> (\<forall>k. radix_get h' r' k = (if ok \<and> k = key then Some v else radix_get h r k))"
proof (cases "radix_root r = 0")
  case False
  then obtain T where "rx_inv h V (radix_root r) T" using inv by (auto simp: radix_inv_def)
  then show ?thesis by (rule radix_set_root)
next
  case True
  then have "heap_ok h V" using inv by (simp add: radix_inv_def)
  then show ?thesis
  proof (cases rule: new_radix_node_spec)
    case none
    then have "radix_set h r key v = Some (h, r, False)" using True by (simp add: radix_set_def)
    then show ?thesis using inv none(2) by (intro exI [of _ h] exI [of _ r] exI [of _ V] exI [of _ False]) simp
  next
    case (some h1 a k)
    let ?r = "r\<lparr>radix_root := a\<rparr>" and ?T = "[[] \<mapsto> a] :: table_map"
    note S = rx.single_table [OF some(6,4,3,2,7)]
    have inv1: "rx_inv h1 (insert (a, k) V) (radix_root ?r) ?T" using S(1) by simp
    have eq: "radix_set h r key v = radix_set h1 ?r key v" using True some(1,2) by (simp add: radix_set_def)
    have "radix_get h1 ?r x = radix_get h r x" for x
      using radix_get_leaf [OF inv1, of x] S(2) [OF radix_index_less, of "radix_path x 0" x 0] True by (simp add: rx_leaf_def radix_get_def)
    moreover obtain h2 r2 V2 ok where "radix_set h1 ?r key v = Some (h2, r2, ok)" "radix_inv h2 V2 r2" "insert (a, k) V \<subseteq> V2"
      "ok \<or> alloc_page h2 1 = Some (h2, 0)" "\<forall>k. radix_get h2 r2 k = (if ok \<and> k = key then Some v else radix_get h1 ?r k)"
      using radix_set_root [OF inv1] by blast
    ultimately show ?thesis unfolding eq by (intro exI [of _ h2] exI [of _ r2] exI [of _ V2] exI [of _ ok]) simp
  qed
qed

section \<open>Properties\<close>

text \<open>C20: A radix tree is a map from keys to pointers: \<^verbatim>\<open>radix_set\<close> never stops the kernel, changes what \<^verbatim>\<open>radix_get\<close> returns for its
  key and for no other of the \<open>2 ^ 64\<close> keys, and when it reports a failure the heap has no page left and the map is unchanged.\<close>

theorem radix_set_get:
  assumes "radix_inv h V r"
  shows "\<exists>h' r' V' ok. radix_set h r key v = Some (h', r', ok) \<and> radix_inv h' V' r' \<and> V \<subseteq> V'
    \<and> (ok \<or> alloc_page h' 1 = Some (h', 0)) \<and> (\<forall>k. radix_get h' r' k = (if ok \<and> k = key then Some v else radix_get h r k))"
  using assms by (rule radix_set_ok)

theorem radix_set_get_witness:
  "\<exists>h' r' ok. radix_set small_heap \<lparr>radix_root = 0, value_deleter = False\<rparr> 5 7 = Some (h', r', ok)
    \<and> radix_get h' r' 6 = Some 0 \<and> radix_get h' r' 5 = Some (if ok then 7 else 0)"
proof -
  let ?r = "\<lparr>radix_root = 0, value_deleter = False\<rparr>"
  have "radix_inv small_heap {(0x80200000, 16384)} ?r" using small_heap_ok by (simp add: radix_inv_def)
  from radix_set_get [OF this, of 5 7] obtain h' r' ok where "radix_set small_heap ?r 5 7 = Some (h', r', ok)"
    "\<forall>k. radix_get h' r' k = (if ok \<and> k = 5 then Some 7 else radix_get small_heap ?r k)" by blast
  moreover have "radix_get small_heap ?r k = Some 0" for k by (simp add: radix_get_def)
  ultimately show ?thesis by (intro exI [of _ h'] exI [of _ r'] exI [of _ ok]) simp
qed

end
