(* ===== verification/Futex.thy ===== *)
theory Futex
  imports Thread Bit_Search
begin

text \<open>
  The futexes of \<^verbatim>\<open>core/futex.c\<close> with the hash functions of \<^verbatim>\<open>include/jhash.h\<close>. A waiting thread has an entry
  \<^verbatim>\<open>struct futex_q\<close> on its stack, which is on the chain of a bucket. The memory of the address spaces is a parameter; a pointer to a
  bucket is its index. The locks do nothing on one processor.
\<close>

section \<open>Definitions\<close>

definition rol32 :: "u32 \<Rightarrow> nat \<Rightarrow> u32" where
  "rol32 w shift = push_bit (shift mod 32) w OR drop_bit ((32 - shift mod 32) mod 32) w"

definition jhash_mix :: "u32 \<times> u32 \<times> u32 \<Rightarrow> u32 \<times> u32 \<times> u32" where
  "jhash_mix s = (let (a, b, c) = s;
     a = (a - c) XOR rol32 c 4; c = c + b;
     b = (b - a) XOR rol32 a 6; a = a + c;
     c = (c - b) XOR rol32 b 8; b = b + a;
     a = (a - c) XOR rol32 c 16; c = c + b;
     b = (b - a) XOR rol32 a 19; a = a + c;
     c = (c - b) XOR rol32 b 4; b = b + a
   in (a, b, c))"

definition jhash_final :: "u32 \<times> u32 \<times> u32 \<Rightarrow> u32" where
  "jhash_final s = (let (a, b, c) = s;
     c = (c XOR b) - rol32 b 14;
     a = (a XOR c) - rol32 c 11;
     b = (b XOR a) - rol32 a 25;
     c = (c XOR b) - rol32 b 16;
     a = (a XOR c) - rol32 c 4;
     b = (b XOR a) - rol32 a 14;
     c = (c XOR b) - rol32 b 24
   in c)"

abbreviation (input) JHASH_INITVAL :: u32 where "JHASH_INITVAL \<equiv> 0xdeadbeef"

fun jhash2_loop :: "u32 \<times> u32 \<times> u32 \<Rightarrow> u32 list \<Rightarrow> u32" where
  "jhash2_loop (a, b, c) [] = c"
| "jhash2_loop (a, b, c) [k0] = jhash_final (a + k0, b, c)"
| "jhash2_loop (a, b, c) [k0, k1] = jhash_final (a + k0, b + k1, c)"
| "jhash2_loop (a, b, c) [k0, k1, k2] = jhash_final (a + k0, b + k1, c + k2)"
| "jhash2_loop (a, b, c) (k0 # k1 # k2 # k3 # ks) = jhash2_loop (jhash_mix (a + k0, b + k1, c + k2)) (k3 # ks)"

definition jhash2 :: "u32 list \<Rightarrow> u32 \<Rightarrow> u32" where
  "jhash2 k initval = (let i = JHASH_INITVAL + push_bit 2 (of_nat (length k)) + initval in jhash2_loop (i, i, i) k)"

definition jhash_nwords :: "u32 \<Rightarrow> u32 \<Rightarrow> u32 \<Rightarrow> u32 \<Rightarrow> u32" where
  "jhash_nwords a b c initval = jhash_final (a + initval, b + initval, c + initval)"

definition jhash_3words :: "u32 \<Rightarrow> u32 \<Rightarrow> u32 \<Rightarrow> u32 \<Rightarrow> u32" where
  "jhash_3words a b c initval = jhash_nwords a b c (initval + JHASH_INITVAL + push_bit 2 3)"

definition jhash_2words :: "u32 \<Rightarrow> u32 \<Rightarrow> u32 \<Rightarrow> u32" where
  "jhash_2words a b initval = jhash_nwords a b 0 (initval + JHASH_INITVAL + push_bit 2 2)"

definition jhash_1word :: "u32 \<Rightarrow> u32 \<Rightarrow> u32" where
  "jhash_1word a initval = jhash_nwords a 0 0 (initval + JHASH_INITVAL + push_bit 2 1)"

abbreviation (input) FUTEX_BITSET_MATCH_ANY :: u32 where "FUTEX_BITSET_MATCH_ANY \<equiv> 0xffffffff"
abbreviation (input) CONFIG_CPU :: u64 where "CONFIG_CPU \<equiv> 1"

record futex_key =
  k_vmspace :: vmspace_ptr
  k_address :: u64

record futex_q =
  task :: thread_ptr
  lock_ptr :: "nat option"
  q_key :: futex_key
  bitset :: u32

record futex_hash_bucket =
  waiters :: u32
  chain :: "futex_q list"

record futex_t =
  fsched :: sched_t
  futex_queues :: "futex_hash_bucket list"
  futex_hashsize :: u64
  user_word :: "vmspace_ptr \<Rightarrow> u64 \<Rightarrow> u32"

definition hash_futex :: "futex_t \<Rightarrow> futex_key \<Rightarrow> nat" where
  "hash_futex st key =
     (let vm = of_nat (k_vmspace key) :: u64;
          hash = jhash2 [ucast vm, ucast (drop_bit 32 vm), ucast (k_address key), ucast (drop_bit 32 (k_address key))] 0
      in unat (ucast hash AND (futex_hashsize st - 1)))"

definition match_futex :: "futex_key \<Rightarrow> futex_key \<Rightarrow> bool" where
  "match_futex key1 key2 \<longleftrightarrow> k_address key1 = k_address key2 \<and> k_vmspace key1 = k_vmspace key2"

definition get_futex_key :: "futex_t \<Rightarrow> u64 \<Rightarrow> futex_key option" where
  "get_futex_key st uaddr = do {
     th \<leftarrow> threads (fsched st) (current (fsched st));
     Some \<lparr>k_vmspace = t_vmspace th, k_address = uaddr\<rparr>
   }"

definition update_bucket :: "futex_t \<Rightarrow> nat \<Rightarrow> (futex_hash_bucket \<Rightarrow> futex_hash_bucket) \<Rightarrow> futex_t option" where
  "update_bucket st hb f = do {
     b \<leftarrow> arr_get (futex_queues st) hb;
     Some (st\<lparr>futex_queues := (futex_queues st)[hb := f b]\<rparr>)
   }"

definition hb_waiters_inc :: "futex_t \<Rightarrow> nat \<Rightarrow> futex_t option" where
  "hb_waiters_inc st hb = update_bucket st hb (\<lambda>b. b\<lparr>waiters := waiters b + 1\<rparr>)"

definition hb_waiters_dec :: "futex_t \<Rightarrow> nat \<Rightarrow> futex_t option" where
  "hb_waiters_dec st hb = update_bucket st hb (\<lambda>b. b\<lparr>waiters := waiters b - 1\<rparr>)"

definition hb_waiters_pending :: "futex_t \<Rightarrow> nat \<Rightarrow> u32 option" where
  "hb_waiters_pending st hb = map_option waiters (arr_get (futex_queues st) hb)"

definition queue_lock :: "futex_t \<Rightarrow> futex_q \<Rightarrow> (futex_t \<times> futex_q \<times> nat) option" where
  "queue_lock st q = do {
     let hb = hash_futex st (q_key q);
     st \<leftarrow> hb_waiters_inc st hb;
     Some (st, q\<lparr>lock_ptr := Some hb\<rparr>, hb)
   }"

definition queue_unlock :: "futex_t \<Rightarrow> nat \<Rightarrow> futex_t option" where
  "queue_unlock st hb = hb_waiters_dec st hb"

definition futex_wait_setup :: "futex_t \<Rightarrow> u64 \<Rightarrow> u32 \<Rightarrow> futex_q \<Rightarrow> (futex_t \<times> futex_q \<times> nat \<times> int) option" where
  "futex_wait_setup st uaddr val q = do {
     key \<leftarrow> get_futex_key st uaddr;
     let q = q\<lparr>q_key := key\<rparr>;
     let uval = user_word st (active_mm (fsched st)) uaddr;
     (st, q, hb) \<leftarrow> queue_lock st q;
     if uval \<noteq> val then do {
       st \<leftarrow> queue_unlock st hb;
       Some (st, q, hb, -1)
     }
     else Some (st, q, hb, 0)
   }"

definition queue_me :: "futex_t \<Rightarrow> futex_q \<Rightarrow> nat \<Rightarrow> futex_t option" where
  "queue_me st q hb = update_bucket st hb (\<lambda>b. b\<lparr>chain := q\<lparr>task := current (fsched st)\<rparr> # chain b\<rparr>)"

text \<open>Up to the switch to another thread. The entry is on the chain, so the thread always schedules. When it is resumed it sets
  its state to running and \<^verbatim>\<open>sys_futex_wait\<close> returns 0.\<close>

definition futex_wait_queue_me :: "futex_t \<Rightarrow> nat \<Rightarrow> futex_q \<Rightarrow> futex_t option" where
  "futex_wait_queue_me st hb q = do {
     s \<leftarrow> thread_self_set_state (fsched st) TASK_STATUS_SUSPEND;
     st \<leftarrow> queue_me (st\<lparr>fsched := s\<rparr>) q hb;
     s \<leftarrow> schedule (fsched st);
     Some (st\<lparr>fsched := s\<rparr>)
   }"

definition futex_wait_resumed :: "futex_t \<Rightarrow> (futex_t \<times> int) option" where
  "futex_wait_resumed st = do {
     s \<leftarrow> thread_self_set_state (fsched st) TASK_STATUS_RUNNING;
     Some (st\<lparr>fsched := s\<rparr>, 0)
   }"

definition futex_q_init :: futex_q where
  "futex_q_init = \<lparr>task = 0, lock_ptr = None, q_key = \<lparr>k_vmspace = 0, k_address = 0\<rparr>, bitset = FUTEX_BITSET_MATCH_ANY\<rparr>"

text \<open>The result is the value returned, or nothing when the caller has been suspended.\<close>

definition sys_futex_wait :: "futex_t \<Rightarrow> u64 \<Rightarrow> u32 \<Rightarrow> (futex_t \<times> int option) option" where
  "sys_futex_wait st uaddr val = do {
     (st, q, hb, ret) \<leftarrow> futex_wait_setup st uaddr val futex_q_init;
     if ret \<noteq> 0 then Some (st, Some ret)
     else do {
       st \<leftarrow> futex_wait_queue_me st hb q;
       Some (st, None)
     }
   }"

definition unqueue_futex :: "futex_t \<Rightarrow> futex_q \<Rightarrow> futex_t option" where
  "unqueue_futex st q =
     (case lock_ptr q of
        None \<Rightarrow> Some st
      | Some hb \<Rightarrow> do {
          st \<leftarrow> update_bucket st hb (\<lambda>b. b\<lparr>chain := remove1 q (chain b)\<rparr>);
          hb_waiters_dec st hb
        })"

text \<open>The loop over the chain; the second component is \<^verbatim>\<open>wake_list\<close>.\<close>

fun wake_loop :: "futex_t \<Rightarrow> futex_key \<Rightarrow> u32 \<Rightarrow> thread_ptr list \<Rightarrow> futex_q list \<Rightarrow> (futex_t \<times> thread_ptr list) option" where
  "wake_loop st key bits ws [] = Some (st, ws)"
| "wake_loop st key bits ws (q # qs) =
     (if match_futex (q_key q) key \<and> bitset q AND bits \<noteq> 0 then do {
        st \<leftarrow> unqueue_futex st q;
        wake_loop st key bits (ws @ [task q]) qs
      }
      else wake_loop st key bits ws qs)"

fun resume_all :: "sched_t \<Rightarrow> thread_ptr list \<Rightarrow> sched_t option" where
  "resume_all s [] = Some s"
| "resume_all s (t # ts) = do {
     s \<leftarrow> thread_resume s t;
     resume_all s ts
   }"

definition sys_futex_wake :: "futex_t \<Rightarrow> u64 \<Rightarrow> (futex_t \<times> int) option" where
  "sys_futex_wake st uaddr = do {
     key \<leftarrow> get_futex_key st uaddr;
     let hb = hash_futex st key;
     pending \<leftarrow> hb_waiters_pending st hb;
     if pending = 0 then Some (st, 0)
     else do {
       b \<leftarrow> arr_get (futex_queues st) hb;
       (st, ws) \<leftarrow> wake_loop st key FUTEX_BITSET_MATCH_ANY [] (chain b);
       s \<leftarrow> resume_all (fsched st) ws;
       Some (st\<lparr>fsched := s\<rparr>, 0)
     }
   }"

definition do_futex_init :: "futex_t \<Rightarrow> futex_t option" where
  "do_futex_init st = do {
     n \<leftarrow> roundup_pow_of_two (256 * CONFIG_CPU);
     Some (st\<lparr>futex_hashsize := n, futex_queues := replicate (unat n) \<lparr>waiters = 0, chain = []\<rparr>\<rparr>)
   }"

section \<open>The hash\<close>

lemma jhash2_short:
  "jhash2 [a, b, c] v = jhash_3words a b c v" "jhash2 [a, b] v = jhash_2words a b v" "jhash2 [a] v = jhash_1word a v"
  by (simp_all add: jhash2_def jhash_3words_def jhash_2words_def jhash_1word_def jhash_nwords_def Let_def add.commute)

text \<open>\<^verbatim>\<open>__jhash_mix\<close> is six times the same step on rotated arguments, and each step can be undone.\<close>

definition mix_step :: "nat \<Rightarrow> u32 \<times> u32 \<times> u32 \<Rightarrow> u32 \<times> u32 \<times> u32" where
  "mix_step r s = (case s of (a, b, c) \<Rightarrow> (b, c + b, (a - c) XOR rol32 c r))"

lemma mix_step_inj: "inj (mix_step r)"
proof (rule injI)
  fix s s' :: "u32 \<times> u32 \<times> u32"
  obtain a b c a' b' c' where s: "s = (a, b, c)" "s' = (a', b', c')"
    by (metis prod_cases3)
  assume "mix_step r s = mix_step r s'"
  then have "b = b'" "c = c'" and "(a - c) XOR rol32 c r = (a' - c) XOR rol32 c r"
    by (auto simp: s mix_step_def)
  from this(3) have "((a - c) XOR rol32 c r) XOR rol32 c r = ((a' - c) XOR rol32 c r) XOR rol32 c r"
    by (rule arg_cong)
  then show "s = s'"
    using \<open>b = b'\<close> \<open>c = c'\<close> by (simp add: s xor.assoc)
qed

lemma jhash_mix_steps:
  "jhash_mix s = mix_step 4 (mix_step 19 (mix_step 16 (mix_step 8 (mix_step 6 (mix_step 4 s)))))"
  by (cases s) (simp only: jhash_mix_def mix_step_def Let_def prod.case)

lemma jhash_mix_inj: "inj jhash_mix"
  by (rule injI) (simp add: jhash_mix_steps inj_eq [OF mix_step_inj])

section \<open>The invariant\<close>

text \<open>A bucket counts its entries, and each entry is a suspended thread whose key belongs to the bucket.\<close>

definition bucket_ok :: "sched_t \<Rightarrow> (futex_key \<Rightarrow> nat) \<Rightarrow> nat \<Rightarrow> futex_hash_bucket \<Rightarrow> bool" where
  "bucket_ok s h i b \<longleftrightarrow> waiters b = of_nat (length (chain b)) \<and> length (chain b) < 2 ^ 32 \<and> distinct (map task (chain b))
     \<and> (\<forall>q \<in> set (chain b). h (q_key q) = i \<and> lock_ptr q = Some i \<and> bitset q = FUTEX_BITSET_MATCH_ANY
          \<and> status s (task q) = Some TASK_STATUS_SUSPEND)"

definition tasks_of :: "futex_hash_bucket \<Rightarrow> thread_ptr set" where
  "tasks_of b = task ` set (chain b)"

definition futex_inv :: "thread_ptr \<Rightarrow> futex_t \<Rightarrow> bool" where
  "futex_inv idle st \<longleftrightarrow> sched_inv idle (fsched st) \<and> futex_hashsize st = 256 \<and> length (futex_queues st) = 256
     \<and> (\<forall>i < 256. bucket_ok (fsched st) (hash_futex st) i (futex_queues st ! i))
     \<and> (\<forall>i < 256. \<forall>j < 256. i \<noteq> j \<longrightarrow> tasks_of (futex_queues st ! i) \<inter> tasks_of (futex_queues st ! j) = {})"

text \<open>The threads that wait on a key, the last one first.\<close>

definition waiting :: "futex_t \<Rightarrow> futex_key \<Rightarrow> thread_ptr list" where
  "waiting st key = map task (filter (\<lambda>q. q_key q = key) (chain (futex_queues st ! hash_futex st key)))"

lemma hash_futex_update [simp]:
  "hash_futex (st\<lparr>fsched := s\<rparr>) = hash_futex st" "hash_futex (st\<lparr>futex_queues := qs\<rparr>) = hash_futex st"
  by (simp_all add: hash_futex_def fun_eq_iff)

lemma match_futex_eq: "match_futex k k' \<longleftrightarrow> k = k'"
  by (cases k; cases k') (auto simp: match_futex_def)

lemma hash_futex_less: "futex_hashsize st = 256 \<Longrightarrow> hash_futex st key < 256"
proof -
  assume "futex_hashsize st = 256"
  have "x AND 255 < 256" for x :: u64
    using word_and_le1 [of x 255] by (simp add: word_less_nat_alt word_le_nat_alt)
  then show ?thesis
    using \<open>futex_hashsize st = 256\<close> by (simp add: hash_futex_def Let_def word_less_nat_alt)
qed

lemma waiting_suspended:
  "\<lbrakk>futex_inv idle st; i < 256; t \<in> tasks_of (futex_queues st ! i)\<rbrakk> \<Longrightarrow> status (fsched st) t = Some TASK_STATUS_SUSPEND"
  by (auto simp: futex_inv_def bucket_ok_def tasks_of_def)

text \<open>A bucket may be replaced together with the scheduler as long as its entries fit and the other waiting threads stay
  suspended.\<close>

lemma futex_inv_update:
  assumes inv: "futex_inv idle st" and i: "i < 256" and s: "sched_inv idle s" and b: "bucket_ok s (hash_futex st) i b"
    and others: "\<forall>j < 256. j \<noteq> i \<longrightarrow> tasks_of b \<inter> tasks_of (futex_queues st ! j) = {}"
    and susp: "\<forall>j < 256. j \<noteq> i \<longrightarrow> (\<forall>t \<in> tasks_of (futex_queues st ! j). status s t = Some TASK_STATUS_SUSPEND)"
  shows "futex_inv idle (st\<lparr>futex_queues := (futex_queues st)[i := b], fsched := s\<rparr>)"
proof -
  have "bucket_ok s (hash_futex st) j (futex_queues st ! j)" if "j < 256" "j \<noteq> i" for j
    using inv susp that by (simp add: futex_inv_def bucket_ok_def tasks_of_def)
  then show ?thesis
    using assms by (auto simp: futex_inv_def nth_list_update)
qed

section \<open>Waking\<close>

lemma thread_resume_suspended:
  assumes "sched_inv idle s" "status s t = Some TASK_STATUS_SUSPEND"
  obtains s' where "thread_resume s t = Some s'" "sched_inv idle s'" "current s' = current s" "ready s' = ready s @ [t]"
    "\<forall>u. u \<noteq> t \<longrightarrow> status s' u = status s u"
proof -
  obtain v where v: "threads s t = Some v" "t_status v = TASK_STATUS_SUSPEND" using assms(2) by (auto simp: status_Some)
  let ?s = "s\<lparr>threads := (threads s)(t \<mapsto> v\<lparr>t_status := TASK_STATUS_READY\<rparr>), ready := ready s @ [t]\<rparr>"
  have t: "t \<notin> set (current s # ready s)" using assms by (auto simp: sched_inv_def)
  have stat: "status ?s u = (if u = t then Some TASK_STATUS_READY else status s u)" for u by (simp add: status_def)
  then have "sched_inv idle ?s" using assms t by (auto simp: sched_inv_def)
  then show thesis
    using v t stat by (intro that [of ?s]) (simp_all add: thread_resume_def update_thread_def scheduler_enqueue_task_def)
qed

lemma resume_all_suspended:
  assumes "sched_inv idle s" "distinct ts" "\<forall>t \<in> set ts. status s t = Some TASK_STATUS_SUSPEND"
  shows "\<exists>s'. resume_all s ts = Some s' \<and> sched_inv idle s' \<and> current s' = current s \<and> ready s' = ready s @ ts
    \<and> (\<forall>u. u \<notin> set ts \<longrightarrow> status s' u = status s u)"
  using assms
proof (induction ts arbitrary: s)
  case (Cons t ts)
  obtain s1 where s1: "thread_resume s t = Some s1" "sched_inv idle s1" "current s1 = current s" "ready s1 = ready s @ [t]"
    "\<forall>u. u \<noteq> t \<longrightarrow> status s1 u = status s u"
    using Cons.prems(1,3) by (auto elim: thread_resume_suspended)
  have "\<forall>t \<in> set ts. status s1 t = Some TASK_STATUS_SUSPEND" using Cons.prems s1(5) by auto
  from Cons.IH [OF s1(2) _ this] show ?case using Cons.prems(2) s1 by auto
qed simp

lemma wake_loop_result:
  assumes "i < length (futex_queues st)" "futex_queues st ! i = \<lparr>waiters = of_nat (length (ps @ qs)), chain = ps @ qs\<rparr>"
    and "distinct (map task (ps @ qs))" "\<forall>q \<in> set qs. lock_ptr q = Some i \<and> bitset q = FUTEX_BITSET_MATCH_ANY"
  shows "wake_loop st key FUTEX_BITSET_MATCH_ANY ws qs =
    (let qs' = ps @ filter (\<lambda>q. q_key q \<noteq> key) qs in
     Some (st\<lparr>futex_queues := (futex_queues st)[i := \<lparr>waiters = of_nat (length qs'), chain = qs'\<rparr>]\<rparr>,
       ws @ map task (filter (\<lambda>q. q_key q = key) qs)))"
  using assms
proof (induction qs arbitrary: st ps ws)
  case Nil
  then show ?case by (simp add: list_update_same_conv [THEN iffD2])
next
  case (Cons q qs)
  show ?case
  proof (cases "q_key q = key")
    case True
    let ?b = "\<lparr>waiters = of_nat (length (ps @ qs)), chain = ps @ qs\<rparr> :: futex_hash_bucket"
    let ?st = "st\<lparr>futex_queues := (futex_queues st)[i := ?b]\<rparr>"
    have "q \<notin> set ps" using Cons.prems(3) by auto
    then have "unqueue_futex st q = Some ?st"
      using Cons.prems by (simp add: unqueue_futex_def update_bucket_def hb_waiters_dec_def arr_get_def remove1_append)
    moreover have "wake_loop ?st key FUTEX_BITSET_MATCH_ANY (ws @ [task q]) qs =
      (let qs' = ps @ filter (\<lambda>q. q_key q \<noteq> key) qs in
       Some (?st\<lparr>futex_queues := (futex_queues ?st)[i := \<lparr>waiters = of_nat (length qs'), chain = qs'\<rparr>]\<rparr>,
         (ws @ [task q]) @ map task (filter (\<lambda>q. q_key q = key) qs)))"
      using Cons.prems by (intro Cons.IH) auto
    ultimately show ?thesis using True Cons.prems(4) by (simp add: match_futex_eq Let_def)
  next
    case False
    then show ?thesis
      using Cons.prems Cons.IH [of st "ps @ [q]" ws] by (simp add: match_futex_eq)
  qed
qed

text \<open>The key of an address in the address space of the current thread.\<close>

definition self_key :: "futex_t \<Rightarrow> u64 \<Rightarrow> futex_key" where
  "self_key st uaddr = \<lparr>k_vmspace = t_vmspace (the (threads (fsched st) (current (fsched st)))), k_address = uaddr\<rparr>"

lemma get_futex_key_self: "futex_inv idle st \<Longrightarrow> get_futex_key st uaddr = Some (self_key st uaddr)"
  by (auto simp: futex_inv_def get_futex_key_def self_key_def elim: running_current)

lemma futex_wake:
  assumes inv: "futex_inv idle st" and key: "key = self_key st uaddr"
  shows "\<exists>st'. sys_futex_wake st uaddr = Some (st', 0) \<and> futex_inv idle st' \<and> current (fsched st') = current (fsched st)
    \<and> ready (fsched st') = ready (fsched st) @ waiting st key
    \<and> (\<forall>k. waiting st' k = (if k = key then [] else waiting st k))"
proof -
  let ?i = "hash_futex st key" and ?other = "\<lambda>q. q_key q \<noteq> key"
  let ?b = "futex_queues st ! ?i"
  let ?b' = "\<lparr>waiters = of_nat (length (filter ?other (chain ?b))), chain = filter ?other (chain ?b)\<rparr> :: futex_hash_bucket"
  have i: "?i < 256" and len: "length (futex_queues st) = 256" using inv hash_futex_less by (simp_all add: futex_inv_def)
  have ok: "bucket_ok (fsched st) (hash_futex st) ?i ?b" using inv i by (simp add: futex_inv_def)
  have bucket: "?b = \<lparr>waiters = of_nat (length (chain ?b)), chain = chain ?b\<rparr>" using ok by (cases ?b) (simp add: bucket_ok_def)
  have dist: "distinct (waiting st key)" and ws: "set (waiting st key) \<subseteq> tasks_of ?b"
    using ok by (auto simp: waiting_def bucket_ok_def distinct_map_filter tasks_of_def)
  have "\<forall>t \<in> set (waiting st key). status (fsched st) t = Some TASK_STATUS_SUSPEND" using ok by (auto simp: waiting_def bucket_ok_def)
  then obtain s where s: "resume_all (fsched st) (waiting st key) = Some s" "sched_inv idle s" "current s = current (fsched st)"
    "ready s = ready (fsched st) @ waiting st key" and same: "\<forall>u. u \<notin> set (waiting st key) \<longrightarrow> status s u = status (fsched st) u"
    using inv dist resume_all_suspended [of idle "fsched st" "waiting st key"] by (auto simp: futex_inv_def)
  let ?st = "st\<lparr>futex_queues := (futex_queues st)[?i := ?b'], fsched := s\<rparr>"
  have empty: "waiting st key = []" "?b' = ?b" if "waiters ?b = 0"
  proof -
    have "2 ^ 32 dvd length (chain ?b)" "length (chain ?b) < 2 ^ 32" using that ok by (simp_all add: bucket_ok_def word_of_nat_eq_0_iff)
    then have "chain ?b = []" using nat_dvd_not_less by blast
    then show "waiting st key = []" "?b' = ?b" using that by (auto simp: waiting_def)
  qed
  have "wake_loop st key FUTEX_BITSET_MATCH_ANY [] (chain ?b) =
      Some (st\<lparr>futex_queues := (futex_queues st)[?i := ?b']\<rparr>, waiting st key)"
    using wake_loop_result [of ?i st "[]" "chain ?b" key "[]"] i len bucket ok by (simp add: bucket_ok_def waiting_def Let_def)
  moreover have "?st = st" if "waiters ?b = 0" using empty that s(1) by simp
  ultimately have run: "sys_futex_wake st uaddr = Some (?st, 0)"
    using i len s(1) by (auto simp: sys_futex_wake_def get_futex_key_self [OF inv] key hb_waiters_pending_def Let_def)
  have out: "task q \<notin> set (waiting st key)" if "q \<in> set (chain ?b)" "?other q" for q
    using ok that by (auto simp: waiting_def bucket_ok_def distinct_map inj_on_def)
  have ok': "bucket_ok s (hash_futex st) ?i ?b'"
    using ok out same le_less_trans [OF length_filter_le] by (auto simp: bucket_ok_def distinct_map_filter)
  have disj: "tasks_of ?b \<inter> tasks_of (futex_queues st ! j) = {}" if "j < 256" "j \<noteq> ?i" for j
    using inv i that unfolding futex_inv_def by blast
  have susp: "status s t = Some TASK_STATUS_SUSPEND" if "j < 256" "j \<noteq> ?i" "t \<in> tasks_of (futex_queues st ! j)" for j t
  proof -
    have "t \<notin> set (waiting st key)" using ws disj [OF that(1,2)] that(3) by blast
    then show ?thesis using same waiting_suspended [OF inv that(1,3)] by simp
  qed
  have "tasks_of ?b' \<subseteq> tasks_of ?b" by (auto simp: tasks_of_def)
  then have "futex_inv idle ?st" using disj susp by (intro futex_inv_update [OF inv i s(2) ok']) blast+
  moreover have "waiting ?st k = (if k = key then [] else waiting st k)" for k
    using i len by (auto simp: waiting_def nth_list_update filter_empty_conv intro!: arg_cong [of _ _ "map task"] filter_cong)
  ultimately show ?thesis using run s by auto
qed

section \<open>Waiting\<close>

lemma update_bucket_eq:
  "i < length (futex_queues st) \<Longrightarrow> update_bucket st i f = Some (st\<lparr>futex_queues := (futex_queues st)[i := f (futex_queues st ! i)]\<rparr>)"
  by (simp add: update_bucket_def)

lemma suspend_self:
  assumes "sched_inv idle s" "current s \<noteq> idle"
  obtains s1 s' where "thread_self_set_state s TASK_STATUS_SUSPEND = Some s1" "current s1 = current s" "schedule s1 = Some s'"
    "sched_inv idle s'" "current s' # ready s' = ready s" "status s' (current s) = Some TASK_STATUS_SUSPEND"
    "\<forall>u. status s u = Some TASK_STATUS_SUSPEND \<longrightarrow> status s' u = Some TASK_STATUS_SUSPEND"
proof -
  obtain th where th: "threads s (current s) = Some th" "t_status th = TASK_STATUS_RUNNING" using assms(1) by (rule running_current)
  let ?s1 = "s\<lparr>threads := (threads s)(current s \<mapsto> th\<lparr>t_status := TASK_STATUS_SUSPEND\<rparr>)\<rparr>"
  have step: "kernel_step Op_Suspend_Self s = schedule ?s1" using th by (simp add: thread_suspend_def update_thread_def)
  have "op_allowed idle s Op_Suspend_Self" using assms(2) by simp
  then obtain s' zs where s': "kernel_step Op_Suspend_Self s = Some s'" "sched_inv idle s'"
      "current s' # ready s' = queue_after Op_Suspend_Self s @ zs"
      "\<forall>t \<in> set zs. Op_Suspend_Self = Op_Schedule \<and> t = current s \<or> Op_Suspend_Self = Op_Resume t"
      "\<forall>u. status s u \<noteq> None \<and> u \<notin> set (current s # ready s) \<and> target Op_Suspend_Self \<noteq> Some u \<longrightarrow> status s' u = status s u"
      "Op_Suspend_Self = Op_Suspend_Self \<longrightarrow> status s' (current s) = Some TASK_STATUS_SUSPEND"
    by (rule kernel_step_ok [OF assms(1)])
  have "zs = []" using s'(4) by (cases zs) auto
  moreover have "u \<notin> set (current s # ready s)" if "status s u = Some TASK_STATUS_SUSPEND" for u
    using assms(1) that by (auto simp: sched_inv_def)
  ultimately show thesis
    using s' th step by (intro that [of ?s1 s']) (auto simp: thread_self_set_state_def update_thread_def)
qed

lemma futex_wait_mismatch:
  assumes inv: "futex_inv idle st" and "user_word st (active_mm (fsched st)) uaddr \<noteq> val"
  shows "sys_futex_wait st uaddr val = Some (st, Some (-1))"
proof -
  have "hash_futex st k < length (futex_queues st)" for k using inv hash_futex_less by (simp add: futex_inv_def)
  then show ?thesis
    using assms by (simp add: sys_futex_wait_def futex_wait_setup_def get_futex_key_self [OF inv] queue_lock_def queue_unlock_def
      hb_waiters_inc_def hb_waiters_dec_def update_bucket_eq Let_def)
qed

lemma futex_wait_suspends:
  assumes inv: "futex_inv idle st" and key: "key = self_key st uaddr" and self: "current (fsched st) \<noteq> idle"
    and word: "user_word st (active_mm (fsched st)) uaddr = val" and room: "length (chain (futex_queues st ! hash_futex st key)) < 2 ^ 32 - 1"
  shows "\<exists>st'. sys_futex_wait st uaddr val = Some (st', None) \<and> futex_inv idle st'
    \<and> current (fsched st') # ready (fsched st') = ready (fsched st)
    \<and> (\<forall>k. waiting st' k = (if k = key then current (fsched st) # waiting st k else waiting st k))"
proof -
  let ?i = "hash_futex st key" and ?c = "current (fsched st)"
  let ?b = "futex_queues st ! ?i"
  let ?q = "futex_q_init\<lparr>q_key := key, lock_ptr := Some ?i, task := ?c\<rparr>"
  let ?b' = "?b\<lparr>waiters := waiters ?b + 1, chain := ?q # chain ?b\<rparr>"
  have i: "?i < 256" and len: "length (futex_queues st) = 256" using inv hash_futex_less by (simp_all add: futex_inv_def)
  have sinv: "sched_inv idle (fsched st)" using inv by (simp add: futex_inv_def)
  obtain s1 s where s: "thread_self_set_state (fsched st) TASK_STATUS_SUSPEND = Some s1" "current s1 = ?c" "schedule s1 = Some s"
    "sched_inv idle s" "current s # ready s = ready (fsched st)" "status s ?c = Some TASK_STATUS_SUSPEND"
    and susp: "\<forall>u. status (fsched st) u = Some TASK_STATUS_SUSPEND \<longrightarrow> status s u = Some TASK_STATUS_SUSPEND"
    using sinv self by (rule suspend_self)
  let ?st = "st\<lparr>futex_queues := (futex_queues st)[?i := ?b'], fsched := s\<rparr>"
  have run: "sys_futex_wait st uaddr val = Some (?st, None)"
    using i len s word by (simp add: sys_futex_wait_def futex_wait_setup_def get_futex_key_self [OF inv] queue_lock_def key [symmetric]
      hb_waiters_inc_def update_bucket_eq futex_q_init_def futex_wait_queue_me_def queue_me_def Let_def)
  have new: "?c \<notin> tasks_of (futex_queues st ! j)" if "j < 256" for j
    using waiting_suspended [OF inv that] sinv by (auto simp: sched_inv_def)
  have ok: "bucket_ok (fsched st) (hash_futex st) ?i ?b" using inv i by (simp add: futex_inv_def)
  then have ok': "bucket_ok s (hash_futex st) ?i ?b'"
    using room new [OF i] s(6) susp by (auto simp: bucket_ok_def futex_q_init_def tasks_of_def)
  have ins: "tasks_of ?b' = insert ?c (tasks_of ?b)" by (auto simp: tasks_of_def)
  have "tasks_of ?b \<inter> tasks_of (futex_queues st ! j) = {}" if "j < 256" "j \<noteq> ?i" for j
    using inv i that unfolding futex_inv_def by blast
  then have "tasks_of ?b' \<inter> tasks_of (futex_queues st ! j) = {}" if "j < 256" "j \<noteq> ?i" for j
    unfolding ins using new that by simp
  moreover have "status s t = Some TASK_STATUS_SUSPEND" if "j < 256" "t \<in> tasks_of (futex_queues st ! j)" for j t
    using waiting_suspended [OF inv that] susp by simp
  ultimately have "futex_inv idle ?st" by (intro futex_inv_update [OF inv i s(4) ok']) simp_all
  moreover have "waiting ?st k = (if k = key then ?c # waiting st k else waiting st k)" for k
    using i len by (auto simp: waiting_def nth_list_update)
  ultimately show ?thesis using run s by auto
qed

section \<open>The properties\<close>

lemma hashsize_256: "roundup_pow_of_two 256 = Some 256"
proof -
  have "fls64 255 = 8" by code_simp
  then show ?thesis by (simp add: roundup_pow_of_two_def shl64_def)
qed

lemma do_futex_init_inv:
  assumes "sched_inv idle (fsched st)"
  shows "\<exists>st'. do_futex_init st = Some st' \<and> futex_inv idle st' \<and> fsched st' = fsched st \<and> user_word st' = user_word st
    \<and> (\<forall>k. waiting st' k = [])"
  using assms hash_futex_less by (auto simp: do_futex_init_def hashsize_256 futex_inv_def bucket_ok_def tasks_of_def waiting_def)

text \<open>C22: \<^verbatim>\<open>sys_futex_wait\<close> returns -1 and changes nothing when the word at the address differs from the expected value. Otherwise
  the caller is suspended, waits for the key of the address and the next ready thread runs; no other key has a new waiter.\<close>

theorem sys_futex_wait_correct:
  assumes "futex_inv idle st" "current (fsched st) \<noteq> idle" "length (chain (futex_queues st ! hash_futex st (self_key st uaddr))) < 2 ^ 32 - 1"
  shows "if user_word st (active_mm (fsched st)) uaddr \<noteq> val then sys_futex_wait st uaddr val = Some (st, Some (-1))
    else \<exists>st'. sys_futex_wait st uaddr val = Some (st', None) \<and> futex_inv idle st'
      \<and> current (fsched st') # ready (fsched st') = ready (fsched st)
      \<and> (\<forall>k. waiting st' k = (if k = self_key st uaddr then current (fsched st) # waiting st k else waiting st k))"
proof (cases "user_word st (active_mm (fsched st)) uaddr = val")
  case True
  then show ?thesis using futex_wait_suspends [OF assms(1) refl assms(2) True assms(3)] by simp
next
  case False
  then show ?thesis using futex_wait_mismatch [OF assms(1) False] by simp
qed

text \<open>The two threads of \<^const>\<open>two_threads\<close>, where the word at every address is 7.\<close>

definition futex_example :: futex_t where
  "futex_example = the (do_futex_init \<lparr>fsched = two_threads, futex_queues = [], futex_hashsize = 0, user_word = (\<lambda>_ _. 7)\<rparr>)"

lemma futex_example_inv:
  "futex_inv 1 futex_example" "fsched futex_example = two_threads" "user_word futex_example = (\<lambda>_ _. 7)" "waiting futex_example k = []"
proof -
  have "sched_inv 1 two_threads" using two_threads_inv by (auto simp: sched_inv_def two_threads_def)
  then show "futex_inv 1 futex_example" "fsched futex_example = two_threads" "user_word futex_example = (\<lambda>_ _. 7)" "waiting futex_example k = []"
    using do_futex_init_inv [of 1 "\<lparr>fsched = two_threads, futex_queues = [], futex_hashsize = 0, user_word = (\<lambda>_ _. 7)\<rparr>"]
    by (auto simp: futex_example_def)
qed

lemma futex_example_queues: "futex_queues futex_example = replicate 256 \<lparr>waiters = 0, chain = []\<rparr>"
  by (simp add: futex_example_def do_futex_init_def hashsize_256)

theorem sys_futex_wait_correct_witness:
  "sys_futex_wait futex_example 0x1000 8 = Some (futex_example, Some (-1))
   \<and> (\<exists>st'. sys_futex_wait futex_example 0x1000 7 = Some (st', None) \<and> current (fsched st') = 1
        \<and> waiting st' (self_key futex_example 0x1000) = [0])"
proof -
  have pre: "current (fsched futex_example) \<noteq> 1"
    "length (chain (futex_queues futex_example ! hash_futex futex_example (self_key futex_example 0x1000))) < 2 ^ 32 - 1"
    using futex_example_inv(1) hash_futex_less
    by (simp_all add: futex_example_inv(2) futex_example_queues futex_inv_def two_threads_def do_task_init_def)
  show ?thesis
    using sys_futex_wait_correct [OF futex_example_inv(1) pre, of 8] sys_futex_wait_correct [OF futex_example_inv(1) pre, of 7]
    by (auto simp: futex_example_inv two_threads_def do_task_init_def)
qed

text \<open>C21: \<^verbatim>\<open>sys_futex_wake\<close> makes exactly the threads that wait on the key of the address ready, in the order of the chain, and
  leaves the waiters of every other key where they are, also those in the same bucket.\<close>

theorem sys_futex_wake_correct:
  assumes "futex_inv idle st"
  shows "\<exists>st'. sys_futex_wake st uaddr = Some (st', 0) \<and> futex_inv idle st' \<and> current (fsched st') = current (fsched st)
    \<and> ready (fsched st') = ready (fsched st) @ waiting st (self_key st uaddr)
    \<and> (\<forall>k. waiting st' k = (if k = self_key st uaddr then [] else waiting st k))"
  using assms refl by (rule futex_wake)

text \<open>The first thread waits and the second, which has the same address space, wakes it.\<close>

definition one_suspended :: sched_t where
  "one_suspended = two_threads\<lparr>threads := (\<lambda>t. if t < 2 then Some \<lparr>t_status = (if t = 0 then TASK_STATUS_SUSPEND else TASK_STATUS_RUNNING),
      t_flags = 0, t_context = In_Entry, t_vmspace = 1, t_kstack = 0x1000, t_kernel_sp = 0x3000\<rparr> else None), ready := [], current := 1\<rparr>"

abbreviation (input) example_key :: futex_key where "example_key \<equiv> \<lparr>k_vmspace = 1, k_address = 0x1000\<rparr>"

definition futex_waiting :: futex_t where
  "futex_waiting = futex_example\<lparr>futex_queues := (futex_queues futex_example)[hash_futex futex_example example_key :=
      \<lparr>waiters = 1, chain = [\<lparr>task = 0, lock_ptr = Some (hash_futex futex_example example_key), q_key = example_key, bitset = 0xffffffff\<rparr>]\<rparr>],
    fsched := one_suspended\<rparr>"

lemma futex_waiting_inv: "futex_inv 1 futex_waiting" "waiting futex_waiting example_key = [0]" "self_key futex_waiting 0x1000 = example_key"
proof -
  let ?i = "hash_futex futex_example example_key"
  have i: "?i < 256" and len: "length (futex_queues futex_example) = 256"
    using futex_example_inv(1) hash_futex_less by (simp_all add: futex_inv_def)
  have "tasks_of (futex_queues futex_example ! j) = {}" if "j < 256" for j
    using that by (auto simp: tasks_of_def futex_example_queues)
  moreover have "sched_inv 1 one_suspended"
    by (auto simp: sched_inv_def one_suspended_def two_threads_def do_task_init_def status_def stopped_def split: if_splits)
  ultimately show "futex_inv 1 futex_waiting"
    unfolding futex_waiting_def
    by (intro futex_inv_update [OF futex_example_inv(1) i])
      (simp_all add: bucket_ok_def status_def one_suspended_def)
  show "waiting futex_waiting example_key = [0]" using i len by (simp add: waiting_def futex_waiting_def)
  show "self_key futex_waiting 0x1000 = example_key" by (simp add: self_key_def futex_waiting_def one_suspended_def)
qed

theorem sys_futex_wake_correct_witness:
  "\<exists>st'. sys_futex_wake futex_waiting 0x1000 = Some (st', 0) \<and> ready (fsched st') = [0] \<and> waiting st' example_key = []"
proof -
  have "ready (fsched futex_waiting) = []" by (simp add: futex_waiting_def one_suspended_def)
  then show ?thesis
    using sys_futex_wake_correct [OF futex_waiting_inv(1), of "0x1000"] unfolding futex_waiting_inv(2,3) by auto
qed

end
