(* ===== verification/Class.thy ===== *)
theory Class
  imports Table_Tree
begin

text \<open>
  The class system of \<^verbatim>\<open>core/class/class.c\<close>. An object is one block of the kernel heap that holds, for each class from the root
  \<^verbatim>\<open>object_t\<close> to the class of the object, a header of two words and the part of that class. The table of the classes is
  collected by the linker; constructors and destructors are functions on the heap, as the fields of the table are.
\<close>

section \<open>Definitions\<close>

text \<open>A 32-bit word in memory.\<close>

definition load32 :: "memory \<Rightarrow> u64 \<Rightarrow> u32" where
  "load32 m a = ucast (load64 m a)"

definition store32 :: "memory \<Rightarrow> u64 \<Rightarrow> u32 \<Rightarrow> memory" where
  "store32 m a v = (\<lambda>x. if x - a < 4 then ucast (drop_bit (8 * unat (x - a)) v) else m x)"

type_synonym type_index = u32
type_synonym structor = "kernel_heap \<Rightarrow> u64 \<Rightarrow> kernel_heap option"

record class_table_info =
  child :: "nat list"
  ctype :: type_index
  csize :: u32
  full_size :: u32
  parent_type :: type_index
  cname :: string
  init_obj :: u64
  pointer_parent_type :: nat
  pointer_constructor :: "structor option"
  pointer_destructor :: "structor option"

text \<open>
  The table, the variable \<^verbatim>\<open>X_class_type\<close> of each class, to which \<^verbatim>\<open>pointer_type\<close> of its entry points, and
  the place of \<^verbatim>\<open>object_t\<close> in the table. The pointer to the variable of the parent is the place of the parent.
\<close>

record class_system =
  class_table :: "class_table_info list"
  class_types :: "type_index list"
  object_t :: nat

definition class_entry :: "class_system \<Rightarrow> type_index \<Rightarrow> class_table_info option" where
  "class_entry cs t = arr_get (class_table cs) (unat t)"

definition object_t_type :: "class_system \<Rightarrow> type_index option" where
  "object_t_type cs = arr_get (class_types cs) (object_t cs)"

definition head_type :: "memory \<Rightarrow> u64 \<Rightarrow> type_index" where "head_type m obj = load32 m (obj - 8)"
definition head_child :: "memory \<Rightarrow> u64 \<Rightarrow> type_index" where "head_child m obj = load32 m (obj - 4)"

definition set_head :: "memory \<Rightarrow> u64 \<Rightarrow> type_index \<Rightarrow> type_index \<Rightarrow> memory" where
  "set_head m obj t c = store32 (store32 m (obj - 8) t) (obj - 4) c"

definition get_parent_obj :: "class_system \<Rightarrow> type_index \<Rightarrow> u64 \<Rightarrow> u64 option" where
  "get_parent_obj cs t obj = do {
     e \<leftarrow> class_entry cs t;
     p \<leftarrow> class_entry cs (parent_type e);
     Some (obj - 8 - ucast (csize p))
   }"

definition get_class_child :: "class_system \<Rightarrow> type_index \<Rightarrow> nat list option" where
  "get_class_child cs t = map_option child (class_entry cs t)"

definition get_class_name :: "class_system \<Rightarrow> memory \<Rightarrow> u64 \<Rightarrow> string option" where
  "get_class_name cs m obj =
     (if obj \<noteq> 0 then map_option cname (class_entry cs (head_type m obj)) else Some ''unknown'')"

definition get_class_type :: "class_system \<Rightarrow> memory \<Rightarrow> u64 \<Rightarrow> type_index option" where
  "get_class_type cs m obj = do {
     assert_that (obj \<noteq> 0);
     map_option ctype (class_entry cs (head_type m obj))
   }"

definition class_name :: "class_system \<Rightarrow> type_index \<Rightarrow> string option" where
  "class_name cs t = map_option cname (class_entry cs t)"

partial_function (option) object_init :: "class_system \<Rightarrow> kernel_heap \<Rightarrow> type_index \<Rightarrow> type_index \<Rightarrow> u64 \<Rightarrow> kernel_heap option" where
  "object_init cs h t c obj = do {
     root \<leftarrow> object_t_type cs;
     let h = h\<lparr>bytes := set_head (bytes h) obj t c\<rparr>;
     if t = root then Some h
     else do {
       e \<leftarrow> class_entry cs t;
       parent \<leftarrow> get_parent_obj cs t obj;
       h \<leftarrow> object_init cs h (parent_type e) t parent;
       let h = h\<lparr>bytes := fst (memcpy (bytes h) obj (init_obj e) (csize e))\<rparr>;
       case pointer_constructor e of None \<Rightarrow> Some h | Some f \<Rightarrow> f h obj
     }
   }"

definition new_class_object :: "class_system \<Rightarrow> kernel_heap \<Rightarrow> type_index \<Rightarrow> (kernel_heap \<times> u64) option" where
  "new_class_object cs h t = do {
     e \<leftarrow> class_entry cs t;
     (h, base) \<leftarrow> calloc h 1 (ucast (full_size e));
     if base = 0 then Some (h, 0)
     else do {
       let obj = base + ucast (full_size e) - ucast (csize e);
       h \<leftarrow> object_init cs h t t obj;
       Some (h, obj)
     }
   }"

partial_function (option) object_exit :: "class_system \<Rightarrow> kernel_heap \<Rightarrow> u64 \<Rightarrow> kernel_heap option" where
  "object_exit cs h obj = do {
     root \<leftarrow> object_t_type cs;
     let t = head_type (bytes h) obj;
     e \<leftarrow> class_entry cs t;
     h \<leftarrow> (case pointer_destructor e of None \<Rightarrow> Some h | Some f \<Rightarrow> f h obj);
     if t = root then Some h
     else do {
       parent \<leftarrow> get_parent_obj cs (head_type (bytes h) obj) obj;
       object_exit cs h parent
     }
   }"

definition delete_class_object :: "class_system \<Rightarrow> kernel_heap \<Rightarrow> u64 \<Rightarrow> kernel_heap option" where
  "delete_class_object cs h obj = do {
     assert_that (obj \<noteq> 0);
     h \<leftarrow> object_exit cs h obj;
     t \<leftarrow> get_class_type cs (bytes h) obj;
     e \<leftarrow> class_entry cs t;
     free h (obj - ucast (full_size e) + ucast (csize e))
   }"

text \<open>The two loops of \<^verbatim>\<open>class_cast\<close>: towards the class of the object and back towards \<^verbatim>\<open>object_t\<close>.\<close>

partial_function (option) cast_up :: "class_system \<Rightarrow> memory \<Rightarrow> type_index \<Rightarrow> u64 \<Rightarrow> (u64 \<times> bool) option" where
  "cast_up cs m t obj =
     (if head_type m obj = t then Some (obj, True)
      else if head_type m obj = head_child m obj then Some (obj, False)
      else do {
        e \<leftarrow> class_entry cs (head_type m obj);
        cast_up cs m t (obj + ucast (csize e) + 8)
      })"

partial_function (option) cast_down :: "class_system \<Rightarrow> memory \<Rightarrow> type_index \<Rightarrow> u64 \<Rightarrow> u64 option" where
  "cast_down cs m t obj = do {
     root \<leftarrow> object_t_type cs;
     if head_type m obj = t then Some obj
     else if head_type m obj = root then Some 0
     else do {
       parent \<leftarrow> get_parent_obj cs (head_type m obj) obj;
       cast_down cs m t parent
     }
   }"

definition class_cast :: "class_system \<Rightarrow> memory \<Rightarrow> type_index \<Rightarrow> u64 \<Rightarrow> u64 option" where
  "class_cast cs m t obj =
     (if obj = 0 then Some 0
      else do {
        (obj, found) \<leftarrow> cast_up cs m t obj;
        if found then Some obj else cast_down cs m t obj
      })"

text \<open>The three loops of \<^verbatim>\<open>do_class_init\<close>. The first one numbers the classes.\<close>

definition number_classes :: "class_system \<Rightarrow> class_system" where
  "number_classes cs = cs\<lparr>class_table := map (\<lambda>(i, e). e\<lparr>ctype := of_nat i, child := []\<rparr>) (enumerate 0 (class_table cs)),
     class_types := map of_nat [0..<length (class_table cs)]\<rparr>"

definition link_class :: "class_system \<Rightarrow> nat \<Rightarrow> class_system option" where
  "link_class cs i = do {
     e \<leftarrow> arr_get (class_table cs) i;
     parent \<leftarrow> arr_get (class_types cs) (pointer_parent_type e);
     let cs = cs\<lparr>class_table := (class_table cs)[i := e\<lparr>parent_type := parent\<rparr>]\<rparr>;
     p \<leftarrow> class_entry cs parent;
     Some (cs\<lparr>class_table := (class_table cs)[unat parent := p\<lparr>child := child p @ [i]\<rparr>]\<rparr>)
   }"

partial_function (option) set_class_table_info :: "class_system \<Rightarrow> nat \<Rightarrow> (class_system \<times> u32) option" where
  "set_class_table_info cs i = do {
     e \<leftarrow> arr_get (class_table cs) i;
     root \<leftarrow> object_t_type cs;
     (cs, sz) \<leftarrow> (if ctype e \<noteq> root then do {
         assert_that (i \<noteq> unat (parent_type e));
         set_class_table_info cs (unat (parent_type e))
       } else Some (cs, 0));
     e \<leftarrow> arr_get (class_table cs) i;
     let sz = sz + 8 + csize e;
     Some (cs\<lparr>class_table := (class_table cs)[i := e\<lparr>full_size := sz\<rparr>]\<rparr>, sz)
   }"

fun for_classes :: "(class_system \<Rightarrow> nat \<Rightarrow> class_system option) \<Rightarrow> nat list \<Rightarrow> class_system \<Rightarrow> class_system option" where
  "for_classes f [] cs = Some cs"
| "for_classes f (i # is) cs = do {
     cs \<leftarrow> f cs i;
     for_classes f is cs
   }"

definition do_class_init :: "class_system \<Rightarrow> class_system option" where
  "do_class_init cs = do {
     let n = length (class_table cs);
     cs \<leftarrow> for_classes link_class [0..<n] (number_classes cs);
     for_classes (\<lambda>cs i. map_option fst (set_class_table_info cs i)) [0..<n] cs
   }"

section \<open>Words in memory\<close>

lemma bit_load32: "bit (load32 m a) n \<longleftrightarrow> n < 32 \<and> bit (m (a + of_nat (n div 8))) (n mod 8)"
  by (auto simp: load32_def bit_simps bit_load64)

lemma load32_store32 [simp]: "load32 (store32 m a v) a = v"
proof (rule bit_word_eqI)
  fix n assume "n < LENGTH(32)"
  then have n: "n < 32" by simp
  then have "n div 8 < 4" by simp
  then have "(of_nat (n div 8) :: u64) < 4" "unat (of_nat (n div 8) :: u64) = n div 8" by (simp_all add: word_less_nat_alt)
  then show "bit (load32 (store32 m a v) a) n = bit v n" using n by (simp add: bit_load32 store32_def bit_simps)
qed

text \<open>The memories agree outside of an interval of addresses.\<close>

definition same_outside :: "nat \<Rightarrow> nat \<Rightarrow> memory \<Rightarrow> memory \<Rightarrow> bool" where
  "same_outside lo hi m m' \<longleftrightarrow> (\<forall>a. unat a < lo \<or> hi \<le> unat a \<longrightarrow> m' a = m a)"

lemma load32_same:
  assumes "unat a + 4 \<le> 2 ^ 64" "\<And>x. unat a \<le> unat x \<Longrightarrow> unat x < unat a + 4 \<Longrightarrow> m' x = m x"
  shows "load32 m' a = load32 m a"
proof (rule bit_word_eqI)
  fix n assume "n < LENGTH(32)"
  then have "n div 8 < 4" by simp
  moreover from this have "unat (a + of_nat (n div 8)) = unat a + n div 8" using assms(1) by (subst unat_add_64) simp_all
  ultimately show "bit (load32 m' a) n = bit (load32 m a) n" using assms(2) [of "a + of_nat (n div 8)"] by (simp add: bit_load32)
qed

lemma store32_outside: "unat a + 4 \<le> 2 ^ 64 \<Longrightarrow> same_outside (unat a) (unat a + 4) m (store32 m a v)"
proof -
  assume a: "unat a + 4 \<le> 2 ^ 64"
  have "\<not> x - a < 4" if "unat x < unat a \<or> unat a + 4 \<le> unat x" for x
  proof
    assume "x - a < 4"
    then have d: "unat (x - a) < 4" by (simp add: word_less_nat_alt)
    then have "unat (a + (x - a)) = unat a + unat (x - a)" using a by (intro unat_add_64) simp
    then show False using that d by simp
  qed
  then show ?thesis by (simp add: same_outside_def store32_def)
qed

lemma same_outsideD: "same_outside lo hi m m' \<Longrightarrow> unat a < lo \<or> hi \<le> unat a \<Longrightarrow> m' a = m a"
  by (auto simp: same_outside_def)

lemma unat_minus_64: "n \<le> unat (a :: u64) \<Longrightarrow> unat (a - of_nat n) = unat a - n"
  using unat_less_2p [of a] by (subst unat_diff_64) (auto simp: word_le_nat_alt)

lemma head_same:
  assumes "8 \<le> unat obj" "\<And>x. unat obj - 8 \<le> unat x \<Longrightarrow> unat x < unat obj \<Longrightarrow> m' x = m x"
  shows "head_type m' obj = head_type m obj" "head_child m' obj = head_child m obj"
proof -
  have a: "unat (obj - 8) = unat obj - 8" "unat (obj - 4) = unat obj - 4"
    using assms(1) unat_minus_64 [of 8 obj] unat_minus_64 [of 4 obj] by simp_all
  have "unat obj \<le> 2 ^ 64" using unat_less_2p [of obj] by simp
  then show "head_type m' obj = head_type m obj" "head_child m' obj = head_child m obj"
    unfolding head_type_def head_child_def using a assms by (intro load32_same; simp)+
qed

lemma set_head_ok:
  assumes "8 \<le> unat obj"
  shows "head_type (set_head m obj t c) obj = t" "head_child (set_head m obj t c) obj = c"
    "same_outside (unat obj - 8) (unat obj) m (set_head m obj t c)"
proof -
  have a: "unat (obj - 8) = unat obj - 8" "unat (obj - 4) = unat obj - 4"
    using assms unat_minus_64 [of 8 obj] unat_minus_64 [of 4 obj] by simp_all
  have top: "unat obj \<le> 2 ^ 64" using unat_less_2p [of obj] by simp
  then have o: "same_outside (unat obj - 8) (unat obj - 4) m' (store32 m' (obj - 8) v)"
      "same_outside (unat obj - 4) (unat obj) m' (store32 m' (obj - 4) v)" for m' v
    using store32_outside [of "obj - 8" m' v] store32_outside [of "obj - 4" m' v] a assms by simp_all
  show "head_child (set_head m obj t c) obj = c" by (simp add: head_child_def set_head_def)
  have "load32 (set_head m obj t c) (obj - 8) = load32 (store32 m (obj - 8) t) (obj - 8)"
    unfolding set_head_def using a assms top by (intro load32_same same_outsideD [OF o(2)]) simp_all
  then show "head_type (set_head m obj t c) obj = t" by (simp add: head_type_def)
  show "same_outside (unat obj - 8) (unat obj) m (set_head m obj t c)"
    using o(1) [of m t] o(2) [of "store32 m (obj - 8) t" c] by (simp add: same_outside_def set_head_def)
qed

lemma copy_frame:
  "(\<forall>i < n. a \<noteq> d + of_nat i) \<Longrightarrow> copy_up m d s n a = m a"
  "(\<forall>i < n. a \<noteq> d - of_nat (Suc i)) \<Longrightarrow> copy_down m d s n a = m a"
proof (induction n arbitrary: m d s)
  case (Suc n)
  {
    case 1
    have "a \<noteq> d" using 1 [rule_format, of 0] by simp
    moreover have "a \<noteq> d + 1 + of_nat i" if "i < n" for i using 1 [rule_format, of "Suc i"] that by (simp add: add.assoc)
    ultimately show ?case using Suc.IH(1) by simp
  next
    case 2
    have "a \<noteq> d - 1" using 2 [rule_format, of 0] by simp
    moreover have "a \<noteq> d - 1 - of_nat (Suc i)" if "i < n" for i using 2 [rule_format, of "Suc i"] that by (simp add: algebra_simps)
    ultimately show ?case using Suc.IH(2) by simp
  }
qed simp_all

lemma memcpy_outside:
  assumes "unat dst + unat n \<le> 2 ^ 64"
  shows "same_outside (unat dst) (unat dst + unat n) m (fst (memcpy m dst src n))"
  unfolding same_outside_def
proof (intro allI impI)
  fix a :: u64 assume a: "unat a < unat dst \<or> unat dst + unat n \<le> unat a"
  have un: "(ucast n :: u64) = of_nat (unat n)" by simp
  have off: "a \<noteq> dst + of_nat i" if "i < unat n" for i
  proof -
    have "unat n < 2 ^ 32" using unat_less_2p [of n] by simp
    then have "unat (dst + of_nat i) = unat dst + i" using assms that by (subst unat_add_64) simp_all
    then show ?thesis using a that by auto
  qed
  moreover have "a \<noteq> dst + ucast n - of_nat (Suc i)" if "i < unat n" for i
    using off [of "unat n - Suc i"] that by (simp add: un algebra_simps del: of_nat_unat)
  ultimately show "fst (memcpy m dst src n) a = m a"
    by (simp add: memcpy_def memmove_def copy_frame)
qed

section \<open>Inheritance and the layout of objects\<close>

text \<open>The classes from the root to a class.\<close>

inductive lineage :: "(nat \<Rightarrow> nat) \<Rightarrow> nat \<Rightarrow> nat list \<Rightarrow> bool" for parent root where
  lineage_root: "lineage parent root [root]"
| lineage_child: "\<lbrakk>lineage parent root ts; last ts = parent t; t \<noteq> root\<rbrakk> \<Longrightarrow> lineage parent root (ts @ [t])"

lemma lineage_nonempty: "lineage parent root ts \<Longrightarrow> ts \<noteq> []"
  by (induction rule: lineage.induct) auto

lemma lineage_nth:
  assumes "lineage parent root ts"
  shows "ts ! 0 = root" "\<And>i. Suc i < length ts \<Longrightarrow> ts ! i = parent (ts ! Suc i) \<and> ts ! Suc i \<noteq> root"
  using assms
proof (induction rule: lineage.induct)
  case (lineage_child ts t)
  {
    case 1
    show ?case using lineage_child lineage_nonempty by (simp add: nth_append)
  next
    case (2 i)
    then have "ts ! i = last ts" if "Suc i = length ts" using that by (metis diff_Suc_1 last_conv_nth length_0_conv nat.simps(3))
    then show ?case using lineage_child 2 by (cases "Suc i = length ts") (auto simp: nth_append)
  }
qed simp_all

lemma lineage_distinct:
  assumes "lineage parent root ts"
  shows "distinct ts"
proof -
  have "\<not> (i < j \<and> j < length ts \<and> ts ! i = ts ! j)" for i j
  proof (induction i arbitrary: j)
    case 0
    have "ts ! Suc k \<noteq> root" if "Suc k < length ts" for k using lineage_nth(2) [OF assms that] by simp
    then show ?case using lineage_nth(1) [OF assms] by (cases j) fastforce+
  next
    case (Suc i)
    show ?case
    proof
      assume a: "Suc i < j \<and> j < length ts \<and> ts ! Suc i = ts ! j"
      then obtain k where k: "j = Suc k" by (cases j) auto
      then have "ts ! i = ts ! k" using lineage_nth(2) [OF assms, of i] lineage_nth(2) [OF assms, of k] a by simp
      then show False using Suc.IH [of k] a k by auto
    qed
  qed
  then show ?thesis unfolding distinct_conv_nth by (metis nat_neq_iff)
qed

abbreviation nclasses :: "class_system \<Rightarrow> nat" where "nclasses cs \<equiv> length (class_table cs)"

definition parent_of :: "class_system \<Rightarrow> nat \<Rightarrow> nat" where
  "parent_of cs t = unat (parent_type (class_table cs ! t))"

definition part_size :: "class_system \<Rightarrow> nat \<Rightarrow> nat" where
  "part_size cs t = unat (csize (class_table cs ! t))"

text \<open>The bytes of the parts of the classes and their headers.\<close>

definition width :: "class_system \<Rightarrow> nat list \<Rightarrow> nat" where
  "width cs ts = (\<Sum>t \<leftarrow> ts. 8 + part_size cs t)"

lemma width_simps [simp]: "width cs [] = 0" "width cs (t # ts) = 8 + part_size cs t + width cs ts" "width cs (ts @ us) = width cs ts + width cs us"
  by (simp_all add: width_def)

text \<open>The address of the part of the class at place \<open>i\<close> of the lineage.\<close>

definition part :: "class_system \<Rightarrow> u64 \<Rightarrow> nat list \<Rightarrow> nat \<Rightarrow> u64" where
  "part cs base ts i = base + of_nat (width cs (take i ts) + 8)"

definition class_ok :: "class_system \<Rightarrow> bool" where
  "class_ok cs \<longleftrightarrow> nclasses cs < 2 ^ 32 \<and> object_t cs < nclasses cs \<and> class_types cs = map of_nat [0..<nclasses cs]
     \<and> (\<forall>t < nclasses cs. ctype (class_table cs ! t) = of_nat t
         \<and> (\<exists>ts. lineage (parent_of cs) (object_t cs) ts \<and> last ts = t \<and> set ts \<subseteq> {..<nclasses cs}
              \<and> full_size (class_table cs ! t) = of_nat (width cs ts) \<and> width cs ts < 2 ^ 31))"

text \<open>A constructor writes to its part of the object and to memory it allocates.\<close>

definition objects_same :: "object set \<Rightarrow> nat \<Rightarrow> nat \<Rightarrow> memory \<Rightarrow> memory \<Rightarrow> bool" where
  "objects_same V lo hi m m' \<longleftrightarrow> (\<forall>v \<in> V. \<forall>a. unat a \<in> object_bytes v \<and> (unat a < lo \<or> hi \<le> unat a) \<longrightarrow> m' a = m a)"

definition constructor_ok :: "structor \<Rightarrow> nat \<Rightarrow> bool" where
  "constructor_ok f sz \<longleftrightarrow> (\<forall>h V base z obj. heap_ok h V \<and> (base, z) \<in> V \<and> unat base \<le> unat obj \<and> unat obj + sz \<le> unat base + z \<longrightarrow>
     (\<exists>h' V'. f h obj = Some h' \<and> heap_ok h' V' \<and> V \<subseteq> V' \<and> objects_same V (unat obj) (unat obj + sz) (bytes h) (bytes h')))"

definition constructors_ok :: "class_system \<Rightarrow> bool" where
  "constructors_ok cs \<longleftrightarrow> (\<forall>t < nclasses cs. \<forall>f. pointer_constructor (class_table cs ! t) = Some f \<longrightarrow> constructor_ok f (part_size cs t))"

text \<open>The headers of an object, where \<open>c\<close> is the class the last header names as its child.\<close>

definition heads :: "class_system \<Rightarrow> memory \<Rightarrow> u64 \<Rightarrow> nat list \<Rightarrow> nat \<Rightarrow> bool" where
  "heads cs m base ts c \<longleftrightarrow> (\<forall>i < length ts. head_type m (part cs base ts i) = of_nat (ts ! i)
     \<and> head_child m (part cs base ts i) = of_nat ((ts @ [c]) ! Suc i))"

lemma objects_same_outside: "same_outside lo hi m m' \<Longrightarrow> objects_same V lo hi m m'"
  by (auto simp: objects_same_def same_outside_def)

lemma objects_same_trans:
  assumes "objects_same V l1 h1 m m1" "objects_same W l2 h2 m1 m2" "V \<subseteq> W" "lo \<le> l1" "lo \<le> l2" "h1 \<le> hi" "h2 \<le> hi"
  shows "objects_same V lo hi m m2"
proof -
  have "m2 a = m a" if "v \<in> V" "unat a \<in> object_bytes v" "unat a < lo \<or> hi \<le> unat a" for v a
  proof -
    have "m1 a = m a" using assms(1,4,6) that by (force simp: objects_same_def)
    moreover have "v \<in> W" using assms(3) that(1) by blast
    then have "m2 a = m1 a" using assms(2,5,7) that(2,3) by (force simp: objects_same_def)
    ultimately show ?thesis by simp
  qed
  then show ?thesis by (auto simp: objects_same_def)
qed

lemma width_take_le: "i \<le> j \<Longrightarrow> width cs (take i ts) \<le> width cs (take j ts)"
proof -
  assume "i \<le> j"
  then have "take j ts = take i ts @ drop i (take j ts)" by (metis append_take_drop_id min.absorb1 take_take)
  then show ?thesis by (metis le_add1 width_simps(3))
qed

text \<open>An object of the heap with room for the parts of a lineage.\<close>

definition room :: "class_system \<Rightarrow> kernel_heap \<Rightarrow> object set \<Rightarrow> u64 \<Rightarrow> nat \<Rightarrow> nat list \<Rightarrow> bool" where
  "room cs h V base z ts \<longleftrightarrow> heap_ok h V \<and> (base, z) \<in> V \<and> width cs ts \<le> z \<and> unat base + width cs (butlast ts) + 8 < 2 ^ 64"

lemma unat_part:
  assumes "room cs h V base z ts" "i < length ts"
  shows "unat (part cs base ts i) = unat base + width cs (take i ts) + 8"
    and "width cs (take i ts) + 8 + part_size cs (ts ! i) \<le> width cs ts"
    and "unat base + width cs ts \<le> 2 ^ 64"
proof -
  have "width cs (take (Suc i) ts) \<le> width cs (take (length ts) ts)" using assms(2) by (intro width_take_le) simp
  then show "width cs (take i ts) + 8 + part_size cs (ts ! i) \<le> width cs ts"
    using assms(2) by (simp add: take_Suc_conv_app_nth)
  show "unat base + width cs ts \<le> 2 ^ 64" using assms(1) heap_live_space by (fastforce simp: room_def)
  have "width cs (take i ts) \<le> width cs (butlast ts)"
    unfolding butlast_conv_take using assms(2) by (intro width_take_le) simp
  then have less: "unat base + (width cs (take i ts) + 8) < 2 ^ 64" using assms(1) by (simp add: room_def)
  then have "unat (of_nat (width cs (take i ts) + 8) :: u64) = width cs (take i ts) + 8" by (intro unat_of_nat_64) linarith
  then show "unat (part cs base ts i) = unat base + width cs (take i ts) + 8"
    using less unfolding part_def by (subst unat_add_64) (simp_all del: of_nat_add)
qed

lemma part_step:
  assumes "Suc i < length ts"
  shows "part cs base ts (Suc i) = part cs base ts i + of_nat (part_size cs (ts ! i)) + 8"
  using assms by (simp add: part_def take_Suc_conv_app_nth)

lemma part_append [simp]: "i < length ts \<Longrightarrow> part cs base (ts @ us) i = part cs base ts i"
  by (simp add: part_def)

lemma unat_class: "\<lbrakk>class_ok cs; t < nclasses cs\<rbrakk> \<Longrightarrow> unat (of_nat t :: u32) = t"
  by (intro unat_of_nat_32) (simp add: class_ok_def)

lemma class_entry_ok: "\<lbrakk>class_ok cs; t < nclasses cs\<rbrakk> \<Longrightarrow> class_entry cs (of_nat t) = Some (class_table cs ! t)"
  by (simp add: class_entry_def unat_class)

lemma class_eq: "\<lbrakk>class_ok cs; t < nclasses cs; u < nclasses cs\<rbrakk> \<Longrightarrow> of_nat t = (of_nat u :: u32) \<longleftrightarrow> t = u"
  by (metis unat_class)

lemma object_t_type_ok: "class_ok cs \<Longrightarrow> object_t_type cs = Some (of_nat (object_t cs))"
  by (simp add: class_ok_def object_t_type_def)

lemma get_parent_obj_ok:
  assumes "class_ok cs" "lineage (parent_of cs) (object_t cs) ts" "set ts \<subseteq> {..<nclasses cs}" "Suc i < length ts"
  shows "get_parent_obj cs (of_nat (ts ! Suc i)) (part cs base ts (Suc i)) = Some (part cs base ts i)"
proof -
  have t: "ts ! i < nclasses cs" "ts ! Suc i < nclasses cs" using assms(3,4) nth_mem by force+
  have "unat (parent_type (class_table cs ! (ts ! Suc i))) = ts ! i"
    using lineage_nth(2) [OF assms(2,4)] by (simp add: parent_of_def)
  then have "class_entry cs (parent_type (class_table cs ! (ts ! Suc i))) = Some (class_table cs ! (ts ! i))"
    using t by (simp add: class_entry_def)
  moreover have "(ucast (csize (class_table cs ! (ts ! i))) :: u64) = of_nat (part_size cs (ts ! i))" by (simp add: part_size_def)
  ultimately show ?thesis
    using class_entry_ok [OF assms(1) t(2)] part_step [OF assms(4), of cs base] by (simp add: get_parent_obj_def)
qed

section \<open>Casts\<close>

text \<open>The place of a class in a lineage.\<close>

definition place :: "nat list \<Rightarrow> nat \<Rightarrow> nat" where
  "place ts t = length (takeWhile (\<lambda>x. x \<noteq> t) ts)"

lemma place_nth: "\<lbrakk>distinct ts; i < length ts\<rbrakk> \<Longrightarrow> place ts (ts ! i) = i"
  unfolding place_def by (subst takeWhile_eq_take_P_nth [of i]) (auto simp: nth_eq_iff_index_eq)

lemma heads_at:
  assumes "heads cs m base ts (last ts)" "i < length ts"
  shows "head_type m (part cs base ts i) = of_nat (ts ! i)"
    and "head_child m (part cs base ts i) = of_nat (if Suc i < length ts then ts ! Suc i else ts ! i)"
proof -
  have "last ts = ts ! i" if "Suc i = length ts" using that by (metis diff_Suc_1 last_conv_nth list.size(3) nat.simps(3))
  then show "head_type m (part cs base ts i) = of_nat (ts ! i)"
    "head_child m (part cs base ts i) = of_nat (if Suc i < length ts then ts ! Suc i else ts ! i)"
    using assms by (auto simp: heads_def nth_append dest!: spec [of _ i])
qed

lemma cast_up_ok:
  assumes cs: "class_ok cs" and lin: "lineage (parent_of cs) (object_t cs) ts" "set ts \<subseteq> {..<nclasses cs}"
    and heads: "heads cs m base ts (last ts)" and t: "t < nclasses cs" and j: "j < length ts"
  shows "cast_up cs m (of_nat t) (part cs base ts j) = Some
    (if t \<in> set (drop j ts) then (part cs base ts (place ts t), True) else (part cs base ts (length ts - 1), False))"
  using j
proof (induction "length ts - j" arbitrary: j)
  case (Suc n)
  note head = heads_at [OF heads Suc.prems]
  have dist: "distinct ts" using lin(1) by (rule lineage_distinct)
  have tj: "ts ! j < nclasses cs" using lin(2) Suc.prems nth_mem by blast
  have the: "place ts (ts ! j) = j" using dist Suc.prems by (rule place_nth)
  have drop: "drop j ts = ts ! j # drop (Suc j) ts" using Suc.prems by (simp add: Cons_nth_drop_Suc)
  show ?case
  proof (cases "ts ! j = t")
    case True
    then show ?thesis using head(1) the drop by (subst cast_up.simps) simp
  next
    case False
    then have ne: "head_type m (part cs base ts j) \<noteq> of_nat t" using head(1) class_eq [OF cs tj t] by simp
    show ?thesis
    proof (cases "Suc j < length ts")
      case True
      have "ts ! Suc j < nclasses cs" using lin(2) True nth_mem by blast
      then have "head_type m (part cs base ts j) \<noteq> head_child m (part cs base ts j)"
        using head True class_eq [OF cs tj] dist by (simp add: nth_eq_iff_index_eq)
      moreover have "cast_up cs m (of_nat t) (part cs base ts (Suc j)) = Some
          (if t \<in> set (drop (Suc j) ts) then (part cs base ts (place ts t), True) else (part cs base ts (length ts - 1), False))"
        using Suc.hyps True by simp
      moreover have "part cs base ts j + ucast (csize (class_table cs ! (ts ! j))) + 8 = part cs base ts (Suc j)"
        using part_step [OF True, of cs base] by (simp add: part_size_def)
      ultimately show ?thesis
        using ne head(1) class_entry_ok [OF cs tj] drop False by (subst cast_up.simps) simp
    next
      case last: False
      then show ?thesis using ne head drop False Suc.prems by (subst cast_up.simps) (auto simp: not_less le_Suc_eq Suc_diff_Suc)
    qed
  qed
qed simp

lemma cast_down_ok:
  assumes cs: "class_ok cs" and lin: "lineage (parent_of cs) (object_t cs) ts" "set ts \<subseteq> {..<nclasses cs}"
    and heads: "heads cs m base ts (last ts)" and t: "t < nclasses cs" and j: "j < length ts"
  shows "cast_down cs m (of_nat t) (part cs base ts j) = Some (if t \<in> set (take (Suc j) ts) then part cs base ts (place ts t) else 0)"
  using j
proof (induction j)
  case 0
  have "ts ! 0 = object_t cs" using lineage_nth(1) [OF lin(1)] .
  moreover have "object_t cs < nclasses cs" using cs by (simp add: class_ok_def)
  moreover have "place ts (ts ! 0) = 0" using lineage_distinct [OF lin(1)] 0 by (rule place_nth)
  ultimately show ?case
    using heads_at(1) [OF heads 0] class_eq [OF cs _ t, of "object_t cs"] object_t_type_ok [OF cs] 0
    by (subst cast_down.simps) (auto simp: take_Suc_conv_app_nth)
next
  case (Suc j)
  have tj: "ts ! Suc j < nclasses cs" using lin(2) Suc.prems nth_mem by blast
  have root: "object_t cs < nclasses cs" using cs by (simp add: class_ok_def)
  have "ts ! Suc j \<noteq> object_t cs" using lineage_nth(2) [OF lin(1) Suc.prems] by simp
  moreover have "place ts (ts ! Suc j) = Suc j" using lineage_distinct [OF lin(1)] Suc.prems by (rule place_nth)
  moreover have "take (Suc (Suc j)) ts = take (Suc j) ts @ [ts ! Suc j]" using Suc.prems by (simp add: take_Suc_conv_app_nth)
  ultimately show ?case
    using heads_at(1) [OF heads Suc.prems] Suc.IH Suc.prems class_eq [OF cs tj t] class_eq [OF cs tj root] object_t_type_ok [OF cs]
      get_parent_obj_ok [OF cs lin Suc.prems, of base]
    by (subst cast_down.simps) auto
qed

text \<open>A cast from any part of an object to a class of its lineage gives the part of that class, and to any other class the null
  pointer.\<close>

lemma class_cast_ok:
  assumes cs: "class_ok cs" and lin: "lineage (parent_of cs) (object_t cs) ts" "set ts \<subseteq> {..<nclasses cs}"
    and heads: "heads cs m base ts (last ts)" and t: "t < nclasses cs" and j: "j < length ts" and obj: "part cs base ts j \<noteq> 0"
  shows "class_cast cs m (of_nat t) (part cs base ts j) = Some (if t \<in> set ts then part cs base ts (place ts t) else 0)"
proof -
  have "set (drop j ts) \<subseteq> set ts" by (rule set_drop_subset)
  moreover have "cast_down cs m (of_nat t) (part cs base ts (length ts - 1)) = Some (if t \<in> set ts then part cs base ts (place ts t) else 0)"
    using cast_down_ok [OF cs lin heads t, of "length ts - 1"] j by auto
  ultimately show ?thesis
    using cast_up_ok [OF cs lin heads t j] obj by (auto simp: class_cast_def)
qed

section \<open>Creating objects\<close>

lemma head_part_same:
  assumes "room cs h V base z ts" "i < length ts"
    and "\<And>x. unat base + width cs (take i ts) \<le> unat x \<Longrightarrow> unat x < unat base + width cs (take i ts) + 8 \<Longrightarrow> m' x = m x"
  shows "head_type m' (part cs base ts i) = head_type m (part cs base ts i)" "head_child m' (part cs base ts i) = head_child m (part cs base ts i)"
  using unat_part(1) [OF assms(1,2)] assms(3) by (auto intro!: head_same)

lemma room_parent: "room cs h V base z (ts @ [t]) \<Longrightarrow> room cs h V base z ts"
proof -
  assume rm: "room cs h V base z (ts @ [t])"
  have "width cs (butlast ts) \<le> width cs ts"
    unfolding butlast_conv_take using width_take_le [of "length ts - 1" "length ts" cs ts] by simp
  then show ?thesis using rm by (simp add: room_def)
qed

lemma heads_child:
  assumes rm: "room cs h V base z (ts @ [t])" and "heads cs m base ts t"
    and "head_type m' (part cs base (ts @ [t]) (length ts)) = of_nat t" "head_child m' (part cs base (ts @ [t]) (length ts)) = of_nat c"
    and same: "\<And>x. unat base \<le> unat x \<Longrightarrow> unat x < unat base + width cs ts + 8 \<Longrightarrow> m' x = m x"
  shows "heads cs m' base (ts @ [t]) c"
proof -
  have "head_type m' (part cs base ts i) = of_nat (ts ! i) \<and> head_child m' (part cs base ts i) = of_nat ((ts @ [t]) ! Suc i)"
    if "i < length ts" for i
    using head_part_same [OF room_parent [OF rm] that, of m' m] same assms(2) that width_take_le [of i "length ts" cs ts]
    by (simp add: heads_def)
  then show ?thesis using assms(3,4) by (auto simp: heads_def nth_append less_Suc_eq)
qed

lemma run_constructor:
  assumes ctors: "constructors_ok cs" and t: "t < nclasses cs" and h: "heap_ok h V" "(base, z) \<in> V"
    and obj: "unat base \<le> unat obj" "unat obj + part_size cs t \<le> unat base + z"
  obtains h' V' where "(case pointer_constructor (class_table cs ! t) of None \<Rightarrow> Some h | Some f \<Rightarrow> f h obj) = Some h'"
    "heap_ok h' V'" "V \<subseteq> V'" "objects_same V (unat obj) (unat obj + part_size cs t) (bytes h) (bytes h')"
proof (cases "pointer_constructor (class_table cs ! t)")
  case None
  then show thesis using that [of h V] h by (simp add: objects_same_def)
next
  case (Some f)
  then have "constructor_ok f (part_size cs t)" using ctors t by (simp add: constructors_ok_def)
  then obtain h' V' where "f h obj = Some h'" "heap_ok h' V'" "V \<subseteq> V'" "objects_same V (unat obj) (unat obj + part_size cs t) (bytes h) (bytes h')"
    using h obj unfolding constructor_ok_def by blast
  then show thesis using that Some by simp
qed

lemma object_init_ok:
  assumes cs: "class_ok cs" and ctors: "constructors_ok cs"
    and "lineage (parent_of cs) (object_t cs) ts" "set ts \<subseteq> {..<nclasses cs}" "room cs h V base z ts"
  shows "\<exists>h' V'. object_init cs h (of_nat (last ts)) (of_nat c) (part cs base ts (length ts - 1)) = Some h' \<and> heap_ok h' V' \<and> V \<subseteq> V'
    \<and> heads cs (bytes h') base ts c \<and> objects_same V (unat base) (unat base + width cs ts) (bytes h) (bytes h')"
  using assms(3-5)
proof (induction arbitrary: h V c rule: lineage.induct)
  case lineage_root
  let ?obj = "part cs base [object_t cs] 0" and ?m = "set_head (bytes h)"
  have obj: "unat ?obj = unat base + 8" using unat_part(1) [OF lineage_root(2), of 0] by simp
  then have "objects_same V (unat base) (unat base + width cs [object_t cs]) (bytes h) (?m ?obj t (of_nat c))" for t
    using set_head_ok(3) [of ?obj "bytes h" t "of_nat c"] by (auto simp: objects_same_def same_outside_def)
  then show ?case
    using set_head_ok(1,2) [of ?obj] obj object_t_type_ok [OF cs] lineage_root(2)
    by (subst object_init.simps) (auto simp: heads_def room_def)
next
  case (lineage_child ts t)
  let ?ts = "ts @ [t]" and ?k = "length ts"
  let ?obj = "part cs base ?ts ?k" and ?top = "unat base + width cs ts"
  note lin = lineage.lineage_child [OF lineage_child.hyps] and rm = lineage_child.prems(2)
  have t: "t < nclasses cs" and ts: "set ts \<subseteq> {..<nclasses cs}" using lineage_child.prems(1) by simp_all
  have k: "?k < length ?ts" "0 < ?k" using lineage_nonempty [OF lineage_child.hyps(1)] by simp_all
  have obj: "unat ?obj = ?top + 8" "?top + 8 + part_size cs t \<le> unat base + z" using unat_part(1) [OF rm k(1)] rm by (simp_all add: room_def)
  have zin: "unat base \<le> unat x \<Longrightarrow> unat x < ?top + 8 \<Longrightarrow> unat x \<in> object_bytes (base, z)" for x :: u64
    using obj(2) by (simp add: object_bytes_def)
  define h1 where "h1 = h\<lparr>bytes := set_head (bytes h) ?obj (of_nat t) (of_nat c)\<rparr>"
  have rm1: "room cs h1 V base z ts" using room_parent [OF rm] by (simp add: room_def h1_def)
  obtain h2 V2 where h2: "object_init cs h1 (of_nat (last ts)) (of_nat t) (part cs base ts (?k - 1)) = Some h2" "heap_ok h2 V2" "V \<subseteq> V2"
      "heads cs (bytes h2) base ts t" and same2: "objects_same V (unat base) ?top (bytes h1) (bytes h2)"
    using lineage_child.IH [OF ts rm1, of t] by auto
  define h3 where "h3 = h2\<lparr>bytes := fst (memcpy (bytes h2) ?obj (init_obj (class_table cs ! t)) (csize (class_table cs ! t)))\<rparr>"
  have base: "(base, z) \<in> V" "(base, z) \<in> V2" using rm h2(3) by (auto simp: room_def)
  obtain h4 V4 where h4: "(case pointer_constructor (class_table cs ! t) of None \<Rightarrow> Some h3 | Some f \<Rightarrow> f h3 ?obj) = Some h4"
      "heap_ok h4 V4" "V2 \<subseteq> V4" and same4: "objects_same V2 (unat ?obj) (unat ?obj + part_size cs t) (bytes h3) (bytes h4)"
    by (rule run_constructor [OF ctors t, of h3 V2 base z ?obj]) (use h2(2) base(2) obj in \<open>simp_all add: h3_def\<close>)
  have parent: "get_parent_obj cs (of_nat t) ?obj = Some (part cs base ts (?k - 1))"
    using get_parent_obj_ok [OF cs lin, of "?k - 1" base] lineage_child.prems(1) k(2) by simp
  have ptype: "parent_type (class_table cs ! t) = of_nat (last ts)"
    using lineage_child.hyps(2) by (simp add: parent_of_def)
  have ne: "of_nat t \<noteq> (of_nat (object_t cs) :: u32)" using class_eq [OF cs t] lineage_child.hyps(3) cs by (simp add: class_ok_def)
  have len: "length ?ts - 1 = ?k" by simp
  have run: "object_init cs h (of_nat (last ?ts)) (of_nat c) (part cs base ?ts (length ?ts - 1)) = Some h4"
    unfolding len using h2(1) h4(1) [unfolded h3_def] parent ptype ne object_t_type_ok [OF cs] class_entry_ok [OF cs t]
    by (subst object_init.simps) (simp add: h1_def Let_def)
  have "unat ?obj + unat (csize (class_table cs ! t)) \<le> 2 ^ 64" using obj unat_part(3) [OF rm k(1)] by (simp add: part_size_def)
  then have "objects_same V2 (unat ?obj) (unat ?obj + part_size cs t) (bytes h2) (bytes h3)"
    using memcpy_outside objects_same_outside by (simp add: h3_def part_size_def)
  then have same24: "objects_same V2 (?top + 8) (?top + 8 + part_size cs t) (bytes h2) (bytes h4)"
    using objects_same_trans [OF _ same4] obj(1) by simp
  have "objects_same V ?top (?top + 8) (bytes h) (bytes h1)"
    using set_head_ok(3) [of ?obj "bytes h"] obj(1) objects_same_outside by (simp add: h1_def)
  then have "objects_same V (unat base) (?top + 8) (bytes h) (bytes h2)" by (rule objects_same_trans [OF _ same2]) simp_all
  then have same: "objects_same V (unat base) (unat base + width cs ?ts) (bytes h) (bytes h4)"
    by (rule objects_same_trans [OF _ same24 h2(3)]) simp_all
  have b4: "bytes h4 x = bytes h2 x" if "unat base \<le> unat x" "unat x < ?top + 8" for x
    using same24 base(2) zin [OF that] that(2) unfolding objects_same_def by blast
  have b2: "bytes h4 x = bytes h1 x" if "?top \<le> unat x" "unat x < ?top + 8" for x
    using same2 base(1) zin [of x] b4 [of x] that unfolding objects_same_def by simp
  have "head_type (bytes h4) ?obj = of_nat t" "head_child (bytes h4) ?obj = of_nat c"
    using head_part_same [OF rm k(1), of "bytes h4" "bytes h1"] b2 set_head_ok(1,2) [of ?obj "bytes h"] obj(1) by (simp_all add: h1_def)
  then have "heads cs (bytes h4) base ?ts c" using b4 by (intro heads_child [OF rm h2(4)])
  then show ?case using run h4(2,3) h2(3) same by blast
qed

lemma class_lineage:
  assumes "class_ok cs" "t < nclasses cs"
  obtains ts where "lineage (parent_of cs) (object_t cs) ts" "last ts = t" "set ts \<subseteq> {..<nclasses cs}"
    "full_size (class_table cs ! t) = of_nat (width cs ts)" "width cs ts < 2 ^ 31"
  using assms by (auto simp: class_ok_def)

lemma ucast_full_size:
  assumes "x = of_nat w" "w < 2 ^ 31"
  shows "(ucast (x :: u32) :: u64) = of_nat w"
proof -
  have "unat x = w" unfolding assms(1) using assms(2) by (intro unat_of_nat_32) simp
  then show ?thesis by (metis of_nat_unat)
qed

lemma new_class_object_ok:
  assumes cs: "class_ok cs" and ctors: "constructors_ok cs" and h: "heap_ok h V" and t: "t < nclasses cs" "0 < part_size cs t"
    and lin: "lineage (parent_of cs) (object_t cs) ts" "last ts = t" "set ts \<subseteq> {..<nclasses cs}"
      "full_size (class_table cs ! t) = of_nat (width cs ts)" "width cs ts < 2 ^ 31"
  obtains (none) "new_class_object cs h (of_nat t) = Some (h, 0)"
    | (some) h' V' base z where "new_class_object cs h (of_nat t) = Some (h', part cs base ts (length ts - 1))" "(base, z) \<notin> V"
      "room cs h' V' base z ts" "V \<subseteq> V'" "heads cs (bytes h') base ts t" "objects_same V 0 0 (bytes h) (bytes h')"
proof -
  let ?w = "width cs ts"
  have ne: "ts \<noteq> []" using lin(1) by (rule lineage_nonempty)
  have split: "ts = butlast ts @ [t]" using ne lin(2) by (metis append_butlast_last_id)
  then have w: "?w = width cs (butlast ts) + 8 + part_size cs t" by (metis ab_semigroup_add_class.add_ac(1) add.right_neutral width_simps)
  have full: "(ucast (full_size (class_table cs ! t)) :: u64) = of_nat ?w" using lin(4,5) by (rule ucast_full_size)
  have sz: "0 < unat (1 :: u64) * unat (of_nat ?w :: u64)" "unat (1 :: u64) * unat (of_nat ?w :: u64) < 2 ^ 31"
    and u64: "unat (of_nat ?w :: u64) = ?w"
  proof -
    show "unat (of_nat ?w :: u64) = ?w" using lin(5) by (intro unat_of_nat_64) simp
    then show "0 < unat (1 :: u64) * unat (of_nat ?w :: u64)" "unat (1 :: u64) * unat (of_nat ?w :: u64) < 2 ^ 31"
      using lin(5) t(2) by (simp_all only: w) simp_all
  qed
  from h sz show thesis
  proof (cases rule: calloc_spec)
    case none
    then show ?thesis using that(1) class_entry_ok [OF cs t(1)] by (simp add: new_class_object_def full)
  next
    case (some h1 base z)
    have "unat base + z \<le> 2 ^ 64" using some(5) by (rule heap_live_space) simp
    then have rm: "room cs h1 (insert (base, z) V) base z ts" using some(3,5) w t(2) u64 by (simp add: room_def)
    obtain h' V' where h': "object_init cs h1 (of_nat t) (of_nat t) (part cs base ts (length ts - 1)) = Some h'" "heap_ok h' V'"
        "insert (base, z) V \<subseteq> V'" "heads cs (bytes h') base ts t"
      and same: "objects_same (insert (base, z) V) (unat base) (unat base + ?w) (bytes h1) (bytes h')"
      using object_init_ok [OF cs ctors lin(1,3) rm, of t] lin(2) by auto
    have "base + of_nat ?w - ucast (csize (class_table cs ! t)) = part cs base ts (length ts - 1)"
      using w by (simp add: part_def butlast_conv_take part_size_def)
    then have run: "new_class_object cs h (of_nat t) = Some (h', part cs base ts (length ts - 1))"
      using some(1,2) h'(1) class_entry_ok [OF cs t(1)] by (simp add: new_class_object_def full)
    have "bytes h' a = bytes h a" if "v \<in> V" "unat a \<in> object_bytes v" for v a
    proof -
      have "disjnt (object_bytes v) (object_bytes (base, z))"
        using some(4,5) that(1) by (intro heap_live_disjoint [of h1 "insert (base, z) V"]) auto
      then have "\<not> (unat base \<le> unat a \<and> unat a < unat base + ?w)"
        using that(2) some(3) u64 by (auto simp: disjnt_iff object_bytes_def)
      then have "bytes h' a = bytes h1 a" using same that by (auto simp: objects_same_def)
      then show ?thesis using some(7) that by simp
    qed
    then have "objects_same V 0 0 (bytes h) (bytes h')" by (simp add: objects_same_def)
    moreover have "room cs h' V' base z ts" using rm h'(2,3) by (simp add: room_def)
    ultimately show ?thesis using that(2) run some(4) h' by blast
  qed
qed

section \<open>Deleting objects\<close>

text \<open>A destructor may free other objects; it keeps the object and writes to its part of it only.\<close>

definition destructor_ok :: "structor \<Rightarrow> nat \<Rightarrow> bool" where
  "destructor_ok f sz \<longleftrightarrow> (\<forall>h V base z obj. heap_ok h V \<and> (base, z) \<in> V \<and> unat base \<le> unat obj \<and> unat obj + sz \<le> unat base + z \<longrightarrow>
     (\<exists>h' V'. f h obj = Some h' \<and> heap_ok h' V' \<and> V' \<subseteq> V \<and> (base, z) \<in> V'
        \<and> objects_same {(base, z)} (unat obj) (unat obj + sz) (bytes h) (bytes h')))"

definition destructors_ok :: "class_system \<Rightarrow> bool" where
  "destructors_ok cs \<longleftrightarrow> (\<forall>t < nclasses cs. \<forall>f. pointer_destructor (class_table cs ! t) = Some f \<longrightarrow> destructor_ok f (part_size cs t))"

lemma run_destructor:
  assumes dtors: "destructors_ok cs" and rm: "room cs h V base z ts" and heads: "heads cs (bytes h) base ts c"
    and j: "j < length ts" "ts ! j < nclasses cs"
  obtains h' V' where "(case pointer_destructor (class_table cs ! (ts ! j)) of None \<Rightarrow> Some h | Some f \<Rightarrow> f h (part cs base ts j)) = Some h'"
    "room cs h' V' base z ts" "V' \<subseteq> V" "heads cs (bytes h') base ts c"
proof (cases "pointer_destructor (class_table cs ! (ts ! j))")
  case None
  then show thesis using that [of h V] rm heads by simp
next
  case (Some f)
  let ?lo = "unat base + width cs (take j ts) + 8" and ?sz = "part_size cs (ts ! j)"
  have "destructor_ok f ?sz" using dtors j(2) Some by (simp add: destructors_ok_def)
  moreover have "unat base \<le> unat (part cs base ts j)" "unat (part cs base ts j) + ?sz \<le> unat base + z"
    using unat_part(1,2) [OF rm j(1)] rm by (simp_all add: room_def)
  ultimately obtain h' V' where h': "f h (part cs base ts j) = Some h'" "heap_ok h' V'" "V' \<subseteq> V" "(base, z) \<in> V'"
    and same: "objects_same {(base, z)} ?lo (?lo + ?sz) (bytes h) (bytes h')"
    using rm unat_part(1) [OF rm j(1)] unfolding destructor_ok_def room_def by metis
  have "head_type (bytes h') (part cs base ts i) = head_type (bytes h) (part cs base ts i)
      \<and> head_child (bytes h') (part cs base ts i) = head_child (bytes h) (part cs base ts i)" if i: "i < length ts" for i
  proof -
    have apart: "width cs (take i ts) + 8 \<le> width cs (take j ts) + 8 \<or> width cs (take j ts) + 8 + ?sz \<le> width cs (take i ts)"
      using width_take_le [of i j cs ts] width_take_le [of "Suc j" i cs ts] j(1) by (cases "i \<le> j") (simp_all add: take_Suc_conv_app_nth)
    have "bytes h' x = bytes h x" if "unat base + width cs (take i ts) \<le> unat x" "unat x < unat base + width cs (take i ts) + 8" for x
    proof -
      have "unat x \<in> object_bytes (base, z)" using that unat_part(2) [OF rm i] rm by (simp add: object_bytes_def room_def)
      then show ?thesis using same that apart unfolding objects_same_def by auto
    qed
    then show ?thesis by (intro conjI head_part_same [OF rm i])
  qed
  then have "heads cs (bytes h') base ts c" using heads by (simp add: heads_def)
  moreover have "room cs h' V' base z ts" using rm h' by (simp add: room_def)
  ultimately show thesis using that h' Some by simp
qed

lemma object_exit_ok:
  assumes cs: "class_ok cs" and dtors: "destructors_ok cs"
    and lin: "lineage (parent_of cs) (object_t cs) ts" "set ts \<subseteq> {..<nclasses cs}"
    and "room cs h V base z ts" "heads cs (bytes h) base ts c" "j < length ts"
  shows "\<exists>h' V'. object_exit cs h (part cs base ts j) = Some h' \<and> room cs h' V' base z ts \<and> V' \<subseteq> V \<and> heads cs (bytes h') base ts c"
  using assms(5-7)
proof (induction j arbitrary: h V)
  case 0
  have root: "ts ! 0 = object_t cs" "object_t cs < nclasses cs" using lineage_nth(1) [OF lin(1)] cs by (simp_all add: class_ok_def)
  then have t0: "ts ! 0 < nclasses cs" by simp
  obtain h1 V1 where h1: "(case pointer_destructor (class_table cs ! (ts ! 0)) of None \<Rightarrow> Some h | Some f \<Rightarrow> f h (part cs base ts 0)) = Some h1"
      "room cs h1 V1 base z ts" "V1 \<subseteq> V" "heads cs (bytes h1) base ts c"
    using dtors 0 t0 by (rule run_destructor)
  have "head_type (bytes h) (part cs base ts 0) = of_nat (object_t cs)" using 0 root(1) by (auto simp: heads_def)
  then have "object_exit cs h (part cs base ts 0) = Some h1"
    using h1(1) root class_entry_ok [OF cs root(2)] object_t_type_ok [OF cs] by (subst object_exit.simps) (simp add: Let_def)
  then show ?case using h1 by blast
next
  case (Suc j)
  have tj: "ts ! Suc j < nclasses cs" using lin(2) Suc.prems(3) nth_mem by blast
  obtain h1 V1 where h1: "(case pointer_destructor (class_table cs ! (ts ! Suc j)) of None \<Rightarrow> Some h | Some f \<Rightarrow> f h (part cs base ts (Suc j))) = Some h1"
      "room cs h1 V1 base z ts" "V1 \<subseteq> V" "heads cs (bytes h1) base ts c"
    using dtors Suc.prems tj by (rule run_destructor)
  obtain h2 V2 where "object_exit cs h1 (part cs base ts j) = Some h2" "room cs h2 V2 base z ts" "V2 \<subseteq> V1" "heads cs (bytes h2) base ts c"
    using Suc.IH [OF h1(2,4)] Suc.prems(3) by auto
  moreover have "of_nat (ts ! Suc j) \<noteq> (of_nat (object_t cs) :: u32)"
    using lineage_nth(2) [OF lin(1) Suc.prems(3)] class_eq [OF cs tj] cs by (simp add: class_ok_def)
  moreover have "head_type (bytes h) (part cs base ts (Suc j)) = of_nat (ts ! Suc j)" "head_type (bytes h1) (part cs base ts (Suc j)) = of_nat (ts ! Suc j)"
    using Suc.prems(2,3) h1(4) by (simp_all add: heads_def)
  ultimately have "object_exit cs h (part cs base ts (Suc j)) = Some h2"
    using h1(1) class_entry_ok [OF cs tj] object_t_type_ok [OF cs] get_parent_obj_ok [OF cs lin Suc.prems(3), of base]
    by (subst object_exit.simps) (simp add: Let_def)
  then show ?case using \<open>room cs h2 V2 base z ts\<close> \<open>V2 \<subseteq> V1\<close> h1(3) \<open>heads cs (bytes h2) base ts c\<close> by blast
qed

lemma delete_class_object_ok:
  assumes cs: "class_ok cs" and dtors: "destructors_ok cs" and lin: "lineage (parent_of cs) (object_t cs) ts" "set ts \<subseteq> {..<nclasses cs}"
    and full: "full_size (class_table cs ! last ts) = of_nat (width cs ts)" "width cs ts < 2 ^ 31"
    and rm: "room cs h V base z ts" and heads: "heads cs (bytes h) base ts c"
  shows "\<exists>h' V'. delete_class_object cs h (part cs base ts (length ts - 1)) = Some h' \<and> heap_ok h' V' \<and> V' \<subseteq> V - {(base, z)}"
proof -
  let ?k = "length ts - 1"
  let ?obj = "part cs base ts ?k"
  have ne: "ts \<noteq> []" using lin(1) by (rule lineage_nonempty)
  then have k: "?k < length ts" and last: "ts ! ?k = last ts" by (simp_all add: last_conv_nth)
  have t: "last ts < nclasses cs" using lin(2) ne last_in_set by blast
  obtain h1 V1 where h1: "object_exit cs h ?obj = Some h1" "room cs h1 V1 base z ts" "V1 \<subseteq> V" "heads cs (bytes h1) base ts c"
    using object_exit_ok [OF cs dtors lin rm heads k] by blast
  have "head_type (bytes h1) ?obj = of_nat (last ts)" using h1(4) k last unfolding heads_def by metis
  then have ty: "get_class_type cs (bytes h1) ?obj = Some (of_nat (last ts))" if "?obj \<noteq> 0"
    using that class_entry_ok [OF cs t] cs t by (simp add: get_class_type_def class_ok_def)
  have obj: "?obj \<noteq> 0" using unat_part(1) [OF rm k] by (metis add_is_0 unat_0 zero_neq_numeral)
  have "width cs ts = width cs (take ?k ts) + 8 + part_size cs (last ts)"
    using ne by (metis ab_semigroup_add_class.add_ac(1) add.right_neutral append_butlast_last_id butlast_conv_take width_simps)
  moreover have "(ucast (full_size (class_table cs ! last ts)) :: u64) = of_nat (width cs ts)"
    using full by (rule ucast_full_size)
  moreover have "(ucast (csize (class_table cs ! last ts)) :: u64) = of_nat (part_size cs (last ts))" by (simp add: part_size_def)
  ultimately have base: "?obj - ucast (full_size (class_table cs ! last ts)) + ucast (csize (class_table cs ! last ts)) = base"
    by (simp add: part_def)
  have "heap_ok h1 V1" "(base, z) \<in> V1" using h1(2) by (simp_all add: room_def)
  then obtain h2 where h2: "free h1 base = Some h2" "heap_ok h2 (V1 - {(base, z)})" using kh.dealloc_ok by blast
  have "delete_class_object cs h ?obj = Some h2"
    using h1(1) ty [OF obj] obj class_entry_ok [OF cs t] base h2(1) by (simp add: delete_class_object_def)
  then show ?thesis using h2(2) h1(3) by blast
qed

section \<open>The class table\<close>

text \<open>The table as the linker collects it: every class inherits from the root, in finitely many steps.\<close>

definition declared_parent :: "class_system \<Rightarrow> nat \<Rightarrow> nat" where
  "declared_parent cs t = pointer_parent_type (class_table cs ! t)"

definition declared_ok :: "class_system \<Rightarrow> bool" where
  "declared_ok cs \<longleftrightarrow> nclasses cs < 2 ^ 32 \<and> object_t cs < nclasses cs \<and> (\<forall>t < nclasses cs. declared_parent cs t < nclasses cs)
     \<and> (\<forall>t < nclasses cs. \<exists>ts. lineage (declared_parent cs) (object_t cs) ts \<and> last ts = t \<and> set ts \<subseteq> {..<nclasses cs} \<and> width cs ts < 2 ^ 31)"

text \<open>The table after \<open>k\<close> classes have been linked to their parents.\<close>

definition linked :: "class_system \<Rightarrow> nat \<Rightarrow> class_system" where
  "linked cs k = cs\<lparr>class_table := map (\<lambda>i. let e = class_table cs ! i in e\<lparr>ctype := of_nat i,
        child := filter (\<lambda>j. declared_parent cs j = i) [0..<k],
        parent_type := (if i < k then of_nat (declared_parent cs i) else parent_type e)\<rparr>) [0..<nclasses cs],
     class_types := map of_nat [0..<nclasses cs]\<rparr>"

lemma for_classes_append: "for_classes f (is @ js) cs = Option.bind (for_classes f is cs) (for_classes f js)"
proof (induction "is" arbitrary: cs)
  case (Cons i "is")
  then show ?case by (cases "f cs i") simp_all
qed simp

lemma number_classes_linked: "number_classes cs = linked cs 0"
proof -
  have "map (\<lambda>(i, e). e\<lparr>ctype := of_nat i, child := []\<rparr>) (enumerate 0 (class_table cs)) = class_table (linked cs 0)"
    by (rule nth_equalityI) (simp_all add: linked_def nth_enumerate_eq Let_def)
  then show ?thesis by (simp add: number_classes_def linked_def Let_def)
qed

lemma link_class_linked:
  assumes "declared_ok cs" "k < nclasses cs"
  shows "link_class (linked cs k) k = Some (linked cs (Suc k))"
proof -
  let ?p = "declared_parent cs k"
  have p: "?p < nclasses cs" "unat (of_nat ?p :: u32) = ?p"
    using assms by (auto simp: declared_ok_def intro!: unat_of_nat_32 dest: spec [of _ k])
  let ?e = "(class_table (linked cs k) ! k)\<lparr>parent_type := of_nat ?p\<rparr>"
  let ?T = "(class_table (linked cs k))[k := ?e]"
  have "?T[?p := (?T ! ?p)\<lparr>child := child (?T ! ?p) @ [k]\<rparr>] = class_table (linked cs (Suc k))"
  proof (rule nth_equalityI)
    fix i assume "i < length (?T[?p := (?T ! ?p)\<lparr>child := child (?T ! ?p) @ [k]\<rparr>])"
    then have i: "i < nclasses cs" by (simp add: linked_def)
    show "?T[?p := (?T ! ?p)\<lparr>child := child (?T ! ?p) @ [k]\<rparr>] ! i = class_table (linked cs (Suc k)) ! i"
      using i p(1) assms(2) by (cases "i = ?p"; cases "i = k") (auto simp: linked_def Let_def nth_list_update less_Suc_eq)
  qed (simp add: linked_def)
  moreover have "pointer_parent_type (class_table (linked cs k) ! k) = ?p" "nclasses (linked cs k) = nclasses cs"
    using assms(2) by (simp_all add: linked_def declared_parent_def Let_def)
  ultimately show ?thesis
    using p assms(2) by (simp add: link_class_def class_entry_def Let_def) (simp add: linked_def)
qed

lemma link_classes: "\<lbrakk>declared_ok cs; k \<le> nclasses cs\<rbrakk> \<Longrightarrow> for_classes link_class [0..<k] (number_classes cs) = Some (linked cs k)"
  by (induction k) (simp_all add: number_classes_linked for_classes_append link_class_linked)

lemma lineage_unique: "\<lbrakk>lineage parent root ts; lineage parent root us; last ts = last us\<rbrakk> \<Longrightarrow> ts = us"
proof (induction arbitrary: us rule: lineage.induct)
  case lineage_root
  from lineage_root(1) show ?case using lineage_root(2) by (cases rule: lineage.cases) auto
next
  case (lineage_child ts t)
  from lineage_child.prems(1) show ?case
  proof (cases rule: lineage.cases)
    case lineage_root
    then show ?thesis using lineage_child.prems(2) lineage_child.hyps(3) by simp
  next
    case child: (lineage_child vs u)
    then show ?thesis using lineage_child.prems(2) lineage_child.hyps(2) lineage_child.IH by simp
  qed
qed

lemma lineage_cong: "\<lbrakk>lineage parent root ts; \<And>t. t \<in> set ts \<Longrightarrow> parent' t = parent t\<rbrakk> \<Longrightarrow> lineage parent' root ts"
proof (induction rule: lineage.induct)
  case (lineage_child ts t)
  then show ?case using lineage.lineage_child [of parent' root ts t] by simp
qed (rule lineage.lineage_root)

text \<open>The table when the sizes of the objects of the classes \<open>S\<close> have been stored.\<close>

definition sized :: "class_system \<Rightarrow> (nat \<Rightarrow> nat) \<Rightarrow> nat set \<Rightarrow> class_system" where
  "sized cs W S = cs\<lparr>class_table := map (\<lambda>i. if i \<in> S then (class_table cs ! i)\<lparr>full_size := of_nat (W i)\<rparr> else class_table cs ! i) [0..<nclasses cs]\<rparr>"

lemma sized_empty: "sized cs W {} = cs"
  by (simp add: sized_def map_nth)

lemma sized_update:
  "i < nclasses cs \<Longrightarrow> (sized cs W S)\<lparr>class_table := (class_table (sized cs W S))[i := (class_table (sized cs W S) ! i)\<lparr>full_size := of_nat (W i)\<rparr>]\<rparr>
    = sized cs W (insert i S)"
proof -
  assume "i < nclasses cs"
  then have "(class_table (sized cs W S))[i := (class_table (sized cs W S) ! i)\<lparr>full_size := of_nat (W i)\<rparr>] = class_table (sized cs W (insert i S))"
    by (intro nth_equalityI) (auto simp: sized_def nth_list_update)
  then show ?thesis by (simp add: sized_def)
qed

lemma sized_entry:
  assumes "i < nclasses cs"
  shows "nclasses (sized cs W S) = nclasses cs" "ctype (class_table (sized cs W S) ! i) = ctype (class_table cs ! i)"
    "parent_type (class_table (sized cs W S) ! i) = parent_type (class_table cs ! i)" "csize (class_table (sized cs W S) ! i) = csize (class_table cs ! i)"
  using assms by (simp_all add: sized_def)

lemma set_class_table_info_sized:
  assumes n: "nclasses cs < 2 ^ 32" and root: "object_t_type cs = Some (of_nat (object_t cs))" "object_t cs < nclasses cs"
    and types: "\<And>t. t < nclasses cs \<Longrightarrow> ctype (class_table cs ! t) = of_nat t"
    and W: "\<And>us. lineage (parent_of cs) (object_t cs) us \<Longrightarrow> W (last us) = width cs us"
    and "lineage (parent_of cs) (object_t cs) ts" "set ts \<subseteq> {..<nclasses cs}"
  shows "set_class_table_info (sized cs W S) (last ts) = Some (sized cs W (S \<union> set ts), of_nat (width cs ts))"
  using assms(6,7)
proof (induction arbitrary: S rule: lineage.induct)
  case lineage_root
  let ?r = "object_t cs"
  have "W ?r = width cs [?r]" using W [OF lineage.lineage_root] by simp
  moreover have "(8 :: u32) + csize (class_table cs ! ?r) = of_nat (width cs [?r])" by (simp add: part_size_def)
  moreover have "object_t_type (sized cs W S) = Some (of_nat ?r)" using root(1) by (simp add: object_t_type_def sized_def)
  ultimately show ?case
    using root(2) types [OF root(2)] sized_entry [OF root(2), of W S] sized_update [OF root(2), of W S]
    by (subst set_class_table_info.simps) (simp add: Let_def)
next
  case (lineage_child ts t)
  have t: "t < nclasses cs" and ts: "set ts \<subseteq> {..<nclasses cs}" using lineage_child.prems by simp_all
  have lin: "lineage (parent_of cs) (object_t cs) (ts @ [t])" using lineage_child.hyps by (rule lineage.lineage_child)
  have "last ts \<in> set ts" using lineage_nonempty [OF lineage_child.hyps(1)] by simp
  then have ne: "t \<noteq> last ts" using lineage_distinct [OF lin] by auto
  have parent: "unat (parent_type (class_table cs ! t)) = last ts" using lineage_child.hyps(2) by (simp add: parent_of_def)
  have "of_nat t \<noteq> (of_nat (object_t cs) :: u32)"
  proof
    assume "of_nat t = (of_nat (object_t cs) :: u32)"
    then have "unat (of_nat t :: u32) = unat (of_nat (object_t cs) :: u32)" by simp
    then show False using t root(2) n lineage_child.hyps(3) by (simp add: unat_of_nat_32)
  qed
  moreover have "object_t_type (sized cs W S) = Some (of_nat (object_t cs))" using root(1) by (simp add: object_t_type_def sized_def)
  moreover have "set_class_table_info (sized cs W S) (last ts) = Some (sized cs W (S \<union> set ts), of_nat (width cs ts))"
    using lineage_child.IH [OF ts] .
  moreover have "of_nat (width cs ts) + 8 + csize (class_table cs ! t) = (of_nat (W t) :: u32)"
    using W [OF lin] by (simp add: part_size_def)
  ultimately show ?case
    using t types [OF t] sized_entry [OF t, of W] sized_update [OF t, of W "S \<union> set ts"] parent ne W [OF lin]
    by (subst set_class_table_info.simps) (simp add: Let_def add.assoc)
qed

lemma linked_entry:
  assumes "i < nclasses cs"
  shows "ctype (class_table (linked cs k) ! i) = of_nat i" "csize (class_table (linked cs k) ! i) = csize (class_table cs ! i)"
    "parent_type (class_table (linked cs (nclasses cs)) ! i) = of_nat (declared_parent cs i)"
    "child (class_table (linked cs k) ! i) = filter (\<lambda>j. declared_parent cs j = i) [0..<k]"
    "pointer_constructor (class_table (linked cs k) ! i) = pointer_constructor (class_table cs ! i)"
  using assms by (simp_all add: linked_def Let_def)

lemma linked_lineage:
  assumes decl: "declared_ok cs" and t: "t < nclasses cs"
  obtains ts where "lineage (parent_of (linked cs (nclasses cs))) (object_t cs) ts" "last ts = t" "set ts \<subseteq> {..<nclasses cs}"
    "width (linked cs (nclasses cs)) ts < 2 ^ 31"
proof -
  let ?cs = "linked cs (nclasses cs)"
  obtain ts where ts: "lineage (declared_parent cs) (object_t cs) ts" "last ts = t" "set ts \<subseteq> {..<nclasses cs}" "width cs ts < 2 ^ 31"
    using decl t by (auto simp: declared_ok_def)
  have "parent_of ?cs u = declared_parent cs u" if "u < nclasses cs" for u
    using decl that linked_entry(3) [OF that] by (auto simp: parent_of_def declared_ok_def intro!: unat_of_nat_32 dest: spec [of _ u])
  then have "lineage (parent_of ?cs) (object_t cs) ts" using ts(3) by (intro lineage_cong [OF ts(1)]) auto
  moreover have "width ?cs ts = width cs ts"
    unfolding width_def using ts(3) linked_entry(2) by (intro arg_cong [of _ _ sum_list] map_cong) (auto simp: part_size_def)
  ultimately show thesis using that ts by simp
qed

lemma class_ok_sized:
  assumes decl: "declared_ok cs" and S: "{..<nclasses cs} \<subseteq> S"
    and W: "\<And>us. lineage (parent_of (linked cs (nclasses cs))) (object_t cs) us \<Longrightarrow> W (last us) = width (linked cs (nclasses cs)) us"
  shows "class_ok (sized (linked cs (nclasses cs)) W S)"
proof -
  let ?cs = "linked cs (nclasses cs)"
  have n: "nclasses ?cs = nclasses cs" "object_t ?cs = object_t cs" by (simp_all add: linked_def)
  let ?cs' = "sized ?cs W S"
  have "\<exists>ts. lineage (parent_of ?cs') (object_t cs) ts \<and> last ts = t \<and> set ts \<subseteq> {..<nclasses cs}
      \<and> full_size (class_table ?cs' ! t) = of_nat (width ?cs' ts) \<and> width ?cs' ts < 2 ^ 31" if t: "t < nclasses cs" for t
  proof -
    obtain ts where ts: "lineage (parent_of ?cs) (object_t cs) ts" "last ts = t" "set ts \<subseteq> {..<nclasses cs}" "width ?cs ts < 2 ^ 31"
      using decl t by (rule linked_lineage)
    have "lineage (parent_of ?cs') (object_t cs) ts"
      using ts(3) sized_entry(3) [of _ ?cs W S] n by (intro lineage_cong [OF ts(1)]) (auto simp: parent_of_def)
    moreover have "width ?cs' ts = width ?cs ts"
      unfolding width_def using ts(3) sized_entry(4) [of _ ?cs W S] n by (intro arg_cong [of _ _ sum_list] map_cong) (auto simp: part_size_def)
    moreover have "full_size (class_table ?cs' ! t) = of_nat (width ?cs ts)" using t S n W [OF ts(1)] ts(2) by (auto simp: sized_def)
    ultimately show ?thesis using ts by auto
  qed
  moreover have "class_types ?cs' = map of_nat [0..<nclasses cs]" by (simp add: sized_def linked_def)
  ultimately show ?thesis
    using decl n linked_entry(1) sized_entry(1,2) [of _ ?cs W S] by (auto simp: class_ok_def declared_ok_def sized_def)
qed

text \<open>The loop that stores the sizes, where \<open>W\<close> gives the widths of the lineages.\<close>

lemma set_sizes_loop:
  assumes n: "nclasses cs < 2 ^ 32" and root: "object_t_type cs = Some (of_nat (object_t cs))" "object_t cs < nclasses cs"
    and types: "\<And>t. t < nclasses cs \<Longrightarrow> ctype (class_table cs ! t) = of_nat t"
    and W: "\<And>us. lineage (parent_of cs) (object_t cs) us \<Longrightarrow> W (last us) = width cs us"
    and lin: "\<And>t. t < nclasses cs \<Longrightarrow> \<exists>ts. lineage (parent_of cs) (object_t cs) ts \<and> last ts = t \<and> set ts \<subseteq> {..<nclasses cs}"
    and k: "k \<le> nclasses cs"
  shows "\<exists>S. for_classes (\<lambda>cs i. map_option fst (set_class_table_info cs i)) [0..<k] cs = Some (sized cs W S) \<and> {..<k} \<subseteq> S"
  using k
proof (induction k)
  case 0
  show ?case by (intro exI [of _ "{}"]) (simp add: sized_empty)
next
  case (Suc k)
  then obtain S where S: "for_classes (\<lambda>cs i. map_option fst (set_class_table_info cs i)) [0..<k] cs = Some (sized cs W S)" "{..<k} \<subseteq> S"
    by auto
  obtain ts where ts: "lineage (parent_of cs) (object_t cs) ts" "last ts = k" "set ts \<subseteq> {..<nclasses cs}"
    using lin [of k] Suc.prems by auto
  have "k \<in> set ts" using ts(2) lineage_nonempty [OF ts(1)] last_in_set by blast
  then have "{..<Suc k} \<subseteq> S \<union> set ts" using S(2) by (auto simp: less_Suc_eq)
  moreover have "set_class_table_info (sized cs W S) k = Some (sized cs W (S \<union> set ts), of_nat (width cs ts))"
    using set_class_table_info_sized [OF n root types W ts(1,3), of S] ts(2) by simp
  ultimately show ?case using S(1) by (intro exI [of _ "S \<union> set ts"]) (simp add: for_classes_append)
qed

lemma do_class_init_ok:
  assumes decl: "declared_ok cs"
  shows "\<exists>cs'. do_class_init cs = Some cs' \<and> class_ok cs' \<and> nclasses cs' = nclasses cs
    \<and> (\<forall>t < nclasses cs. csize (class_table cs' ! t) = csize (class_table cs ! t)
         \<and> pointer_constructor (class_table cs' ! t) = pointer_constructor (class_table cs ! t)
         \<and> child (class_table cs' ! t) = filter (\<lambda>j. declared_parent cs j = t) [0..<nclasses cs])"
proof -
  define cs1 where "cs1 = linked cs (nclasses cs)"
  have n: "nclasses cs1 = nclasses cs" "object_t cs1 = object_t cs" by (simp_all add: cs1_def linked_def)
  define W where "W t = width cs1 (SOME us. lineage (parent_of cs1) (object_t cs) us \<and> last us = t)" for t
  have W: "W (last us) = width cs1 us" if "lineage (parent_of cs1) (object_t cs) us" for us
  proof -
    have "(SOME vs. lineage (parent_of cs1) (object_t cs) vs \<and> last vs = last us) = us"
      using that lineage_unique by (intro some_equality) blast+
    then show ?thesis by (simp add: W_def)
  qed
  have root: "object_t_type cs1 = Some (of_nat (object_t cs1))" "object_t cs1 < nclasses cs1"
    using decl by (simp_all add: object_t_type_def cs1_def linked_def declared_ok_def)
  have small: "nclasses cs1 < 2 ^ 32" using decl n by (simp add: declared_ok_def)
  have types: "ctype (class_table cs1 ! t) = of_nat t" if "t < nclasses cs1" for t
    unfolding cs1_def using that n(1) by (intro linked_entry(1)) simp
  have lin: "\<exists>ts. lineage (parent_of cs1) (object_t cs1) ts \<and> last ts = t \<and> set ts \<subseteq> {..<nclasses cs1}" if "t < nclasses cs1" for t
    unfolding n using that n(1) unfolding cs1_def by (auto elim: linked_lineage [OF decl, of t])
  obtain S where S: "for_classes (\<lambda>cs i. map_option fst (set_class_table_info cs i)) [0..<nclasses cs] cs1 = Some (sized cs1 W S)"
      "{..<nclasses cs} \<subseteq> S"
    using set_sizes_loop [OF small root types _ lin order_refl, of W] W n by auto
  have "for_classes link_class [0..<nclasses cs] (number_classes cs) = Some cs1"
    unfolding cs1_def using decl order_refl by (rule link_classes)
  then have "do_class_init cs = Some (sized cs1 W S)" using S(1) by (simp add: do_class_init_def)
  moreover have "class_ok (sized cs1 W S)" unfolding cs1_def using decl S(2) W [unfolded cs1_def] by (rule class_ok_sized)
  moreover have "nclasses (sized cs1 W S) = nclasses cs" by (simp add: sized_def n(1))
  moreover have "csize (class_table (sized cs1 W S) ! t) = csize (class_table cs ! t)
      \<and> pointer_constructor (class_table (sized cs1 W S) ! t) = pointer_constructor (class_table cs ! t)
      \<and> child (class_table (sized cs1 W S) ! t) = filter (\<lambda>j. declared_parent cs j = t) [0..<nclasses cs]" if "t < nclasses cs" for t
    using that linked_entry(2,4,5) [OF that, of "nclasses cs"] by (simp add: sized_def n(1) cs1_def [symmetric])
  ultimately show ?thesis by blast
qed

section \<open>The properties\<close>

text \<open>C17: An object that \<^verbatim>\<open>new_class_object\<close> creates consists of one part for each class from \<^verbatim>\<open>object_t\<close> to its own. A
  cast of the object to one of these classes gives the part that is tagged with the class, from which the object is recovered by
  the opposite cast; a cast to any other class gives the null pointer. The objects that existed are unchanged.\<close>

theorem new_class_object_typed:
  assumes "declared_ok cs0" "do_class_init cs0 = Some cs" "constructors_ok cs" "heap_ok h V" "t < nclasses cs" "0 < part_size cs t"
  shows "new_class_object cs h (of_nat t) = Some (h, 0) \<or>
    (\<exists>h' V' obj ts. new_class_object cs h (of_nat t) = Some (h', obj) \<and> obj \<noteq> 0 \<and> heap_ok h' V' \<and> V \<subseteq> V'
      \<and> objects_same V 0 0 (bytes h) (bytes h') \<and> lineage (parent_of cs) (object_t cs) ts \<and> last ts = t
      \<and> (\<forall>u < nclasses cs. \<exists>p. class_cast cs (bytes h') (of_nat u) obj = Some p \<and> (p \<noteq> 0 \<longleftrightarrow> u \<in> set ts)
           \<and> (u \<in> set ts \<longrightarrow> head_type (bytes h') p = of_nat u \<and> class_cast cs (bytes h') (of_nat t) p = Some obj)))"
proof -
  have cs: "class_ok cs" using do_class_init_ok [OF assms(1)] assms(2) by auto
  obtain ts where lin: "lineage (parent_of cs) (object_t cs) ts" "last ts = t" "set ts \<subseteq> {..<nclasses cs}"
    "full_size (class_table cs ! t) = of_nat (width cs ts)" "width cs ts < 2 ^ 31"
    using cs assms(5) by (rule class_lineage)
  have dist: "distinct ts" and ne: "ts \<noteq> []" using lin(1) by (rule lineage_distinct, rule lineage_nonempty)
  from cs assms(3-6) lin show ?thesis
  proof (cases rule: new_class_object_ok)
    case none
    then show ?thesis by simp
  next
    case (some h' V' base z)
    let ?k = "length ts - 1"
    have k: "?k < length ts" "ts ! ?k = t" using ne lin(2) by (simp_all add: last_conv_nth)
    have part: "part cs base ts i \<noteq> 0" if "i < length ts" for i
      using unat_part(1) [OF some(3) that] by (metis add_is_0 unat_0 zero_neq_numeral)
    have heads: "heads cs (bytes h') base ts (last ts)" using some(5) lin(2) by simp
    note cast = class_cast_ok [OF cs lin(1,3) heads]
    have "\<exists>p. class_cast cs (bytes h') (of_nat u) (part cs base ts ?k) = Some p \<and> (p \<noteq> 0 \<longleftrightarrow> u \<in> set ts)
        \<and> (u \<in> set ts \<longrightarrow> head_type (bytes h') p = of_nat u \<and> class_cast cs (bytes h') (of_nat t) p = Some (part cs base ts ?k))"
      if u: "u < nclasses cs" for u
    proof (cases "u \<in> set ts")
      case True
      then obtain i where i: "i < length ts" "ts ! i = u" by (auto simp: in_set_conv_nth)
      have "place ts u = i" "place ts t = ?k" using place_nth [OF dist] i k by blast+
      moreover have "t \<in> set ts" using k nth_mem by blast
      ultimately show ?thesis
        using cast [OF u k(1) part [OF k(1)]] cast [OF assms(5) i(1) part [OF i(1)]] part [OF i(1)] True heads_at(1) [OF heads i(1)] i(2)
        by simp
    next
      case False
      then show ?thesis using cast [OF u k(1) part [OF k(1)]] by simp
    qed
    moreover have "heap_ok h' V'" using some(3) by (simp add: room_def)
    ultimately show ?thesis using some(1,4,6) lin(1,2) part [OF k(1)] by blast
  qed
qed

text \<open>Three classes; the constructor of \<^verbatim>\<open>process_t\<close> writes the first byte of its part.\<close>

definition example_class :: "string \<Rightarrow> u32 \<Rightarrow> nat \<Rightarrow> structor option \<Rightarrow> class_table_info" where
  "example_class name sz parent f = \<lparr>child = [], ctype = 0, csize = sz, full_size = 0, parent_type = 0, cname = name, init_obj = 0x80000000,
     pointer_parent_type = parent, pointer_constructor = f, pointer_destructor = None\<rparr>"

definition example_constructor :: structor where
  "example_constructor h obj = Some (h\<lparr>bytes := (bytes h)(obj := 1)\<rparr>)"

definition example_classes :: class_system where
  "example_classes = \<lparr>class_table = [example_class ''object_t'' 0 0 None, example_class ''kobject_t'' 4 0 None,
     example_class ''process_t'' 32 1 (Some example_constructor)], class_types = replicate 3 0xffffffff, object_t = 0\<rparr>"

lemma example_declared: "declared_ok example_classes"
proof -
  have n: "nclasses example_classes = 3" "object_t example_classes = 0" by (simp_all add: example_classes_def)
  have p: "declared_parent example_classes 1 = 0" "declared_parent example_classes 2 = 1" "declared_parent example_classes 0 = 0"
    by (simp_all add: declared_parent_def example_classes_def example_class_def)
  have 0: "lineage (declared_parent example_classes) 0 [0]" by (rule lineage.lineage_root)
  have 1: "lineage (declared_parent example_classes) 0 [0, 1]" using lineage.lineage_child [OF 0, of 1] p by simp
  have 2: "lineage (declared_parent example_classes) 0 [0, 1, 2]" using lineage.lineage_child [OF 1, of 2] p by simp
  have w: "width example_classes [0] < 2 ^ 31" "width example_classes [0, 1] < 2 ^ 31" "width example_classes [0, 1, 2] < 2 ^ 31"
    by (simp_all add: part_size_def example_classes_def example_class_def)
  have three: "t = 0 \<or> t = 1 \<or> t = 2" if "t < 3" for t :: nat using that by linarith
  have "\<exists>ts. lineage (declared_parent example_classes) 0 ts \<and> last ts = t \<and> set ts \<subseteq> {..<3} \<and> width example_classes ts < 2 ^ 31"
    if t: "t < 3" for t
    using three [OF t]
  proof (elim disjE)
    show ?thesis if "t = 0" using 0 w that by (intro exI [of _ "[0]"]) simp
    show ?thesis if "t = 1" using 1 w that by (intro exI [of _ "[0, 1]"]) simp
    show ?thesis if "t = 2" using 2 w that by (intro exI [of _ "[0, 1, 2]"]) simp
  qed
  moreover have "declared_parent example_classes t < 3" if "t < 3" for t using three [OF that] p by auto
  ultimately show ?thesis unfolding declared_ok_def n by simp
qed

lemma example_initialised:
  obtains cs where "do_class_init example_classes = Some cs" "constructors_ok cs" "nclasses cs = 3" "part_size cs 2 = 32"
proof -
  obtain cs where cs: "do_class_init example_classes = Some cs" "nclasses cs = 3"
      and same: "\<forall>t < 3. csize (class_table cs ! t) = csize (class_table example_classes ! t)
        \<and> pointer_constructor (class_table cs ! t) = pointer_constructor (class_table example_classes ! t)"
    using do_class_init_ok [OF example_declared] by (auto simp: example_classes_def)
  have sz: "part_size cs 2 = 32" using same by (simp add: part_size_def example_classes_def example_class_def)
  have ctor: "pointer_constructor (class_table cs ! t) = (if t = 2 then Some example_constructor else None)" if "t < 3" for t
  proof -
    have "t = 0 \<or> t = 1 \<or> t = 2" using that by linarith
    then show ?thesis using same that by (auto simp: example_classes_def example_class_def)
  qed
  have "constructor_ok example_constructor 32"
  proof -
    have "objects_same V (unat obj) (unat obj + 32) m (m(obj := 1))" for V obj m
      by (auto simp: objects_same_def)
    then show ?thesis unfolding constructor_ok_def example_constructor_def by force
  qed
  then have "constructors_ok cs" using ctor sz by (simp add: constructors_ok_def cs(2))
  then show thesis using that cs sz by blast
qed

theorem new_class_object_typed_witness:
  "\<exists>cs. do_class_init example_classes = Some cs \<and> (new_class_object cs small_heap (of_nat 2) = Some (small_heap, 0) \<or>
    (\<exists>h' obj p. new_class_object cs small_heap (of_nat 2) = Some (h', obj) \<and> obj \<noteq> 0
      \<and> class_cast cs (bytes h') (of_nat 2) obj = Some p \<and> p \<noteq> 0 \<and> head_type (bytes h') p = of_nat 2 \<and> class_cast cs (bytes h') (of_nat 2) p = Some obj))"
proof -
  obtain cs where cs: "do_class_init example_classes = Some cs" "constructors_ok cs" "nclasses cs = 3" "part_size cs 2 = 32"
    by (rule example_initialised)
  have 2: "2 < nclasses cs" "0 < part_size cs 2" by (simp_all add: cs)
  have "2 \<in> set ts" if "last ts = 2" "lineage (parent_of cs) (object_t cs) ts" for ts
    using that lineage_nonempty last_in_set by metis
  then show ?thesis
    using new_class_object_typed [OF example_declared cs(1,2) small_heap_ok 2] cs(1) 2(1) by blast
qed

end
