(* ===== verification/Vmspace.thy ===== *)
theory Vmspace
  imports Page_Table Radix
begin

text \<open>
  Processes with their slots (\<^verbatim>\<open>core/process.c\<close>), address spaces (\<^verbatim>\<open>core/vmspace.c\<close>) and memory objects (\<^verbatim>\<open>core/vmo.c\<close>). The
  blocks of kernel objects and regions come from the kernel heap; their contents are maps from addresses to records. A pointer
  to any part of an object is written as the pointer to the part of its class. Memory of the user is a separate memory, which the kernel only accesses in \<^verbatim>\<open>copy_from_user\<close> and \<^verbatim>\<open>copy_to_user\<close>.
\<close>

section \<open>Definitions\<close>

abbreviation (input) MAX_SLOTS_SIZE :: u32 where "MAX_SLOTS_SIZE \<equiv> 64"
abbreviation (input) VMSPACE_OBJ_ID :: u32 where "VMSPACE_OBJ_ID \<equiv> 1"
abbreviation (input) VMO_DATA :: u32 where "VMO_DATA \<equiv> 1"
abbreviation (input) VMO_DEVICE :: u32 where "VMO_DEVICE \<equiv> 5"
abbreviation (input) PROT_READ :: u64 where "PROT_READ \<equiv> 1"
abbreviation (input) PROT_WRITE :: u64 where "PROT_WRITE \<equiv> 2"
abbreviation (input) PROT_EXEC :: u64 where "PROT_EXEC \<equiv> 4"

record process_t =
  slots_size :: u32
  slots :: "u64 list option"

record vmregion =
  r_start :: u64
  r_size :: u64
  r_perm :: u64
  r_vmo :: u64

record vmspace_t =
  vmr_list :: "u64 list"
  pgtbl :: u64
  user_current_heap :: u64

record vmobject_t =
  o_radix :: "radix option"
  o_start :: u64
  o_size :: u64
  o_type :: u32

datatype kobject = Process process_t | Vmspace vmspace_t | Vmo vmobject_t

text \<open>The pointer \<open>process_self\<close> is the process of the current thread.\<close>

record kernel_t =
  kheap :: kernel_heap
  regions :: "u64 \<rightharpoonup> vmregion"
  kobjects :: "u64 \<rightharpoonup> kobject"
  process_self :: u64

definition process_at :: "kernel_t \<Rightarrow> u64 \<Rightarrow> process_t option" where
  "process_at st p = (case kobjects st p of Some (Process x) \<Rightarrow> Some x | _ \<Rightarrow> None)"

definition vmspace_at :: "kernel_t \<Rightarrow> u64 \<Rightarrow> vmspace_t option" where
  "vmspace_at st p = (case kobjects st p of Some (Vmspace x) \<Rightarrow> Some x | _ \<Rightarrow> None)"

definition vmo_at :: "kernel_t \<Rightarrow> u64 \<Rightarrow> vmobject_t option" where
  "vmo_at st p = (case kobjects st p of Some (Vmo x) \<Rightarrow> Some x | _ \<Rightarrow> None)"

definition set_kobject :: "kernel_t \<Rightarrow> u64 \<Rightarrow> kobject \<Rightarrow> kernel_t" where
  "set_kobject st p x = st\<lparr>kobjects := (kobjects st)(p \<mapsto> x)\<rparr>"

text \<open>A checked cast keeps the pointer or gives the null pointer.\<close>

definition cast_to :: "kernel_t \<Rightarrow> (kobject \<Rightarrow> bool) \<Rightarrow> u64 \<Rightarrow> u64 option" where
  "cast_to st c p = (if p = 0 then Some 0 else do {
     x \<leftarrow> kobjects st p;
     Some (if c x then p else 0)
   })"

fun is_process :: "kobject \<Rightarrow> bool" where "is_process (Process _) = True" | "is_process _ = False"
fun is_vmspace :: "kobject \<Rightarrow> bool" where "is_vmspace (Vmspace _) = True" | "is_vmspace _ = False"
fun is_vmo :: "kobject \<Rightarrow> bool" where "is_vmo (Vmo _) = True" | "is_vmo _ = False"

subsection \<open>Slots\<close>

definition slot_alloc :: "kernel_t \<Rightarrow> u64 \<Rightarrow> int option" where
  "slot_alloc st p = do {
     pr \<leftarrow> process_at st p;
     ss \<leftarrow> slots pr;
     assert_that (unat (slots_size pr) \<le> length ss);
     Some (case filter (\<lambda>i. ss ! i = 0) [0..<unat (slots_size pr)] of [] \<Rightarrow> -1 | i # _ \<Rightarrow> int i)
   }"

definition slot_get :: "kernel_t \<Rightarrow> u64 \<Rightarrow> u32 \<Rightarrow> u64 option" where
  "slot_get st p slot = do {
     pr \<leftarrow> process_at st p;
     if slot < slots_size pr then do {
       ss \<leftarrow> slots pr;
       arr_get ss (unat slot)
     }
     else Some 0
   }"

definition slot_install :: "kernel_t \<Rightarrow> u64 \<Rightarrow> nat \<Rightarrow> u64 \<Rightarrow> kernel_t option" where
  "slot_install st p slot obj = do {
     assert_that (p \<noteq> 0 \<and> obj \<noteq> 0);
     pr \<leftarrow> process_at st p;
     ss \<leftarrow> slots pr;
     assert_that (slot < length ss);
     Some (set_kobject st p (Process (pr\<lparr>slots := Some (ss[slot := obj])\<rparr>)))
   }"

definition slot_alloc_install :: "kernel_t \<Rightarrow> u64 \<Rightarrow> u64 \<Rightarrow> (kernel_t \<times> int) option" where
  "slot_alloc_install st p obj = do {
     assert_that (p \<noteq> 0 \<and> obj \<noteq> 0);
     slot \<leftarrow> slot_alloc st p;
     if slot < 0 then Some (st, -1)
     else do {
       st \<leftarrow> slot_install st p (nat slot) obj;
       Some (st, slot)
     }
   }"

definition slot_copy :: "kernel_t \<Rightarrow> u64 \<Rightarrow> u64 \<Rightarrow> u32 \<Rightarrow> (kernel_t \<times> int) option" where
  "slot_copy st src dest slot = do {
     obj \<leftarrow> slot_get st src slot;
     slot_alloc_install st dest obj
   }"

subsection \<open>Creation of processes and address spaces\<close>

text \<open>An object derived from \<^verbatim>\<open>kobject_t\<close> starts 28 bytes into its block, behind the headers of three classes and the
  reference count.\<close>

definition new_block :: "kernel_heap \<Rightarrow> u64 \<Rightarrow> (kernel_heap \<times> u64) option" where
  "new_block h sz = do {
     (h, base) \<leftarrow> calloc h 1 (28 + sz);
     Some (h, if base = 0 then 0 else base + 28)
   }"

definition new_process :: "kernel_t \<Rightarrow> (kernel_t \<times> u64) option" where
  "new_process st = do {
     (h, p) \<leftarrow> new_block (kheap st) 32;
     if p = 0 then Some (st\<lparr>kheap := h\<rparr>, 0)
     else do {
       (h, s) \<leftarrow> calloc h 1 (ucast MAX_SLOTS_SIZE * 8);
       let pr = \<lparr>slots_size = MAX_SLOTS_SIZE, slots = (if s = 0 then None else Some (replicate (unat MAX_SLOTS_SIZE) 0))\<rparr>;
       Some (set_kobject (st\<lparr>kheap := h\<rparr>) p (Process pr), p)
     }
   }"

definition new_vmspace :: "kernel_t \<Rightarrow> u64 \<Rightarrow> (kernel_t \<times> u64) option" where
  "new_vmspace st etext = do {
     (h, p) \<leftarrow> new_block (kheap st) 40;
     if p = 0 then Some (st\<lparr>kheap := h\<rparr>, 0)
     else do {
       (h, pt) \<leftarrow> pagetable_create h;
       h \<leftarrow> map_kernel_page h pt etext;
       Some (set_kobject (st\<lparr>kheap := h\<rparr>) p (Vmspace \<lparr>vmr_list = [], pgtbl = pt, user_current_heap = 0\<rparr>), p)
     }
   }"

definition sys_process_create :: "kernel_t \<Rightarrow> u64 \<Rightarrow> (kernel_t \<times> int) option" where
  "sys_process_create st etext = do {
     (st, p) \<leftarrow> new_process st;
     (st, vs) \<leftarrow> new_vmspace st etext;
     (st, slot) \<leftarrow> slot_alloc_install st (process_self st) p;
     (st, _) \<leftarrow> slot_alloc_install st p p;
     (st, _) \<leftarrow> slot_alloc_install st p vs;
     Some (st, slot)
   }"

subsection \<open>Regions\<close>

definition vmregion_alloc :: "kernel_t \<Rightarrow> vmregion \<Rightarrow> (kernel_t \<times> u64) option" where
  "vmregion_alloc st vmr = do {
     (h, p) \<leftarrow> malloc (kheap st) 48;
     Some (if p = 0 then (st\<lparr>kheap := h\<rparr>, 0) else (st\<lparr>kheap := h, regions := (regions st)(p \<mapsto> vmr)\<rparr>, p))
   }"

definition vmregion_free :: "kernel_t \<Rightarrow> u64 \<Rightarrow> kernel_t option" where
  "vmregion_free st p = do {
     h \<leftarrow> free (kheap st) p;
     Some (st\<lparr>kheap := h, regions := (regions st)(p := None)\<rparr>)
   }"

text \<open>A walk along the list reads every region up to the one it stops at.\<close>

fun find_region :: "(u64 \<rightharpoonup> vmregion) \<Rightarrow> (vmregion \<Rightarrow> bool) \<Rightarrow> u64 list \<Rightarrow> u64 option" where
  "find_region R c [] = Some 0"
| "find_region R c (p # ps) = do {
     r \<leftarrow> R p;
     if c r then Some p else find_region R c ps
   }"

definition region_hit :: "u64 \<Rightarrow> u64 \<Rightarrow> vmregion \<Rightarrow> bool" where
  "region_hit new_start new_end r \<longleftrightarrow>
     (let start = r_start r; stop = start + r_size r in
      new_start \<ge> start \<and> new_start < stop \<or> new_end \<ge> start \<and> new_end < stop)"

definition check_vmr_intersect :: "kernel_t \<Rightarrow> vmspace_t \<Rightarrow> vmregion \<Rightarrow> bool option" where
  "check_vmr_intersect st vs vmr =
     map_option (\<lambda>p. p \<noteq> 0) (find_region (regions st) (region_hit (r_start vmr) (r_start vmr + r_size vmr - 1)) (vmr_list vs))"

fun is_vmr_in_vmspace :: "(u64 \<rightharpoonup> vmregion) \<Rightarrow> u64 list \<Rightarrow> u64 \<Rightarrow> bool option" where
  "is_vmr_in_vmspace R [] p = Some False"
| "is_vmr_in_vmspace R (q # qs) p = (if q = p then Some True else do {
     _ \<leftarrow> R q;
     is_vmr_in_vmspace R qs p
   })"

definition add_vmr_to_vmspace :: "kernel_t \<Rightarrow> u64 \<Rightarrow> u64 \<Rightarrow> (kernel_t \<times> bool) option" where
  "add_vmr_to_vmspace st vsp p = do {
     vs \<leftarrow> vmspace_at st vsp;
     vmr \<leftarrow> regions st p;
     hit \<leftarrow> check_vmr_intersect st vs vmr;
     Some (if hit then (st, False) else (set_kobject st vsp (Vmspace (vs\<lparr>vmr_list := p # vmr_list vs\<rparr>)), True))
   }"

text \<open>
  The links of a region that is in no list are not initialised, so the \<^verbatim>\<open>list_del\<close> of such a region, the only case in which the code
  unlinks anything, is a fault.
\<close>

definition del_vmr_from_vmspace :: "kernel_t \<Rightarrow> u64 \<Rightarrow> u64 \<Rightarrow> kernel_t option" where
  "del_vmr_from_vmspace st vsp p = do {
     vs \<leftarrow> vmspace_at st vsp;
     found \<leftarrow> is_vmr_in_vmspace (regions st) (vmr_list vs) p;
     assert_that found;
     vmregion_free st p
   }"

definition find_vmr_for_va :: "kernel_t \<Rightarrow> u64 \<Rightarrow> u64 \<Rightarrow> u64 option" where
  "find_vmr_for_va st vsp addr = do {
     vs \<leftarrow> vmspace_at st vsp;
     find_region (regions st) (\<lambda>r. addr \<ge> r_start r \<and> addr < r_start r + r_size r) (vmr_list vs)
   }"

definition fill_page_table :: "kernel_t \<Rightarrow> u64 \<Rightarrow> vmregion \<Rightarrow> (kernel_t \<times> int) option" where
  "fill_page_table st vsp vmr = do {
     vs \<leftarrow> vmspace_at st vsp;
     ob \<leftarrow> vmo_at st (r_vmo vmr);
     (h, r) \<leftarrow> map_range_in_pgtbl (kheap st) (pgtbl vs) (r_start vmr) (o_start ob) (o_size ob) (ucast (r_perm vmr));
     Some (st\<lparr>kheap := h\<rparr>, r)
   }"

text \<open>The result of \<^verbatim>\<open>add_vmr_to_vmspace\<close> is never negative.\<close>

definition arch_vmspace_map_range :: "kernel_t \<Rightarrow> u64 \<Rightarrow> u64 \<Rightarrow> u64 \<Rightarrow> u64 \<Rightarrow> u64 \<Rightarrow> (kernel_t \<times> bool) option" where
  "arch_vmspace_map_range st vsp va len flags vmo = do {
     let va = PGROUNDUP va;
     let len = (if len < PGSIZE then PGSIZE else len);
     let vmr = \<lparr>r_start = va, r_size = len, r_perm = flags, r_vmo = vmo\<rparr>;
     (st, p) \<leftarrow> vmregion_alloc st vmr;
     if p = 0 then Some (st, False)
     else do {
       (st, ret) \<leftarrow> add_vmr_to_vmspace st vsp p;
       if (if ret then 1 else 0 :: int) < 0 then do {
         st \<leftarrow> vmregion_free st p;
         Some (st, ret)
       }
       else do {
         ob \<leftarrow> vmo_at st vmo;
         if o_type ob = VMO_DATA then do {
           (st, _) \<leftarrow> fill_page_table st vsp vmr;
           Some (st, True)
         }
         else Some (st, True)
       }
     }
   }"

definition prot_flags :: "u64 \<Rightarrow> u64" where
  "prot_flags prot = (if prot OR PROT_EXEC \<noteq> 0 then PTE_X else 0) OR (if prot OR PROT_WRITE \<noteq> 0 then PTE_W else 0)
     OR (if prot OR PROT_READ \<noteq> 0 then PTE_R else 0)"

definition vmspace_map_range_user :: "kernel_t \<Rightarrow> u64 \<Rightarrow> u64 \<Rightarrow> u64 \<Rightarrow> u64 \<Rightarrow> u64 \<Rightarrow> u64 \<Rightarrow> (kernel_t \<times> bool) option" where
  "vmspace_map_range_user st vsp va len prot flags vmo = do {
     assert_that (vsp \<noteq> 0 \<and> len > 0);
     arch_vmspace_map_range st vsp va len (prot_flags prot OR PTE_U) vmo
   }"

definition vmspace_map_range_kernel :: "kernel_t \<Rightarrow> u64 \<Rightarrow> u64 \<Rightarrow> u64 \<Rightarrow> u64 \<Rightarrow> u64 \<Rightarrow> u64 \<Rightarrow> (kernel_t \<times> bool) option" where
  "vmspace_map_range_kernel st vsp va len prot flags vmo = do {
     assert_that (vsp \<noteq> 0 \<and> len > 0);
     arch_vmspace_map_range st vsp va len (prot_flags prot) vmo
   }"

definition vmspace_unmap_range :: "kernel_t \<Rightarrow> u64 \<Rightarrow> u64 \<Rightarrow> u64 \<Rightarrow> (kernel_t \<times> int) option" where
  "vmspace_unmap_range st vsp va len = do {
     assert_that (vsp \<noteq> 0 \<and> len > 0);
     p \<leftarrow> find_vmr_for_va st vsp va;
     if p = 0 then Some (st, -1)
     else do {
       vmr \<leftarrow> regions st p;
       assert_that (\<not> (va \<noteq> r_start vmr \<and> len \<noteq> r_size vmr));
       st \<leftarrow> del_vmr_from_vmspace st vsp p;
       vs \<leftarrow> vmspace_at st vsp;
       (h, _) \<leftarrow> unmap_range_in_pgtbl (kheap st) (pgtbl vs) va len;
       Some (st\<lparr>kheap := h\<rparr>, 0)
     }
   }"

subsection \<open>Memory objects\<close>

definition vmo_init :: "kernel_t \<Rightarrow> u64 \<Rightarrow> u32 \<Rightarrow> u64 \<Rightarrow> u64 \<Rightarrow> kernel_t option" where
  "vmo_init st p type len paddr = do {
     ob \<leftarrow> vmo_at st p;
     let len = PGROUNDUP len;
     let ob = ob\<lparr>o_size := len, o_type := type\<rparr>;
     if type = VMO_DATA then do {
       (h, a) \<leftarrow> malloc (kheap st) len;
       Some (set_kobject (st\<lparr>kheap := h\<rparr>) p (Vmo (ob\<lparr>o_start := a\<rparr>)))
     }
     else if type = VMO_DEVICE then Some (set_kobject st p (Vmo (ob\<lparr>o_start := paddr\<rparr>)))
     else do {
       (h, r) \<leftarrow> new_radix (kheap st);
       _ \<leftarrow> init_radix r;
       Some (set_kobject (st\<lparr>kheap := h\<rparr>) p (Vmo (ob\<lparr>o_radix := r\<rparr>)))
     }
   }"

definition new_vmobject :: "kernel_t \<Rightarrow> (kernel_t \<times> u64) option" where
  "new_vmobject st = do {
     (h, p) \<leftarrow> new_block (kheap st) 32;
     Some (if p = 0 then st\<lparr>kheap := h\<rparr>
           else set_kobject (st\<lparr>kheap := h\<rparr>) p (Vmo \<lparr>o_radix = None, o_start = 0, o_size = 0, o_type = 0\<rparr>), p)
   }"

definition delete_vmobject :: "kernel_t \<Rightarrow> u64 \<Rightarrow> kernel_t option" where
  "delete_vmobject st p = do {
     h \<leftarrow> free (kheap st) (p - 28);
     Some (st\<lparr>kheap := h, kobjects := (kobjects st)(p := None)\<rparr>)
   }"

definition vmo_create :: "kernel_t \<Rightarrow> u64 \<Rightarrow> u64 \<Rightarrow> (kernel_t \<times> u64) option" where
  "vmo_create st sz type = do {
     (st, p) \<leftarrow> new_vmobject st;
     if p = 0 then Some (st, 0)
     else do {
       st \<leftarrow> vmo_init st p (ucast type) sz 0;
       Some (st, p)
     }
   }"

definition sys_vmo_create :: "kernel_t \<Rightarrow> u64 \<Rightarrow> u64 \<Rightarrow> (kernel_t \<times> int) option" where
  "sys_vmo_create st sz type = do {
     (st, p) \<leftarrow> new_vmobject st;
     if p = 0 then Some (st, -1)
     else do {
       st \<leftarrow> vmo_init st p (ucast type) sz 0;
       (st, slot) \<leftarrow> slot_alloc_install st (process_self st) p;
       if slot = -1 then do {
         st \<leftarrow> delete_vmobject st p;
         Some (st, -1)
       }
       else Some (st, slot)
     }
   }"

text \<open>
  Copying between two memories; \<^verbatim>\<open>memcpy\<close> takes a 32-bit count. The memory of the user is a memory of its own, all of it accessible: the
  translation of user addresses and pages shared with a memory object are left out.
\<close>

definition copy_bytes :: "memory \<Rightarrow> u64 \<Rightarrow> memory \<Rightarrow> u64 \<Rightarrow> u64 \<Rightarrow> memory" where
  "copy_bytes dm dst sm src n = (\<lambda>x. if x - dst < ucast (ucast n :: u32) then sm (src + (x - dst)) else dm x)"

text \<open>The checks of \<^verbatim>\<open>read_write_vmo\<close>: the object, or nothing when they fail.\<close>

definition check_vmo :: "kernel_t \<Rightarrow> u64 \<Rightarrow> u64 \<Rightarrow> u64 \<Rightarrow> vmobject_t option option" where
  "check_vmo st slot offset sz = do {
     p \<leftarrow> slot_get st (process_self st) (ucast slot);
     p \<leftarrow> cast_to st is_vmo p;
     if p = 0 then Some None
     else do {
       ob \<leftarrow> vmo_at st p;
       if o_type ob \<noteq> VMO_DATA then Some None
       else if offset + sz < offset \<or> offset + sz > o_size ob then Some None
       else Some (Some ob)
     }
   }"

definition sys_vmo_write :: "kernel_t \<Rightarrow> memory \<Rightarrow> u64 \<Rightarrow> u64 \<Rightarrow> u64 \<Rightarrow> u64 \<Rightarrow> (kernel_t \<times> int) option" where
  "sys_vmo_write st user slot offset user_ptr len = do {
     ob \<leftarrow> check_vmo st slot offset len;
     case ob of
       None \<Rightarrow> Some (st, -1)
     | Some ob \<Rightarrow> Some (st\<lparr>kheap := (kheap st)\<lparr>bytes := copy_bytes (bytes (kheap st)) (o_start ob + offset) user user_ptr len\<rparr>\<rparr>, 0)
   }"

definition sys_vmo_read :: "kernel_t \<Rightarrow> memory \<Rightarrow> u64 \<Rightarrow> u64 \<Rightarrow> u64 \<Rightarrow> u64 \<Rightarrow> (memory \<times> int) option" where
  "sys_vmo_read st user slot offset user_ptr len = do {
     ob \<leftarrow> check_vmo st slot offset len;
     case ob of
       None \<Rightarrow> Some (user, -1)
     | Some ob \<Rightarrow> Some (copy_bytes user user_ptr (bytes (kheap st)) (o_start ob + offset) len, 0)
   }"

text \<open>The truth value of \<^verbatim>\<open>vmspace_map_range_user\<close> is compared with 0 as if it were an error code.\<close>

definition sys_vmo_map :: "kernel_t \<Rightarrow> u64 \<Rightarrow> u64 \<Rightarrow> u64 \<Rightarrow> u64 \<Rightarrow> u64 \<Rightarrow> (kernel_t \<times> int) option" where
  "sys_vmo_map st target_process_slot slot addr prot flags = do {
     vmo \<leftarrow> slot_get st (process_self st) (ucast slot);
     vmo \<leftarrow> cast_to st is_vmo vmo;
     if vmo = 0 then Some (st, -1)
     else do {
       target \<leftarrow> slot_get st (process_self st) (ucast target_process_slot);
       target \<leftarrow> cast_to st is_process target;
       if target = 0 then Some (st, -1)
       else do {
         vsp \<leftarrow> slot_get st target VMSPACE_OBJ_ID;
         vsp \<leftarrow> cast_to st is_vmspace vsp;
         ob \<leftarrow> vmo_at st vmo;
         (st, r) \<leftarrow> vmspace_map_range_user st vsp addr (o_size ob) prot flags vmo;
         if r then Some (st, -1)
         else if target \<noteq> process_self st then slot_copy st (process_self st) target (ucast slot)
         else Some (st, 0)
       }
     }
   }"

section \<open>Slots\<close>

lemma kobject_at_set [simp]:
  "kobjects (set_kobject st p x) = (kobjects st)(p \<mapsto> x)" "kheap (set_kobject st p x) = kheap st" "regions (set_kobject st p x) = regions st"
  "process_self (set_kobject st p x) = process_self st"
  by (simp_all add: set_kobject_def)

lemma process_at_Some: "process_at st p = Some x \<longleftrightarrow> kobjects st p = Some (Process x)"
  by (auto simp: process_at_def split: option.splits kobject.splits)

lemma vmspace_at_Some: "vmspace_at st p = Some x \<longleftrightarrow> kobjects st p = Some (Vmspace x)"
  by (auto simp: vmspace_at_def split: option.splits kobject.splits)

lemma vmo_at_Some: "vmo_at st p = Some x \<longleftrightarrow> kobjects st p = Some (Vmo x)"
  by (auto simp: vmo_at_def split: option.splits kobject.splits)

text \<open>The slots of a process that has been created completely.\<close>

definition slots_of :: "kernel_t \<Rightarrow> u64 \<Rightarrow> u64 list option" where
  "slots_of st p = Option.bind (process_at st p) (\<lambda>pr. if slots_size pr = MAX_SLOTS_SIZE \<and> map_option length (slots pr) = Some 64 then slots pr else None)"

lemma slots_of_Some:
  "slots_of st p = Some ss \<longleftrightarrow> (\<exists>pr. kobjects st p = Some (Process pr) \<and> slots_size pr = MAX_SLOTS_SIZE \<and> slots pr = Some ss \<and> length ss = 64)"
  by (auto simp: slots_of_def process_at_def split: option.splits kobject.splits)

lemma slot_get_eq: "slots_of st p = Some ss \<Longrightarrow> slot_get st p i = Some (if i < 64 then ss ! unat i else 0)"
  by (auto simp: slots_of_Some slot_get_def process_at_Some [THEN iffD2] word_less_nat_alt)

lemma slot_alloc_eq:
  "slots_of st p = Some ss \<Longrightarrow> slot_alloc st p = Some (case filter (\<lambda>i. ss ! i = 0) [0..<64] of [] \<Rightarrow> -1 | i # _ \<Rightarrow> int i)"
  by (auto simp: slots_of_Some slot_alloc_def process_at_Some [THEN iffD2])

text \<open>The first element of a filtered range is the least one.\<close>

lemma filter_upt_Cons:
  assumes "filter P [0..<n] = i # is"
  shows "P i \<and> i < n \<and> (\<forall>j < i. \<not> P j)"
proof -
  have "i \<in> set (filter P [0..<n])" using assms by simp
  then have i: "P i" "i < n" by auto
  have "sorted (filter P [0..<n])" by (simp add: sorted_wrt_filter)
  then have "\<forall>j \<in> set is. i \<le> j" using assms by simp
  moreover have "j = i \<or> j \<in> set is" if "P j" "j < n" for j
  proof -
    have "j \<in> set (filter P [0..<n])" using that by simp
    then show ?thesis using assms by simp
  qed
  ultimately have "i \<le> j" if "P j" "j < n" for j using that by blast
  then show ?thesis using i by (meson leD less_trans)
qed

lemma slot_alloc_install_ok:
  assumes ss: "slots_of st p = Some ss" and nz: "p \<noteq> 0" "obj \<noteq> 0"
  shows "if 0 \<in> set ss
    then \<exists>i st'. slot_alloc_install st p obj = Some (st', int i) \<and> i < 64 \<and> ss ! i = 0 \<and> (\<forall>j < i. ss ! j \<noteq> 0)
      \<and> slots_of st' p = Some (ss[i := obj]) \<and> (\<forall>q. q \<noteq> p \<longrightarrow> kobjects st' q = kobjects st q) \<and> kheap st' = kheap st \<and> regions st' = regions st
    else slot_alloc_install st p obj = Some (st, -1)"
proof (cases "filter (\<lambda>i. ss ! i = 0) [0..<64]")
  case Nil
  have len: "length ss = 64" using ss by (auto simp: slots_of_Some)
  then have "0 \<notin> set ss" using Nil by (auto simp: filter_empty_conv in_set_conv_nth)
  then show ?thesis using Nil nz slot_alloc_eq [OF ss] by (simp add: slot_alloc_install_def)
next
  case (Cons i "is")
  note i = filter_upt_Cons [OF Cons]
  obtain pr where pr: "kobjects st p = Some (Process pr)" "slots_size pr = 64" "slots pr = Some ss" "length ss = 64"
    using ss by (auto simp: slots_of_Some)
  have "0 \<in> set ss" using i pr(4) by (metis nth_mem)
  moreover have "slot_alloc_install st p obj = Some (set_kobject st p (Process (pr\<lparr>slots := Some (ss[i := obj])\<rparr>)), int i)"
    using Cons nz slot_alloc_eq [OF ss] pr i by (simp add: slot_alloc_install_def slot_install_def process_at_Some [THEN iffD2])
  ultimately show ?thesis using i pr by (auto simp: slots_of_Some)
qed

section \<open>Reading and writing memory objects\<close>

lemma copy_bytes_at:
  assumes "unat n < 2 ^ 32"
  shows "x - dst < n \<Longrightarrow> copy_bytes dm dst sm src n x = sm (src + (x - dst))" "\<not> x - dst < n \<Longrightarrow> copy_bytes dm dst sm src n x = dm x"
proof -
  have "(ucast (ucast n :: u32) :: u64) = n"
    using assms by (simp add: word_unat_eq_iff unsigned_ucast_eq unat_take_bit)
  then show "x - dst < n \<Longrightarrow> copy_bytes dm dst sm src n x = sm (src + (x - dst))" "\<not> x - dst < n \<Longrightarrow> copy_bytes dm dst sm src n x = dm x"
    by (simp_all add: copy_bytes_def)
qed

lemma check_vmo_eq:
  assumes "slots_of st (process_self st) = Some ss" "ucast slot < (64 :: u32)" "ss ! unat (ucast slot :: u32) = p" "p \<noteq> 0" "kobjects st p = Some (Vmo ob)"
    "o_type ob = VMO_DATA"
  shows "check_vmo st slot offset sz = Some (if unat offset + unat sz \<le> unat (o_size ob) then Some ob else None)"
proof -
  have "offset + sz < offset \<or> offset + sz > o_size ob \<longleftrightarrow> \<not> unat offset + unat sz \<le> unat (o_size ob)"
  proof (cases "unat offset + unat sz < 2 ^ 64")
    case True
    then show ?thesis by (simp add: word_less_nat_alt unat_add_64 not_le)
  next
    case False
    then have "unat (offset + sz) = unat offset + unat sz - 2 ^ 64"
      using unat_less_2p [of offset] unat_less_2p [of sz] by (simp add: unat_word_ariths mod_if)
    then show ?thesis using False unat_less_2p [of "o_size ob"] unat_less_2p [of sz] by (auto simp: word_less_nat_alt)
  qed
  then show ?thesis
    using assms slot_get_eq [OF assms(1), of "ucast slot"] by (simp add: check_vmo_def cast_to_def vmo_at_Some [THEN iffD2])
qed

lemma sys_vmo_write_read:
  assumes "slots_of st (process_self st) = Some ss" "ucast slot < (64 :: u32)" "ss ! unat (ucast slot :: u32) = p" "p \<noteq> 0" "kobjects st p = Some (Vmo ob)"
    "o_type ob = VMO_DATA" "unat len < 2 ^ 32"
  shows "if unat offset + unat len \<le> unat (o_size ob)
    then \<exists>st' user2. sys_vmo_write st user slot offset src len = Some (st', 0) \<and> sys_vmo_read st' user1 slot offset dst len = Some (user2, 0)
      \<and> (\<forall>x. user2 x = (if x - dst < len then user (src + (x - dst)) else user1 x))
      \<and> (\<forall>x. \<not> x - (o_start ob + offset) < len \<longrightarrow> bytes (kheap st') x = bytes (kheap st) x) \<and> kobjects st' = kobjects st
    else sys_vmo_write st user slot offset src len = Some (st, -1) \<and> sys_vmo_read st user1 slot offset dst len = Some (user1, -1)"
proof (cases "unat offset + unat len \<le> unat (o_size ob)")
  case True
  let ?a = "o_start ob + offset"
  let ?m = "copy_bytes (bytes (kheap st)) ?a user src len"
  let ?st = "st\<lparr>kheap := (kheap st)\<lparr>bytes := ?m\<rparr>\<rparr>"
  have "slots_of ?st (process_self ?st) = Some ss" using assms(1) by (simp add: slots_of_Some)
  then have "check_vmo ?st slot offset len = Some (Some ob)" using check_vmo_eq [of ?st ss slot p ob offset len] assms True by simp
  moreover have "check_vmo st slot offset len = Some (Some ob)" using check_vmo_eq [OF assms(1-6), of offset len] True by simp
  moreover have "copy_bytes user1 dst ?m ?a len x = (if x - dst < len then user (src + (x - dst)) else user1 x)" for x
    using copy_bytes_at [OF assms(7), of x dst user1 ?m ?a] copy_bytes_at(1) [OF assms(7), of "?a + (x - dst)" ?a] by simp
  moreover have "?m x = bytes (kheap st) x" if "\<not> x - ?a < len" for x using copy_bytes_at(2) [OF assms(7) that] .
  ultimately show ?thesis using True by (simp add: sys_vmo_write_def sys_vmo_read_def)
next
  case False
  then show ?thesis using check_vmo_eq [OF assms(1-6), of offset len] by (simp add: sys_vmo_write_def sys_vmo_read_def)
qed

section \<open>Mapping memory objects\<close>

lemma pt_inv_frame:
  assumes "pt_inv h V root T" "heap_ok h' V'" "V \<subseteq> V'" "bytes h' = bytes h"
  shows "pt_inv h' V' root T" "pt_leaf h' T = pt_leaf h T"
proof -
  have e: "entry h' = entry h" using assms(4) by (intro ext) (simp add: entry_def)
  show "pt_inv h' V' root T" using assms unfolding tree_inv_def e by blast
  show "pt_leaf h' T = pt_leaf h T" by (simp add: pt_leaf_def leaf_def e fun_eq_iff split: option.splits)
qed

text \<open>All regions of an address space exist.\<close>

definition regions_ok :: "kernel_t \<Rightarrow> vmspace_t \<Rightarrow> bool" where
  "regions_ok st vs \<longleftrightarrow> (\<forall>p \<in> set (vmr_list vs). p \<noteq> 0 \<and> regions st p \<noteq> None)"

lemma find_region_total: "\<forall>p \<in> set ps. R p \<noteq> None \<Longrightarrow> \<exists>q. find_region R c ps = Some q"
  by (induction ps) auto

lemma find_region_first:
  "\<lbrakk>\<forall>q \<in> set ps. \<exists>r. R q = Some r \<and> \<not> c r\<rbrakk> \<Longrightarrow> find_region R c (ps @ qs) = find_region R c qs"
  by (induction ps) auto

text \<open>The test for an overlap looks at the two ends of the new region only: it misses a region that lies inside.\<close>

lemma check_vmr_intersect_inside:
  assumes "\<forall>p \<in> set (vmr_list vs). \<exists>r. regions st p = Some r \<and> r_start vmr < r_start r \<and> r_start r + r_size r \<le> r_start vmr + r_size vmr - 1"
  shows "check_vmr_intersect st vs vmr = Some False"
proof -
  have "\<forall>p \<in> set (vmr_list vs). \<exists>r. regions st p = Some r \<and> \<not> region_hit (r_start vmr) (r_start vmr + r_size vmr - 1) r"
    using assms unfolding region_hit_def Let_def by (metis not_le)
  from find_region_first [OF this, of "[]"] show ?thesis by (simp add: check_vmr_intersect_def)
qed

lemma prot_flags_all: "prot_flags prot = 0xE"
  by (simp add: prot_flags_def or_eq_0_iff)

lemma PGROUNDUP_aligned: "PGROUNDUP va AND 0xFFF = 0"
proof -
  have "PGROUNDUP va AND 0xFFF = (va + 4096 - 1) AND (NOT 0xFFF AND 0xFFF)" by (simp only: PGROUNDUP_def and.assoc) simp
  then show ?thesis by simp
qed

lemma vmregion_alloc_cases:
  assumes "heap_ok (kheap st) V"
  obtains (none) "vmregion_alloc st vmr = Some (st, 0)"
    | (some) h p z where "vmregion_alloc st vmr = Some (st\<lparr>kheap := h, regions := (regions st)(p \<mapsto> vmr)\<rparr>, p)" "p \<noteq> 0" "(p, z) \<notin> V"
      "heap_ok h (insert (p, z) V)" "bytes h = bytes (kheap st)"
proof -
  have "0 < unat (48 :: u64)" "unat (48 :: u64) \<le> 2 ^ 32" by simp_all
  from assms this show thesis
  proof (cases rule: kh.heap_alloc_cases)
    case none
    then show ?thesis using that(1) by (simp add: vmregion_alloc_def)
  next
    case (some h p z)
    then show ?thesis using that(2) [of p h z] some heap_bytes_frame(1) [OF some(1)] by (simp add: vmregion_alloc_def)
  qed
qed

lemma vmspace_map_user:
  assumes vs: "kobjects st vsp = Some (Vmspace vs)" "vsp \<noteq> 0" "regions_ok st vs" and inv: "pt_inv (kheap st) V (pgtbl vs) T"
    and ob: "kobjects st vmo = Some (Vmo ob)" "o_type ob = VMO_DATA" "o_size ob AND 0xFFF = 0" "o_size ob \<noteq> 0"
    and len: "0 < len" and range: "unat (PGROUNDUP va) + unat (o_size ob) \<le> 2 ^ 38"
  shows "vmspace_map_range_user st vsp va len prot flags vmo = Some (st, False) \<or>
    (\<exists>st' V' T' k. vmspace_map_range_user st vsp va len prot flags vmo = Some (st', True) \<and> pt_inv (kheap st') V' (pgtbl vs) T'
      \<and> (k = unat (o_size ob) \<or> k < unat (o_size ob) \<and> alloc_page (kheap st') 1 = Some (kheap st', 0))
      \<and> (\<forall>x < MAXVA. pte_of (kheap st') (pgtbl vs) x =
           (if unat (PGROUNDUP va) \<le> unat x \<and> unat x < unat (PGROUNDUP va) + k
            then Some (PA2PTE (o_start ob + (PGROUNDDOWN x - PGROUNDUP va)) OR (PTE_R OR PTE_W OR PTE_X OR PTE_U) OR PTE_V)
            else pte_of (kheap st) (pgtbl vs) x)))"
proof -
  let ?len = "if len < PGSIZE then PGSIZE else len" and ?va = "PGROUNDUP va"
  let ?vmr = "\<lparr>r_start = ?va, r_size = ?len, r_perm = prot_flags prot OR PTE_U, r_vmo = vmo\<rparr>"
  have perm: "scast (ucast (prot_flags prot OR PTE_U) :: u32) = (PTE_R OR PTE_W OR PTE_X OR PTE_U :: u64)" by (simp add: prot_flags_all)
  from tree_invD(1) [OF inv] show ?thesis
  proof (cases rule: vmregion_alloc_cases [where vmr = ?vmr])
    case none
    then show ?thesis using vs(2) len by (simp add: vmspace_map_range_user_def arch_vmspace_map_range_def Let_def word_gt_0)
  next
    case (some h p z)
    let ?st = "st\<lparr>kheap := h, regions := (regions st)(p \<mapsto> ?vmr)\<rparr>"
    note inv1 = pt_inv_frame [OF inv some(4) _ some(5)]
    have inv2: "pt_inv h (insert (p, z) V) (pgtbl vs) T" using inv1(1) by blast
    obtain h' V' T' r k where m: "map_range_in_pgtbl h (pgtbl vs) ?va (o_start ob) (o_size ob) (ucast (prot_flags prot OR PTE_U)) = Some (h', r)"
        "pt_inv h' V' (pgtbl vs) T'" "r = 0 \<and> k = unat (o_size ob) \<or> r = -1 \<and> k < unat (o_size ob) \<and> alloc_page h' 1 = Some (h', 0)"
        "\<forall>x < MAXVA. pt_leaf h' T' x = (if unat ?va \<le> unat x \<and> unat x < unat ?va + k
           then PA2PTE (o_start ob + (PGROUNDDOWN x - ?va)) OR scast (ucast (prot_flags prot OR PTE_U) :: u32) OR PTE_V else pt_leaf h T x)"
      by (rule map_range_spec [OF inv2 PGROUNDUP_aligned ob(3,4) range])
    have "\<exists>hit. check_vmr_intersect ?st vs ?vmr = Some hit"
      using find_region_total [of "vmr_list vs" "regions ?st"] vs(3) by (auto simp: check_vmr_intersect_def regions_ok_def)
    then obtain hit where hit: "check_vmr_intersect ?st vs ?vmr = Some hit" by blast
    define st1 where "st1 = (if hit then ?st else set_kobject ?st vsp (Vmspace (vs\<lparr>vmr_list := p # vmr_list vs\<rparr>)))"
    have add: "add_vmr_to_vmspace ?st vsp p = Some (st1, \<not> hit)"
      using hit vs(1) by (simp add: add_vmr_to_vmspace_def vmspace_at_Some [THEN iffD2] st1_def)
    have ne: "vmo \<noteq> vsp" using vs(1) ob(1) by auto
    have st1: "vmo_at st1 vmo = Some ob" "\<exists>vs1. vmspace_at st1 vsp = Some vs1 \<and> pgtbl vs1 = pgtbl vs" "kheap st1 = h"
      using vs(1) ob(1) ne by (auto simp: st1_def vmo_at_Some vmspace_at_Some)
    then have fill: "fill_page_table st1 vsp ?vmr = Some (st1\<lparr>kheap := h'\<rparr>, r)" using m(1) by (auto simp: fill_page_table_def)
    have run: "vmspace_map_range_user st vsp va len prot flags vmo = Some (st1\<lparr>kheap := h'\<rparr>, True)"
      using some(1,2) add fill st1(1) ob(2) vs(2) len
      by (simp add: vmspace_map_range_user_def arch_vmspace_map_range_def Let_def word_gt_0)
    have "pte_of h' (pgtbl vs) x = (if unat ?va \<le> unat x \<and> unat x < unat ?va + k
          then Some (PA2PTE (o_start ob + (PGROUNDDOWN x - ?va)) OR (PTE_R OR PTE_W OR PTE_X OR PTE_U) OR PTE_V)
          else pte_of (kheap st) (pgtbl vs) x)" if "x < MAXVA" for x
      using m(4) that pte_of_leaf [OF m(2) that] pte_of_leaf [OF inv that] inv1(2) [OF subset_insertI] unfolding perm by simp
    then show ?thesis using run m(2,3)
      by (intro disjI2 exI [of _ "st1\<lparr>kheap := h'\<rparr>"] exI [of _ V'] exI [of _ T'] exI [of _ k]) auto
  qed
qed

section \<open>The properties\<close>

text \<open>C18: \<^verbatim>\<open>vmspace_map_range_user\<close> maps the pages of a memory object with data at the address rounded up to a page, as far as there are
  pages for the tables, and no other address, or changes nothing when the region cannot be allocated. The pages are readable, writable and
  executable whatever protection is asked for.\<close>

theorem vmspace_map_range_user_maps:
  assumes "kobjects st vsp = Some (Vmspace vs)" "vsp \<noteq> 0" "regions_ok st vs" "pt_inv (kheap st) V (pgtbl vs) T"
    and "kobjects st vmo = Some (Vmo ob)" "o_type ob = VMO_DATA" "o_size ob AND 0xFFF = 0" "o_size ob \<noteq> 0"
    and "0 < len" "unat (PGROUNDUP va) + unat (o_size ob) \<le> 2 ^ 38"
  shows "vmspace_map_range_user st vsp va len prot flags vmo = Some (st, False) \<or>
    (\<exists>st' V' T' k. vmspace_map_range_user st vsp va len prot flags vmo = Some (st', True) \<and> pt_inv (kheap st') V' (pgtbl vs) T'
      \<and> (k = unat (o_size ob) \<or> k < unat (o_size ob) \<and> alloc_page (kheap st') 1 = Some (kheap st', 0))
      \<and> (\<forall>x < MAXVA. pte_of (kheap st') (pgtbl vs) x =
           (if unat (PGROUNDUP va) \<le> unat x \<and> unat x < unat (PGROUNDUP va) + k
            then Some (PA2PTE (o_start ob + (PGROUNDDOWN x - PGROUNDUP va)) OR (PTE_R OR PTE_W OR PTE_X OR PTE_U) OR PTE_V)
            else pte_of (kheap st) (pgtbl vs) x)))"
  using assms by (rule vmspace_map_user)

definition example_vmo :: vmobject_t where
  "example_vmo = \<lparr>o_radix = None, o_start = 0x80300000, o_size = 0x1000, o_type = VMO_DATA\<rparr>"

definition example_kernel :: "kernel_heap \<Rightarrow> u64 \<Rightarrow> kernel_t" where
  "example_kernel h root = \<lparr>kheap = h, regions = Map.empty, kobjects = [0x100 \<mapsto> Vmspace \<lparr>vmr_list = [], pgtbl = root, user_current_heap = 0\<rparr>,
     0x200 \<mapsto> Vmo example_vmo, 0x300 \<mapsto> Process \<lparr>slots_size = 64, slots = Some ([0x300, 0x100, 0x200] @ replicate 61 0)\<rparr>], process_self = 0x300\<rparr>"

theorem vmspace_map_range_user_maps_witness:
  "\<exists>h root. pagetable_create four_page_heap = Some (h, root) \<and>
    (vmspace_map_range_user (example_kernel h root) 0x100 0x20000000 0x1000 1 0 0x200 = Some (example_kernel h root, False) \<or>
     (\<exists>st' (k :: nat). vmspace_map_range_user (example_kernel h root) 0x100 0x20000000 0x1000 1 0 0x200 = Some (st', True)
       \<and> (k = 0x1000 \<or> k < 0x1000 \<and> alloc_page (kheap st') 1 = Some (kheap st', 0))
       \<and> pte_of (kheap st') root 0x20000123 = (if 0x123 < k then Some (PA2PTE 0x80300000 OR 0x1E OR PTE_V) else pte_of h root 0x20000123)))"
proof -
  obtain h root k where h: "pagetable_create four_page_heap = Some (h, root)" "pt_inv h {(root, k)} root [[] \<mapsto> root]" by (rule four_page_table)
  let ?st = "example_kernel h root" and ?vs = "\<lparr>vmr_list = [], pgtbl = root, user_current_heap = 0\<rparr>"
  have va: "PGROUNDUP 0x20000000 = 0x20000000" "PGROUNDDOWN 0x20000123 = 0x20000000" by (simp_all add: PGROUNDUP_def PGROUNDDOWN_def)
  have 1: "kobjects ?st 0x100 = Some (Vmspace ?vs)" "(0x100 :: u64) \<noteq> 0" "regions_ok ?st ?vs" by (simp_all add: example_kernel_def regions_ok_def)
  have 2: "pt_inv (kheap ?st) {(root, k)} (pgtbl ?vs) [[] \<mapsto> root]" using h(2) by (simp add: example_kernel_def)
  have 3: "kobjects ?st 0x200 = Some (Vmo example_vmo)" "o_type example_vmo = VMO_DATA" "o_size example_vmo AND 0xFFF = 0" "o_size example_vmo \<noteq> 0"
    "(0 :: u64) < 0x1000" "unat (PGROUNDUP 0x20000000) + unat (o_size example_vmo) \<le> 2 ^ 38"
    by (simp_all add: example_kernel_def example_vmo_def va)
  have x: "(0x20000123 :: u64) < MAXVA" by simp
  show ?thesis
  proof (cases "vmspace_map_range_user ?st 0x100 0x20000000 0x1000 1 0 0x200 = Some (?st, False)")
    case True
    then show ?thesis using h(1) by blast
  next
    case False
    then obtain st' k where run: "vmspace_map_range_user ?st 0x100 0x20000000 0x1000 1 0 0x200 = Some (st', True)"
      and k: "k = unat (o_size example_vmo) \<or> k < unat (o_size example_vmo) \<and> alloc_page (kheap st') 1 = Some (kheap st', 0)"
      and pte: "\<forall>x < MAXVA. pte_of (kheap st') (pgtbl ?vs) x = (if unat (PGROUNDUP 0x20000000) \<le> unat x \<and> unat x < unat (PGROUNDUP 0x20000000) + k
        then Some (PA2PTE (o_start example_vmo + (PGROUNDDOWN x - PGROUNDUP 0x20000000)) OR (PTE_R OR PTE_W OR PTE_X OR PTE_U) OR PTE_V)
        else pte_of (kheap ?st) (pgtbl ?vs) x)"
      using vmspace_map_range_user_maps [OF 1 2 3, of 1 0] by blast
    have "pte_of (kheap st') root 0x20000123 = (if 0x123 < k then Some (PA2PTE 0x80300000 OR 0x1E OR PTE_V) else pte_of h root 0x20000123)"
      using pte [rule_format, OF x] unfolding va by (simp add: example_vmo_def) (simp add: example_kernel_def)
    moreover have "k = 0x1000 \<or> k < 0x1000 \<and> alloc_page (kheap st') 1 = Some (kheap st', 0)" using k by (simp add: example_vmo_def)
    ultimately show ?thesis using h(1) run by blast
  qed
qed

text \<open>C40: \<^verbatim>\<open>del_vmr_from_vmspace\<close> frees a region of an address space but leaves it on its list, so that the next search that
  reaches it uses freed memory.\<close>

theorem del_vmr_dangling:
  assumes "kobjects st vsp = Some (Vmspace vs)" "vmr_list vs = ps @ p # qs" "p \<notin> set ps" "heap_ok (kheap st) V" "(p, z) \<in> V"
    and "\<forall>q \<in> set ps. \<exists>r. regions st q = Some r \<and> \<not> (addr \<ge> r_start r \<and> addr < r_start r + r_size r)"
  shows "\<exists>st'. del_vmr_from_vmspace st vsp p = Some st' \<and> heap_ok (kheap st') (V - {(p, z)}) \<and> find_vmr_for_va st' vsp addr = None"
proof -
  obtain h where h: "free (kheap st) p = Some h" "heap_ok h (V - {(p, z)})" using kh.dealloc_ok [OF assms(4,5)] by blast
  let ?st = "st\<lparr>kheap := h, regions := (regions st)(p := None)\<rparr>"
  have "is_vmr_in_vmspace (regions st) (ps @ p # qs) p = Some True" using assms(3,6) by (induction ps) auto
  then have "del_vmr_from_vmspace st vsp p = Some ?st"
    using h(1) assms(1,2) by (simp add: del_vmr_from_vmspace_def vmspace_at_Some [THEN iffD2] vmregion_free_def)
  moreover have "\<forall>q \<in> set ps. \<exists>r. regions ?st q = Some r \<and> \<not> (addr \<ge> r_start r \<and> addr < r_start r + r_size r)"
    using assms(3,6) by auto
  from find_region_first [OF this, of "p # qs"] have "find_vmr_for_va ?st vsp addr = None"
    using assms(1,2) by (simp add: find_vmr_for_va_def vmspace_at_Some [THEN iffD2] fun_upd_def)
  ultimately show ?thesis using h(2) by auto
qed

definition one_region :: kernel_t where
  "one_region = \<lparr>kheap = small_heap, regions = [0x80200000 \<mapsto> \<lparr>r_start = 0x20000000, r_size = 0x1000, r_perm = 0x1E, r_vmo = 0\<rparr>],
     kobjects = [0x100 \<mapsto> Vmspace \<lparr>vmr_list = [0x80200000], pgtbl = 0, user_current_heap = 0\<rparr>], process_self = 0\<rparr>"

theorem del_vmr_dangling_witness:
  "find_vmr_for_va one_region 0x100 0x20000010 = Some 0x80200000
   \<and> (\<exists>st'. del_vmr_from_vmspace one_region 0x100 0x80200000 = Some st' \<and> find_vmr_for_va st' 0x100 0x20000010 = None)"
proof -
  have "find_vmr_for_va one_region 0x100 0x20000010 = Some 0x80200000" by (simp add: find_vmr_for_va_def one_region_def vmspace_at_def)
  moreover have "heap_ok (kheap one_region) {(0x80200000, 16384)}" using small_heap_ok by (simp add: one_region_def)
  ultimately show ?thesis
    using del_vmr_dangling [of one_region "0x100" "\<lparr>vmr_list = [0x80200000], pgtbl = 0, user_current_heap = 0\<rparr>" "[]" "0x80200000" "[]" "{(0x80200000, 16384)}" 16384 "0x20000010"]
    by (auto simp: one_region_def)
qed

text \<open>C19: What \<^verbatim>\<open>sys_vmo_write\<close> stores in a memory object, \<^verbatim>\<open>sys_vmo_read\<close> of the same range returns, and no byte outside the two ranges
  changes. A range that leaves the object is refused by both, also when its end wraps around.\<close>

theorem vmo_write_read:
  assumes "slots_of st (process_self st) = Some ss" "ucast slot < (64 :: u32)" "ss ! unat (ucast slot :: u32) = p" "p \<noteq> 0" "kobjects st p = Some (Vmo ob)"
    "o_type ob = VMO_DATA" "unat len < 2 ^ 32"
  shows "if unat offset + unat len \<le> unat (o_size ob)
    then \<exists>st' user2. sys_vmo_write st user slot offset src len = Some (st', 0) \<and> sys_vmo_read st' user1 slot offset dst len = Some (user2, 0)
      \<and> (\<forall>x. user2 x = (if x - dst < len then user (src + (x - dst)) else user1 x))
      \<and> (\<forall>x. \<not> x - (o_start ob + offset) < len \<longrightarrow> bytes (kheap st') x = bytes (kheap st) x) \<and> kobjects st' = kobjects st
    else sys_vmo_write st user slot offset src len = Some (st, -1) \<and> sys_vmo_read st user1 slot offset dst len = Some (user1, -1)"
  using assms by (rule sys_vmo_write_read)

lemma example_slots: "slots_of (example_kernel h root) 0x300 = Some ([0x300, 0x100, 0x200] @ replicate 61 0)"
  by (simp add: slots_of_Some example_kernel_def)

theorem vmo_write_read_witness:
  "(\<exists>st' user. sys_vmo_write (example_kernel small_heap 0) (\<lambda>a. ucast a) 2 0xFF0 7 16 = Some (st', 0)
      \<and> sys_vmo_read st' (\<lambda>_. 0) 2 0xFF0 0x5000 16 = Some (user, 0) \<and> user 0x5003 = 10)
   \<and> sys_vmo_write (example_kernel small_heap 0) (\<lambda>a. ucast a) 2 0xFFFFFFFFFFFFFFF0 7 32 = Some (example_kernel small_heap 0, -1)"
proof -
  let ?st = "example_kernel small_heap 0"
  have self: "process_self ?st = 0x300" by (simp add: example_kernel_def)
  have pre: "slots_of ?st (process_self ?st) = Some ([0x300, 0x100, 0x200] @ replicate 61 0)" "ucast (2 :: u64) < (64 :: u32)"
    "([0x300, 0x100, 0x200] @ replicate 61 0) ! unat (ucast (2 :: u64) :: u32) = (0x200 :: u64)" "(0x200 :: u64) \<noteq> 0"
    "kobjects ?st 0x200 = Some (Vmo example_vmo)" "o_type example_vmo = VMO_DATA"
    unfolding self by (simp_all add: example_slots) (simp_all add: example_kernel_def example_vmo_def)
  show ?thesis
    using vmo_write_read [OF pre, of 16 "0xFF0" "\<lambda>a. ucast a" 7 "\<lambda>_. 0" "0x5000"]
      vmo_write_read [OF pre, of 32 "0xFFFFFFFFFFFFFFF0" "\<lambda>a. ucast a" 7 "\<lambda>_. 0" "0x5000"]
    by (auto simp: example_vmo_def)
qed

text \<open>C39: \<^verbatim>\<open>slot_alloc_install\<close> puts an object into the lowest free slot of a process, where \<^verbatim>\<open>slot_get\<close> finds it, and leaves the other slots
  and objects as they are; it returns -1 and changes nothing exactly when no slot is free.\<close>

theorem slot_alloc_install_get:
  assumes "slots_of st p = Some ss" "p \<noteq> 0" "obj \<noteq> 0"
  shows "if 0 \<in> set ss
    then \<exists>i st'. slot_alloc_install st p obj = Some (st', int i) \<and> i < 64 \<and> ss ! i = 0 \<and> (\<forall>j < i. ss ! j \<noteq> 0)
      \<and> (\<forall>j. slot_get st' p j = (if unat j = i then Some obj else slot_get st p j)) \<and> (\<forall>q. q \<noteq> p \<longrightarrow> kobjects st' q = kobjects st q)
      \<and> kheap st' = kheap st \<and> regions st' = regions st
    else slot_alloc_install st p obj = Some (st, -1)"
proof (cases "0 \<in> set ss")
  case True
  then obtain i st' where i: "slot_alloc_install st p obj = Some (st', int i)" "i < 64" "ss ! i = 0" "\<forall>j < i. ss ! j \<noteq> 0"
      "slots_of st' p = Some (ss[i := obj])" "\<forall>q. q \<noteq> p \<longrightarrow> kobjects st' q = kobjects st q" "kheap st' = kheap st" "regions st' = regions st"
    using slot_alloc_install_ok [OF assms] by auto
  have len: "length ss = 64" using assms(1) by (auto simp: slots_of_Some)
  have "slot_get st' p j = (if unat j = i then Some obj else slot_get st p j)" for j
    using slot_get_eq [OF i(5), of j] slot_get_eq [OF assms(1), of j] i(2) len by (auto simp: word_less_nat_alt)
  then show ?thesis using True i by auto
next
  case False
  then show ?thesis using slot_alloc_install_ok [OF assms] by simp
qed

theorem slot_alloc_install_get_witness:
  "\<exists>st'. slot_alloc_install (example_kernel small_heap 0) 0x300 0x200 = Some (st', 3) \<and> slot_get st' 0x300 3 = Some 0x200 \<and> slot_get st' 0x300 1 = Some 0x100"
proof -
  let ?ss = "[0x300, 0x100, 0x200] @ replicate 61 0 :: u64 list"
  obtain i st' where i: "slot_alloc_install (example_kernel small_heap 0) 0x300 0x200 = Some (st', int i)" "?ss ! i = 0" "\<forall>j < i. ?ss ! j \<noteq> 0"
    "\<forall>j. slot_get st' 0x300 j = (if unat j = i then Some 0x200 else slot_get (example_kernel small_heap 0) 0x300 j)"
    using slot_alloc_install_get [OF example_slots, of "0x200" small_heap 0] by auto
  have "?ss ! 0 \<noteq> 0" "?ss ! 1 \<noteq> 0" "?ss ! 2 \<noteq> 0" "?ss ! 3 = 0" by simp_all
  then have "i \<noteq> 0" "i \<noteq> 1" "i \<noteq> 2" "\<not> 3 < i" using i(2,3) by metis+
  then have "i = 3" by linarith
  then show ?thesis using i slot_get_eq [OF example_slots, of small_heap 0 1] by (intro exI [of _ st']) simp
qed

end
