(* ===== verification/Spec2Isabelle.thy ===== *)
theory Spec2Isabelle
  imports Kalloc Vfs_Properties Hmap Sync Page_Table Radix Futex Class Vmspace
begin

text \<open>
  \<^bold>\<open>A verification of the kernel of Ginkgo-OS\<close>

  Ginkgo-OS is a small operating system for 64-bit RISC-V, written in C. Its kernel runs on one processor and is not preempted: another
  thread runs only when the current one calls \<^verbatim>\<open>schedule\<close>, so the code between two such calls is one step.

  \<^bold>\<open>Conventions.\<close> A C function is a HOL function of the same name. State that the code changes through pointers is passed in and
  returned. The result is an \<open>option\<close> value where the C code can reach an assertion that fails, a panic, an access outside
  an array, a dereference of a null or dangling pointer or a shift by too many bits: all these are \<open>None\<close>. Error codes
  and null pointers that the code returns are ordinary results. Integers keep their width as words where the code can
  overflow. Loops that follow a list or a counter are recursive functions; loops that may not end are partial functions,
  and the properties state that they return. No fuel is used but the depth of trees and the lengths of lists.

  \<^bold>\<open>Basics.\<close>
  \<^item> \<^verbatim>\<open>Kernel_Prelude\<close>: the types of \<^verbatim>\<open>include/types.h\<close>, array access, lemmas on words and options.
  \<^item> \<^verbatim>\<open>Bit_Search\<close>: \<^verbatim>\<open>ffs\<close>, \<^verbatim>\<open>fls\<close>, powers of two and alignment (\<^verbatim>\<open>include/ffs.h\<close>, \<^verbatim>\<open>fls.h\<close>,
    \<^verbatim>\<open>log2.h\<close>), equal to the mathematical functions.
  \<^item> \<^verbatim>\<open>Libc_String\<close>, \<^verbatim>\<open>Strtoul\<close>: \<^verbatim>\<open>lib/libc/string.c\<close>, \<^verbatim>\<open>ctype.c\<close> and \<^verbatim>\<open>strtoul.c\<close> over the bytes of
    memory. The value of digits is specified apart from the character classes.
  \<^item> \<^verbatim>\<open>Lsort\<close>: \<^verbatim>\<open>lib/lsort.c\<close> is a stable sort. \<^verbatim>\<open>Hmap\<close>: \<^verbatim>\<open>lib/hmap.c\<close> implements an association list; the sort of
    its entries is the interpretation \<open>hmap_order\<close> of the interface of comparisons.

  \<^bold>\<open>Memory.\<close>
  \<^item> \<^verbatim>\<open>Block_Tiling\<close> is the abstract page allocator: a set of aligned blocks that is split and merged. \<^verbatim>\<open>Buddy\<close> is
    \<^verbatim>\<open>mm/buddy.c\<close> and \<^verbatim>\<open>Buddy_Invariant\<close> shows that it implements the tiling and never faults up to the sizes its free
    lists allow. It is an instance (\<open>ba\<close>) of the interface \<^verbatim>\<open>Page_Allocator\<close>.
  \<^item> \<^verbatim>\<open>Mem_Pool\<close> and \<^verbatim>\<open>Mem_Pool_Invariant\<close>: the small-object allocator \<^verbatim>\<open>mm/mem_pool.c\<close>, which takes its pages from a page
    allocator. \<^verbatim>\<open>Kalloc\<close>: \<^verbatim>\<open>mm/kalloc.c\<close>, the instance \<open>kh\<close> of the interface \<^verbatim>\<open>Heap_Allocator\<close>. The record
    \<open>kernel_heap\<close> holds the allocators and the bytes of memory, and \<open>heap_ok\<close> relates it to the set of live objects.
  \<^item> \<^verbatim>\<open>Table_Tree\<close>: trees of pages with 512 words. Its interface has two instances. \<open>pt\<close> is \<^verbatim>\<open>Page_Table\<close>, the three
    levels of \<^verbatim>\<open>arch/vm.c\<close>: mapping and unmapping ranges, and the kernel page table. \<open>rx\<close> is \<^verbatim>\<open>Radix\<close>, the eight
    levels of \<^verbatim>\<open>lib/radix.c\<close>.
  \<^item> \<^verbatim>\<open>Class\<close>: the class system \<^verbatim>\<open>core/class/class.c\<close> with objects in the kernel heap and checked casts.
  \<^item> \<^verbatim>\<open>Vmspace\<close>: the slots of processes (\<^verbatim>\<open>core/process.c\<close>), the address spaces of \<^verbatim>\<open>core/vmspace.c\<close> over the page tables and the memory
    objects of \<^verbatim>\<open>core/vmo.c\<close>.

  \<^bold>\<open>Threads.\<close>
  \<^item> \<^verbatim>\<open>Thread\<close>: threads and the scheduler (\<^verbatim>\<open>core/thread.c\<close>, \<^verbatim>\<open>core/sched.c\<close>): runs of the kernel as a step relation, an
    invariant of its operations, and fairness of \<^verbatim>\<open>schedule\<close>. The operations include the direct switches of \<^verbatim>\<open>schedule_to\<close> and the suspension of
    another thread, except one that was preempted, which the code leaves in the queue.
  \<^item> \<^verbatim>\<open>Sync\<close>: \<^verbatim>\<open>core/mutex.c\<close> and \<^verbatim>\<open>core/semaphore.c\<close> in every interleaving of threads; both are instances of the
    interface \<open>wait_lock\<close>. \<^verbatim>\<open>Futex\<close>: \<^verbatim>\<open>core/futex.c\<close> with the hash of \<^verbatim>\<open>include/jhash.h\<close>.

  \<^bold>\<open>Files.\<close>
  \<^item> \<^verbatim>\<open>Block_Device\<close>, \<^verbatim>\<open>Block_Transfer\<close>: \<^verbatim>\<open>driver/block.c\<close> reads and writes ranges of bytes of a disk; the driver
    \<^verbatim>\<open>driver/virtio/block.c\<close> is an instance (\<open>ram\<close>) of the interface of block drivers.
  \<^item> \<^verbatim>\<open>Cpio\<close>, \<^verbatim>\<open>Cpio_Archive\<close>, \<^verbatim>\<open>Cpio_Files\<close>: the file system \<^verbatim>\<open>fs/cpio/cpio.c\<close> on archives. What a directory contains is
    specified by the text of the paths.
  \<^item> \<^verbatim>\<open>Vfs_Types\<close>, \<^verbatim>\<open>Vfs_Node\<close>, \<^verbatim>\<open>Vfs_Mount\<close>, \<^verbatim>\<open>Vfs_File\<close>: \<^verbatim>\<open>fs/vfs.c\<close>. \<^verbatim>\<open>Filesystem_Interface\<close> is the contract with a file
    system, which the cpio file system fulfils (\<open>cpio_fs\<close>). \<^verbatim>\<open>Vfs_Paths\<close>, \<^verbatim>\<open>Vfs_Cache\<close>, \<^verbatim>\<open>Vfs_Resolve\<close>, \<^verbatim>\<open>Vfs_Open\<close> and
    \<^verbatim>\<open>Vfs_Properties\<close> show that path resolution, opening and closing take and give back exactly the references they
    should, and that a file of a mounted archive is read correctly through all layers.

  \<^bold>\<open>How the parts interact.\<close> The page allocator serves the small-object allocator, the heap, the page tables and the radix trees. The
  class system allocates its objects from the heap. Mutexes, semaphores and futexes suspend and resume threads through the
  scheduler. The virtual file system calls a file system, that reads a block device, that calls a driver.

  \<^bold>\<open>Bounds.\<close> The page allocator is used below \<open>2 ^ 21\<close> pages, because its free lists end at order 20 (beyond that the code indexes them out
  of bounds). Requests to \<^verbatim>\<open>malloc\<close> are at most \<open>2 ^ 32\<close> and to \<^verbatim>\<open>calloc\<close> less than \<open>2 ^ 31\<close> bytes, since \<^verbatim>\<open>memset\<close> counts with an
  \<^verbatim>\<open>int\<close>. A bucket of the futexes counts its waiters in 32 bits.

  \<^bold>\<open>Not modelled.\<close>
  \<^item> The boot code, exception entry and context switch (\<^verbatim>\<open>arch/*.S\<close>, \<^verbatim>\<open>start.c\<close>, \<^verbatim>\<open>exception.c\<close>) and the drivers of timers,
    interrupt controller, serial port and graphics are assembly or accesses to device registers: their meaning is that of the
    hardware.
  \<^item> \<^verbatim>\<open>driver/virtio/virtio.c\<close> shares its rings with the device, which the model of the block driver replaces by the effect of a
    request on the disk.
  \<^item> Starting user programs and message passing (the end of \<^verbatim>\<open>core/process.c\<close>, \<^verbatim>\<open>core/ipc\<close>) write registers of other threads, which
    the model of threads does not have. Timers with their red-black tree and wait queues (\<^verbatim>\<open>core/timer.c\<close>, \<^verbatim>\<open>lib/rbtree.c\<close>,
    \<^verbatim>\<open>core/waitqueue.c\<close>) are not covered.
  \<^item> The allocators keep their headers and free lists apart from the bytes of memory. Requests to the heap in \<^verbatim>\<open>lib/hmap.c\<close>,
    \<^verbatim>\<open>driver/block.c\<close> and \<^verbatim>\<open>fs/vfs.c\<close> succeed or fail as a parameter says; where the code does not test the result (the request header of
    \<^verbatim>\<open>driver/virtio/block.c\<close>, a new thread) they succeed. The memory of user programs is separate from that of the kernel.
  \<^item> Printing and logging have no effect on the state of the kernel. The programs and libraries below \<^verbatim>\<open>user-test\<close> (a C library, a
    mathematical library, an allocator and a renderer, most of them imported) and the build scripts run outside the kernel.
\<close>

end
